(* ===== verification/Prelude.thy ===== *)
theory Prelude
  imports Main "HOL-Library.Word" "HOL-Library.Signed_Division" "HOL-Library.Monad_Syntax"
begin

text \<open>
  What the components of the gatOS development share.

  The kernel is C without an operating system below it, so three things have to be explicit in
  the model: undefined behaviour (a null or wild pointer, an array index out of range, a read of
  a variable nobody wrote), loops that never end, and context switches in the middle of a
  function (\<open>_yield\<close>).  The prelude gives the two result types that carry them:

  \<^item> \<open>('s, 'a) eprog\<close>: code that runs to its end without a context switch; it returns a value
    and the new state, or a \<open>fault\<close>;
  \<^item> \<open>('s, 'a) kprog\<close>: kernel code that may give up the processor; a run is a resumption
    (\<open>res\<close>): it returns, it faults, or it yields with the state the scheduler left and the rest
    of the function, which continues from whatever state it finds when it is scheduled again.

  It also holds the linear search every table of the kernel uses (\<open>scan\<close>) and its lemmas.
\<close>

section \<open>Types and faults\<close>

text \<open>Addresses are mathematical integers; 0 is the C null pointer.\<close>

type_synonym addr = int

abbreviation (input) NULL :: addr where
  "NULL \<equiv> 0"

datatype fault =
    NullDeref       \<comment> \<open>a read or write through an invalid pointer\<close>
  | OutOfBounds     \<comment> \<open>an array index outside the array\<close>
  | Uninitialised   \<comment> \<open>the value of a variable that was never assigned\<close>
  | DivByZero       \<comment> \<open>a division by zero\<close>
  | Diverges        \<comment> \<open>a loop that never ends\<close>

section \<open>Code without context switches\<close>

type_synonym ('s, 'a) eprog = "'s \<Rightarrow> fault + ('a \<times> 's)"

definition ereturn :: "'a \<Rightarrow> ('s, 'a) eprog" where
  "ereturn x s = Inr (x, s)"

definition efail :: "fault \<Rightarrow> ('s, 'a) eprog" where
  "efail e s = Inl e"

definition ebind :: "('s, 'a) eprog \<Rightarrow> ('a \<Rightarrow> ('s, 'b) eprog) \<Rightarrow> ('s, 'b) eprog" where
  "ebind m f s = (case m s of Inl e \<Rightarrow> Inl e | Inr (x, s') \<Rightarrow> f x s')"

lemma ereturn_apply [simp]: "ereturn x s = Inr (x, s)"
  by (simp add: ereturn_def)

lemma efail_apply [simp]: "efail e s = Inl e"
  by (simp add: efail_def)

lemma ebind_Inr [simp]: "m s = Inr (x, s') \<Longrightarrow> ebind m f s = f x s'"
  by (simp add: ebind_def)

lemma ebind_Inl [simp]: "m s = Inl e \<Longrightarrow> ebind m f s = Inl e"
  by (simp add: ebind_def)

lemma ebind_eq_Inr:
  "ebind m f s = Inr r \<longleftrightarrow> (\<exists>x s'. m s = Inr (x, s') \<and> f x s' = Inr r)"
  by (auto simp: ebind_def split: sum.splits)

lemma ebind_assoc: "ebind (ebind m f) g = ebind m (\<lambda>x. ebind (f x) g)"
  by (rule ext) (auto simp: ebind_def split: sum.splits)

section \<open>Code with context switches: resumptions\<close>

datatype ('s, 'a) res =
    Ret 'a 's
  | Undef fault
  | Yield 's "'s \<Rightarrow> ('s, 'a) res"

type_synonym ('s, 'a) kprog = "'s \<Rightarrow> ('s, 'a) res"

primrec bindr :: "('s, 'a) res \<Rightarrow> ('a \<Rightarrow> ('s, 'b) kprog) \<Rightarrow> ('s, 'b) res" where
  "bindr (Ret x s) f = f x s"
| "bindr (Undef e) f = Undef e"
| "bindr (Yield s k) f = Yield s (\<lambda>s'. bindr (k s') f)"

definition kreturn :: "'a \<Rightarrow> ('s, 'a) kprog" where
  "kreturn x s = Ret x s"

definition kbind :: "('s, 'a) kprog \<Rightarrow> ('a \<Rightarrow> ('s, 'b) kprog) \<Rightarrow> ('s, 'b) kprog" where
  "kbind m f s = bindr (m s) f"

definition kget :: "('s \<Rightarrow> 'a) \<Rightarrow> ('s, 'a) kprog" where
  "kget f s = Ret (f s) s"

definition kmodify :: "('s \<Rightarrow> 's) \<Rightarrow> ('s, unit) kprog" where
  "kmodify f s = Ret () (f s)"

text \<open>A call of a function that never switches context.\<close>

definition kcall :: "('s, 'a) eprog \<Rightarrow> ('s, 'a) kprog" where
  "kcall m s = (case m s of Inl e \<Rightarrow> Undef e | Inr (x, s') \<Rightarrow> Ret x s')"

lemma kreturn_apply [simp]: "kreturn x s = Ret x s"
  by (simp add: kreturn_def)

lemma kget_apply [simp]: "kget f s = Ret (f s) s"
  by (simp add: kget_def)

lemma kmodify_apply [simp]: "kmodify f s = Ret () (f s)"
  by (simp add: kmodify_def)

lemma kbind_Ret [simp]: "m s = Ret x s' \<Longrightarrow> kbind m f s = f x s'"
  by (simp add: kbind_def)

lemma kbind_Undef [simp]: "m s = Undef e \<Longrightarrow> kbind m f s = Undef e"
  by (simp add: kbind_def)

lemma kbind_Yield [simp]: "m s = Yield t k \<Longrightarrow> kbind m f s = Yield t (\<lambda>s'. bindr (k s') f)"
  by (simp add: kbind_def)

lemma kcall_Inr [simp]: "m s = Inr (x, s') \<Longrightarrow> kcall m s = Ret x s'"
  by (simp add: kcall_def)

lemma kcall_Inl [simp]: "m s = Inl e \<Longrightarrow> kcall m s = Undef e"
  by (simp add: kcall_def)

text \<open>The resumptions form a monad.\<close>

lemma bindr_Ret_right: "bindr m Ret = m"
  by (induction m) simp_all

lemma bindr_assoc: "bindr (bindr m f) g = bindr m (\<lambda>x s. bindr (f x s) g)"
  by (induction m) simp_all

lemma kbind_assoc: "kbind (kbind m f) g = kbind m (\<lambda>x. kbind (f x) g)"
  by (rule ext) (simp add: kbind_def bindr_assoc kbind_def [abs_def])

lemma kbind_kreturn_right: "kbind m kreturn = m"
proof
  fix s
  have "kreturn = (Ret :: 'b \<Rightarrow> 'a \<Rightarrow> ('a, 'b) res)"
    by (intro ext) simp
  then show "kbind m kreturn s = m s"
    by (simp add: kbind_def bindr_Ret_right)
qed

section \<open>The linear search of the kernel's tables\<close>

text \<open>
  \<open>for (i = 0; i < n; i++) if (P(i)) return i;\<close> followed by the not-found return, which is
  \<open>None\<close> here.
\<close>

definition scan :: "nat \<Rightarrow> (nat \<Rightarrow> bool) \<Rightarrow> nat option" where
  "scan n P = find P [0..<n]"

lemma scan_Some_iff: "scan n P = Some i \<longleftrightarrow> i < n \<and> P i \<and> (\<forall>j<i. \<not> P j)"
proof
  assume "scan n P = Some i"
  then show "i < n \<and> P i \<and> (\<forall>j<i. \<not> P j)"
    by (auto simp: scan_def find_Some_iff)
next
  assume *: "i < n \<and> P i \<and> (\<forall>j<i. \<not> P j)"
  then have "find P [0..<n] = Some ([0..<n] ! i)"
    by (subst find_Some_iff) (auto intro!: exI [of _ i])
  with * show "scan n P = Some i"
    by (simp add: scan_def)
qed

lemma scan_None_iff: "scan n P = None \<longleftrightarrow> (\<forall>i<n. \<not> P i)"
  by (auto simp: scan_def find_None_iff)

lemma scan_SomeD:
  assumes "scan n P = Some i"
  shows "i < n" and "P i" and "j < i \<Longrightarrow> \<not> P j"
  using assms by (auto simp: scan_Some_iff)

lemma scan_exists: "i < n \<Longrightarrow> P i \<Longrightarrow> \<exists>j. scan n P = Some j"
  by (metis not_Some_eq scan_None_iff)

lemma scan_cong: "(\<And>i. i < n \<Longrightarrow> P i = Q i) \<Longrightarrow> scan n P = scan n Q"
  unfolding scan_def by (rule find_cong) auto

section \<open>Lists\<close>

lemma nth_list_update_if:
  "xs[i := v] ! j = (if i = j \<and> i < length xs then v else xs ! j)"
  by (metis linorder_not_less list_update_beyond nth_list_update)

lemma set_list_update_subset: "x \<in> set (xs[i := v]) \<Longrightarrow> x = v \<or> x \<in> set xs"
  using set_update_subset_insert by fastforce

text \<open>How many entries of a list differ from a mark: the occupied places of a table.\<close>

abbreviation used_count :: "'a \<Rightarrow> 'a list \<Rightarrow> nat" where
  "used_count m xs \<equiv> length (filter (\<lambda>x. x \<noteq> m) xs)"

lemma length_filter_update:
  assumes "i < length xs"
  shows "length (filter P (xs[i := v])) + (if P (xs ! i) then 1 else 0)
       = length (filter P xs) + (if P v then 1 else 0)"
proof -
  have xs: "xs = take i xs @ xs ! i # drop (Suc i) xs"
    using assms by (simp add: id_take_nth_drop)
  have ys: "xs[i := v] = take i xs @ v # drop (Suc i) xs"
    using assms by (simp add: upd_conv_take_nth_drop)
  show ?thesis
    unfolding ys by (subst (3) xs) (simp del: append_take_drop_id)
qed

lemma used_count_fill:
  "i < length xs \<Longrightarrow> xs ! i = m \<Longrightarrow> v \<noteq> m \<Longrightarrow> used_count m (xs[i := v]) = Suc (used_count m xs)"
  using length_filter_update [of i xs "\<lambda>x. x \<noteq> m" v] by simp

lemma used_count_clear:
  "i < length xs \<Longrightarrow> xs ! i \<noteq> m \<Longrightarrow> Suc (used_count m (xs[i := m])) = used_count m xs"
  using length_filter_update [of i xs "\<lambda>x. x \<noteq> m" m] by simp

lemma used_count_pos_iff: "0 < used_count m xs \<longleftrightarrow> (\<exists>i<length xs. xs ! i \<noteq> m)"
  by (auto simp: filter_empty_conv in_set_conv_nth) (metis nth_mem)

lemma used_count_less_iff: "used_count m xs < length xs \<longleftrightarrow> (\<exists>i<length xs. xs ! i = m)"
  by (metis (mono_tags, lifting) in_set_conv_nth length_filter_less length_filter_le
      filter_True order_less_le order_less_irrefl)

end
