(* ===== verification/Strings.thy ===== *)
theory Strings
  imports Prelude "HOL-Library.Char_ord"
begin

text \<open>
  The string and number routines of Kernel/stdio.c, Kernel/naiveConsole.c and Kernel/lib.c.  A C
  string is the list of its characters before the terminating zero; \<open>char\<close> is signed.  Output
  routines return the characters they pass to \<open>putchar\<close>, in order.

  The lemmas show that \<open>strcmp\<close> is a linear order, that \<open>strcmpN\<close> is \<open>strcmp\<close> on prefixes, that the
  number conversions print the number they are given in the base they are given, that \<open>printFF\<close>
  prints what its format says, and that \<open>memcpy\<close> copies.
\<close>

section \<open>strcmp and strcmpN\<close>

definition code :: "char \<Rightarrow> int" where
  "code c = int (of_char c)"

definition schar :: "char \<Rightarrow> int" where
  "schar c = (if code c < 128 then code c else code c - 256)"

fun strcmp :: "string \<Rightarrow> string \<Rightarrow> int" where
  "strcmp [] [] = 0"
| "strcmp [] (b # bs) = -1"
| "strcmp (a # as) [] = 1"
| "strcmp (a # as) (b # bs) =
     (if schar a - schar b > 0 then 1
      else if schar a - schar b < 0 then -1
      else strcmp as bs)"

text \<open>\<open>number\<close> counts down; a negative one never reaches 0 before a string ends.\<close>

fun strcmpN :: "string \<Rightarrow> string \<Rightarrow> int \<Rightarrow> int" where
  "strcmpN (a # as) (b # bs) number =
     (if number = 0 then 0
      else if schar a - schar b > 0 then 1
      else if schar a - schar b < 0 then -1
      else strcmpN as bs (number - 1))"
| "strcmpN as bs number =
     (if number = 0 then 0
      else if as = [] \<and> bs = [] then 0
      else if as = [] then -1
      else 1)"

text \<open>\<open>strcpy\<close> into a buffer of which \<open>to\<close> is the room: the result is what it holds and the length.\<close>

fun strcpy_loop :: "nat \<Rightarrow> char list \<Rightarrow> string \<Rightarrow> fault + (char list \<times> nat)" where
  "strcpy_loop i to [] = (if i < length to then Inr (to[i := CHR 0x00], i) else Inl OutOfBounds)"
| "strcpy_loop i to (c # from) =
     (if i < length to then strcpy_loop (i + 1) (to[i := c]) from else Inl OutOfBounds)"

definition strcpy :: "char list \<Rightarrow> string \<Rightarrow> fault + (char list \<times> nat)" where
  "strcpy to from = strcpy_loop 0 to from"

lemma code_bounds: "0 \<le> code c" "code c < 256"
  using nat_of_char_less_256 [of c] by (simp_all add: code_def)

lemma code_inject [simp]: "code a = code b \<longleftrightarrow> a = b"
  by (simp add: code_def)

lemma schar_inject [simp]: "schar a = schar b \<longleftrightarrow> a = b"
  using code_bounds [of a] code_bounds [of b] by (auto simp: schar_def split: if_splits)

lemma strcmp_zero_iff: "strcmp s t = 0 \<longleftrightarrow> s = t"
proof (induction s t rule: strcmp.induct)
  case (4 a as b bs)
  have "schar a - schar b > 0 \<or> schar a - schar b < 0 \<or> a = b" using schar_inject [of a b] by linarith
  with 4 show ?case by auto
qed auto

lemma strcmp_sym: "strcmp t s = - strcmp s t"
  by (induction s t rule: strcmp.induct) auto

lemma strcmp_less_trans: "strcmp s t = -1 \<Longrightarrow> strcmp t u = -1 \<Longrightarrow> strcmp s u = -1"
proof (induction s t arbitrary: u rule: strcmp.induct)
  case (2 b bs)
  then show ?case by (cases u) auto
next
  case (4 a as b bs)
  then show ?case by (cases u) (auto split: if_splits)
qed auto

lemma strcmp_values: "strcmp s t \<in> {-1, 0, 1}"
  by (induction s t rule: strcmp.induct) auto

lemma strcmpN_take: "strcmpN s t (int n) = strcmp (take n s) (take n t)"
proof (induction n arbitrary: s t)
  case 0
  show ?case by (cases s; cases t) auto
next
  case (Suc n)
  show ?case
  proof (cases s; cases t)
    fix a as b bs
    assume st: "s = a # as" "t = b # bs"
    have n: "int (Suc n) - 1 = int n" "int (Suc n) \<noteq> 0" by simp_all
    show ?thesis unfolding st by (simp only: strcmpN.simps(1) n Suc.IH take_Suc_Cons strcmp.simps if_False)
  qed auto
qed

lemma strcpy_loop_ok:
  "i + length from < length to \<Longrightarrow>
    strcpy_loop i to from = Inr (take i to @ from @ CHR 0x00 # drop (Suc (i + length from)) to, i + length from)"
proof (induction "from" arbitrary: i to)
  case Nil
  then show ?case by (simp add: upd_conv_take_nth_drop)
next
  case (Cons c cs)
  have "strcpy_loop i to (c # cs) = strcpy_loop (i + 1) (to[i := c]) cs" using Cons.prems by simp
  also have "\<dots> = Inr (take (i + 1) (to[i := c]) @ cs @ CHR 0x00 # drop (Suc (i + 1 + length cs)) (to[i := c]), i + 1 + length cs)"
    using Cons.prems by (intro Cons.IH) simp
  also have "take (i + 1) (to[i := c]) = take i to @ [c]"
    using Cons.prems by (simp add: take_Suc_conv_app_nth)
  finally show ?case by simp
qed

lemma strcpy_loop_overflow:
  "length to \<le> i + length from \<Longrightarrow> strcpy_loop i to from = Inl OutOfBounds"
proof (induction "from" arbitrary: i to)
  case (Cons c cs)
  show ?case using Cons.IH [of "to[i := c]" "i + 1"] Cons.prems by simp
qed simp

section \<open>Numbers\<close>

lemma abs_sdiv: "\<bar>v sdiv b\<bar> = \<bar>v\<bar> div \<bar>b\<bar>" for v b :: int
proof -
  have "0 \<le> \<bar>v\<bar> div \<bar>b\<bar>" by (cases "b = 0") (auto simp: pos_imp_zdiv_nonneg_iff)
  then show ?thesis by (auto simp: signed_divide_int_def abs_mult sgn_if)
qed

lemma abs_sdiv_less:
  fixes v b :: int
  assumes "b \<noteq> 0" "\<bar>b\<bar> \<noteq> 1" "v sdiv b \<noteq> 0"
  shows "\<bar>v sdiv b\<bar> < \<bar>v\<bar>"
proof -
  have "\<bar>v\<bar> div \<bar>b\<bar> < \<bar>v\<bar>"
    using assms by (intro int_div_less_self) (auto simp: signed_divide_int_def)
  then show ?thesis by (simp add: abs_sdiv)
qed

text \<open>
  The digits, least significant first (the \<open>do\<close> loop of \<open>itoa\<close> and \<open>uintToBase\<close>); division is C
  division.  With the bases 1 and -1 the value never gets smaller.
\<close>

definition digit_char :: "int \<Rightarrow> char" where
  "digit_char remainder = char_of (nat ((if remainder < 10 then remainder + 48 else remainder + 65 - 10) mod 256))"

function digits_loop :: "int \<Rightarrow> int \<Rightarrow> fault + string" where
  "digits_loop base v =
     (if base = 0 then Inl DivByZero
      else if v sdiv base = 0 then Inr [digit_char (v smod base)]
      else if \<bar>base\<bar> = 1 then Inl Diverges
      else map_sum id (Cons (digit_char (v smod base))) (digits_loop base (v sdiv base)))"
  by pat_completeness auto
termination
  using abs_sdiv_less by (relation "measure (\<lambda>(base, v). nat \<bar>v\<bar>)") auto

declare digits_loop.simps [simp del]

text \<open>The loop that reverses the digits in place.\<close>

function reverse_loop :: "nat \<Rightarrow> nat \<Rightarrow> 'a list \<Rightarrow> 'a list" where
  "reverse_loop p1 p2 xs =
     (if p1 < p2 then reverse_loop (p1 + 1) (p2 - 1) (xs[p1 := xs ! p2, p2 := xs ! p1]) else xs)"
  by pat_completeness auto
termination
  by (relation "measure (\<lambda>(p1, p2, xs). p2 - p1)") auto

declare reverse_loop.simps [simp del]

lemma reverse_loop_nth:
  "j < length xs \<Longrightarrow> length (reverse_loop i j xs) = length xs \<and>
    (\<forall>k<length xs. reverse_loop i j xs ! k = (if i \<le> k \<and> k \<le> j then xs ! (i + j - k) else xs ! k))"
proof (induction i j xs rule: reverse_loop.induct)
  case (1 i j xs)
  show ?case
  proof (cases "i < j")
    case False
    then have "i + j - k = k" if "i \<le> k" "k \<le> j" for k using that by linarith
    with False show ?thesis by (subst (1 2) reverse_loop.simps) auto
  next
    case True
    let ?ys = "xs[i := xs ! j, j := xs ! i]"
    have IH: "length (reverse_loop (i + 1) (j - 1) ?ys) = length xs"
        "\<And>k. k < length xs \<Longrightarrow> reverse_loop (i + 1) (j - 1) ?ys ! k =
          (if i + 1 \<le> k \<and> k \<le> j - 1 then ?ys ! (i + 1 + (j - 1) - k) else ?ys ! k)"
      using 1(1) [OF True] 1(2) True by auto
    have "reverse_loop (i + 1) (j - 1) ?ys ! k = (if i \<le> k \<and> k \<le> j then xs ! (i + j - k) else xs ! k)"
      if k: "k < length xs" for k
    proof -
      consider "k = i" | "k = j" | "i < k" "k < j" | "k < i \<or> j < k" by linarith
      then show ?thesis
      proof cases
        case 3
        then have "i + 1 + (j - 1) - k = i + j - k" "i + j - k \<noteq> i" "i + j - k \<noteq> j"
            "i + 1 \<le> k \<and> k \<le> j - 1" by auto
        with 3 IH(2) [OF k] show ?thesis by (simp add: nth_list_update)
      qed (use True 1(2) IH(2) [OF k] k in \<open>auto simp: nth_list_update\<close>)
    qed
    with IH(1) True show ?thesis by (subst (1 2) reverse_loop.simps) simp
  qed
qed

lemma reverse_loop_rev [simp]: "reverse_loop 0 (length xs - Suc 0) xs = rev xs"
proof (cases "xs = []")
  case True
  then show ?thesis by (simp add: reverse_loop.simps)
next
  case False
  then have "length xs - Suc 0 < length xs" by simp
  from reverse_loop_nth [OF this, of 0] show ?thesis
    by (intro nth_equalityI) (auto simp: rev_nth)
qed

text \<open>\<open>itoa\<close> at the width of \<open>int\<close>: the negation of the smallest one is itself.\<close>

definition int32 :: "int \<Rightarrow> int" where
  "int32 n = (n + 2 ^ 31) mod 2 ^ 32 - 2 ^ 31"

definition itoa :: "int \<Rightarrow> int \<Rightarrow> fault + (string \<times> int)" where
  "itoa v base =
     (let (sign, w) = (if v < 0 \<and> base = 10 then ([CHR ''-''], int32 (- v)) else ([], v))
      in map_sum id (\<lambda>ds. (sign @ reverse_loop 0 (length ds - 1) ds, int (length sign + length ds)))
           (digits_loop base w))"

text \<open>\<open>uintToBase\<close> into a buffer of 64 characters (\<open>static char buffer[64]\<close>), terminating zero included.\<close>

definition uintToBase :: "int \<Rightarrow> int \<Rightarrow> fault + (string \<times> int)" where
  "uintToBase v base =
     (case digits_loop base v of
        Inl e \<Rightarrow> Inl e
      | Inr ds \<Rightarrow> if length ds + 1 \<le> 64 then Inr (reverse_loop 0 (length ds - 1) ds, int (length ds))
                  else Inl OutOfBounds)"

text \<open>\<open>putNumber\<close>: the digits go to a buffer of 20 characters and are printed backwards.\<close>

function number_digits :: "int \<Rightarrow> string" where
  "number_digits n =
     (if n sdiv 10 = 0 then [char_of (nat ((n + 48) mod 256))]
      else char_of (nat ((n smod 10 + 48) mod 256)) # number_digits (n sdiv 10))"
  by pat_completeness auto
termination
  using abs_sdiv_less [of 10] by (relation "measure (\<lambda>n. nat \<bar>n\<bar>)") auto

declare number_digits.simps [simp del]

definition putNumber :: "int \<Rightarrow> string" where
  "putNumber n = (if n < 0 then CHR ''-'' # rev (number_digits (int32 (- n))) else rev (number_digits n))"

definition print :: "string \<Rightarrow> string" where
  "print s = s"

text \<open>\<open>intToString\<close> writes two digits and the terminating zero.\<close>

definition intToString :: "int \<Rightarrow> char list" where
  "intToString n = [char_of (nat ((n sdiv 10 smod 10 + 48) mod 256)),
     char_of (nat ((n smod 10 + 48) mod 256)), CHR 0x00]"

text \<open>What a numeral denotes.\<close>

definition char_digit :: "char \<Rightarrow> int" where
  "char_digit c = (if code c < 58 then code c - 48 else code c - 55)"

fun numeral_value :: "int \<Rightarrow> string \<Rightarrow> int" where
  "numeral_value b [] = 0"
| "numeral_value b (c # cs) = char_digit c + b * numeral_value b cs"

lemma char_digit_digit_char: "0 \<le> d \<Longrightarrow> d < 36 \<Longrightarrow> char_digit (digit_char d) = d"
  by (auto simp: char_digit_def digit_char_def code_def)

lemma sdiv_pos: "0 \<le> v \<Longrightarrow> 0 < b \<Longrightarrow> v sdiv b = v div b" for v b :: int
  by (auto simp: signed_divide_int_def sgn_if)

lemma smod_pos: "0 \<le> v \<Longrightarrow> 0 < b \<Longrightarrow> v smod b = v mod b" for v b :: int
  by (cases "v = 0") (simp_all add: signed_modulo_int_def)

lemma digits_loop_value:
  "0 \<le> v \<Longrightarrow> 2 \<le> b \<Longrightarrow> b \<le> 36 \<Longrightarrow> \<exists>ds. digits_loop b v = Inr ds \<and> numeral_value b ds = v \<and> ds \<noteq> []"
proof (induction b v rule: digits_loop.induct)
  case (1 b v)
  have m: "char_digit (digit_char (v mod b)) = v mod b"
    using 1(3,4) by (intro char_digit_digit_char) (auto intro: order_less_le_trans [OF pos_mod_bound])
  show ?case
  proof (cases "v div b = 0")
    case True
    then have "v mod b = v" using 1(2,3) by (metis add.right_neutral mult_zero_right mult_div_mod_eq add.commute)
    with True m 1(2,3) show ?thesis by (subst digits_loop.simps) (simp add: sdiv_pos smod_pos)
  next
    case False
    then obtain ds where "digits_loop b (v div b) = Inr ds" "numeral_value b ds = v div b"
      using 1 by (auto simp: sdiv_pos pos_imp_zdiv_nonneg_iff)
    with False m 1(2,3) show ?thesis
      by (subst digits_loop.simps) (auto simp: sdiv_pos smod_pos mod_mult_div_eq)
  qed
qed

section \<open>printFF\<close>

text \<open>
  The format is read character by character in one of two states; \<open>prev\<close> is the character before
  the one that is read next, which the last test of the function reads too.  \<open>None\<close> is a null
  array; a read past the end of an array is a fault.  With \<open>%s\<close> and a null array nothing advances.
\<close>

datatype ff_state = LETTER | FORMAT

fun printFF_loop ::
  "ff_state \<Rightarrow> char option \<Rightarrow> string \<Rightarrow> string list option \<Rightarrow> int list option \<Rightarrow> fault + string" where
  "printFF_loop st prev [] s n =
     (case prev of None \<Rightarrow> Inl OutOfBounds | Some c \<Rightarrow> Inr (if c = CHR ''%'' then ''%'' else []))"
| "printFF_loop LETTER prev (c # format) s n =
     (if c = CHR ''%'' then printFF_loop FORMAT (Some c) format s n
      else map_sum id (Cons c) (printFF_loop LETTER (Some c) format s n))"
| "printFF_loop FORMAT prev (c # format) s n =
     (if c = CHR ''d'' \<and> n \<noteq> None then
        (case the n of
           [] \<Rightarrow> Inl OutOfBounds
         | k # ks \<Rightarrow> map_sum id ((@) (putNumber k)) (printFF_loop LETTER (Some c) format s (Some ks)))
      else if c = CHR ''s'' then
        (case s of
           None \<Rightarrow> Inl Diverges
         | Some [] \<Rightarrow> Inl OutOfBounds
         | Some (t # ts) \<Rightarrow> map_sum id ((@) t) (printFF_loop LETTER (Some c) format (Some ts) n))
      else map_sum id (Cons CHR ''%'') (printFF_loop FORMAT (Some c) format s n))"

definition printFF :: "string \<Rightarrow> string list option \<Rightarrow> int list option \<Rightarrow> fault + string" where
  "printFF format s n = printFF_loop LETTER None format s n"

text \<open>What a format without stray \<open>%\<close> is made of, and what it should print.\<close>

datatype piece = Lit char | Str string | Num int

fun piece_format :: "piece \<Rightarrow> string" where
  "piece_format (Lit c) = [c]"
| "piece_format (Str t) = ''%s''"
| "piece_format (Num k) = ''%d''"

fun piece_output :: "piece \<Rightarrow> string" where
  "piece_output (Lit c) = [c]"
| "piece_output (Str t) = t"
| "piece_output (Num k) = putNumber k"

fun strings_of :: "piece list \<Rightarrow> string list" where
  "strings_of [] = []"
| "strings_of (Str t # ps) = t # strings_of ps"
| "strings_of (p # ps) = strings_of ps"

fun numbers_of :: "piece list \<Rightarrow> int list" where
  "numbers_of [] = []"
| "numbers_of (Num k # ps) = k # numbers_of ps"
| "numbers_of (p # ps) = numbers_of ps"

lemma printFF_loop_pieces:
  assumes "\<forall>c. Lit c \<in> set ps \<longrightarrow> c \<noteq> CHR ''%''" and "ps = [] \<Longrightarrow> \<exists>c. prev = Some c \<and> c \<noteq> CHR ''%''"
  shows "printFF_loop LETTER prev (concat (map piece_format ps)) (Some (strings_of ps)) (Some (numbers_of ps)) =
    Inr (concat (map piece_output ps))"
  using assms
proof (induction ps arbitrary: prev)
  case (Cons p ps)
  have IH: "printFF_loop LETTER (Some c) (concat (map piece_format ps)) (Some (strings_of ps)) (Some (numbers_of ps)) =
      Inr (concat (map piece_output ps))" if "c \<noteq> CHR ''%''" for c
    using Cons.prems(1) that by (intro Cons.IH) auto
  show ?case
    using Cons.prems(1) by (cases p) (simp_all add: IH)
qed auto

section \<open>memset and memcpy\<close>

fun memset_loop :: "nat \<Rightarrow> addr \<Rightarrow> 8 word \<Rightarrow> (addr \<Rightarrow> 8 word) \<Rightarrow> (addr \<Rightarrow> 8 word)" where
  "memset_loop 0 dst chr m = m"
| "memset_loop (Suc n) dst chr m = memset_loop n dst chr (m(dst + int n := chr))"

definition memset :: "addr \<Rightarrow> int \<Rightarrow> nat \<Rightarrow> (addr \<Rightarrow> 8 word) \<Rightarrow> (addr \<Rightarrow> 8 word)" where
  "memset destination c n m = memset_loop n destination (word_of_int c) m"

text \<open>The two loops of \<open>memcpy\<close>, over the words and over the bytes still to copy.\<close>

fun copy_bytes :: "nat \<Rightarrow> addr \<Rightarrow> addr \<Rightarrow> (addr \<Rightarrow> 8 word) \<Rightarrow> (addr \<Rightarrow> 8 word)" where
  "copy_bytes 0 d s m = m"
| "copy_bytes (Suc n) d s m = copy_bytes n (d + 1) (s + 1) (m(d := m s))"

fun copy_words :: "nat \<Rightarrow> addr \<Rightarrow> addr \<Rightarrow> (addr \<Rightarrow> 8 word) \<Rightarrow> (addr \<Rightarrow> 8 word)" where
  "copy_words 0 d s m = m"
| "copy_words (Suc n) d s m = copy_words n (d + 4) (s + 4)
     (m(d := m s, d + 1 := m (s + 1), d + 2 := m (s + 2), d + 3 := m (s + 3)))"

definition memcpy :: "addr \<Rightarrow> addr \<Rightarrow> nat \<Rightarrow> (addr \<Rightarrow> 8 word) \<Rightarrow> (addr \<Rightarrow> 8 word)" where
  "memcpy destination src n m =
     (if destination mod 4 = 0 \<and> src mod 4 = 0 \<and> n mod 4 = 0
      then copy_words (n div 4) destination src m
      else copy_bytes n destination src m)"

lemma memset_loop_at:
  "memset_loop n dst chr m a = (if dst \<le> a \<and> a < dst + int n then chr else m a)"
  by (induction n arbitrary: m) auto

lemma copy_bytes_at:
  assumes "\<And>a. s \<le> a \<Longrightarrow> a < s + int n \<Longrightarrow> a < d \<or> d + int n \<le> a"
  shows "copy_bytes n d s m a = (if d \<le> a \<and> a < d + int n then m (a - d + s) else m a)"
  using assms
proof (induction n arbitrary: d s m)
  case (Suc n)
  have IH: "copy_bytes n (d + 1) (s + 1) (m(d := m s)) a =
      (if d + 1 \<le> a \<and> a < d + 1 + int n then (m(d := m s)) (a - (d + 1) + (s + 1)) else (m(d := m s)) a)"
  proof (rule Suc.IH)
    fix b
    assume "s + 1 \<le> b" "b < s + 1 + int n"
    then show "b < d + 1 \<or> d + 1 + int n \<le> b" using Suc.prems [of b] by auto
  qed
  have "a - d + s \<noteq> d" if "d < a" "a \<le> d + int n"
    using Suc.prems [of d] that by (cases "s \<le> d \<and> d < s + int (Suc n)") auto
  with IH show ?case by (auto simp: algebra_simps)
qed auto

lemma copy_words_at:
  assumes "\<And>a. s \<le> a \<Longrightarrow> a < s + 4 * int n \<Longrightarrow> a < d \<or> d + 4 * int n \<le> a"
  shows "copy_words n d s m a = (if d \<le> a \<and> a < d + 4 * int n then m (a - d + s) else m a)"
  using assms
proof (induction n arbitrary: d s m)
  case (Suc n)
  let ?m = "m(d := m s, d + 1 := m (s + 1), d + 2 := m (s + 2), d + 3 := m (s + 3))"
  have IH: "copy_words n (d + 4) (s + 4) ?m a =
      (if d + 4 \<le> a \<and> a < d + 4 + 4 * int n then ?m (a - (d + 4) + (s + 4)) else ?m a)"
  proof (rule Suc.IH)
    fix b
    assume "s + 4 \<le> b" "b < s + 4 + 4 * int n"
    then show "b < d + 4 \<or> d + 4 + 4 * int n \<le> b" using Suc.prems [of b] by auto
  qed
  have far: "?m (a - d + s) = m (a - d + s)" if "d + 4 \<le> a" "a < d + 4 + 4 * int n"
  proof -
    have "a - d + s < d \<or> d + 4 * int (Suc n) \<le> a - d + s"
      using Suc.prems [of "a - d + s"] that by simp
    then show ?thesis by auto
  qed
  consider "a < d" | "a = d" | "a = d + 1" | "a = d + 2" | "a = d + 3" | "d + 4 \<le> a" by linarith
  then show ?case using IH far by cases (auto simp: algebra_simps)
qed auto

section \<open>The length of a numeral\<close>

lemma digits_loop_step:
  assumes "0 \<le> v" and "2 \<le> b"
  shows "digits_loop b v = (if v div b = 0 then Inr [digit_char (v mod b)]
    else map_sum id (Cons (digit_char (v mod b))) (digits_loop b (v div b)))"
  using assms by (subst digits_loop.simps) (simp add: sdiv_pos smod_pos)

lemma digits_loop_length_le:
  "0 \<le> v \<Longrightarrow> 2 \<le> b \<Longrightarrow> v < b ^ Suc n \<Longrightarrow> digits_loop b v = Inr ds \<Longrightarrow> length ds \<le> Suc n"
proof (induction n arbitrary: v ds)
  case 0
  then show ?case by (auto simp: digits_loop_step)
next
  case (Suc n)
  show ?case
  proof (cases "v div b = 0")
    case True
    with Suc.prems show ?thesis by (auto simp: digits_loop_step)
  next
    case False
    with Suc.prems obtain es where es: "digits_loop b (v div b) = Inr es" "ds = digit_char (v mod b) # es"
      by (cases "digits_loop b (v div b)") (auto simp: digits_loop_step)
    have "v div b < b ^ Suc n"
    proof -
      have "v < b * b ^ Suc n" using Suc.prems(3) by simp
      then have "v div b * b < b ^ Suc n * b"
        using Suc.prems(2) by (smt (verit) mult.commute mult_div_mod_eq pos_mod_sign)
      then show ?thesis using Suc.prems(2) by (simp add: mult.commute)
    qed
    with Suc.IH [of "v div b" es] Suc.prems es show ?thesis by (simp add: pos_imp_zdiv_nonneg_iff)
  qed
qed

lemma digits_loop_length_ge:
  "2 \<le> b \<Longrightarrow> b ^ n \<le> v \<Longrightarrow> digits_loop b v = Inr ds \<Longrightarrow> n < length ds"
proof (induction n arbitrary: v ds)
  case 0
  have "0 \<le> v" using 0(2) by simp
  with 0 show ?case
    by (cases "digits_loop b (v div b)") (auto simp: digits_loop_step split: if_splits)
next
  case (Suc n)
  have pos: "0 < b ^ Suc n" using Suc.prems(1) by simp
  then have v: "0 \<le> v" using Suc.prems(2) by linarith
  have le: "b ^ n \<le> v div b"
    using Suc.prems(1,2) zdiv_mono1 [of "b * b ^ n" v b] by simp
  moreover have "0 < b ^ n" using Suc.prems(1) by simp
  ultimately have "v div b \<noteq> 0" by linarith
  with Suc.prems v obtain es where "digits_loop b (v div b) = Inr es" "ds = digit_char (v mod b) # es"
    by (cases "digits_loop b (v div b)") (auto simp: digits_loop_step)
  with Suc.IH [OF Suc.prems(1) le] show ?case by simp
qed

section \<open>Properties\<close>

text \<open>\<open>strcmp\<close> is a linear order on C strings: 0 exactly on equal strings, antisymmetric and
  transitive; \<open>strcmpN\<close> compares the prefixes of the given length.\<close>

theorem strcmp_linear_order:
  "(strcmp s t = 0 \<longleftrightarrow> s = t) \<and> strcmp t s = - strcmp s t \<and> strcmp s t \<in> {-1, 0, 1} \<and>
   (strcmp s t = -1 \<longrightarrow> strcmp t u = -1 \<longrightarrow> strcmp s u = -1) \<and>
   strcmpN s t (int n) = strcmp (take n s) (take n t)"
proof (intro conjI impI)
  show "strcmp s u = -1" if "strcmp s t = -1" "strcmp t u = -1"
    using that by (rule strcmp_less_trans)
qed (rule strcmp_zero_iff strcmp_sym strcmp_values strcmpN_take)+

theorem strcmp_linear_order_witness:
  "strcmp ''ab'' ''b'' = -1 \<and> strcmp ''b'' ''ba'' = -1 \<and> strcmp ''ab'' ''ba'' = -1"
proof -
  have "strcmp ''ab'' ''b'' = -1" "strcmp ''b'' ''ba'' = -1" by (simp_all add: schar_def code_def)
  with strcmp_linear_order [of "''ab''" "''b''" "''ba''" 0] show ?thesis by blast
qed

text \<open>\<open>itoa\<close> in base 10 prints every \<open>int\<close> but the smallest: the digits denote its absolute value,
  after a minus sign when it is negative, and the result is the number of characters.\<close>

theorem itoa_decimal:
  assumes "- (2 ^ 31) < v" and "v < 2 ^ 31"
  shows "\<exists>ds. itoa v 10 = Inr ((if v < 0 then ''-'' else []) @ ds, int (length ds) + (if v < 0 then 1 else 0)) \<and>
    ds \<noteq> [] \<and> numeral_value 10 (rev ds) = \<bar>v\<bar>"
proof -
  obtain es where es: "digits_loop 10 \<bar>v\<bar> = Inr es" "numeral_value 10 es = \<bar>v\<bar>" "es \<noteq> []"
    using digits_loop_value [of "\<bar>v\<bar>" 10] by auto
  have "int32 (- v) = - v" if "v < 0"
    using that assms by (simp add: int32_def)
  then have "itoa v 10 = Inr ((if v < 0 then ''-'' else []) @ rev es, int (length es) + (if v < 0 then 1 else 0))"
    using es(1) by (auto simp: itoa_def)
  with es show ?thesis by (intro exI [of _ "rev es"]) auto
qed

theorem itoa_decimal_witness:
  "\<exists>ds. itoa (-205) 10 = Inr (''-'' @ ds, int (length ds) + 1) \<and> ds \<noteq> [] \<and> numeral_value 10 (rev ds) = 205"
  using itoa_decimal [of "-205"] by simp

text \<open>\<open>uintToBase\<close> on a 64-bit value prints its numeral in the base, except that in base 2 a value
  from \<open>2 ^ 63\<close> on needs 64 digits and the terminating zero falls behind the 64 characters of the
  buffer.\<close>

theorem uintToBase_numeral:
  assumes "0 \<le> v" and "v < 2 ^ 64" and "2 \<le> b" and "b \<le> 36"
  shows "if b = 2 \<and> 2 ^ 63 \<le> v then uintToBase v b = Inl OutOfBounds
    else \<exists>ds. uintToBase v b = Inr (ds, int (length ds)) \<and> numeral_value b (rev ds) = v"
proof -
  obtain es where es: "digits_loop b v = Inr es" "numeral_value b es = v"
    using digits_loop_value [OF assms(1,3,4)] by blast
  show ?thesis
  proof (cases "b = 2 \<and> 2 ^ 63 \<le> v")
    case True
    then have "63 < length es" using digits_loop_length_ge [OF assms(3) _ es(1), of 63] by simp
    with True es show ?thesis by (simp add: uintToBase_def)
  next
    case False
    have "length es \<le> Suc 62"
    proof (rule digits_loop_length_le [OF assms(1,3) _ es(1)])
      show "v < b ^ Suc 62"
      proof (cases "b = 2")
        case True
        with False show ?thesis by simp
      next
        case False
        then have "(3::int) ^ 63 \<le> b ^ 63" using assms(3) by (intro power_mono) auto
        with assms(2) show ?thesis by simp
      qed
    qed
    with False es show ?thesis by (auto simp: uintToBase_def)
  qed
qed

theorem uintToBase_numeral_witness:
  "uintToBase (2 ^ 63) 2 = Inl OutOfBounds \<and>
   (\<exists>ds. uintToBase 255 16 = Inr (ds, int (length ds)) \<and> numeral_value 16 (rev ds) = 255)"
  using uintToBase_numeral [of "2 ^ 63" 2] uintToBase_numeral [of 255 16] by simp

text \<open>\<open>printFF\<close> prints what its format says: for a format made of plain characters, \<open>%s\<close> and \<open>%d\<close>,
  the characters, the strings and the numbers in their order.\<close>

theorem printFF_format:
  assumes "\<forall>c. Lit c \<in> set ps \<longrightarrow> c \<noteq> CHR ''%''" and "ps \<noteq> []"
  shows "printFF (concat (map piece_format ps)) (Some (strings_of ps)) (Some (numbers_of ps)) =
    Inr (concat (map piece_output ps))"
  using printFF_loop_pieces [OF assms(1), of None] assms(2) by (simp add: printFF_def)

theorem printFF_format_witness:
  "printFF ''a%s=%d'' (Some [''x'']) (Some [7]) = Inr (''ax='' @ putNumber 7)"
  using printFF_format [of "[Lit CHR ''a'', Str ''x'', Lit CHR ''='', Num 7]"] by simp

text \<open>\<open>memcpy\<close> copies: for regions that do not overlap, both the word loop and the byte loop move
  exactly the bytes of the source to the destination.\<close>

theorem memcpy_copies:
  assumes "\<forall>a. src \<le> a \<and> a < src + int n \<longrightarrow> a < dst \<or> dst + int n \<le> a"
  shows "memcpy dst src n m a = (if dst \<le> a \<and> a < dst + int n then m (a - dst + src) else m a)"
proof (cases "n mod 4 = 0")
  case True
  then have n: "4 * int (n div 4) = int n" by presburger
  have "copy_words (n div 4) dst src m a = (if dst \<le> a \<and> a < dst + int n then m (a - dst + src) else m a)"
    using copy_words_at [of src "n div 4" dst m a] assms n by simp
  with copy_bytes_at [of src n dst m a] assms show ?thesis by (simp add: memcpy_def)
next
  case False
  with copy_bytes_at [of src n dst m a] assms show ?thesis by (simp add: memcpy_def)
qed

theorem memcpy_copies_witness:
  "memcpy 0x200 0x100 8 (\<lambda>a. word_of_int a) 0x203 = 0x03"
  using memcpy_copies [of "0x100" 8 "0x200" "\<lambda>a. word_of_int a" "0x203"] by simp

end
