(* ===== verification/RingBuffer.thy ===== *)
theory RingBuffer
  imports Prelude
begin

text \<open>
  Ring buffers over a store, shared by the pipes, the terminal and the user programs: \<open>N\<close> cells from
  the address \<open>base\<close>, an element sequence that starts at an index and wraps around.  An array is
  the store of its indices.
\<close>

definition cell :: "int \<Rightarrow> int \<Rightarrow> int \<Rightarrow> int" where
  "cell base N i = base + i mod N"

definition ringseq :: "(int \<Rightarrow> 'b) \<Rightarrow> int \<Rightarrow> int \<Rightarrow> int \<Rightarrow> nat \<Rightarrow> 'b list" where
  "ringseq m base N start n = map (\<lambda>k. m (cell base N (start + int k))) [0..<n]"

lemma length_ringseq [simp]: "length (ringseq m base N start n) = n"
  by (simp add: ringseq_def)

lemma ringseq_0 [simp]: "ringseq m base N start 0 = []"
  by (simp add: ringseq_def)

lemma ringseq_nth [simp]: "k < n \<Longrightarrow> ringseq m base N start n ! k = m (cell base N (start + int k))"
  by (simp add: ringseq_def)

lemma ringseq_Suc: "ringseq m base N start (Suc n) = ringseq m base N start n @ [m (cell base N (start + int n))]"
  by (simp add: ringseq_def)

lemma cell_mod [simp]: "cell base N (i mod N) = cell base N i"
  by (simp add: cell_def)

lemma cell_mod_add [simp]: "cell base N (i mod N + j) = cell base N (i + j)"
  by (simp add: cell_def mod_add_left_eq)

lemma ringseq_mod [simp]: "ringseq m base N (start mod N) n = ringseq m base N start n"
  by (simp add: ringseq_def)

lemma cell_range: "0 < N \<Longrightarrow> base \<le> cell base N i \<and> cell base N i < base + N"
  by (simp add: cell_def)

lemma cell_inject:
  assumes "0 < N" and "0 \<le> i" and "i < N" and "0 \<le> j" and "j < N"
  shows "cell base N (start + i) = cell base N (start + j) \<longleftrightarrow> i = j"
proof
  assume "cell base N (start + i) = cell base N (start + j)"
  then have "(start + i) mod N = (start + j) mod N" by (simp add: cell_def)
  then have "(start + i - start) mod N = (start + j - start) mod N" by (rule mod_diff_cong) simp
  with assms show "i = j" by simp
qed simp

lemma ringseq_store:
  assumes "int n \<le> j" and "j < N"
  shows "ringseq (m(cell base N (start + j) := v)) base N start n = ringseq m base N start n"
  unfolding ringseq_def by (rule map_cong) (use assms in \<open>simp_all add: cell_inject\<close>)

lemma ringseq_outside:
  assumes "\<And>a. base \<le> a \<Longrightarrow> a < base + N \<Longrightarrow> m' a = m a" and "0 < N"
  shows "ringseq m' base N start n = ringseq m base N start n"
  unfolding ringseq_def by (rule map_cong) (use assms cell_range in \<open>simp_all\<close>)

text \<open>An element enters at the back and leaves at the front.\<close>

lemma ringseq_push:
  assumes "int n < N"
  shows "ringseq (m(cell base N (start + int n) := v)) base N start (Suc n) = ringseq m base N start n @ [v]"
  using assms ringseq_store [of n "int n" N] by (simp add: ringseq_Suc)

lemma ringseq_drop: "k \<le> n \<Longrightarrow> ringseq m base N (start + int k) (n - k) = drop k (ringseq m base N start n)"
  by (rule nth_equalityI) (simp_all add: algebra_simps)

text \<open>
  How many elements lie between two indices when equal ones mean \<open>full\<close> or empty according to a flag.
\<close>

definition ring_length :: "int \<Rightarrow> int \<Rightarrow> int \<Rightarrow> bool \<Rightarrow> int" where
  "ring_length N start stop full = (if stop = start then if full then N else 0 else (stop - start) mod N)"

lemma ring_length_range: "0 < N \<Longrightarrow> 0 \<le> ring_length N start stop full \<and> ring_length N start stop full \<le> N"
  by (simp add: ring_length_def) (metis order_less_imp_le pos_mod_bound)

lemma ring_length_stop:
  assumes "0 \<le> stop" and "stop < N"
  shows "(start + ring_length N start stop full) mod N = stop"
  using assms by (auto simp: ring_length_def mod_add_right_eq)

text \<open>The test \<open>(i + start) % N != stop\<close> of the copying loops: has the last element been reached?\<close>

lemma ring_reached:
  assumes "0 < i" and "i \<le> N" and "0 \<le> stop" and "stop < N" and "0 \<le> start" and "start < N"
    and "i \<le> ring_length N start stop full"
  shows "(i + start) mod N = stop \<longleftrightarrow> i = ring_length N start stop full"
proof -
  let ?l = "ring_length N start stop full"
  have l: "(start + ?l) mod N = stop" "?l \<le> N"
    using ring_length_stop [OF assms(3,4)] ring_length_range [of N start stop full] assms by auto
  show ?thesis
  proof
    assume "(i + start) mod N = stop"
    then have "(start + ?l - (i + start)) mod N = 0" using l(1) by (metis mod_diff_cong diff_self mod_0)
    then have "(?l - i) mod N = 0" by (simp add: algebra_simps)
    moreover have "0 \<le> ?l - i" "?l - i < N" using assms(1,7) l(2) by auto
    ultimately show "i = ?l" by simp
  next
    assume "i = ?l"
    with l(1) show "(i + start) mod N = stop" by (simp add: add.commute)
  qed
qed

lemma ring_length_advance:
  assumes "0 \<le> start" and "start < N" and "0 \<le> stop" and "stop < N"
    and "0 < n" and "ring_length N start stop full + n \<le> N"
  shows "ring_length N start ((stop + n) mod N) True = ring_length N start stop full + n"
proof -
  let ?l = "ring_length N start stop full"
  have N: "0 < N" using assms by simp
  have l: "(start + ?l) mod N = stop" "0 \<le> ?l"
    using ring_length_stop [OF assms(3,4)] ring_length_range [OF N, of start stop full] by auto
  have e: "(stop + n) mod N = (start + (?l + n)) mod N"
    using l(1) by (metis add.assoc mod_add_left_eq)
  show ?thesis
  proof (cases "?l + n = N")
    case True
    then show ?thesis using e assms(1,2) by (simp add: ring_length_def)
  next
    case False
    then have "(start + (?l + n)) mod N \<noteq> start"
    proof -
      have "((start + (?l + n)) - start) mod N = ?l + n" using False assms(5,6) l(2) by simp
      then show ?thesis using assms(1,2,5) l(2)
        by (metis add_nonneg_pos diff_self mod_0 mod_diff_left_eq less_irrefl)
    qed
    moreover have "((start + (?l + n)) mod N - start) mod N = ?l + n"
      using False assms(5,6) l(2) by (simp add: mod_diff_left_eq)
    ultimately show ?thesis by (simp add: ring_length_def e)
  qed
qed

lemma ring_length_consume:
  assumes "0 \<le> start" and "start < N" and "0 \<le> stop" and "stop < N"
    and "0 < n" and "n \<le> ring_length N start stop full"
  shows "ring_length N ((start + n) mod N) stop False = ring_length N start stop full - n"
proof -
  let ?l = "ring_length N start stop full"
  have N: "0 < N" using assms by simp
  have l: "(start + ?l) mod N = stop" "?l \<le> N"
    using ring_length_stop [OF assms(3,4)] ring_length_range [OF N, of start stop full] by auto
  have d: "(stop - (start + n) mod N) mod N = ?l - n"
  proof -
    have "(stop - (start + n) mod N) mod N = (start + ?l - (start + n)) mod N"
      using l(1) by (metis mod_diff_eq)
    then show ?thesis using assms(5,6) l(2) by simp
  qed
  show ?thesis
  proof (cases "stop = (start + n) mod N")
    case True
    then have "?l - n = 0" using d by simp
    with True show ?thesis by (simp add: ring_length_def)
  next
    case False
    then show ?thesis using d by (simp add: ring_length_def)
  qed
qed

lemma cell_next:
  assumes "0 < N"
  shows "cell base N (i + 1) = (if cell base N i + 1 = base + N then base else cell base N i + 1)"
proof -
  define r where "r = i mod N"
  have r: "0 \<le> r" "r < N" using assms by (simp_all add: r_def)
  have "(i + 1) mod N = (r + 1) mod N" by (simp add: r_def mod_add_left_eq)
  also have "\<dots> = (if r + 1 = N then 0 else r + 1)" using r by simp
  finally show ?thesis by (simp add: cell_def flip: r_def)
qed

end
