(* ===== verification/Buddy.thy ===== *)
theory Buddy
  imports Prelude
begin

text \<open>
  The page allocator (Kernel/buddyAllocator.c): a complete binary tree over 4 MiB of memory kept
  in two arrays, \<open>occupied\<close> and \<open>base\<close>, of which the node with number \<open>i\<close> (the root is 1, the
  children of \<open>i\<close> are \<open>2 * i\<close> and \<open>2 * i + 1\<close>) is the entry \<open>i - 1\<close>.

  The lemmas show that a run of allocations never goes out of the arrays and that the blocks it
  returns are in the managed memory, large enough and pairwise disjoint; what a deallocation does;
  and that a deallocation can make the allocator hand out memory that is still in use.
\<close>

section \<open>Constants and state\<close>

abbreviation (input) PAGE_SIZE :: int where
  "PAGE_SIZE \<equiv> 4096"            \<comment> \<open>\<open>(1024)*4\<close>\<close>

abbreviation (input) MEMORY :: int where
  "MEMORY \<equiv> 4194304"            \<comment> \<open>\<open>PAGE_SIZE*1024\<close>\<close>

abbreviation (input) NUMBER_OF_PAGES :: nat where
  "NUMBER_OF_PAGES \<equiv> 1024"      \<comment> \<open>\<open>MEMORY/PAGE_SIZE\<close>\<close>

abbreviation (input) HEAPSIZE :: nat where
  "HEAPSIZE \<equiv> 2047"             \<comment> \<open>\<open>NUMBER_OF_PAGES*2-1\<close>\<close>

abbreviation (input) EMPTY :: nat where
  "EMPTY \<equiv> 0"

abbreviation (input) PARTIALLY_FULL :: nat where
  "PARTIALLY_FULL \<equiv> 1"

abbreviation (input) BUDDY_FULL :: nat where
  "BUDDY_FULL \<equiv> 2"

definition NUMBER_OF_PAGES_TO_ALLOC :: "int \<Rightarrow> int" where
  "NUMBER_OF_PAGES_TO_ALLOC sz =
     (if sz mod PAGE_SIZE \<noteq> 0 then sz div PAGE_SIZE + 1 else sz div PAGE_SIZE)"

text \<open>
  The global \<open>buddyArray\<close> (its three fields) and \<open>baseMemory\<close>.  The record is the root of the
  kernel's state: the other components extend it.
\<close>

record pagemem =
  occupied :: "nat list"
  base :: "addr list"
  heapLevel :: int
  baseMemory :: addr

definition occ :: "'a pagemem_scheme \<Rightarrow> nat \<Rightarrow> nat" where
  "occ s i = occupied s ! (i - 1)"

definition set_occ :: "nat \<Rightarrow> nat \<Rightarrow> 'a pagemem_scheme \<Rightarrow> 'a pagemem_scheme" where
  "set_occ i v s = s\<lparr>occupied := (occupied s)[i - 1 := v]\<rparr>"

section \<open>The operations\<close>

definition getBaseMemoryWithIndex :: "int \<Rightarrow> int \<Rightarrow> int \<Rightarrow> 'a pagemem_scheme \<Rightarrow> addr" where
  "getBaseMemoryWithIndex i maxElementsInLevel elementNumber s =
     (let memoryPortion = MEMORY div maxElementsInLevel
      in memoryPortion * elementNumber + baseMemory s)"

text \<open>The \<open>for\<close> loop of \<open>createHeap\<close>, over \<open>i\<close>, \<open>level\<close>, \<open>currentElementsInLevel\<close> and
  \<open>maxElementsInLevel\<close>.\<close>

function createHeap_loop ::
  "nat \<Rightarrow> int \<Rightarrow> int \<Rightarrow> int \<Rightarrow> 'a pagemem_scheme \<Rightarrow> 'a pagemem_scheme" where
  "createHeap_loop i level cur mx s =
     (if i < HEAPSIZE then
        let (level', cur', mx') = (if mx = cur then (level + 1, 0, mx * 2) else (level, cur, mx));
            s' = s\<lparr>occupied := (occupied s)[i := EMPTY],
                    base := (base s)[i := getBaseMemoryWithIndex (int i + 1) mx' cur' s]\<rparr>
        in createHeap_loop (i + 1) level' (cur' + 1) mx' s'
      else s\<lparr>heapLevel := level\<rparr>)"
  by pat_completeness auto
termination
  by (relation "measure (\<lambda>(i, level, cur, mx, s). HEAPSIZE - i)") auto

declare createHeap_loop.simps [simp del]

definition createHeap :: "'a pagemem_scheme \<Rightarrow> 'a pagemem_scheme" where
  "createHeap s = createHeap_loop 0 1 0 1 (s\<lparr>baseMemory := 0x1000000\<rparr>)"

text \<open>
  \<open>getNextPageRecursive\<close>: an index outside the array is a fault, so the recursion ends because
  the index grows.
\<close>

function getNextPageRecursive ::
  "nat \<Rightarrow> int \<Rightarrow> int \<Rightarrow> 'a pagemem_scheme \<Rightarrow> fault + (addr \<times> 'a pagemem_scheme)" where
  "getNextPageRecursive index currentLevel level s =
     (if index = 0 \<or> HEAPSIZE < index then Inl OutOfBounds
      else if occ s index = BUDDY_FULL then Inr (NULL, s)
      else if currentLevel = level then
        if occ s index = PARTIALLY_FULL then Inr (NULL, s)
        else Inr (base s ! (index - 1), set_occ index BUDDY_FULL s)
      else
        case getNextPageRecursive (2 * index) (currentLevel + 1) level s of
          Inl e \<Rightarrow> Inl e
        | Inr (lchild, s1) \<Rightarrow>
            if lchild = NULL then
              case getNextPageRecursive (2 * index + 1) (currentLevel + 1) level s1 of
                Inl e \<Rightarrow> Inl e
              | Inr (rchild, s2) \<Rightarrow>
                  if rchild = NULL then Inr (NULL, s2)
                  else if occ s2 (2 * index + 1) = BUDDY_FULL
                  then Inr (rchild, set_occ index BUDDY_FULL s2)
                  else Inr (rchild, s2)
            else Inr (lchild, set_occ index PARTIALLY_FULL s1))"
  by pat_completeness auto
termination
  by (relation "measure (\<lambda>(index, currentLevel, level, s). Suc HEAPSIZE - index)") auto

declare getNextPageRecursive.simps [simp del]

text \<open>
  The loop of \<open>getLevel\<close> halves \<open>rta\<close>, rounding up, until it is 1; from 0 it never ends.  (The
  conversion of the 64-bit \<open>pages\<close> to \<open>int\<close> is exact for the values \<open>allocPage\<close> lets through.)
\<close>

function getLevel_loop :: "nat \<Rightarrow> int \<Rightarrow> fault + int" where
  "getLevel_loop rta i =
     (if rta = 1 then Inr i
      else if rta = 0 then Inl Diverges
      else if rta mod 2 \<noteq> 0 then getLevel_loop (rta div 2 + 1) (i + 1)
      else getLevel_loop (rta div 2) (i + 1))"
  by pat_completeness auto
termination
proof (relation "measure fst", goal_cases)
  case (2 rta i)
  then show ?case by simp presburger
qed auto

declare getLevel_loop.simps [simp del]

definition getLevel :: "nat \<Rightarrow> 'a pagemem_scheme \<Rightarrow> fault + int" where
  "getLevel pages s = map_sum id (\<lambda>i. heapLevel s - i) (getLevel_loop pages 0)"

definition allocPage :: "nat \<Rightarrow> ('a pagemem_scheme, addr) eprog" where
  "allocPage pages s =
     (if pages = 0 \<or> NUMBER_OF_PAGES < pages then Inr (NULL, s)
      else case getLevel pages s of
          Inl e \<Rightarrow> Inl e
        | Inr level \<Rightarrow>
            if heapLevel s < level then Inr (NULL, s)
            else getNextPageRecursive 1 1 level s)"

abbreviation (input) PARENT :: "nat \<Rightarrow> nat" where
  "PARENT i \<equiv> i div 2"

abbreviation (input) SIBLING :: "nat \<Rightarrow> nat" where
  "SIBLING i \<equiv> (if i mod 2 \<noteq> 0 then i - 1 else i + 1)"

fun freeUpRecursive :: "nat \<Rightarrow> 'a pagemem_scheme \<Rightarrow> fault + 'a pagemem_scheme" where
  "freeUpRecursive index s =
     (if index = 0 \<or> HEAPSIZE < index then Inl OutOfBounds
      else if index = 1 then Inr s
      else
        let s' = (if occ s (PARENT index) = BUDDY_FULL \<and> occ s (SIBLING index) = EMPTY
                  then set_occ (PARENT index) EMPTY s
                  else if occ s (PARENT index) = BUDDY_FULL \<and> occ s (SIBLING index) = BUDDY_FULL
                  then set_occ (PARENT index) PARTIALLY_FULL s
                  else if occ s (PARENT index) = PARTIALLY_FULL \<and> occ s (SIBLING index) = EMPTY
                  then set_occ (PARENT index) EMPTY s
                  else s)
        in freeUpRecursive (PARENT index) s')"

declare freeUpRecursive.simps [simp del]

definition isValid :: "addr \<Rightarrow> bool" where
  "isValid page = True"

text \<open>\<open>(page - baseMemory)/PAGE_SIZE\<close> is C division, which truncates towards zero.\<close>

definition deallocPage :: "addr \<Rightarrow> ('a pagemem_scheme, int) eprog" where
  "deallocPage page s =
     (if isValid page then
        let index = (page - baseMemory s) sdiv PAGE_SIZE
        in if 0 \<le> index + int (HEAPSIZE div 2) \<and> index + int (HEAPSIZE div 2) < int HEAPSIZE
           then case freeUpRecursive (nat (index + int (HEAPSIZE div 2)) + 1)
                       (set_occ (nat (index + int (HEAPSIZE div 2)) + 1) EMPTY s) of
                  Inl e \<Rightarrow> Inl e
                | Inr s' \<Rightarrow> Inr (0, s')
           else Inl OutOfBounds
      else Inr (-1, s))"

section \<open>Basic facts about the arrays\<close>

lemma occ_set_occ [simp]:
  "1 \<le> i \<Longrightarrow> i \<le> length (occupied s) \<Longrightarrow> 1 \<le> j \<Longrightarrow>
    occ (set_occ i v s) j = (if j = i then v else occ s j)"
  by (auto simp: occ_def set_occ_def nth_list_update)

lemma set_occ_frame [simp]:
  "length (occupied (set_occ i v s)) = length (occupied s)"
  "base (set_occ i v s) = base s"
  "heapLevel (set_occ i v s) = heapLevel s"
  "baseMemory (set_occ i v s) = baseMemory s"
  "pagemem.more (set_occ i v s) = pagemem.more s"
  by (simp_all add: set_occ_def)

text \<open>The state up to the occupancy array.\<close>

definition same_but_occupied :: "'a pagemem_scheme \<Rightarrow> 'a pagemem_scheme \<Rightarrow> bool" where
  "same_but_occupied s t \<longleftrightarrow>
     length (occupied t) = length (occupied s) \<and> base t = base s \<and>
     heapLevel t = heapLevel s \<and> baseMemory t = baseMemory s \<and> pagemem.more t = pagemem.more s"

lemma same_but_occupied_refl [simp]: "same_but_occupied s s"
  by (simp add: same_but_occupied_def)

lemma same_but_occupied_eq: "same_but_occupied s t \<Longrightarrow> t = s\<lparr>occupied := occupied t\<rparr>"
  by (cases s; cases t) (simp add: same_but_occupied_def)

lemma same_but_occupied_set_occ [simp]:
  "same_but_occupied s (set_occ i v t) = same_but_occupied s t"
  by (simp add: same_but_occupied_def)

section \<open>createHeap\<close>

text \<open>Where the node \<open>j\<close> of depth \<open>l\<close> starts, and how long its block is.\<close>

definition node_size :: "nat \<Rightarrow> int" where
  "node_size l = MEMORY div 2 ^ l"

definition node_base :: "nat \<Rightarrow> nat \<Rightarrow> addr" where
  "node_base l j = node_size l * (int j - 2 ^ l) + 0x1000000"

definition at_depth :: "nat \<Rightarrow> nat \<Rightarrow> bool" where
  "at_depth l j \<longleftrightarrow> 2 ^ l \<le> j \<and> j < 2 ^ (l + 1)"

lemma at_depth_unique:
  assumes "at_depth l j" and "at_depth m j"
  shows "l = m"
proof (rule ccontr)
  assume "l \<noteq> m"
  then consider "l + 1 \<le> m" | "m + 1 \<le> l"
    by linarith
  then show False
  proof cases
    case 1
    then have "(2::nat) ^ (l + 1) \<le> 2 ^ m"
      by (rule power_increasing) simp
    with assms show False by (simp add: at_depth_def)
  next
    case 2
    then have "(2::nat) ^ (m + 1) \<le> 2 ^ l"
      by (rule power_increasing) simp
    with assms show False by (simp add: at_depth_def)
  qed
qed

lemma at_depth_exists: "1 \<le> j \<Longrightarrow> \<exists>l. at_depth l j"
  using ex_power_ivl1 [of 2 j] by (auto simp: at_depth_def)

lemma at_depth_HEAPSIZE:
  assumes "at_depth l j" and "j \<le> HEAPSIZE"
  shows "l \<le> 10"
proof (rule ccontr)
  assume "\<not> l \<le> 10"
  then have "(2::nat) ^ 11 \<le> 2 ^ l"
    by (intro power_increasing) simp_all
  with assms show False by (simp add: at_depth_def)
qed

definition heap_built :: "nat \<Rightarrow> 'a pagemem_scheme \<Rightarrow> bool" where
  "heap_built i s \<longleftrightarrow>
     length (occupied s) = HEAPSIZE \<and> length (base s) = HEAPSIZE \<and> baseMemory s = 0x1000000 \<and>
     (\<forall>j l. 1 \<le> j \<longrightarrow> j \<le> i \<longrightarrow> at_depth l j \<longrightarrow> occ s j = EMPTY \<and> base s ! (j - 1) = node_base l j)"

lemma createHeap_loop_step:
  "i < HEAPSIZE \<Longrightarrow> createHeap_loop i level cur mx s =
     (let l' = (if mx = cur then level + 1 else level); c' = (if mx = cur then 0 else cur);
          m' = (if mx = cur then mx * 2 else mx)
      in createHeap_loop (i + 1) l' (c' + 1) m'
           (s\<lparr>occupied := (occupied s)[i := EMPTY],
              base := (base s)[i := getBaseMemoryWithIndex (int i + 1) m' c' s]\<rparr>))"
  by (simp add: createHeap_loop.simps [of i] Let_def)

lemma heap_built_step:
  assumes built: "heap_built i s" and i: "i < HEAPSIZE" and cur: "int i + 1 = 2 ^ l + cur"
    and depth: "at_depth l (i + 1)"
  shows "heap_built (i + 1) (s\<lparr>occupied := (occupied s)[i := EMPTY],
     base := (base s)[i := getBaseMemoryWithIndex (int i + 1) (2 ^ l) cur s]\<rparr>)" (is "heap_built _ ?t")
proof -
  have last: "occ ?t (i + 1) = EMPTY" "base ?t ! i = node_base l (i + 1)"
    using built i cur
    by (simp_all add: occ_def heap_built_def node_base_def node_size_def
        getBaseMemoryWithIndex_def algebra_simps)
  have before: "occ ?t j = occ s j" "base ?t ! (j - 1) = base s ! (j - 1)"
    if "1 \<le> j" "j \<le> i" for j
    using that by (auto simp: occ_def nth_list_update_if)
  have "occ ?t j = EMPTY \<and> base ?t ! (j - 1) = node_base k j"
    if j: "1 \<le> j" "j \<le> i + 1" "at_depth k j" for j k
  proof (cases "j = i + 1")
    case True
    with j(3) depth have "k = l" by (simp add: at_depth_unique)
    with True last show ?thesis by simp
  next
    case False
    with j have "j \<le> i" by simp
    with before j built show ?thesis by (simp add: heap_built_def)
  qed
  with built show ?thesis by (simp add: heap_built_def)
qed

lemma createHeap_loop_built:
  assumes "heap_built i s" and "i \<le> HEAPSIZE" and "int i + 1 = 2 ^ l + cur"
    and "0 \<le> cur" and "cur \<le> 2 ^ l" and "i = HEAPSIZE \<longrightarrow> l = 10"
  shows "heap_built HEAPSIZE (createHeap_loop i (int l + 1) cur (2 ^ l) s) \<and>
    heapLevel (createHeap_loop i (int l + 1) cur (2 ^ l) s) = 11"
  using assms
proof (induction "HEAPSIZE - i" arbitrary: i l cur s)
  case 0
  then have "createHeap_loop i (int l + 1) cur (2 ^ l) s = s\<lparr>heapLevel := int l + 1\<rparr>"
    by (subst createHeap_loop.simps) simp
  with 0 show ?case
    by (simp add: heap_built_def occ_def)
next
  case (Suc n)
  define l' where "l' = (if 2 ^ l = cur then l + 1 else l)"
  define c' where "c' = (if 2 ^ l = cur then 0 else cur)"
  define t where "t = s\<lparr>occupied := (occupied s)[i := EMPTY],
     base := (base s)[i := getBaseMemoryWithIndex (int i + 1) (2 ^ l') c' s]\<rparr>"
  have i: "i < HEAPSIZE" using Suc.hyps(2) by simp
  have step: "createHeap_loop i (int l + 1) cur (2 ^ l) s
      = createHeap_loop (i + 1) (int l' + 1) (c' + 1) (2 ^ l') t"
    using i by (simp add: createHeap_loop_step l'_def c'_def t_def Let_def mult.commute)
  have c': "int i + 1 = 2 ^ l' + c'" "0 \<le> c'" "c' < 2 ^ l'"
    using Suc.prems(3-5) by (auto simp: l'_def c'_def)
  have "int (2 ^ l') \<le> int (i + 1)" "int (i + 1) < int (2 ^ (l' + 1))"
    using c' by simp_all
  then have depth: "at_depth l' (i + 1)"
    unfolding at_depth_def of_nat_le_iff of_nat_less_iff by simp
  have built: "heap_built (i + 1) t"
    unfolding t_def using Suc.prems(1) i c'(1) depth by (rule heap_built_step)
  have top: "l' = 10" if "i + 1 = HEAPSIZE"
    using depth that at_depth_unique [of l' HEAPSIZE 10] by (simp add: at_depth_def)
  show ?case
    unfolding step
    by (rule Suc.hyps(1)) (use Suc.hyps(2) i built c' top in auto)
qed

text \<open>The state the boot leaves in the static arrays before \<open>createHeap\<close>.\<close>

definition arrays_sized :: "'a pagemem_scheme \<Rightarrow> bool" where
  "arrays_sized s \<longleftrightarrow> length (occupied s) = HEAPSIZE \<and> length (base s) = HEAPSIZE"

lemma createHeap_built:
  assumes "arrays_sized s"
  shows "heap_built HEAPSIZE (createHeap s)" and "heapLevel (createHeap s) = 11"
  using assms createHeap_loop_built [of 0 "s\<lparr>baseMemory := 0x1000000\<rparr>" 0 0]
  by (simp_all add: createHeap_def heap_built_def arrays_sized_def)

section \<open>getLevel\<close>

lemma halve_odd:
  "r mod 2 \<noteq> 0 \<Longrightarrow> r div 2 + 1 \<le> x \<Longrightarrow> r \<le> 2 * x"
  "r mod 2 \<noteq> 0 \<Longrightarrow> x < r div 2 + 1 \<Longrightarrow> 2 * x < r" for r x :: nat
  by arith+

lemma halve_even:
  "r mod 2 = 0 \<Longrightarrow> r div 2 \<le> x \<Longrightarrow> r \<le> 2 * x"
  "r mod 2 = 0 \<Longrightarrow> x < r div 2 \<Longrightarrow> 2 * x < r" for r x :: nat
  by arith+

definition log_up :: "nat \<Rightarrow> nat \<Rightarrow> bool" where
  "log_up r k \<longleftrightarrow> r \<le> 2 ^ k \<and> (k = 0 \<or> 2 ^ (k - 1) < r)"

lemma log_up_odd:
  assumes "log_up (r div 2 + 1) k" and "r mod 2 \<noteq> 0" and "2 \<le> r"
  shows "log_up r (Suc k)"
proof -
  have "k \<noteq> 0"
  proof
    assume "k = 0"
    with assms(1,3) show False by (simp add: log_up_def)
  qed
  then have "(2::nat) ^ k = 2 * 2 ^ (k - 1)"
    by (simp add: power_eq_if)
  moreover have "r \<le> 2 * 2 ^ k" "2 * 2 ^ (k - 1) < r"
    using assms \<open>k \<noteq> 0\<close> by (auto simp: log_up_def intro: halve_odd)
  ultimately show ?thesis by (simp add: log_up_def)
qed

lemma log_up_even:
  assumes "log_up (r div 2) k" and "r mod 2 = 0" and "2 \<le> r"
  shows "log_up r (Suc k)"
proof (cases "k = 0")
  case True
  with assms show ?thesis by (auto simp: log_up_def)
next
  case False
  then have "(2::nat) ^ k = 2 * 2 ^ (k - 1)"
    by (simp add: power_eq_if)
  moreover have "r \<le> 2 * 2 ^ k" "2 * 2 ^ (k - 1) < r"
    using assms False by (auto simp: log_up_def intro: halve_even)
  ultimately show ?thesis by (simp add: log_up_def)
qed

lemma getLevel_loop_log:
  "1 \<le> rta \<Longrightarrow> \<exists>k. getLevel_loop rta i = Inr (i + int k) \<and> log_up rta k"
proof (induction rta i rule: getLevel_loop.induct)
  case (1 rta i)
  consider "rta = 1" | "2 \<le> rta" "rta mod 2 \<noteq> 0" | "2 \<le> rta" "rta mod 2 = 0"
    using "1.prems" by linarith
  then show ?case
  proof cases
    case 1
    then show ?thesis
      by (auto simp: getLevel_loop.simps log_up_def intro!: exI [of _ 0])
  next
    case 2
    then obtain k where k: "getLevel_loop (rta div 2 + 1) (i + 1) = Inr (i + 1 + int k)"
        "log_up (rta div 2 + 1) k"
      using "1.IH"(1) by fastforce
    have "getLevel_loop rta i = getLevel_loop (rta div 2 + 1) (i + 1)"
      using 2 by (subst getLevel_loop.simps) simp
    with k 2 log_up_odd [of rta k] show ?thesis
      by (intro exI [of _ "Suc k"]) simp
  next
    case 3
    then obtain k where k: "getLevel_loop (rta div 2) (i + 1) = Inr (i + 1 + int k)"
        "log_up (rta div 2) k"
      using "1.IH"(2) by fastforce
    have "getLevel_loop rta i = getLevel_loop (rta div 2) (i + 1)"
      using 3 by (subst getLevel_loop.simps) simp
    with k 3 log_up_even [of rta k] show ?thesis
      by (intro exI [of _ "Suc k"]) simp
  qed
qed

lemma getLevel_pages:
  assumes "1 \<le> pages" and "pages \<le> NUMBER_OF_PAGES"
  obtains k where "getLevel pages s = Inr (heapLevel s - int k)" "k \<le> 10" "log_up pages k"
proof -
  obtain k where k: "getLevel_loop pages 0 = Inr (int k)" "log_up pages k"
    using getLevel_loop_log [OF assms(1), of 0] by auto
  have "k \<le> 10"
  proof (rule ccontr)
    assume "\<not> k \<le> 10"
    then have "(2::nat) ^ 10 \<le> 2 ^ (k - 1)" by (intro power_increasing) auto
    with k(2) assms(2) \<open>\<not> k \<le> 10\<close> show False by (simp add: log_up_def)
  qed
  with k show thesis by (intro that [of k]) (simp_all add: getLevel_def)
qed

section \<open>One allocation\<close>

definition heap_ok :: "'a pagemem_scheme \<Rightarrow> bool" where
  "heap_ok s \<longleftrightarrow>
     length (occupied s) = HEAPSIZE \<and> length (base s) = HEAPSIZE \<and>
     baseMemory s = 0x1000000 \<and> heapLevel s = 11 \<and>
     (\<forall>i. 1 \<le> i \<longrightarrow> i \<le> HEAPSIZE \<longrightarrow> occ s i \<in> {EMPTY, PARTIALLY_FULL, BUDDY_FULL}) \<and>
     (\<forall>j l. 1 \<le> j \<longrightarrow> j \<le> HEAPSIZE \<longrightarrow> at_depth l j \<longrightarrow> base s ! (j - 1) = node_base l j)"

text \<open>A node that is not empty has ancestors that are not empty.\<close>

definition up_closed :: "'a pagemem_scheme \<Rightarrow> bool" where
  "up_closed s \<longleftrightarrow> (\<forall>i. 2 \<le> i \<longrightarrow> i \<le> HEAPSIZE \<longrightarrow> occ s i \<noteq> EMPTY \<longrightarrow> occ s (i div 2) \<noteq> EMPTY)"

lemma div_pow_Suc: "n div 2 ^ Suc j = n div 2 ^ j div 2" for n :: nat
  by (simp only: power_Suc2 div_mult2_eq)

lemma up_closed_ancestor:
  assumes "up_closed s" and "occ s n \<noteq> EMPTY" and "n \<le> HEAPSIZE" and "1 \<le> n div 2 ^ j"
  shows "occ s (n div 2 ^ j) \<noteq> EMPTY"
  using assms(4)
proof (induction j)
  case 0
  with assms(2) show ?case by simp
next
  case (Suc j)
  have "2 \<le> n div 2 ^ j"
    using Suc.prems by (simp add: div_pow_Suc del: power_Suc)
  moreover have "n div 2 ^ j \<le> HEAPSIZE"
    using assms(3) div_le_dividend le_trans by blast
  ultimately show ?case
    using Suc.IH assms(1) unfolding div_pow_Suc up_closed_def by simp
qed

lemma node_base_pos:
  assumes "at_depth l j"
  shows "node_base l j \<noteq> NULL"
proof -
  have "(2::int) ^ l \<le> int j"
    using assms by (simp add: at_depth_def flip: of_nat_le_iff)
  then have "0 \<le> node_size l * (int j - 2 ^ l)"
    by (simp add: node_size_def pos_imp_zdiv_nonneg_iff)
  then show ?thesis
    unfolding node_base_def by linarith
qed

lemma heap_ok_base_pos: "heap_ok s \<Longrightarrow> 1 \<le> j \<Longrightarrow> j \<le> HEAPSIZE \<Longrightarrow> base s ! (j - 1) \<noteq> NULL"
  using at_depth_exists [of j] node_base_pos by (auto simp: heap_ok_def)

text \<open>
  What a successful search below the node \<open>index\<close>, for a node \<open>k\<close> levels below it, has done: it
  found a node \<open>n\<close> that was empty and had no full node above it, marked it full, and changed only
  nodes between \<open>n\<close> and \<open>index\<close>, all of which are now marked.
\<close>

definition alloc_ok :: "'a pagemem_scheme \<Rightarrow> nat \<Rightarrow> nat \<Rightarrow> nat \<Rightarrow> 'a pagemem_scheme \<Rightarrow> bool" where
  "alloc_ok s index k n t \<longleftrightarrow>
     n div 2 ^ k = index \<and> occ s n = EMPTY \<and> (\<forall>j\<le>k. 0 < j \<longrightarrow> occ s (n div 2 ^ j) \<noteq> BUDDY_FULL) \<and>
     same_but_occupied s t \<and> occ t n = BUDDY_FULL \<and>
     (\<forall>j\<le>k. occ t (n div 2 ^ j) \<in> {PARTIALLY_FULL, BUDDY_FULL}) \<and>
     (\<forall>m\<ge>1. (\<forall>j\<le>k. m \<noteq> n div 2 ^ j) \<longrightarrow> occ t m = occ s m)"

lemma all_le_Suc: "(\<forall>j\<le>Suc k. P j) \<longleftrightarrow> (\<forall>j\<le>k. P j) \<and> P (Suc k)"
  using le_Suc_eq by auto

lemma alloc_ok_path_ge:
  "alloc_ok s index k n t \<Longrightarrow> j \<le> k \<Longrightarrow> index \<le> n div 2 ^ j"
  by (auto simp: alloc_ok_def intro: div_le_mono2 power_increasing)

lemma alloc_ok_up:
  assumes ok: "alloc_ok s c k n t" and c: "c div 2 = index" and index: "1 \<le> index" "index \<le> HEAPSIZE"
    and nf: "occ s index \<noteq> BUDDY_FULL" and len: "length (occupied s) = HEAPSIZE"
    and u: "u = t \<and> occ t index \<in> {PARTIALLY_FULL, BUDDY_FULL} \<or>
        (\<exists>v\<in>{PARTIALLY_FULL, BUDDY_FULL}. u = set_occ index v t)"
  shows "alloc_ok s index (Suc k) n u"
proof -
  have up: "n div 2 ^ Suc k = index"
    using ok c by (simp add: alloc_ok_def div_pow_Suc del: power_Suc)
  have big: "index < n div 2 ^ j" if "j \<le> k" for j
    using alloc_ok_path_ge [OF ok that] c index by auto
  have len': "length (occupied t) = HEAPSIZE"
    using ok len by (simp add: alloc_ok_def same_but_occupied_def)
  have u_occ: "occ u m = occ t m" if "1 \<le> m" "m \<noteq> index" for m
    using u that index len' by auto
  have u_path: "occ u (n div 2 ^ j) = occ t (n div 2 ^ j)" if "j \<le> k" for j
    using big [OF that] index u_occ by simp
  have u_index: "occ u index \<in> {PARTIALLY_FULL, BUDDY_FULL}"
    using u index len' by auto
  have "same_but_occupied s u"
    using ok u by (auto simp: alloc_ok_def)
  moreover have "occ u n = BUDDY_FULL"
    using u_path [of 0] ok by (simp add: alloc_ok_def)
  moreover have "\<forall>j\<le>Suc k. occ u (n div 2 ^ j) \<in> {PARTIALLY_FULL, BUDDY_FULL}"
    unfolding all_le_Suc up using u_path u_index ok by (simp add: alloc_ok_def)
  moreover have "\<forall>j\<le>Suc k. 0 < j \<longrightarrow> occ s (n div 2 ^ j) \<noteq> BUDDY_FULL"
    unfolding all_le_Suc up using nf ok by (simp add: alloc_ok_def)
  moreover have "\<forall>m\<ge>1. (\<forall>j\<le>Suc k. m \<noteq> n div 2 ^ j) \<longrightarrow> occ u m = occ s m"
    unfolding all_le_Suc up using u_occ ok by (simp add: alloc_ok_def)
  ultimately show ?thesis
    using up ok by (simp add: alloc_ok_def del: power_Suc)
qed

lemma alloc_ok_range:
  assumes "alloc_ok s index k n t" and "1 \<le> index" and "(index + 1) * 2 ^ k \<le> 2048"
  shows "1 \<le> n" and "n \<le> HEAPSIZE"
proof -
  have n: "n div 2 ^ k = index"
    using assms(1) by (simp add: alloc_ok_def)
  with assms(2) show "1 \<le> n"
    by (cases "n = 0") auto
  have "n < (index + 1) * 2 ^ k"
    using n dividend_less_div_times [of "2 ^ k" n] by simp
  with assms(3) show "n \<le> HEAPSIZE" by simp
qed

text \<open>The search below a node never leaves the array, and an empty node always has room.\<close>

definition no_room :: "'a pagemem_scheme \<Rightarrow> nat \<Rightarrow> nat \<Rightarrow> bool" where
  "no_room s index k \<longleftrightarrow>
     (\<forall>n. n div 2 ^ k = index \<longrightarrow> occ s n = EMPTY \<longrightarrow> (\<exists>j\<le>k. occ s (n div 2 ^ j) = BUDDY_FULL))"

lemma no_room_full: "occ s index = BUDDY_FULL \<Longrightarrow> no_room s index k"
  by (auto simp: no_room_def)

lemma no_room_children:
  assumes "no_room s (2 * index) k" and "no_room s (2 * index + 1) k"
  shows "no_room s index (Suc k)"
  unfolding no_room_def
proof (intro allI impI)
  fix n
  assume n: "n div 2 ^ Suc k = index" "occ s n = EMPTY"
  then have "n div 2 ^ k = 2 * index \<or> n div 2 ^ k = 2 * index + 1"
    unfolding div_pow_Suc by linarith
  with assms n(2) obtain j where "j \<le> k" "occ s (n div 2 ^ j) = BUDDY_FULL"
    by (auto simp: no_room_def)
  then show "\<exists>j\<le>Suc k. occ s (n div 2 ^ j) = BUDDY_FULL"
    using le_SucI by blast
qed

lemma getNextPageRecursive_leaf:
  assumes "heap_ok s" and "1 \<le> index" and "index \<le> HEAPSIZE"
  shows "(getNextPageRecursive index cl cl s = Inr (NULL, s) \<and> occ s index \<noteq> EMPTY) \<or>
         (\<exists>t. getNextPageRecursive index cl cl s = Inr (base s ! (index - 1), t) \<and>
           alloc_ok s index 0 index t)"
proof -
  have "occ s index \<in> {EMPTY, PARTIALLY_FULL, BUDDY_FULL}" "length (occupied s) = HEAPSIZE"
    using assms by (simp_all add: heap_ok_def)
  with assms(2,3) show ?thesis
    by (subst (1 2) getNextPageRecursive.simps) (auto simp: alloc_ok_def)
qed

lemma getNextPageRecursive_node:
  assumes "1 \<le> index" and "index \<le> HEAPSIZE" and "occ s index \<noteq> BUDDY_FULL" and "cl \<noteq> level"
  shows "getNextPageRecursive index cl level s =
     (case getNextPageRecursive (2 * index) (cl + 1) level s of
        Inl e \<Rightarrow> Inl e
      | Inr (l, s1) \<Rightarrow>
          if l = NULL then
            (case getNextPageRecursive (2 * index + 1) (cl + 1) level s1 of
               Inl e \<Rightarrow> Inl e
             | Inr (r, s2) \<Rightarrow>
                 if r = NULL then Inr (NULL, s2)
                 else if occ s2 (2 * index + 1) = BUDDY_FULL
                 then Inr (r, set_occ index BUDDY_FULL s2) else Inr (r, s2))
          else Inr (l, set_occ index PARTIALLY_FULL s1))"
  using assms by (subst getNextPageRecursive.simps) simp

lemma getNextPageRecursive_spec:
  assumes "heap_ok s" and "up_closed s" and "1 \<le> index" and "(index + 1) * 2 ^ k \<le> 2048"
  shows "(getNextPageRecursive index cl (cl + int k) s = Inr (NULL, s) \<and> occ s index \<noteq> EMPTY \<and>
           no_room s index k) \<or>
         (\<exists>n t. getNextPageRecursive index cl (cl + int k) s = Inr (base s ! (n - 1), t) \<and>
           alloc_ok s index k n t)"
  using assms(3,4)
proof (induction k arbitrary: index cl)
  case 0
  then have "index \<le> HEAPSIZE" by simp
  with 0 getNextPageRecursive_leaf [OF assms(1) 0(1), of cl] show ?case
    by (auto simp: no_room_def)
next
  case (Suc k)
  have range: "1 \<le> 2 * index" "(2 * index + 1) * 2 ^ k \<le> 2048"
      "1 \<le> 2 * index + 1" "(2 * index + 1 + 1) * 2 ^ k \<le> 2048"
    using Suc.prems by (auto simp: algebra_simps)
  have "(2 * index + 1 + 1) * 1 \<le> (2 * index + 1 + 1) * 2 ^ k"
    by (rule mult_le_mono2) simp
  from le_trans [OF this range(4)] have child: "2 * index + 1 \<le> HEAPSIZE" by simp
  then have index: "index \<le> HEAPSIZE" by simp
  have lev: "cl + int (Suc k) = cl + 1 + int k" by simp
  have len: "length (occupied s) = HEAPSIZE" using assms(1) by (simp add: heap_ok_def)
  show ?case
  proof (cases "occ s index = BUDDY_FULL")
    case True
    then have "getNextPageRecursive index cl (cl + int (Suc k)) s = Inr (NULL, s)"
      using Suc.prems(1) index by (subst getNextPageRecursive.simps) simp
    with True no_room_full show ?thesis by fastforce
  next
    case False
    have node: "getNextPageRecursive index cl (cl + int (Suc k)) s =
       (case getNextPageRecursive (2 * index) (cl + 1) (cl + 1 + int k) s of
          Inl e \<Rightarrow> Inl e
        | Inr (l, s1) \<Rightarrow>
            if l = NULL then
              (case getNextPageRecursive (2 * index + 1) (cl + 1) (cl + 1 + int k) s1 of
                 Inl e \<Rightarrow> Inl e
               | Inr (r, s2) \<Rightarrow>
                   if r = NULL then Inr (NULL, s2)
                   else if occ s2 (2 * index + 1) = BUDDY_FULL
                   then Inr (r, set_occ index BUDDY_FULL s2) else Inr (r, s2))
            else Inr (l, set_occ index PARTIALLY_FULL s1))"
      unfolding lev by (rule getNextPageRecursive_node [OF Suc.prems(1) index False]) simp
    from Suc.IH [OF range(1,2), of "cl + 1"]
    consider (left) n t where "getNextPageRecursive (2 * index) (cl + 1) (cl + 1 + int k) s =
          Inr (base s ! (n - 1), t)" "alloc_ok s (2 * index) k n t"
      | (none) "getNextPageRecursive (2 * index) (cl + 1) (cl + 1 + int k) s = Inr (NULL, s)"
          "occ s (2 * index) \<noteq> EMPTY" "no_room s (2 * index) k"
      by blast
    then show ?thesis
    proof cases
      case left
      have "base s ! (n - 1) \<noteq> NULL"
        using heap_ok_base_pos [OF assms(1) alloc_ok_range [OF left(2) range(1,2)]] .
      with left node have "getNextPageRecursive index cl (cl + int (Suc k)) s =
          Inr (base s ! (n - 1), set_occ index PARTIALLY_FULL t)" by simp
      moreover have "alloc_ok s index (Suc k) n (set_occ index PARTIALLY_FULL t)"
        using left(2) _ Suc.prems(1) index False len by (rule alloc_ok_up) auto
      ultimately show ?thesis by blast
    next
      case none
      have ne: "occ s index \<noteq> EMPTY"
        using none(2) assms(2) Suc.prems(1) child
        unfolding up_closed_def by (auto dest: spec [of _ "2 * index"])
      from Suc.IH [OF range(3,4), of "cl + 1"]
      consider (right) n t where "getNextPageRecursive (2 * index + 1) (cl + 1) (cl + 1 + int k) s =
            Inr (base s ! (n - 1), t)" "alloc_ok s (2 * index + 1) k n t"
        | (noright) "getNextPageRecursive (2 * index + 1) (cl + 1) (cl + 1 + int k) s = Inr (NULL, s)"
            "no_room s (2 * index + 1) k"
        by blast
      then show ?thesis
      proof cases
        case right
        have "base s ! (n - 1) \<noteq> NULL"
          using heap_ok_base_pos [OF assms(1) alloc_ok_range [OF right(2) range(3,4)]] .
        define u where "u = (if occ t (2 * index + 1) = BUDDY_FULL then set_occ index BUDDY_FULL t else t)"
        have "getNextPageRecursive index cl (cl + int (Suc k)) s = Inr (base s ! (n - 1), u)"
          using right none(1) node \<open>base s ! (n - 1) \<noteq> NULL\<close> by (simp add: u_def)
        moreover have t_index: "occ t index = occ s index"
        proof -
          have "index \<noteq> n div 2 ^ j" if "j \<le> k" for j
            using alloc_ok_path_ge [OF right(2) that] by linarith
          with right(2) Suc.prems(1) show ?thesis unfolding alloc_ok_def by blast
        qed
        have "alloc_ok s index (Suc k) n u"
          using right(2) _ Suc.prems(1) index False len
          by (rule alloc_ok_up) (use t_index ne assms(1) Suc.prems(1) index in \<open>auto simp: u_def heap_ok_def\<close>)
        ultimately show ?thesis by blast
      next
        case noright
        have "getNextPageRecursive index cl (cl + int (Suc k)) s = Inr (NULL, s)"
          using noright(1) none(1) node by simp
        with ne no_room_children [OF none(3) noright(2)] show ?thesis by blast
      qed
    qed
  qed
qed


section \<open>Allocations keep the heap in order\<close>

lemma alloc_ok_full:
  assumes "alloc_ok s index k n t" and "1 \<le> m" and "occ s m = BUDDY_FULL"
  shows "occ t m = BUDDY_FULL"
proof (cases "\<exists>j\<le>k. m = n div 2 ^ j")
  case True
  then obtain j where "j \<le> k" "m = n div 2 ^ j" by blast
  with assms show ?thesis by (cases "j = 0") (auto simp: alloc_ok_def)
next
  case False
  with assms show ?thesis by (auto simp: alloc_ok_def)
qed

lemma alloc_ok_up_closed:
  assumes up: "up_closed s" and ok: "alloc_ok s 1 k n t"
  shows "up_closed t"
  unfolding up_closed_def
proof (intro allI impI)
  fix i
  assume i: "2 \<le> i" "i \<le> HEAPSIZE" "occ t i \<noteq> EMPTY"
  have marked: "occ t (n div 2 ^ j) \<noteq> EMPTY" if "j \<le> k" for j
    using ok that by (auto simp: alloc_ok_def)
  have off: "occ t m = occ s m" if "1 \<le> m" "\<forall>j\<le>k. m \<noteq> n div 2 ^ j" for m
    using ok that by (auto simp: alloc_ok_def)
  show "occ t (i div 2) \<noteq> EMPTY"
  proof (cases "\<exists>j\<le>k. i div 2 = n div 2 ^ j")
    case True
    with marked show ?thesis by fastforce
  next
    case False
    have "i \<noteq> n div 2 ^ j" if "j \<le> k" for j
    proof
      assume i_eq: "i = n div 2 ^ j"
      with that False have "\<not> Suc j \<le> k"
        by (metis div_pow_Suc)
      with that have "j = k" by simp
      with i_eq ok i(1) show False by (simp add: alloc_ok_def)
    qed
    with off [of i] i have "occ s i \<noteq> EMPTY" by simp
    with up i have "occ s (i div 2) \<noteq> EMPTY" by (simp add: up_closed_def)
    with off [of "i div 2"] False i(1) show ?thesis by simp
  qed
qed

lemma alloc_ok_heap_ok:
  assumes "heap_ok s" and "alloc_ok s 1 k n t"
  shows "heap_ok t"
proof -
  have "occ t i \<in> {EMPTY, PARTIALLY_FULL, BUDDY_FULL}" if "1 \<le> i" "i \<le> HEAPSIZE" for i
  proof (cases "\<exists>j\<le>k. i = n div 2 ^ j")
    case True
    with assms(2) show ?thesis by (auto simp: alloc_ok_def)
  next
    case False
    with assms that show ?thesis by (simp add: alloc_ok_def heap_ok_def)
  qed
  with assms show ?thesis
    by (simp add: heap_ok_def alloc_ok_def same_but_occupied_def)
qed

lemma alloc_ok_depth: "alloc_ok s 1 k n t \<Longrightarrow> at_depth k n"
proof -
  assume "alloc_ok s 1 k n t"
  then have n: "n div 2 ^ k = 1" by (simp add: alloc_ok_def)
  have "n < 1 * 2 ^ k + 2 ^ k"
    using dividend_less_div_times [of "2 ^ k" n] n by simp
  moreover have "n div 2 ^ k * 2 ^ k \<le> n" by (rule div_times_less_eq_dividend)
  ultimately show "at_depth k n" using n by (simp add: at_depth_def)
qed

text \<open>One call of \<open>allocPage\<close> on a heap in order.\<close>

lemma allocPage_cases:
  assumes "heap_ok s" and "up_closed s"
  obtains (refused) "pages = 0 \<or> NUMBER_OF_PAGES < pages" "allocPage pages s = Inr (NULL, s)"
  | (full) k where "1 \<le> pages" "pages \<le> NUMBER_OF_PAGES" "k \<le> 10" "log_up pages k"
      "allocPage pages s = Inr (NULL, s)" "no_room s 1 (10 - k)"
  | (block) k n t where "1 \<le> pages" "pages \<le> NUMBER_OF_PAGES" "k \<le> 10" "log_up pages k"
      "allocPage pages s = Inr (node_base (10 - k) n, t)" "alloc_ok s 1 (10 - k) n t"
proof (cases "pages = 0 \<or> NUMBER_OF_PAGES < pages")
  case True
  then have "allocPage pages s = Inr (NULL, s)" by (auto simp: allocPage_def)
  with True show thesis by (rule refused)
next
  case False
  then have pages: "1 \<le> pages" "pages \<le> NUMBER_OF_PAGES" by auto
  then obtain k where k: "getLevel pages s = Inr (heapLevel s - int k)" "k \<le> 10" "log_up pages k"
    by (rule getLevel_pages)
  have level: "heapLevel s = 11" using assms(1) by (simp add: heap_ok_def)
  with k(2) have lev: "11 - int k = 1 + int (10 - k)" by simp
  have alloc: "allocPage pages s = getNextPageRecursive 1 1 (1 + int (10 - k)) s"
  proof -
    have "allocPage pages s = getNextPageRecursive 1 1 (heapLevel s - int k) s"
      using False k(1) by (simp add: allocPage_def)
    then show ?thesis unfolding level lev .
  qed
  have "(2::nat) ^ (10 - k) \<le> 2 ^ 10" by (rule power_increasing) auto
  then have size: "(1 + 1) * 2 ^ (10 - k) \<le> (2048::nat)" by simp
  from getNextPageRecursive_spec [OF assms order_refl size, of 1]
  consider "getNextPageRecursive 1 1 (1 + int (10 - k)) s = Inr (NULL, s)" "no_room s 1 (10 - k)"
    | n t where "getNextPageRecursive 1 1 (1 + int (10 - k)) s = Inr (base s ! (n - 1), t)"
        "alloc_ok s 1 (10 - k) n t"
    by blast
  then show thesis
  proof cases
    case 1
    from alloc 1(1) have "allocPage pages s = Inr (NULL, s)" by (rule trans)
    with pages k(2,3) show thesis using 1(2) by (rule full)
  next
    case (2 n t)
    have "base s ! (n - 1) = node_base (10 - k) n"
      using assms(1) alloc_ok_range [OF 2(2) order_refl size] alloc_ok_depth [OF 2(2)]
      by (simp add: heap_ok_def)
    with alloc 2(1) have "allocPage pages s = Inr (node_base (10 - k) n, t)" by (simp only:)
    with pages k(2,3) show thesis using 2(2) by (rule block)
  qed
qed

section \<open>Disjoint blocks\<close>

lemma node_size_pow: "d \<le> 10 \<Longrightarrow> node_size d = 2 ^ (22 - d)"
proof -
  assume d: "d \<le> 10"
  have "MEMORY = 2 ^ (22 - d) * 2 ^ d"
    using d by (simp flip: power_add)
  then show ?thesis
    unfolding node_size_def by (metis nonzero_mult_div_cancel_right power_not_zero zero_neq_numeral)
qed

definition node_range :: "nat \<Rightarrow> nat \<Rightarrow> addr set" where
  "node_range d n = {node_base d n ..< node_base d n + node_size d}"

lemma node_range_same_depth:
  assumes "m \<noteq> n"
  shows "node_range d m \<inter> node_range d n = {}"
proof -
  have "0 \<le> node_size d" by (simp add: node_size_def pos_imp_zdiv_nonneg_iff)
  have *: "node_base d m + node_size d \<le> node_base d n" if "m < n" for m n
  proof -
    have "node_size d * (int m - 2 ^ d + 1) \<le> node_size d * (int n - 2 ^ d)"
      using that \<open>0 \<le> node_size d\<close> by (intro mult_left_mono) auto
    then show ?thesis by (simp add: node_base_def algebra_simps)
  qed
  from assms consider "m < n" | "n < m" by linarith
  then show ?thesis
    by cases (use * in \<open>fastforce simp: node_range_def\<close>)+
qed

lemma node_range_ancestor:
  assumes "d \<le> 10" and "e \<le> d"
  shows "node_range d n \<subseteq> node_range (d - e) (n div 2 ^ e)"
proof -
  define m r where "m = n div 2 ^ e" and "r = n mod 2 ^ e"
  have n: "int n = int m * 2 ^ e + int r" and r: "int r < 2 ^ e"
  proof -
    have "n = m * 2 ^ e + r"
      unfolding m_def r_def by (rule div_mult_mod_eq [symmetric])
    then have "int n = int (m * 2 ^ e + r)" by simp
    then show "int n = int m * 2 ^ e + int r" by simp
    have "r < 2 ^ e" by (simp add: r_def)
    then have "int r < int (2 ^ e)" by (simp only: of_nat_less_iff)
    then show "int r < 2 ^ e" by simp
  qed
  let ?S = "node_size d"
  have pos: "0 \<le> ?S" by (simp add: node_size_def pos_imp_zdiv_nonneg_iff)
  have S: "node_size (d - e) = ?S * 2 ^ e"
    using assms by (simp add: node_size_pow flip: power_add)
  have d: "(2::int) ^ d = 2 ^ (d - e) * 2 ^ e"
    using assms(2) by (simp flip: power_add)
  have base: "node_base d n = node_base (d - e) m + ?S * int r"
    unfolding node_base_def S n d by (simp add: algebra_simps)
  have "?S * int r + ?S \<le> ?S * 2 ^ e"
  proof -
    from r have "int r + 1 \<le> 2 ^ e" by linarith
    then have "?S * (int r + 1) \<le> ?S * 2 ^ e"
      using pos by (rule mult_left_mono)
    then show ?thesis by (simp add: algebra_simps)
  qed
  then show ?thesis
    unfolding node_range_def base S m_def [symmetric] using pos by auto
qed

definition unrelated :: "nat \<times> nat \<times> nat \<Rightarrow> nat \<times> nat \<times> nat \<Rightarrow> bool" where
  "unrelated b c \<longleftrightarrow>
     (\<forall>j. fst (snd b) div 2 ^ j \<noteq> fst (snd c)) \<and> (\<forall>j. fst (snd c) div 2 ^ j \<noteq> fst (snd b))"

lemma unrelated_sym: "unrelated b c \<Longrightarrow> unrelated c b"
  by (simp add: unrelated_def)

lemma node_range_disjoint:
  assumes "d \<le> 10" and "d' \<le> 10" and "unrelated (d, n, p) (d', n', p')"
  shows "node_range d n \<inter> node_range d' n' = {}"
proof -
  have *: "node_range d n \<inter> node_range d' n' = {}"
    if "d' \<le> 10" "d \<le> d'" "\<forall>j. n' div 2 ^ j \<noteq> n" for d d' n n' :: nat
  proof -
    have "node_range d' n' \<subseteq> node_range d (n' div 2 ^ (d' - d))"
      using node_range_ancestor [of d' "d' - d" n'] that by simp
    moreover have "node_range d n \<inter> node_range d (n' div 2 ^ (d' - d)) = {}"
      using that(3) by (intro node_range_same_depth) metis
    ultimately show ?thesis by blast
  qed
  show ?thesis
    using * [of d' d n' n] * [of d d' n n'] assms
    by (cases "d \<le> d'") (auto simp: unrelated_def Int_commute)
qed

text \<open>A block is an address and the number of pages that was asked for.\<close>

definition block_range :: "addr \<times> nat \<Rightarrow> addr set" where
  "block_range b = {fst b ..< fst b + PAGE_SIZE * int (snd b)}"

definition managed :: "addr set" where
  "managed = {0x1000000 ..< 0x1000000 + MEMORY}"

text \<open>
  The allocated blocks of a heap are the ranges of a list of full nodes, none of which lies above
  another.
\<close>

definition node_block :: "nat \<times> nat \<times> nat \<Rightarrow> addr \<times> nat" where
  "node_block g = (case g of (d, n, p) \<Rightarrow> (node_base d n, p))"

definition good_node :: "'a pagemem_scheme \<Rightarrow> nat \<times> nat \<times> nat \<Rightarrow> bool" where
  "good_node s g \<longleftrightarrow> (case g of (d, n, p) \<Rightarrow>
     d \<le> 10 \<and> at_depth d n \<and> p \<le> 2 ^ (10 - d) \<and> occ s n = BUDDY_FULL)"

definition blocks_inv :: "(addr \<times> nat) list \<Rightarrow> 'a pagemem_scheme \<Rightarrow> bool" where
  "blocks_inv bs s \<longleftrightarrow> heap_ok s \<and> up_closed s \<and>
     (\<exists>gs. bs = map node_block gs \<and> (\<forall>g\<in>set gs. good_node s g) \<and> sorted_wrt unrelated gs)"

lemma good_node_range:
  assumes "good_node s (d, n, p)"
  shows "block_range (node_block (d, n, p)) \<subseteq> node_range d n" and "node_range d n \<subseteq> managed"
proof -
  have g: "d \<le> 10" "at_depth d n" "p \<le> 2 ^ (10 - d)"
    using assms by (simp_all add: good_node_def)
  from g(3) have "int p \<le> int (2 ^ (10 - d))" by (simp only: of_nat_le_iff)
  then have "PAGE_SIZE * int p \<le> 2 ^ 12 * 2 ^ (10 - d)" by simp
  also have "\<dots> = (2::int) ^ (12 + (10 - d))" by (simp only: power_add)
  also have "12 + (10 - d) = 22 - d" using g(1) by simp
  also have "(2::int) ^ (22 - d) = node_size d" using g(1) by (simp add: node_size_pow)
  finally show "block_range (node_block (d, n, p)) \<subseteq> node_range d n"
    by (auto simp: block_range_def node_block_def node_range_def)
  have "n div 2 ^ d = 1"
    using g(2) by (auto simp: at_depth_def intro: div_nat_eqI)
  then have "node_range d n \<subseteq> node_range 0 1"
    using node_range_ancestor [OF g(1) order_refl, of n] by simp
  also have "\<dots> = managed"
    by (simp add: node_range_def node_base_def node_size_def managed_def)
  finally show "node_range d n \<subseteq> managed" .
qed

lemma blocks_inv_disjoint:
  assumes "blocks_inv bs s"
  shows "sorted_wrt (\<lambda>b c. block_range b \<inter> block_range c = {}) bs"
proof -
  obtain gs where gs: "bs = map node_block gs" "\<forall>g\<in>set gs. good_node s g" "sorted_wrt unrelated gs"
    using assms by (auto simp: blocks_inv_def)
  have "sorted_wrt (\<lambda>g h. block_range (node_block g) \<inter> block_range (node_block h) = {}) gs"
  proof (rule sorted_wrt_mono_rel [OF _ gs(3)])
    fix g h
    assume gh: "g \<in> set gs" "h \<in> set gs" "unrelated g h"
    obtain d n p d' n' p' where [simp]: "g = (d, n, p)" "h = (d', n', p')"
      by (cases g, cases h) auto
    from gh gs(2) have good: "good_node s (d, n, p)" "good_node s (d', n', p')" by auto
    then have "node_range d n \<inter> node_range d' n' = {}"
      using gh(3) by (intro node_range_disjoint) (auto simp: good_node_def)
    with good_node_range(1) [OF good(1)] good_node_range(1) [OF good(2)]
    show "block_range (node_block g) \<inter> block_range (node_block h) = {}" by auto
  qed
  then show ?thesis by (simp add: gs(1) sorted_wrt_map)
qed

lemma blocks_inv_managed:
  assumes "blocks_inv bs s" and "b \<in> set bs"
  shows "block_range b \<subseteq> managed"
proof -
  obtain g where "b = node_block g" "good_node s g"
    using assms by (auto simp: blocks_inv_def)
  then show ?thesis
    using good_node_range by (cases g) blast
qed

lemma blocks_inv_createHeap:
  assumes "arrays_sized s"
  shows "blocks_inv [] (createHeap s)"
proof -
  have built: "heap_built HEAPSIZE (createHeap s)" "heapLevel (createHeap s) = 11"
    using createHeap_built [OF assms] .
  have empty: "occ (createHeap s) i = EMPTY" if "1 \<le> i" "i \<le> HEAPSIZE" for i
    using built(1) that at_depth_exists [of i] by (auto simp: heap_built_def)
  from built empty have "heap_ok (createHeap s)"
    by (simp add: heap_ok_def heap_built_def)
  moreover have "up_closed (createHeap s)"
    using empty by (simp add: up_closed_def)
  ultimately show ?thesis by (simp add: blocks_inv_def)
qed

lemma blocks_inv_alloc:
  assumes inv: "blocks_inv bs s"
  obtains r t where "allocPage p s = Inr (r, t)"
    "blocks_inv (if r = NULL then bs else (r, p) # bs) t"
proof -
  obtain gs where gs: "bs = map node_block gs" "\<forall>g\<in>set gs. good_node s g" "sorted_wrt unrelated gs"
    and ok: "heap_ok s" "up_closed s"
    using inv by (auto simp: blocks_inv_def)
  from ok show thesis
  proof (cases rule: allocPage_cases [of s p])
    case refused
    with inv that show thesis by simp
  next
    case full
    with inv that show thesis by simp
  next
    case (block k n t)
    let ?g = "(10 - k, n, p)"
    have depth: "at_depth (10 - k) n"
      using block(6) by (rule alloc_ok_depth)
    have n: "1 \<le> n" "n \<le> HEAPSIZE"
    proof -
      have "(2::nat) ^ (10 - k) \<le> 2 ^ 10" by (rule power_increasing) auto
      then have "(1 + 1) * 2 ^ (10 - k) \<le> (2048::nat)" by simp
      from alloc_ok_range [OF block(6) order_refl this] show "1 \<le> n" "n \<le> HEAPSIZE" .
    qed
    have good: "good_node t ?g"
      using block depth by (simp add: good_node_def alloc_ok_def log_up_def)
    have keep: "good_node t g" if "g \<in> set gs" for g
    proof -
      obtain d m q where g: "g = (d, m, q)" by (cases g)
      with that gs(2) have m: "at_depth d m" "occ s m = BUDDY_FULL" "good_node s g"
        by (auto simp: good_node_def)
      then have "1 \<le> m" by (simp add: at_depth_def Suc_le_eq)
      with alloc_ok_full [OF block(6)] m g show ?thesis by (simp add: good_node_def)
    qed
    have new: "unrelated ?g g" if "g \<in> set gs" for g
    proof -
      obtain d m q where g: "g = (d, m, q)" by (cases g)
      with that gs(2) have m: "at_depth d m" "d \<le> 10" "occ s m = BUDDY_FULL"
        by (auto simp: good_node_def)
      have mpos: "1 \<le> m" using m(1) by (simp add: at_depth_def Suc_le_eq)
      have "n div 2 ^ j \<noteq> m" for j
      proof (cases "j \<le> 10 - k")
        case True
        with block(6) m(3) show ?thesis by (cases "j = 0") (auto simp: alloc_ok_def)
      next
        case False
        then have "n < 2 ^ j"
          using depth power_increasing [of "10 - k + 1" j "2::nat"] by (simp add: at_depth_def)
        with mpos show ?thesis by simp
      qed
      moreover have "m div 2 ^ j \<noteq> n" for j
      proof
        assume mj: "m div 2 ^ j = n"
        have "m < 2 ^ 11"
          using m(1,2) power_increasing [of "d + 1" 11 "2::nat"] by (simp add: at_depth_def)
        then have "occ s (m div 2 ^ j) \<noteq> EMPTY"
          using up_closed_ancestor [OF ok(2), of m j] m(3) mj n by simp
        with mj block(6) show False by (simp add: alloc_ok_def)
      qed
      ultimately show ?thesis by (simp add: unrelated_def g)
    qed
    have "node_base (10 - k) n \<noteq> NULL"
      using depth by (rule node_base_pos)
    moreover have "blocks_inv ((node_base (10 - k) n, p) # bs) t"
      unfolding blocks_inv_def
      using alloc_ok_heap_ok [OF ok(1) block(6)] alloc_ok_up_closed [OF ok(2) block(6)]
        good keep new gs by (intro conjI exI [of _ "?g # gs"]) (auto simp: node_block_def)
    ultimately show thesis using block(5) that by simp
  qed
qed

section \<open>The allocator's contract\<close>

text \<open>
  What the rest of the kernel relies on when it asks for pages: from a heap in order every request
  returns, and a block that is handed out shares no byte with the blocks handed out before it.
\<close>

locale page_source =
  fixes alloc :: "nat \<Rightarrow> 's \<Rightarrow> fault + (addr \<times> 's)"
    and inv :: "(addr \<times> nat) list \<Rightarrow> 's \<Rightarrow> bool"
  assumes alloc_returns:
      "inv bs s \<Longrightarrow> \<exists>r t. alloc p s = Inr (r, t) \<and> inv (if r = NULL then bs else (r, p) # bs) t"
    and inv_disjoint: "inv bs s \<Longrightarrow> sorted_wrt (\<lambda>b c. block_range b \<inter> block_range c = {}) bs"
    and inv_managed: "inv bs s \<Longrightarrow> b \<in> set bs \<Longrightarrow> block_range b \<subseteq> managed"
begin

lemma fresh:
  assumes "inv bs s" and "alloc p s = Inr (r, t)" and "r \<noteq> NULL" and "b \<in> set bs"
  shows "block_range (r, p) \<inter> block_range b = {}"
proof -
  have "inv ((r, p) # bs) t"
    using alloc_returns [OF assms(1), of p] assms(2,3) by auto
  from inv_disjoint [OF this] assms(4) show ?thesis by simp
qed

lemma fresh_address:
  assumes "inv bs s" and "alloc p s = Inr (r, t)" and "r \<noteq> NULL" and "0 < p"
    and "b \<in> set bs" and "0 < snd b"
  shows "r \<noteq> fst b"
  using fresh [OF assms(1-3,5)] assms(4,6) by (auto simp: block_range_def)

end

interpretation buddy: page_source "allocPage :: nat \<Rightarrow> ('a pagemem_scheme, addr) eprog" blocks_inv
proof unfold_locales
  fix bs p and s :: "'a pagemem_scheme"
  assume "blocks_inv bs s"
  then show "\<exists>r t. allocPage p s = Inr (r, t) \<and> blocks_inv (if r = NULL then bs else (r, p) # bs) t"
    by (metis blocks_inv_alloc)
qed (fact blocks_inv_disjoint, fact blocks_inv_managed)

text \<open>A run of requests, with the blocks it was given, the latest first.\<close>

fun alloc_seq :: "nat list \<Rightarrow> (addr \<times> nat) list \<Rightarrow> ('a pagemem_scheme, (addr \<times> nat) list) eprog" where
  "alloc_seq [] bs s = Inr (bs, s)"
| "alloc_seq (p # ps) bs s =
     (case allocPage p s of
        Inl e \<Rightarrow> Inl e
      | Inr (r, t) \<Rightarrow> alloc_seq ps (if r = NULL then bs else (r, p) # bs) t)"

lemma alloc_seq_inv:
  "blocks_inv bs s \<Longrightarrow> \<exists>cs t. alloc_seq ps bs s = Inr (cs, t) \<and> blocks_inv cs t"
proof (induction ps arbitrary: bs s)
  case (Cons p ps)
  with buddy.alloc_returns [OF Cons.prems, of p] show ?case by auto
qed auto

text \<open>
  The allocator reads and writes the page arrays only, so what it does does not depend on the rest
  of the kernel's state.
\<close>

lemma getNextPageRecursive_base:
  "getNextPageRecursive index currentLevel level s = Inr (r, t) \<Longrightarrow> base t = base s"
proof (induction index currentLevel level s arbitrary: r t rule: getNextPageRecursive.induct)
  case (1 index currentLevel level s)
  show ?case
  proof (cases "index = 0 \<or> HEAPSIZE < index \<or> occ s index = BUDDY_FULL \<or> currentLevel = level")
    case True
    with 1(3) show ?thesis by (subst (asm) getNextPageRecursive.simps) (auto split: if_splits)
  next
    case False
    then have g: "\<not> (index = 0 \<or> HEAPSIZE < index)" "occ s index \<noteq> BUDDY_FULL" "currentLevel \<noteq> level"
      by auto
    have L: "base s1 = base s"
      if "getNextPageRecursive (2 * index) (currentLevel + 1) level s = Inr (l, s1)" for l s1
      using 1(1) [OF g that] .
    have R: "base s2 = base s"
      if "getNextPageRecursive (2 * index) (currentLevel + 1) level s = Inr (NULL, s1)"
        "getNextPageRecursive (Suc (2 * index)) (currentLevel + 1) level s1 = Inr (l, s2)" for l s1 s2
      using 1(2) [OF g that(1) refl refl] that(2) L [OF that(1)] by simp
    from 1(3) show ?thesis
      by (subst (asm) getNextPageRecursive.simps)
        (use g in \<open>auto split: if_splits sum.splits prod.splits dest: R L\<close>)
  qed
qed

lemma getNextPageRecursive_indep:
  assumes "occupied s' = occupied s" and "base s' = base s"
  shows "getNextPageRecursive index currentLevel level s' =
    map_sum id (\<lambda>(r, t). (r, s'\<lparr>occupied := occupied t\<rparr>)) (getNextPageRecursive index currentLevel level s)"
  using assms
proof (induction index currentLevel level s arbitrary: s' rule: getNextPageRecursive.induct)
  case (1 index currentLevel level s)
  have occ: "occ s' i = occ s i" for i using 1(3) by (simp add: occ_def)
  have upd: "s'\<lparr>occupied := occupied s\<rparr> = s'" using 1(3) by simp
  consider (stop) "index = 0 \<or> HEAPSIZE < index \<or> occ s index = BUDDY_FULL \<or> currentLevel = level"
    | (rec) "\<not> (index = 0 \<or> HEAPSIZE < index)" "occ s index \<noteq> BUDDY_FULL" "currentLevel \<noteq> level" by blast
  then show ?case
  proof cases
    case stop
    then show ?thesis
      using 1(3,4) by (auto simp: getNextPageRecursive.simps [of index] occ set_occ_def)
  next
    case rec
    show ?thesis
    proof (cases "getNextPageRecursive (2 * index) (currentLevel + 1) level s")
      case (Inl e)
      with 1(1) [OF rec 1(3,4)] rec show ?thesis
        by (simp add: getNextPageRecursive.simps [of index] occ)
    next
      case (Inr z)
      obtain l s1 where z: "z = (l, s1)" by (cases z)
      have L: "getNextPageRecursive (2 * index) (currentLevel + 1) level s' =
          Inr (l, s'\<lparr>occupied := occupied s1\<rparr>)"
        using 1(1) [OF rec 1(3,4)] Inr z by simp
      show ?thesis
      proof (cases "l = NULL")
        case False
        with Inr L z rec show ?thesis
          by (simp add: getNextPageRecursive.simps [of index] occ set_occ_def)
      next
        case True
        have b: "base (s'\<lparr>occupied := occupied s1\<rparr>) = base s1"
          using 1(4) getNextPageRecursive_base [OF Inr [unfolded z]] by simp
        note IH = 1(2) [OF rec Inr z [symmetric] True, of "s'\<lparr>occupied := occupied s1\<rparr>", OF _ b]
        show ?thesis
        proof (cases "getNextPageRecursive (2 * index + 1) (currentLevel + 1) level s1")
          case (Inl e)
          with IH Inr L True rec show ?thesis
            using \<open>getNextPageRecursive (2 * index) (currentLevel + 1) level s = Inr z\<close> z
            by (simp add: getNextPageRecursive.simps [of index] occ)
        next
          case (Inr y)
          with IH L True rec show ?thesis
            using \<open>getNextPageRecursive (2 * index) (currentLevel + 1) level s = Inr z\<close> z
            by (cases y) (simp add: getNextPageRecursive.simps [of index] occ_def set_occ_def 1(3))
        qed
      qed
    qed
  qed
qed

lemma allocPage_indep:
  assumes "occupied s' = occupied s" and "base s' = base s" and "heapLevel s' = heapLevel s"
    and "allocPage p s = Inr (r, t)"
  shows "allocPage p s' = Inr (r, s'\<lparr>occupied := occupied t\<rparr>)"
proof -
  have "getLevel p s' = getLevel p s" using assms(3) by (simp add: getLevel_def)
  moreover have "s'\<lparr>occupied := occupied s\<rparr> = s'" using assms(1) by simp
  ultimately show ?thesis
    using assms(3,4) getNextPageRecursive_indep [OF assms(1,2)]
    by (auto simp: allocPage_def split: if_splits sum.splits)
qed

lemma allocPage_frame: "allocPage p s = Inr (r, t) \<Longrightarrow> t = s\<lparr>occupied := occupied t\<rparr>"
  using allocPage_indep [of s s p r t] by simp

lemma blocks_inv_cong:
  assumes "occupied t = occupied s" and "base t = base s" and "heapLevel t = heapLevel s"
    and "baseMemory t = baseMemory s"
  shows "blocks_inv bs t \<longleftrightarrow> blocks_inv bs s"
proof -
  have "occ t = occ s" using assms(1) by (simp add: fun_eq_iff occ_def)
  then show ?thesis
    using assms by (simp add: blocks_inv_def heap_ok_def up_closed_def good_node_def split_beta)
qed

section \<open>Deallocation\<close>

lemma occ_createHeap: "arrays_sized s \<Longrightarrow> 1 \<le> i \<Longrightarrow> i \<le> HEAPSIZE \<Longrightarrow> occ (createHeap s) i = EMPTY"
  using createHeap_built(1) [of s] at_depth_exists [of i] by (auto simp: heap_built_def)

lemma base_createHeap:
  "arrays_sized s \<Longrightarrow> 1 \<le> i \<Longrightarrow> i \<le> HEAPSIZE \<Longrightarrow> at_depth l i \<Longrightarrow> base (createHeap s) ! (i - 1) = node_base l i"
  using createHeap_built(1) [of s] by (auto simp: heap_built_def)

text \<open>What the climb does at one node.\<close>

definition freeUp_node :: "nat \<Rightarrow> 'a pagemem_scheme \<Rightarrow> 'a pagemem_scheme" where
  "freeUp_node i s =
     (if occ s (PARENT i) = BUDDY_FULL \<and> occ s (SIBLING i) = EMPTY
      then set_occ (PARENT i) EMPTY s
      else if occ s (PARENT i) = BUDDY_FULL \<and> occ s (SIBLING i) = BUDDY_FULL
      then set_occ (PARENT i) PARTIALLY_FULL s
      else if occ s (PARENT i) = PARTIALLY_FULL \<and> occ s (SIBLING i) = EMPTY
      then set_occ (PARENT i) EMPTY s
      else s)"

lemma freeUpRecursive_step:
  "2 \<le> i \<Longrightarrow> i \<le> HEAPSIZE \<Longrightarrow> freeUpRecursive i s = freeUpRecursive (i div 2) (freeUp_node i s)"
  by (subst freeUpRecursive.simps) (simp add: Let_def freeUp_node_def)

lemma freeUpRecursive_root [simp]: "freeUpRecursive (Suc 0) s = Inr s"
  by (simp add: freeUpRecursive.simps)

lemma same_but_occupied_freeUp_node [simp]: "same_but_occupied s (freeUp_node i s)"
  by (simp add: freeUp_node_def)

lemma same_but_occupied_trans:
  "same_but_occupied s t \<Longrightarrow> same_but_occupied t u \<Longrightarrow> same_but_occupied s u"
  by (simp add: same_but_occupied_def)

lemma freeUpRecursive_total:
  "1 \<le> i \<Longrightarrow> i \<le> HEAPSIZE \<Longrightarrow> \<exists>t. freeUpRecursive i s = Inr t \<and> same_but_occupied s t"
proof (induction i arbitrary: s rule: less_induct)
  case (less i)
  show ?case
  proof (cases "i = 1")
    case False
    with less.prems have i: "2 \<le> i" "i div 2 < i" "1 \<le> i div 2" "i div 2 \<le> HEAPSIZE" by auto
    from less.IH [OF i(2-4), of "freeUp_node i s"] freeUpRecursive_step [OF i(1) less.prems(2), of s]
    show ?thesis using same_but_occupied_freeUp_node same_but_occupied_trans by metis
  qed simp
qed

lemma index_managed:
  assumes "a \<in> managed"
  shows "0 \<le> (a - 0x1000000) sdiv PAGE_SIZE" and "(a - 0x1000000) sdiv PAGE_SIZE < 1024"
  using assms by (auto simp: managed_def signed_divide_int_def sgn_if)

lemma deallocPage_managed:
  assumes "baseMemory s = 0x1000000" and "a \<in> managed"
  shows "\<exists>t. deallocPage a s = Inr (0, t) \<and> same_but_occupied s t"
proof -
  define i where "i = (a - 0x1000000) sdiv PAGE_SIZE"
  have i: "0 \<le> i" "i < 1024"
    using index_managed [OF assms(2)] by (simp_all add: i_def)
  obtain t where t: "freeUpRecursive (nat (i + 1023) + 1) (set_occ (nat (i + 1023) + 1) EMPTY s) = Inr t"
      "same_but_occupied s t"
  proof -
    have "1 \<le> nat (i + 1023) + 1" "nat (i + 1023) + 1 \<le> HEAPSIZE"
      using i by linarith+
    from freeUpRecursive_total [OF this, of "set_occ (nat (i + 1023) + 1) EMPTY s"] that
    show thesis by (metis same_but_occupied_refl same_but_occupied_set_occ same_but_occupied_trans)
  qed
  then show ?thesis
    using assms(1) i by (simp add: deallocPage_def isValid_def Let_def flip: i_def)
qed

lemma deallocPage_below:
  assumes "baseMemory s = 0x1000000" and "a < 0xC00000"
  shows "deallocPage a s = Inl OutOfBounds"
proof -
  have "(a - 0x1000000) sdiv PAGE_SIZE + 1023 < 0"
    using assms(2) by (simp add: signed_divide_int_def sgn_if)
  with assms(1) show ?thesis by (simp add: deallocPage_def isValid_def Let_def)
qed

text \<open>From a fresh heap: the left spine.\<close>

definition spine :: "nat \<Rightarrow> nat \<Rightarrow> 'a pagemem_scheme \<Rightarrow> 'a pagemem_scheme \<Rightarrow> bool" where
  "spine i k s t \<longleftrightarrow> same_but_occupied s t \<and> (\<forall>m\<ge>1. occ t m =
     (if m = 2 ^ (i + k) then BUDDY_FULL
      else if \<exists>j<k. m = 2 ^ (i + j) then PARTIALLY_FULL else occ s m))"

lemma getNextPageRecursive_fresh:
  assumes "heap_ok s" and "\<forall>m. 1 \<le> m \<longrightarrow> m \<le> HEAPSIZE \<longrightarrow> occ s m = EMPTY" and "i + k \<le> 10"
  shows "\<exists>t. getNextPageRecursive (2 ^ i) cl (cl + int k) s = Inr (0x1000000, t) \<and> spine i k s t"
  using assms(3)
proof (induction k arbitrary: i cl)
  case 0
  have i: "1 \<le> (2::nat) ^ i" "(2::nat) ^ i \<le> HEAPSIZE"
    using power_increasing [of i 10 "2::nat"] 0 by simp_all
  have "at_depth i (2 ^ i)" by (simp add: at_depth_def)
  with i assms(1) have b: "base s ! (2 ^ i - 1) = 0x1000000"
    by (simp add: heap_ok_def node_base_def)
  have "getNextPageRecursive (2 ^ i) cl (cl + int 0) s = Inr (0x1000000, set_occ (2 ^ i) BUDDY_FULL s)"
    using i b assms(2) by (subst getNextPageRecursive.simps) simp
  moreover have "spine i 0 s (set_occ (2 ^ i) BUDDY_FULL s)"
    using i assms(1) by (auto simp: spine_def heap_ok_def)
  ultimately show ?case by blast
next
  case (Suc k)
  have i: "1 \<le> (2::nat) ^ i" "(2::nat) ^ i \<le> HEAPSIZE"
    using power_increasing [of i 10 "2::nat"] Suc.prems by simp_all
  obtain t where t: "getNextPageRecursive (2 ^ Suc i) (cl + 1) (cl + 1 + int k) s = Inr (0x1000000, t)"
      "spine (Suc i) k s t"
    using Suc.IH [of "Suc i" "cl + 1"] Suc.prems by auto
  have lev: "cl + int (Suc k) = cl + 1 + int k" by simp
  have "getNextPageRecursive (2 ^ i) cl (cl + int (Suc k)) s = Inr (0x1000000, set_occ (2 ^ i) PARTIALLY_FULL t)"
    unfolding lev using t(1) i assms(2) by (subst getNextPageRecursive_node) simp_all
  moreover have "spine i (Suc k) s (set_occ (2 ^ i) PARTIALLY_FULL t)"
  proof -
    have len: "length (occupied t) = HEAPSIZE"
      using t(2) assms(1) by (simp add: spine_def same_but_occupied_def heap_ok_def)
    have *: "(\<exists>j<Suc k. m = 2 ^ (i + j)) \<longleftrightarrow> m = 2 ^ i \<or> (\<exists>j<k. m = 2 ^ (Suc i + j))" for m :: nat
      by (auto simp: less_Suc_eq_0_disj)
    have big: "(2::nat) ^ i \<noteq> 2 ^ (Suc i + j)" for j
      using power_strict_increasing [of i "Suc i + j" "2::nat"] by simp
    show ?thesis
      using t(2) i len big unfolding spine_def * by (auto simp del: power_Suc)
  qed
  ultimately show ?case by blast
qed

lemma freeUpRecursive_spine:
  assumes "heap_ok s" and "\<forall>m. 1 \<le> m \<longrightarrow> m \<le> HEAPSIZE \<longrightarrow> (\<forall>j. m \<noteq> 2 ^ j) \<longrightarrow> occ s m = EMPTY"
    and "i \<le> 10"
  shows "\<exists>t. freeUpRecursive (2 ^ i) s = Inr t \<and> same_but_occupied s t \<and>
    (\<forall>m\<ge>1. occ t m = (if \<exists>j<i. m = 2 ^ j then EMPTY else occ s m))"
  using assms
proof (induction i arbitrary: s)
  case 0
  then show ?case by simp
next
  case (Suc i)
  have i: "1 \<le> (2::nat) ^ i" "(2::nat) ^ Suc i + 1 \<le> HEAPSIZE"
    using power_increasing [of i 9 "2::nat"] Suc.prems(3) by simp_all
  have sib: "(2::nat) ^ Suc i + 1 \<noteq> 2 ^ j" for j
  proof
    assume eq: "(2::nat) ^ Suc i + 1 = 2 ^ j"
    have "odd ((2::nat) ^ j)" unfolding eq [symmetric] by simp
    then have "j = 0" by simp
    with eq show False by simp
  qed
  have len: "length (occupied s) = HEAPSIZE" and val: "occ s (2 ^ i) \<in> {EMPTY, PARTIALLY_FULL, BUDDY_FULL}"
    using Suc.prems(1) i by (auto simp: heap_ok_def)
  have sib0: "occ s (2 ^ Suc i + 1) = EMPTY"
    using Suc.prems(2) i sib by auto
  define u where "u = freeUp_node (2 ^ Suc i) s"
  have u_occ: "occ u m = (if m = 2 ^ i then EMPTY else occ s m)" if "1 \<le> m" for m
    using that len i val sib0 by (auto simp: u_def freeUp_node_def)
  have u_ok: "heap_ok u"
    using Suc.prems(1) u_occ same_but_occupied_freeUp_node [of s "2 ^ Suc i"]
    by (simp add: u_def heap_ok_def same_but_occupied_def)
  have "\<forall>m. 1 \<le> m \<longrightarrow> m \<le> HEAPSIZE \<longrightarrow> (\<forall>j. m \<noteq> 2 ^ j) \<longrightarrow> occ u m = EMPTY"
    using u_occ Suc.prems(2) by simp
  then obtain t where t: "freeUpRecursive (2 ^ i) u = Inr t" "same_but_occupied u t"
      "\<forall>m\<ge>1. occ t m = (if \<exists>j<i. m = 2 ^ j then EMPTY else occ u m)"
    using Suc.IH [OF u_ok] Suc.prems(3) by auto
  have "freeUpRecursive (2 ^ Suc i) s = Inr t"
    using freeUpRecursive_step [of "2 ^ Suc i" s] i t(1) by (simp add: u_def)
  moreover have "same_but_occupied s t"
    using t(2) same_but_occupied_freeUp_node same_but_occupied_trans unfolding u_def by blast
  moreover have "\<forall>m\<ge>1. occ t m = (if \<exists>j<Suc i. m = 2 ^ j then EMPTY else occ s m)"
    using t(3) u_occ by (auto simp: less_Suc_eq)
  ultimately show ?case by blast
qed

lemma occupied_eqI:
  assumes "same_but_occupied s t" and "length (occupied s) = HEAPSIZE"
    and "\<And>m. 1 \<le> m \<Longrightarrow> m \<le> HEAPSIZE \<Longrightarrow> occ t m = occ s m"
  shows "t = s"
proof -
  have "occupied t = occupied s"
  proof (rule nth_equalityI)
    show "length (occupied t) = length (occupied s)"
      using assms(1) by (simp add: same_but_occupied_def)
    fix i
    assume "i < length (occupied t)"
    with assms(3) [of "Suc i"] assms(1,2) show "occupied t ! i = occupied s ! i"
      by (simp add: occ_def same_but_occupied_def)
  qed
  with assms(1) show ?thesis by (simp add: same_but_occupied_def)
qed

lemma alloc_dealloc_fresh:
  assumes ok: "heap_ok s" and fresh: "\<forall>m. 1 \<le> m \<longrightarrow> m \<le> HEAPSIZE \<longrightarrow> occ s m = EMPTY"
    and pages: "1 \<le> pages" "pages \<le> NUMBER_OF_PAGES"
  shows "\<exists>t. allocPage pages s = Inr (0x1000000, t) \<and> deallocPage 0x1000000 t = Inr (0, s)"
proof -
  obtain k where k: "getLevel pages s = Inr (heapLevel s - int k)" "k \<le> 10"
    using pages by (rule getLevel_pages)
  have level: "heapLevel s = 11" using ok by (simp add: heap_ok_def)
  have lev: "11 - int k = 1 + int (10 - k)" using k(2) by simp
  obtain t where t: "getNextPageRecursive (2 ^ 0) 1 (1 + int (10 - k)) s = Inr (0x1000000, t)" "spine 0 (10 - k) s t"
    using getNextPageRecursive_fresh [OF ok fresh, of 0 "10 - k" 1] by auto
  have "allocPage pages s = getNextPageRecursive 1 1 (heapLevel s - int k) s"
    using pages k(1) by (simp add: allocPage_def)
  with t(1) have alloc: "allocPage pages s = Inr (0x1000000, t)"
    unfolding level lev by simp
  have same: "same_but_occupied s t" and occ_t: "\<And>m. 1 \<le> m \<Longrightarrow> occ t m =
     (if m = 2 ^ (10 - k) then BUDDY_FULL else if \<exists>j<10 - k. m = 2 ^ j then PARTIALLY_FULL else occ s m)"
    using t(2) by (simp_all add: spine_def)
  define u where "u = set_occ (2 ^ 10) EMPTY t"
  have len: "length (occupied t) = HEAPSIZE" "baseMemory t = 0x1000000"
    using same ok by (simp_all add: same_but_occupied_def heap_ok_def)
  have u_occ: "occ u m = (if m = 2 ^ 10 then EMPTY else occ t m)" if "1 \<le> m" for m
    using that len by (simp add: u_def)
  have u_same: "same_but_occupied s u" using same by (simp add: u_def)
  have u_ok: "heap_ok u"
    using u_same ok u_occ occ_t fresh by (auto simp: heap_ok_def same_but_occupied_def)
  have "\<forall>m. 1 \<le> m \<longrightarrow> m \<le> HEAPSIZE \<longrightarrow> (\<forall>j. m \<noteq> 2 ^ j) \<longrightarrow> occ u m = EMPTY"
    using u_occ occ_t fresh by simp
  then obtain v where v: "freeUpRecursive (2 ^ 10) u = Inr v" "same_but_occupied u v"
      "\<forall>m\<ge>1. occ v m = (if \<exists>j<10. m = 2 ^ j then EMPTY else occ u m)"
    using freeUpRecursive_spine [OF u_ok, of 10] by auto
  have "v = s"
  proof (rule occupied_eqI)
    show "same_but_occupied s v" using u_same v(2) by (rule same_but_occupied_trans)
    show "length (occupied s) = HEAPSIZE" using ok by (simp add: heap_ok_def)
    fix m :: nat
    assume m: "1 \<le> m" "m \<le> HEAPSIZE"
    have "(\<exists>j<10. m = 2 ^ j) \<or> m = 2 ^ 10" if "m = 2 ^ (10 - k)"
      using that by (cases "k = 0") auto
    moreover have "\<exists>j<10. m = 2 ^ j" if "\<exists>j<10 - k. m = 2 ^ j"
      using that by auto
    ultimately show "occ v m = occ s m"
      using v(3) u_occ occ_t fresh m by auto
  qed
  moreover have "deallocPage 0x1000000 t = Inr (0, v)"
    using v(1) len by (simp add: deallocPage_def isValid_def u_def)
  ultimately show ?thesis using alloc by blast
qed


section \<open>Properties\<close>

text \<open>The static arrays as the loader leaves them (BSS is zeroed), the state of the witnesses.\<close>

definition bss_pagemem :: pagemem where
  "bss_pagemem = \<lparr>occupied = replicate HEAPSIZE 0, base = replicate HEAPSIZE 0,
     heapLevel = 0, baseMemory = NULL\<rparr>"

lemma arrays_sized_bss [simp]: "arrays_sized bss_pagemem"
  by (simp add: arrays_sized_def bss_pagemem_def)

text \<open>C1. After \<open>createHeap\<close>, any sequence of \<open>allocPage\<close> requests runs without a fault, and the
  blocks it is given lie in the 4 MiB at 0x1000000 and are pairwise disjoint.\<close>

theorem allocPage_blocks_disjoint:
  assumes "arrays_sized s"
  shows "\<exists>bs t. alloc_seq ps [] (createHeap s) = Inr (bs, t) \<and>
    (\<forall>b\<in>set bs. block_range b \<subseteq> managed) \<and>
    sorted_wrt (\<lambda>b c. block_range b \<inter> block_range c = {}) bs"
proof -
  obtain bs t where "alloc_seq ps [] (createHeap s) = Inr (bs, t)" "blocks_inv bs t"
    using alloc_seq_inv [OF blocks_inv_createHeap [OF assms], of ps] by blast
  then show ?thesis
    using buddy.inv_managed buddy.inv_disjoint by blast
qed

theorem allocPage_blocks_disjoint_witness:
  "\<exists>bs t. alloc_seq [1, 3, 1024] [] (createHeap bss_pagemem) = Inr (bs, t) \<and>
    sorted_wrt (\<lambda>b c. block_range b \<inter> block_range c = {}) bs"
  using allocPage_blocks_disjoint [OF arrays_sized_bss, of "[1, 3, 1024]"] by blast

text \<open>C2. In every state that allocations can reach, a request for 1 to 1024 pages returns; it
  returns a block of the smallest power of two of pages that fits, or, only when every empty
  block of that size lies under a full one, \<open>NULL\<close> with the heap unchanged.\<close>

theorem allocPage_complete:
  assumes "blocks_inv bs s" and "1 \<le> pages" and "pages \<le> NUMBER_OF_PAGES"
  shows "\<exists>k. log_up pages k \<and>
    ((allocPage pages s = Inr (NULL, s) \<and> no_room s 1 (10 - k)) \<or>
     (\<exists>n t. allocPage pages s = Inr (node_base (10 - k) n, t) \<and> at_depth (10 - k) n \<and>
        node_size (10 - k) = PAGE_SIZE * 2 ^ k \<and> occ s n = EMPTY \<and> occ t n = BUDDY_FULL))"
proof -
  have size: "node_size (10 - k) = PAGE_SIZE * 2 ^ k" if "k \<le> 10" for k
  proof -
    have "node_size (10 - k) = 2 ^ (12 + k)" using that by (simp add: node_size_pow)
    then show ?thesis by (simp add: power_add)
  qed
  from assms(1) have "heap_ok s" "up_closed s" by (simp_all add: blocks_inv_def)
  then show ?thesis
  proof (cases rule: allocPage_cases [of s pages])
    case refused
    with assms(2,3) show ?thesis by simp
  next
    case (full k)
    then show ?thesis by blast
  next
    case (block k n t)
    then have "at_depth (10 - k) n" "occ s n = EMPTY" "occ t n = BUDDY_FULL"
      using alloc_ok_depth [OF block(6)] by (simp_all add: alloc_ok_def)
    with block size show ?thesis by blast
  qed
qed

theorem allocPage_complete_witness:
  "\<exists>k. log_up 3 k \<and>
    ((allocPage 3 (createHeap bss_pagemem) = Inr (NULL, createHeap bss_pagemem) \<and>
      no_room (createHeap bss_pagemem) 1 (10 - k)) \<or>
     (\<exists>n t. allocPage 3 (createHeap bss_pagemem) = Inr (node_base (10 - k) n, t) \<and> at_depth (10 - k) n \<and>
        node_size (10 - k) = PAGE_SIZE * 2 ^ k \<and> occ (createHeap bss_pagemem) n = EMPTY \<and>
        occ t n = BUDDY_FULL))"
  by (rule allocPage_complete [OF blocks_inv_createHeap [OF arrays_sized_bss]]) simp_all

text \<open>C3. On the heap \<open>createHeap\<close> builds, every request of 1 to 1024 pages returns the start of the
  managed memory, and \<open>deallocPage\<close> of it restores exactly the heap before the request.\<close>

theorem alloc_dealloc_roundtrip:
  assumes "arrays_sized s" and "1 \<le> pages" and "pages \<le> NUMBER_OF_PAGES"
  shows "\<exists>t. allocPage pages (createHeap s) = Inr (0x1000000, t) \<and>
    deallocPage 0x1000000 t = Inr (0, createHeap s)"
proof (rule alloc_dealloc_fresh [OF _ _ assms(2,3)])
  show "heap_ok (createHeap s)"
    using blocks_inv_createHeap [OF assms(1)] by (simp add: blocks_inv_def)
  show "\<forall>m. 1 \<le> m \<longrightarrow> m \<le> HEAPSIZE \<longrightarrow> occ (createHeap s) m = EMPTY"
    using occ_createHeap [OF assms(1)] by blast
qed

theorem alloc_dealloc_roundtrip_witness:
  "\<exists>t. allocPage 5 (createHeap bss_pagemem) = Inr (0x1000000, t) \<and>
    deallocPage 0x1000000 t = Inr (0, createHeap bss_pagemem)"
  by (rule alloc_dealloc_roundtrip) simp_all

text \<open>C4. The climb of \<open>freeUpRecursive\<close> looks at the sibling of a node but not at the node itself,
  so it empties ancestors of pages that are still allocated: allocate two pages, free the first,
  and the next request for 1024 pages is given the whole memory, the second page included.\<close>

theorem deallocPage_frees_used_memory:
  assumes "arrays_sized s"
  shows "\<exists>s1 s2 s3 s4. allocPage 1 (createHeap s) = Inr (0x1000000, s1) \<and>
    allocPage 1 s1 = Inr (0x1001000, s2) \<and> deallocPage 0x1000000 s2 = Inr (0, s3) \<and>
    allocPage 1024 s3 = Inr (0x1000000, s4) \<and>
    block_range (0x1001000, 1) \<subseteq> block_range (0x1000000, 1024)"
proof -
  define h where "h = createHeap s"
  have o: "occ h (numeral i) = 0" if "numeral i \<le> HEAPSIZE" for i
    using occ_createHeap [OF assms, of "numeral i"] that by (simp add: h_def)
  have o1: "occ h (Suc 0) = 0"
    using occ_createHeap [OF assms, of 1] by (simp add: h_def)
  have l: "length (occupied h) = 2047" "heapLevel h = 11" "baseMemory h = 0x1000000"
    using createHeap_built [OF assms] by (simp_all add: h_def heap_built_def)
  have b: "base h ! 1023 = 0x1000000" "base h ! 1024 = 0x1001000" "base h ! 0 = 0x1000000"
    using base_createHeap [OF assms, of 1024 10] base_createHeap [OF assms, of 1025 10]
      base_createHeap [OF assms, of 1 0]
    by (simp_all add: h_def at_depth_def node_base_def node_size_def)
  have "block_range (0x1001000, 1) \<subseteq> block_range (0x1000000, 1024)"
    by (simp add: block_range_def)
  then show ?thesis
    unfolding h_def [symmetric]
    by (simp add: allocPage_def deallocPage_def isValid_def getLevel_def getLevel_loop.simps
        getNextPageRecursive.simps o o1 l b freeUpRecursive_step freeUp_node_def)
qed

theorem deallocPage_frees_used_memory_witness:
  "\<exists>s1 s2 s3 s4. allocPage 1 (createHeap bss_pagemem) = Inr (0x1000000, s1) \<and>
    allocPage 1 s1 = Inr (0x1001000, s2) \<and> deallocPage 0x1000000 s2 = Inr (0, s3) \<and>
    allocPage 1024 s3 = Inr (0x1000000, s4) \<and>
    block_range (0x1001000, 1) \<subseteq> block_range (0x1000000, 1024)"
  by (rule deallocPage_frees_used_memory) simp

text \<open>\<open>deallocPage\<close> checks nothing (\<open>isValid\<close> is always 1): on a heap in order it returns 0 for
  every address of the managed memory and changes only the occupancy array, and for every address
  below 0xC00000, \<open>NULL\<close> included, it writes before the start of that array.\<close>

theorem deallocPage_bounds:
  assumes "blocks_inv bs s"
  shows "(a \<in> managed \<longrightarrow> (\<exists>t. deallocPage a s = Inr (0, t) \<and> same_but_occupied s t)) \<and>
    (a < 0xC00000 \<longrightarrow> deallocPage a s = Inl OutOfBounds)"
proof -
  have "baseMemory s = 0x1000000"
    using assms by (simp add: blocks_inv_def heap_ok_def)
  then show ?thesis using deallocPage_managed deallocPage_below by blast
qed

theorem deallocPage_bounds_witness:
  "deallocPage NULL (createHeap bss_pagemem) = Inl OutOfBounds \<and>
   (\<exists>t. deallocPage 0x1002000 (createHeap bss_pagemem) = Inr (0, t) \<and>
      same_but_occupied (createHeap bss_pagemem) t)"
  using deallocPage_bounds [OF blocks_inv_createHeap [OF arrays_sized_bss], where a = NULL]
    deallocPage_bounds [OF blocks_inv_createHeap [OF arrays_sized_bss], where a = "0x1002000"]
  by (simp add: managed_def)

end
