(* ===== verification/Process.thy ===== *)
theory Process
  imports Buddy
begin

text \<open>
  Processes and threads (Kernel/process.c, Kernel/threads.c, Kernel/include/structs.h) and the part
  of the kernel's state that holds them.  Structures the kernel puts in pages of their own
  (\<open>Process\<close>, \<open>Thread\<close>, \<open>ProcessSlot\<close>, stack frames) are kept in maps from addresses; a read
  through an address that holds no such structure is a fault.  The arrays of a process that are
  carved out of its information page are bytes of \<open>ram\<close>.

  The lemmas here say what building a process leaves behind; the scheduler's ring is in the theory
  \<open>Scheduler\<close>.
\<close>

section \<open>Data\<close>

datatype processState = RUNNING | READY | BLOCKED | DEAD | SLEEPING

text \<open>The enumeration is ordered by its C values, which \<open>getStateFromNumber\<close> reads back.\<close>

fun state_number :: "processState \<Rightarrow> int" where
  "state_number RUNNING = 0"
| "state_number READY = 1"
| "state_number BLOCKED = 2"
| "state_number DEAD = 3"
| "state_number SLEEPING = 4"

lemma state_number_inject [simp]: "state_number a = state_number b \<longleftrightarrow> a = b"
  by (cases a; cases b) simp_all

instantiation processState :: linorder
begin

definition less_eq_processState :: "processState \<Rightarrow> processState \<Rightarrow> bool" where
  "less_eq_processState a b \<longleftrightarrow> state_number a \<le> state_number b"

definition less_processState :: "processState \<Rightarrow> processState \<Rightarrow> bool" where
  "less_processState a b \<longleftrightarrow> state_number a < state_number b"

instance
  by standard (auto simp: less_eq_processState_def less_processState_def)

end

record StackFrame =
  sf_gs :: int
  sf_fs :: int
  sf_r15 :: int
  sf_r14 :: int
  sf_r13 :: int
  sf_r12 :: int
  sf_r11 :: int
  sf_r10 :: int
  sf_r9 :: int
  sf_r8 :: int
  sf_rsi :: int
  sf_rdi :: int
  sf_rbp :: int
  sf_rdx :: int
  sf_rcx :: int
  sf_rbx :: int
  sf_rax :: int
  sf_rip :: int
  sf_cs :: int
  sf_eflags :: int
  sf_rsp :: int
  sf_ss :: int
  sf_base :: int

text \<open>Sizes of the structures on x86-64, in bytes.\<close>

abbreviation (input) sizeof_StackFrame :: int where
  "sizeof_StackFrame \<equiv> 184"

abbreviation (input) sizeof_Process :: int where
  "sizeof_Process \<equiv> 248"

abbreviation (input) sizeof_Thread :: int where
  "sizeof_Thread \<equiv> 24"

abbreviation (input) sizeof_ProcessSlot :: int where
  "sizeof_ProcessSlot \<equiv> 16"

abbreviation (input) sizeof_Pipe :: int where
  "sizeof_Pipe \<equiv> 64"

abbreviation (input) MAX_THREADS :: nat where
  "MAX_THREADS \<equiv> 10"

abbreviation (input) MAX_PAGES_PER_PROCESS :: int where
  "MAX_PAGES_PER_PROCESS \<equiv> 10"

abbreviation (input) MAX_PROCESS_PIPES :: int where
  "MAX_PROCESS_PIPES \<equiv> 3"

abbreviation (input) MAX_LISTENERS_IPC :: int where
  "MAX_LISTENERS_IPC \<equiv> 2"

abbreviation (input) PIPE_LENGTH :: int where
  "PIPE_LENGTH \<equiv> 10"

record Thread =
  userStack :: addr
  kernelStack :: addr
  entryPoint :: addr

record Process =
  p_pid :: int
  p_state :: processState
  p_description :: string
  p_activeThread :: int
  p_numberOfThreads :: int
  p_thread :: "addr list"
  p_pipesOpened :: int
  p_occupiedPosition :: addr
  p_pipePids :: addr
  p_blocked :: addr
  p_pipesStruct :: addr
  p_pipes :: addr
  p_heap :: addr
  p_pagesIndex :: int
  p_pages :: "addr list"

record ProcessSlot =
  slot_next :: addr
  slot_process :: addr

text \<open>
  The state of process.c and scheduler.c: the static counter \<open>pid\<close>, the ring (\<open>current\<close>,
  \<open>cardinal_processes\<close>), the structures in memory, raw memory, and the processor's stack pointer.
\<close>

record sched = pagemem +
  next_pid :: int
  cardinal_processes :: int
  current :: addr
  slots :: "addr \<Rightarrow> ProcessSlot option"
  procs :: "addr \<Rightarrow> Process option"
  threads :: "addr \<Rightarrow> Thread option"
  frames :: "addr \<Rightarrow> StackFrame option"
  ram :: "addr \<Rightarrow> 8 word"
  cpu_rsp :: addr

section \<open>Memory access\<close>

text \<open>A read through a pointer to a structure.\<close>

definition deref :: "('s \<Rightarrow> addr \<Rightarrow> 'b option) \<Rightarrow> addr \<Rightarrow> ('s, 'b) eprog" where
  "deref f a s = (case f s a of None \<Rightarrow> Inl NullDeref | Some v \<Rightarrow> Inr (v, s))"

lemma deref_Some [simp]: "f s a = Some v \<Longrightarrow> deref f a s = Inr (v, s)"
  by (simp add: deref_def)

lemma deref_None [simp]: "f s a = None \<Longrightarrow> deref f a s = Inl NullDeref"
  by (simp add: deref_def)

text \<open>A write to a structure that is already there, and one that makes a page hold it.\<close>

definition put_proc :: "addr \<Rightarrow> Process \<Rightarrow> ('a sched_scheme, unit) eprog" where
  "put_proc a p s = (if a = NULL then Inl NullDeref else Inr ((), s\<lparr>procs := (procs s)(a \<mapsto> p)\<rparr>))"

definition put_thread :: "addr \<Rightarrow> Thread \<Rightarrow> ('a sched_scheme, unit) eprog" where
  "put_thread a t s = (if a = NULL then Inl NullDeref else Inr ((), s\<lparr>threads := (threads s)(a \<mapsto> t)\<rparr>))"

definition put_slot :: "addr \<Rightarrow> ProcessSlot \<Rightarrow> ('a sched_scheme, unit) eprog" where
  "put_slot a sl s = (if a = NULL then Inl NullDeref else Inr ((), s\<lparr>slots := (slots s)(a \<mapsto> sl)\<rparr>))"

definition put_frame :: "addr \<Rightarrow> StackFrame \<Rightarrow> ('a sched_scheme, unit) eprog" where
  "put_frame a f s = Inr ((), s\<lparr>frames := (frames s)(a \<mapsto> f)\<rparr>)"

lemma put_apply [simp]:
  "a \<noteq> NULL \<Longrightarrow> put_proc a p s = Inr ((), s\<lparr>procs := (procs s)(a \<mapsto> p)\<rparr>)"
  "a \<noteq> NULL \<Longrightarrow> put_thread a t s = Inr ((), s\<lparr>threads := (threads s)(a \<mapsto> t)\<rparr>)"
  "a \<noteq> NULL \<Longrightarrow> put_slot a sl s = Inr ((), s\<lparr>slots := (slots s)(a \<mapsto> sl)\<rparr>)"
  by (simp_all add: put_proc_def put_thread_def put_slot_def)

text \<open>A 32-bit \<open>int\<close> in memory, little endian.\<close>

definition read_int :: "(addr \<Rightarrow> 8 word) \<Rightarrow> addr \<Rightarrow> int" where
  "read_int m a = sint (word_cat (m (a + 3)) (word_cat (m (a + 2)) (word_cat (m (a + 1)) (m a)
     :: 16 word) :: 24 word) :: 32 word)"

definition write_int :: "addr \<Rightarrow> int \<Rightarrow> (addr \<Rightarrow> 8 word) \<Rightarrow> (addr \<Rightarrow> 8 word)" where
  "write_int a v m = m(a := word_of_int v, a + 1 := word_of_int (v div 256),
     a + 2 := word_of_int (v div 65536), a + 3 := word_of_int (v div 16777216))"

section \<open>process.c and threads.c: building a process\<close>

text \<open>
  \<open>fillStackFrame\<close> writes the first frame of a thread, two frames below the top of its stack;
  \<open>callProcess\<close> is the address of the function of that name, fixed by the linker.
\<close>

definition fillStackFrame ::
  "addr \<Rightarrow> addr \<Rightarrow> addr \<Rightarrow> addr \<Rightarrow> ('a sched_scheme, addr) eprog" where
  "fillStackFrame callProcess entry stack args =
     (let frame = stack - 2 * sizeof_StackFrame in
      ebind (put_frame frame
        \<lparr>sf_gs = 0x001, sf_fs = 0x002, sf_r15 = 0x003, sf_r14 = 0x004, sf_r13 = 0x005, sf_r12 = 0x006, sf_r11 = 0x007,
         sf_r10 = 0x008, sf_r9 = 0x009, sf_r8 = 0x00A, sf_rsi = entry, sf_rdi = entry, sf_rbp = 0x00D,
         sf_rdx = args, sf_rcx = args, sf_rbx = 0x010, sf_rax = 0x011, sf_rip = callProcess, sf_cs = 0x008,
         sf_eflags = 0x202, sf_rsp = frame + 176, sf_ss = 0x000,
         sf_base = stack - 51 * sizeof_StackFrame\<rparr>)
        (\<lambda>_. ereturn frame))"

text \<open>\<open>findNextSpot\<close> marks the free place it finds with the pointer 1.\<close>

definition findNextSpot :: "addr list \<Rightarrow> nat \<Rightarrow> int \<times> addr list" where
  "findNextSpot t dim =
     (case scan dim (\<lambda>i. t ! i = NULL) of
        Some i \<Rightarrow> (int i, t[i := 1])
      | None \<Rightarrow> (-1, t))"

definition createThread :: "addr \<Rightarrow> addr \<Rightarrow> addr \<Rightarrow> addr \<Rightarrow> ('a sched_scheme, int) eprog" where
  "createThread callProcess entry args p =
     ebind (allocPage (nat (NUMBER_OF_PAGES_TO_ALLOC sizeof_Thread))) (\<lambda>t.
     ebind (allocPage 2) (\<lambda>page1.
     ebind (allocPage 2) (\<lambda>page2.
     let uStack = page1 + 2 * PAGE_SIZE;
         kStack = page2 + 2 * PAGE_SIZE
     in ebind (fillStackFrame callProcess entry uStack args) (\<lambda>stack.
        ebind (deref procs p) (\<lambda>pr.
        let (index, spots) = findNextSpot (p_thread pr) 3
        in if index = -1 then ereturn (-1)
           else ebind (put_proc p (pr\<lparr>p_numberOfThreads := p_numberOfThreads pr + 1,
                                      p_thread := spots[nat index := t]\<rparr>)) (\<lambda>_.
                ebind (put_thread t \<lparr>userStack = stack, kernelStack = kStack, entryPoint = entry\<rparr>) (\<lambda>_.
                ereturn 0)))))))"

definition initializeThreadArray :: "nat \<Rightarrow> addr list \<Rightarrow> addr list" where
  "initializeThreadArray dim t = map (\<lambda>i. if i < dim then NULL else t ! i) [0..<length t]"

definition initiatePagesForProcess :: "nat \<Rightarrow> addr list \<Rightarrow> addr list" where
  "initiatePagesForProcess len pgs = map (\<lambda>i. if i < len then NULL else pgs ! i) [0..<length pgs]"

definition initializePipeFields :: "Process \<Rightarrow> addr \<Rightarrow> Process" where
  "initializePipeFields p infoPage =
     (let pipes' = infoPage;
          struct' = pipes' + MAX_PROCESS_PIPES * PIPE_LENGTH;
          pids' = struct' + MAX_PROCESS_PIPES * sizeof_Pipe;
          blocked' = pids' + MAX_PROCESS_PIPES * MAX_LISTENERS_IPC * 4;
          occupied' = blocked' + MAX_LISTENERS_IPC * MAX_PROCESS_PIPES * 4
      in p\<lparr>p_pipes := pipes', p_pipesOpened := 0, p_pipesStruct := struct', p_pipePids := pids',
            p_blocked := blocked', p_occupiedPosition := occupied'\<rparr>)"

fun initiatePipesForProcess_loop :: "nat \<Rightarrow> nat \<Rightarrow> addr \<Rightarrow> (addr \<Rightarrow> 8 word) \<Rightarrow> (addr \<Rightarrow> 8 word)" where
  "initiatePipesForProcess_loop 0 i occupiedPosition m = m"
| "initiatePipesForProcess_loop (Suc n) i occupiedPosition m =
     initiatePipesForProcess_loop n (i + 1) occupiedPosition
       (write_int (occupiedPosition + 4 * int i) 0 m)"

definition initiatePipesForProcess :: "addr \<Rightarrow> (addr \<Rightarrow> 8 word) \<Rightarrow> (addr \<Rightarrow> 8 word)" where
  "initiatePipesForProcess occupiedPosition m =
     initiatePipesForProcess_loop (nat MAX_PROCESS_PIPES) 0 occupiedPosition m"

text \<open>A page that never held a process reads as zeros.\<close>

definition zero_process :: Process where
  "zero_process = \<lparr>p_pid = 0, p_state = RUNNING, p_description = [], p_activeThread = 0,
     p_numberOfThreads = 0, p_thread = replicate MAX_THREADS NULL, p_pipesOpened = 0,
     p_occupiedPosition = NULL, p_pipePids = NULL, p_blocked = NULL, p_pipesStruct = NULL,
     p_pipes = NULL, p_heap = NULL, p_pagesIndex = 0,
     p_pages = replicate (nat MAX_PAGES_PER_PROCESS) NULL\<rparr>"

definition page_process :: "addr \<Rightarrow> 'a sched_scheme \<Rightarrow> Process" where
  "page_process a s = (case procs s a of Some p \<Rightarrow> p | None \<Rightarrow> zero_process)"

definition getProcess ::
  "addr \<Rightarrow> addr \<Rightarrow> string \<Rightarrow> addr \<Rightarrow> ('a sched_scheme, addr) eprog" where
  "getProcess callProcess entry description args =
     ebind (allocPage (nat (NUMBER_OF_PAGES_TO_ALLOC sizeof_Process))) (\<lambda>p s.
     ebind (put_proc p ((page_process p s)\<lparr>p_activeThread := 0, p_numberOfThreads := 0,
              p_thread := initializeThreadArray MAX_THREADS (p_thread (page_process p s))\<rparr>)) (\<lambda>_.
     ebind (createThread callProcess entry args p) (\<lambda>_.
     ebind (deref procs p) (\<lambda>pr s1.
     let pr' = initializePipeFields
                 (pr\<lparr>p_pid := next_pid s1, p_state := READY, p_description := description,
                    p_heap := NULL, p_pagesIndex := 0\<rparr>) (p + sizeof_Process)
     in ebind (put_proc p pr') (\<lambda>_ s2.
        Inr (p, s2\<lparr>next_pid := next_pid s2 + 1,
                   ram := initiatePipesForProcess (p_occupiedPosition pr') (ram s2)\<rparr>)) s1))) s)"

end
