(* ===== verification/Scheduler.thy ===== *)
theory Scheduler
  imports Process
begin

text \<open>
  The scheduler (Kernel/scheduler.c), the rest of process.c and threads.c, and the context switch
  \<open>_yield\<close> of Kernel/asm/libasm.asm.  The processes form a ring of slots linked by \<open>next\<close>; \<open>current\<close>
  is the slot of the running process.

  The lemmas relate the ring to the list of its processes, the current one first: adding a process
  inserts it second, \<open>schedule\<close> rotates the list to the next process that is ready, removing a
  process deletes it.
\<close>

section \<open>The operations\<close>

definition page_slot :: "addr \<Rightarrow> 'a sched_scheme \<Rightarrow> ProcessSlot" where
  "page_slot a s = (case slots s a of Some sl \<Rightarrow> sl | None \<Rightarrow> \<lparr>slot_next = NULL, slot_process = NULL\<rparr>)"

definition newProcessSlot :: "addr \<Rightarrow> ('a sched_scheme, addr) eprog" where
  "newProcessSlot process =
     ebind (allocPage (nat (NUMBER_OF_PAGES_TO_ALLOC sizeof_ProcessSlot))) (\<lambda>a s.
     ebind (put_slot a ((page_slot a s)\<lparr>slot_process := process\<rparr>)) (\<lambda>_. ereturn a) s)"

definition addProcess :: "addr \<Rightarrow> ('a sched_scheme, unit) eprog" where
  "addProcess process =
     ebind (newProcessSlot process) (\<lambda>new s.
     if current s = NULL then
       ebind (deref slots new) (\<lambda>sl.
       ebind (put_slot new (sl\<lparr>slot_next := new\<rparr>)) (\<lambda>_ s1.
       Inr ((), s1\<lparr>current := new\<rparr>))) s
     else
       ebind (deref slots (current s)) (\<lambda>cur.
       let next = slot_next cur in
       ebind (put_slot (current s) (cur\<lparr>slot_next := new\<rparr>)) (\<lambda>_.
       ebind (deref slots new) (\<lambda>sl.
       put_slot new (sl\<lparr>slot_next := next\<rparr>)))) s)"

definition createProcess ::
  "addr \<Rightarrow> addr \<Rightarrow> string \<Rightarrow> addr \<Rightarrow> ('a sched_scheme, int) eprog" where
  "createProcess callProcess entry description args =
     ebind (getProcess callProcess entry description args) (\<lambda>p.
     ebind (addProcess p) (\<lambda>_ s.
     ebind (deref procs p) (\<lambda>pr. ereturn (p_pid pr))
       (s\<lparr>cardinal_processes := cardinal_processes s + 1\<rparr>)))"

text \<open>
  \<open>getProcessById\<close> does not follow the ring: \<open>slot[i]\<close> is the structure \<open>i\<close> sizes behind the
  current slot.
\<close>

fun getProcessById_loop :: "nat \<Rightarrow> nat \<Rightarrow> addr \<Rightarrow> int \<Rightarrow> ('a sched_scheme, addr) eprog" where
  "getProcessById_loop 0 i slot pid = ereturn NULL"
| "getProcessById_loop (Suc n) i slot pid =
     ebind (deref slots (slot + sizeof_ProcessSlot * int i)) (\<lambda>sl.
     ebind (deref procs (slot_process sl)) (\<lambda>p.
     if p_pid p = pid then ereturn (slot_process sl)
     else getProcessById_loop n (i + 1) slot pid))"

definition getProcessById :: "int \<Rightarrow> ('a sched_scheme, addr) eprog" where
  "getProcessById pid s = getProcessById_loop (nat (cardinal_processes s)) 0 (current s) pid s"

text \<open>The process of a slot.\<close>

definition slot_proc :: "addr \<Rightarrow> ('a sched_scheme, addr \<times> Process) eprog" where
  "slot_proc a = ebind (deref slots a) (\<lambda>sl.
     ebind (deref procs (slot_process sl)) (\<lambda>p. ereturn (slot_process sl, p)))"

definition getCurrentPid :: "('a sched_scheme, int) eprog" where
  "getCurrentPid s = (if current s = NULL then Inr (-1, s)
     else ebind (slot_proc (current s)) (\<lambda>(_, p). ereturn (p_pid p)) s)"

definition getCurrentProcess :: "('a sched_scheme, addr) eprog" where
  "getCurrentProcess s = ebind (deref slots (current s)) (\<lambda>sl. ereturn (slot_process sl)) s"

fun changeProcessState_loop ::
  "nat \<Rightarrow> addr \<Rightarrow> int \<Rightarrow> processState \<Rightarrow> ('a sched_scheme, unit) eprog" where
  "changeProcessState_loop 0 slot pid st = ereturn ()"
| "changeProcessState_loop (Suc n) slot pid st =
     ebind (deref slots slot) (\<lambda>sl.
     ebind (deref procs (slot_process sl)) (\<lambda>p.
     if p_pid p = pid then put_proc (slot_process sl) (p\<lparr>p_state := st\<rparr>)
     else changeProcessState_loop n (slot_next sl) pid st))"

definition changeProcessState :: "int \<Rightarrow> processState \<Rightarrow> ('a sched_scheme, unit) eprog" where
  "changeProcessState pid st s =
     changeProcessState_loop (nat (cardinal_processes s)) (current s) pid st s"

text \<open>
  The loop of \<open>schedule\<close>, from the slot it looks at next; \<open>None\<close> when it never ends.
\<close>

partial_function (option) next_ready :: "'a sched_scheme \<Rightarrow> addr \<Rightarrow> (fault + addr) option" where
  "next_ready s a =
     (case slots s a of
        None \<Rightarrow> Some (Inl NullDeref)
      | Some sl \<Rightarrow>
          (case procs s (slot_process sl) of
             None \<Rightarrow> Some (Inl NullDeref)
           | Some p \<Rightarrow> if p_state p = READY then Some (Inr a) else next_ready s (slot_next sl)))"

definition schedule :: "('a sched_scheme, unit) eprog" where
  "schedule s =
     ebind (deref slots (current s)) (\<lambda>cur.
     ebind (deref procs (slot_process cur)) (\<lambda>p.
     ebind (if p_state p = RUNNING then put_proc (slot_process cur) (p\<lparr>p_state := READY\<rparr>)
            else ereturn ()) (\<lambda>_ s1.
     case next_ready s1 (slot_next cur) of
       None \<Rightarrow> Inl Diverges
     | Some (Inl e) \<Rightarrow> Inl e
     | Some (Inr a) \<Rightarrow>
         ebind (slot_proc a) (\<lambda>(q, pr). put_proc q (pr\<lparr>p_state := RUNNING\<rparr>)) (s1\<lparr>current := a\<rparr>)))) s"

text \<open>The active thread of the process of the current slot.\<close>

definition active_thread :: "('a sched_scheme, addr \<times> Thread) eprog" where
  "active_thread s =
     ebind (slot_proc (current s)) (\<lambda>(_, p).
     if 0 \<le> p_activeThread p \<and> p_activeThread p < int (length (p_thread p))
     then let t = p_thread p ! nat (p_activeThread p)
          in ebind (deref threads t) (\<lambda>th. ereturn (t, th))
     else efail OutOfBounds) s"

definition getCurrentUserStack :: "('a sched_scheme, addr) eprog" where
  "getCurrentUserStack = ebind active_thread (\<lambda>(_, th). ereturn (userStack th))"

definition next_process :: "addr \<Rightarrow> ('a sched_scheme, addr) eprog" where
  "next_process current_rsp s =
     (if current s = NULL then Inr (current_rsp, s)
      else ebind active_thread (\<lambda>(t, th).
           ebind (put_thread t (th\<lparr>userStack := current_rsp\<rparr>)) (\<lambda>_.
           ebind schedule (\<lambda>_. getCurrentUserStack))) s)"

text \<open>
  \<open>_yield\<close> pushes an interrupt frame and the registers (23 words), asks \<open>next_process\<close> for the
  stack to continue on and returns on it: the caller is suspended until the scheduler comes back
  to it.
\<close>

definition yield :: "('a sched_scheme, unit) kprog" where
  "yield s =
     (case next_process (cpu_rsp s - 184) s of
        Inl e \<Rightarrow> Undef e
      | Inr (stack, s') \<Rightarrow> Yield (s'\<lparr>cpu_rsp := stack\<rparr>) (kreturn ()))"

text \<open>
  The loop of \<open>nextThread\<close> looks at the places after the active one, round and round; the test
  depends on \<open>i\<close> modulo the number of places only, so it ends within one round or never.
\<close>

definition nextThread :: "('a sched_scheme, int) eprog" where
  "nextThread =
     ebind getCurrentProcess (\<lambda>a.
     ebind (deref procs a) (\<lambda>p.
     if p_activeThread p < 0 \<or> length (p_thread p) < MAX_THREADS then efail OutOfBounds
     else case find (\<lambda>i. p_thread p ! ((nat (p_activeThread p) + i) mod MAX_THREADS) \<noteq> NULL)
                 [1..<MAX_THREADS + 1] of
            None \<Rightarrow> efail Diverges
          | Some i \<Rightarrow> ereturn (int ((nat (p_activeThread p) + i) mod MAX_THREADS))))"

definition switchUserToKernel :: "addr \<Rightarrow> ('a sched_scheme, addr) eprog" where
  "switchUserToKernel esp =
     ebind active_thread (\<lambda>(t, th).
     ebind (put_thread t (th\<lparr>userStack := esp\<rparr>)) (\<lambda>_. ereturn (kernelStack th)))"

definition switchKernelToUser :: "('a sched_scheme, addr) eprog" where
  "switchKernelToUser =
     ebind schedule (\<lambda>_.
     ebind nextThread (\<lambda>index.
     ebind getCurrentProcess (\<lambda>a.
     ebind (deref procs a) (\<lambda>p.
     ebind (put_proc a (p\<lparr>p_activeThread := index\<rparr>)) (\<lambda>_. getCurrentUserStack)))))"

definition getCurrentEntryPoint :: "('a sched_scheme, addr) eprog" where
  "getCurrentEntryPoint = ebind active_thread (\<lambda>(_, th). ereturn (entryPoint th))"

text \<open>
  \<open>getCurrentProcesses\<close> fills an array it allocates: the entry 0 and then, for \<open>i\<close> from 1 to
  \<open>cardinal_processes\<close>, the next process of the ring.
\<close>

fun getCurrentProcesses_loop :: "nat \<Rightarrow> addr \<Rightarrow> ('a sched_scheme, addr list) eprog" where
  "getCurrentProcesses_loop 0 aux = ereturn []"
| "getCurrentProcesses_loop (Suc n) aux =
     ebind (deref slots aux) (\<lambda>sl.
     ebind (getCurrentProcesses_loop n (slot_next sl)) (\<lambda>ps. ereturn (slot_process sl # ps)))"

definition getCurrentProcesses :: "('a sched_scheme, addr list \<times> int) eprog" where
  "getCurrentProcesses s =
     ebind (allocPage (nat (NUMBER_OF_PAGES_TO_ALLOC (cardinal_processes s * 8)))) (\<lambda>arr s1.
     if arr = NULL then Inl NullDeref
     else ebind (getCurrentProcesses_loop (Suc (nat (cardinal_processes s1))) (current s1))
            (\<lambda>ps. ereturn (ps, cardinal_processes s1)) s1) s"

definition eqProcess :: "Process \<Rightarrow> Process \<Rightarrow> bool" where
  "eqProcess a b \<longleftrightarrow> p_pid a = p_pid b"

definition getStateFromNumber :: "int \<Rightarrow> string" where
  "getStateFromNumber st =
     (if st = 0 then ''RUNNING''
      else if st = 1 then ''READY''
      else if st = 2 then ''BLOCKED''
      else if st = 3 then ''DEAD''
      else if st = 4 then ''SLEEPING''
      else ''other'')"

text \<open>
  \<open>freeProcessPages\<close> frees the page of the process before it reads the rest out of it (the
  contents survive), the stacks of its threads, the first data byte of its heap and its pages.
  The field \<open>dataStart\<close> lies 28 bytes into a block.
\<close>

fun dealloc_threads :: "nat \<Rightarrow> nat \<Rightarrow> addr list \<Rightarrow> ('a sched_scheme, unit) eprog" where
  "dealloc_threads 0 i ts = ereturn ()"
| "dealloc_threads (Suc n) i ts =
     (if length ts \<le> i then efail OutOfBounds
      else ebind (deref threads (ts ! i)) (\<lambda>th.
           ebind (deallocPage (userStack th)) (\<lambda>_.
           ebind (deallocPage (kernelStack th)) (\<lambda>_. dealloc_threads n (i + 1) ts))))"

fun dealloc_pages :: "addr list \<Rightarrow> ('a sched_scheme, unit) eprog" where
  "dealloc_pages [] = ereturn ()"
| "dealloc_pages (a # as) = ebind (deallocPage a) (\<lambda>_. dealloc_pages as)"

definition freeProcessPages :: "int \<Rightarrow> ('a sched_scheme, int) eprog" where
  "freeProcessPages pid =
     ebind (getProcessById pid) (\<lambda>a.
     ebind (deallocPage a) (\<lambda>_.
     ebind (deref procs a) (\<lambda>p.
     ebind (dealloc_threads (nat (p_numberOfThreads p)) 0 (p_thread p)) (\<lambda>_.
     ebind (deallocPage (p_heap p + 28)) (\<lambda>_.
     ebind (dealloc_pages (take (nat (p_pagesIndex p)) (p_pages p))) (\<lambda>_. ereturn 0))))))"

definition addPagesToProcess :: "addr \<Rightarrow> int \<Rightarrow> ('a sched_scheme, unit) eprog" where
  "addPagesToProcess pageBase pid =
     ebind (getProcessById pid) (\<lambda>a s.
     if a = NULL then Inr ((), s)
     else ebind (deref procs a) (\<lambda>p.
          if MAX_PAGES_PER_PROCESS \<le> p_pagesIndex p then ereturn ()
          else if p_pagesIndex p < 0 then efail OutOfBounds
          else put_proc a (p\<lparr>p_pages := (p_pages p)[nat (p_pagesIndex p) := pageBase],
                             p_pagesIndex := p_pagesIndex p + 1\<rparr>)) s)"

text \<open>
  \<open>removeProcess\<close>: the search returns the slot before the one to remove, that slot, and the
  number of steps.
\<close>

fun find_slot :: "nat \<Rightarrow> addr \<Rightarrow> addr \<Rightarrow> int \<Rightarrow> ('a sched_scheme, addr \<times> addr \<times> nat) eprog" where
  "find_slot 0 prev slot pid = ebind (slot_proc slot) (\<lambda>_. ereturn (prev, slot, 0))"
| "find_slot (Suc n) prev slot pid =
     ebind (deref slots slot) (\<lambda>sl.
     ebind (slot_proc slot) (\<lambda>(_, p).
     if p_pid p \<noteq> pid then find_slot n slot (slot_next sl) pid
     else ereturn (prev, slot, Suc n)))"

definition unlink_slot :: "int \<Rightarrow> ('a sched_scheme, bool) eprog" where
  "unlink_slot pid s =
     ebind (deref slots (current s)) (\<lambda>cur.
     ebind (find_slot (nat (cardinal_processes s)) (current s) (slot_next cur) pid) (\<lambda>(prev, slot, left).
     if left = 0 then ereturn False
     else ebind (deref slots slot) (\<lambda>sl.
          ebind (deref slots prev) (\<lambda>pv.
          ebind (put_slot prev (pv\<lparr>slot_next := slot_next sl\<rparr>)) (\<lambda>_ s1.
          let s2 = s1\<lparr>cardinal_processes := cardinal_processes s1 - 1\<rparr>
          in ebind (slot_proc slot) (\<lambda>(_, p).
             ebind (slot_proc (current s2)) (\<lambda>(_, q). ereturn (eqProcess p q))) s2))))) s"

definition removeProcess :: "int \<Rightarrow> ('a sched_scheme, unit) kprog" where
  "removeProcess pid s =
     (if pid = 0 then yield s
      else if current s = NULL then Ret () s
      else kbind (kcall (\<lambda>s. ebind (slot_proc (current s)) (\<lambda>(_, p).
              ebind (deref slots (current s)) (\<lambda>cur.
              ebind (slot_proc (slot_next cur)) (\<lambda>(_, q).
              ereturn (eqProcess p q \<and> p_pid p = pid)))) s)) (\<lambda>only.
           if only then
             kbind (kcall (freeProcessPages pid)) (\<lambda>_.
             kmodify (\<lambda>s. s\<lparr>current := NULL, cardinal_processes := cardinal_processes s - 1\<rparr>))
           else
             kbind (kcall (unlink_slot pid)) (\<lambda>self. if self then yield else kreturn ())) s)"

definition freeThreadPages :: "addr \<Rightarrow> ('a sched_scheme, unit) eprog" where
  "freeThreadPages t =
     ebind (deref threads t) (\<lambda>th.
     ebind (deallocPage (userStack th)) (\<lambda>_.
     ebind (deallocPage (kernelStack th)) (\<lambda>_.
     ebind (deallocPage t) (\<lambda>_. ereturn ()))))"

definition terminateThread :: "('a sched_scheme, unit) kprog" where
  "terminateThread =
     kbind (kcall getCurrentProcess) (\<lambda>a.
     kbind (kcall (deref procs a)) (\<lambda>p.
     if p_activeThread p = 0 then removeProcess (p_pid p)
     else if p_activeThread p < 0 \<or> int (length (p_thread p)) \<le> p_activeThread p
     then (\<lambda>s. Undef OutOfBounds)
     else kcall (ebind (freeThreadPages (p_thread p ! nat (p_activeThread p))) (\<lambda>_.
                 put_proc a (p\<lparr>p_thread := (p_thread p)[nat (p_activeThread p) := NULL],
                               p_numberOfThreads := p_numberOfThreads p - 1\<rparr>)))))"

definition thread_create :: "addr \<Rightarrow> addr \<Rightarrow> addr \<Rightarrow> ('a sched_scheme, unit) eprog" where
  "thread_create callProcess entry args =
     ebind getCurrentProcess (\<lambda>p. ebind (createThread callProcess entry args p) (\<lambda>_. ereturn ()))"

text \<open>
  The body of a process: \<open>run\<close> is the code at an address, which is the module's own.
\<close>

definition callProcess ::
  "(addr \<Rightarrow> addr \<Rightarrow> ('a sched_scheme, unit) kprog) \<Rightarrow> addr \<Rightarrow> addr \<Rightarrow> addr \<Rightarrow> addr \<Rightarrow>
   ('a sched_scheme, unit) kprog" where
  "callProcess run entry entry2 args args2 =
     kbind (run entry2 args2) (\<lambda>_. kbind terminateThread (\<lambda>_. yield))"

text \<open>
  \<open>killAllExceptCurrent\<close> walks the ring until it is back at \<open>current\<close>; the loop is given a bound
  on its steps, and running out of it is not returning.
\<close>

fun killAllExceptCurrent_loop :: "nat \<Rightarrow> int \<Rightarrow> addr \<Rightarrow> ('a sched_scheme, unit) kprog" where
  "killAllExceptCurrent_loop 0 pid aux = (\<lambda>s. Undef Diverges)"
| "killAllExceptCurrent_loop (Suc fuel) pid aux =
     (\<lambda>s. if aux = current s then Ret () s
      else kbind (kcall (slot_proc aux)) (\<lambda>(_, p).
           kbind (if p_pid p \<noteq> pid \<and> p_pid p \<noteq> 0 then removeProcess (p_pid p) else kreturn ()) (\<lambda>_.
           kbind (kcall (deref slots aux)) (\<lambda>sl.
           killAllExceptCurrent_loop fuel pid (slot_next sl)))) s)"

definition killAllExceptCurrent :: "nat \<Rightarrow> ('a sched_scheme, unit) kprog" where
  "killAllExceptCurrent fuel =
     kbind (kcall getCurrentPid) (\<lambda>pid s.
     kbind (kcall (deref slots (current s))) (\<lambda>sl.
     killAllExceptCurrent_loop fuel pid (slot_next sl)) s)"

section \<open>The ring as a list\<close>

text \<open>
  An entry of the ring: the address of a slot, the address of its process, and the process.
  \<open>path s a es b\<close>: following \<open>next\<close> from the slot \<open>a\<close> one meets exactly \<open>es\<close> and arrives at \<open>b\<close>.
\<close>

type_synonym entry = "addr \<times> addr \<times> Process"

abbreviation entry_slot :: "entry \<Rightarrow> addr" where
  "entry_slot e \<equiv> fst e"

abbreviation entry_proc :: "entry \<Rightarrow> addr" where
  "entry_proc e \<equiv> fst (snd e)"

abbreviation entry_pid :: "entry \<Rightarrow> int" where
  "entry_pid e \<equiv> p_pid (snd (snd e))"

definition view :: "entry \<Rightarrow> int \<times> processState" where
  "view e = (p_pid (snd (snd e)), p_state (snd (snd e)))"

fun path :: "'a sched_scheme \<Rightarrow> addr \<Rightarrow> entry list \<Rightarrow> addr \<Rightarrow> bool" where
  "path s a [] b \<longleftrightarrow> a = b"
| "path s a ((x, q, p) # es) b \<longleftrightarrow> a = x \<and> x \<noteq> NULL \<and> q \<noteq> NULL \<and> procs s q = Some p \<and>
     (\<exists>n. slots s x = Some \<lparr>slot_next = n, slot_process = q\<rparr> \<and> path s n es b)"

definition ring :: "'a sched_scheme \<Rightarrow> entry list \<Rightarrow> bool" where
  "ring s es \<longleftrightarrow> es \<noteq> [] \<and> path s (current s) es (current s) \<and> distinct (map entry_slot es) \<and>
     distinct (map entry_proc es) \<and> distinct (map entry_pid es) \<and>
     cardinal_processes s = int (length es)"

lemma path_append: "path s a (es @ fs) b \<longleftrightarrow> (\<exists>c. path s a es c \<and> path s c fs b)"
  by (induction s a es b rule: path.induct) auto

lemma path_cong:
  assumes "\<And>x. x \<in> entry_slot ` set es \<Longrightarrow> slots t x = slots s x"
    and "\<And>q. q \<in> entry_proc ` set es \<Longrightarrow> procs t q = procs s q"
  shows "path t a es b \<longleftrightarrow> path s a es b"
  using assms by (induction s a es b rule: path.induct) auto

lemma path_frame:
  "slots t = slots s \<Longrightarrow> procs t = procs s \<Longrightarrow> path t a es b \<longleftrightarrow> path s a es b"
  by (rule path_cong) simp_all

lemma path_proc_update:
  assumes "path s a (es @ (x, q, p) # fs) b" and "q \<notin> entry_proc ` set (es @ fs)"
    and "slots t = slots s" and "procs t = (procs s)(q \<mapsto> p')"
  shows "path t a (es @ (x, q, p') # fs) b"
proof -
  obtain n where n: "path s a es x" "x \<noteq> NULL" "q \<noteq> NULL"
      "slots s x = Some \<lparr>slot_next = n, slot_process = q\<rparr>" "path s n fs b"
    using assms(1) by (auto simp: path_append)
  have "path t c gs d \<longleftrightarrow> path s c gs d" if "q \<notin> entry_proc ` set gs" for c gs d
    using that assms(3,4) by (intro path_cong) auto
  with n assms show ?thesis by (auto simp: path_append image_Un)
qed

lemma ring_not_NULL: "ring s es \<Longrightarrow> current s \<noteq> NULL"
  by (cases es) (auto simp: ring_def)

lemma ring_ConsE:
  assumes "ring s es"
  obtains x q p n fs where "es = (x, q, p) # fs" "current s = x" "x \<noteq> NULL" "q \<noteq> NULL"
    "procs s q = Some p" "slots s x = Some \<lparr>slot_next = n, slot_process = q\<rparr>" "path s n fs x"
  using assms by (cases es) (auto simp: ring_def)

section \<open>Looking for a ready process\<close>

lemma next_ready_found:
  assumes "path s a (es @ (x, q, p) # fs) b" and "\<forall>e\<in>set es. snd (view e) \<noteq> READY"
    and "p_state p = READY"
  shows "next_ready s a = Some (Inr x)"
  using assms
proof (induction es arbitrary: a)
  case Nil
  then show ?case by (subst next_ready.simps) auto
next
  case (Cons e es)
  obtain y r pr where e: "e = (y, r, pr)" by (cases e)
  from Cons show ?case by (subst next_ready.simps) (auto simp: e view_def)
qed

text \<open>On a closed path without a ready process the search never ends.\<close>

lemma path_next:
  assumes "path s a es b" and "e \<in> set es"
  obtains n where "slots s (entry_slot e) = Some \<lparr>slot_next = n, slot_process = entry_proc e\<rparr>"
    "procs s (entry_proc e) = Some (snd (snd e))" "n \<in> insert b (entry_slot ` set es)"
proof -
  obtain us vs where split: "es = us @ e # vs" using assms(2) by (meson split_list)
  obtain x q p where e: "e = (x, q, p)" by (cases e)
  from assms(1) split e obtain n where n: "slots s x = Some \<lparr>slot_next = n, slot_process = q\<rparr>"
      "procs s q = Some p" "path s n vs b"
    by (auto simp: path_append)
  have "n \<in> insert b (entry_slot ` set es)"
    using n(3) split by (cases vs) auto
  with n e that show thesis by simp
qed

lemma next_ready_diverges:
  assumes "path s b es b" and "es \<noteq> []" and "\<forall>e\<in>set es. snd (view e) \<noteq> READY"
  shows "next_ready s b = None"
proof -
  have start: "b \<in> entry_slot ` set es" using assms(1,2) by (cases es) auto
  have "u = s \<longrightarrow> c \<notin> entry_slot ` set es" if "next_ready u c = Some z" for u c z
  proof (rule next_ready.raw_induct [where P = "\<lambda>u c z. u = s \<longrightarrow> c \<notin> entry_slot ` set es", OF _ that], intro impI notI)
    fix f :: "'a sched_scheme \<Rightarrow> addr \<Rightarrow> (fault + addr) option" and u c z
    assume IH: "\<And>u c z. f u c = Some z \<Longrightarrow> u = s \<longrightarrow> c \<notin> entry_slot ` set es"
      and body: "(case slots u c of
        None \<Rightarrow> Some (Inl NullDeref)
      | Some sl \<Rightarrow>
          (case procs u (slot_process sl) of
             None \<Rightarrow> Some (Inl NullDeref)
           | Some p \<Rightarrow> if p_state p = READY then Some (Inr c) else f u (slot_next sl))) = Some z"
      and u: "u = s" and "c \<in> entry_slot ` set es"
    then obtain e where e: "e \<in> set es" "c = entry_slot e" by auto
    obtain n where n: "slots s c = Some \<lparr>slot_next = n, slot_process = entry_proc e\<rparr>"
      "procs s (entry_proc e) = Some (snd (snd e))" "n \<in> entry_slot ` set es"
      using path_next [OF assms(1) e(1)] e(2) start by (metis insertE)
    have "f s n = Some z" using body n(1,2) assms(3) e u by (auto simp: view_def)
    with IH n(3) show False by auto
  qed
  with start show ?thesis by (metis not_Some_eq)
qed

section \<open>schedule\<close>

lemma slot_proc_Some [simp]:
  "slots s a = Some sl \<Longrightarrow> procs s (slot_process sl) = Some p \<Longrightarrow> slot_proc a s = Inr ((slot_process sl, p), s)"
  by (simp add: slot_proc_def)

text \<open>
  What the scheduler promises, on the list of processes (pid and state, the current one first):
  the current process goes to the end of the line, and the first ready one of the line runs.
\<close>

definition preempt :: "int \<times> processState \<Rightarrow> int \<times> processState" where
  "preempt v = (fst v, if snd v = RUNNING then READY else snd v)"

fun abs_schedule :: "(int \<times> processState) list \<Rightarrow> (int \<times> processState) list option" where
  "abs_schedule [] = None"
| "abs_schedule (v # vs) =
     (let line = vs @ [preempt v]; waiting = (\<lambda>w. snd w \<noteq> READY)
      in case dropWhile waiting line of
           [] \<Rightarrow> None
         | w # ws \<Rightarrow> Some ((fst w, RUNNING) # ws @ takeWhile waiting line))"

lemma schedule_found:
  assumes "slots s (current s) = Some \<lparr>slot_next = n, slot_process = q\<rparr>" and "procs s q = Some p"
    and "q \<noteq> NULL"
    and "u = s\<lparr>procs := (procs s)(q \<mapsto> p\<lparr>p_state := (if p_state p = RUNNING then READY else p_state p)\<rparr>)\<rparr>"
  shows "schedule s = (case next_ready u n of
       None \<Rightarrow> Inl Diverges
     | Some (Inl e) \<Rightarrow> Inl e
     | Some (Inr a) \<Rightarrow>
         ebind (slot_proc a) (\<lambda>(q, pr). put_proc q (pr\<lparr>p_state := RUNNING\<rparr>)) (u\<lparr>current := a\<rparr>))"
proof -
  have "u = (if p_state p = RUNNING then s\<lparr>procs := (procs s)(q \<mapsto> p\<lparr>p_state := READY\<rparr>)\<rparr> else s)"
    using assms(2,4) by (simp add: fun_upd_idem)
  then show ?thesis
    using assms(1-3) by (cases "p_state p = RUNNING") (simp_all only: if_True if_False,
      simp_all add: schedule_def put_proc_def)
qed

lemma schedule_line:
  assumes cur: "slots s (current s) = Some \<lparr>slot_next = n, slot_process = q\<rparr>" "procs s q = Some p" "q \<noteq> NULL"
    and u: "u = s\<lparr>procs := (procs s)(q \<mapsto> p\<lparr>p_state := (if p_state p = RUNNING then READY else p_state p)\<rparr>)\<rparr>"
    and t: "t = u\<lparr>current := y, procs := (procs u)(r \<mapsto> pr\<lparr>p_state := RUNNING\<rparr>)\<rparr>"
    and line: "path u n (us @ (y, r, pr) # ws) n" "distinct (map entry_proc (us @ (y, r, pr) # ws))"
      "\<forall>e\<in>set us. snd (view e) \<noteq> READY" "p_state pr = READY"
  shows "schedule s = Inr ((), t)" and "path t y ((y, r, pr\<lparr>p_state := RUNNING\<rparr>) # ws @ us) y"
proof -
  obtain m where y: "procs u r = Some pr" "r \<noteq> NULL" "slots u y = Some \<lparr>slot_next = m, slot_process = r\<rparr>"
    using line(1) by (auto simp: path_append)
  have "schedule s =
      ebind (slot_proc y) (\<lambda>(q, pr). put_proc q (pr\<lparr>p_state := RUNNING\<rparr>)) (u\<lparr>current := y\<rparr>)"
    using schedule_found [OF cur u] next_ready_found [OF line(1,3,4)] by simp
  also have "\<dots> = put_proc r (pr\<lparr>p_state := RUNNING\<rparr>) (u\<lparr>current := y\<rparr>)"
    using y by (subst ebind_Inr [where x = "(r, pr)" and s' = "u\<lparr>current := y\<rparr>"]) simp_all
  also have "\<dots> = Inr ((), t)"
    using y(2) by (simp add: put_proc_def t)
  finally show "schedule s = Inr ((), t)" .
  have "path t n (us @ (y, r, pr\<lparr>p_state := RUNNING\<rparr>) # ws) n"
  proof (rule path_proc_update [OF line(1)])
    show "r \<notin> entry_proc ` set (us @ ws)" using line(2) by auto
  qed (simp_all add: t)
  then show "path t y ((y, r, pr\<lparr>p_state := RUNNING\<rparr>) # ws @ us) y"
    by (auto simp: path_append)
qed

lemma schedule_step:
  assumes "ring s ((x, q, p) # es)"
    and line: "es @ [(x, q, p\<lparr>p_state := (if p_state p = RUNNING then READY else p_state p)\<rparr>)]
       = us @ (y, r, pr) # ws"
    and "\<forall>e\<in>set us. snd (view e) \<noteq> READY" and "p_state pr = READY"
  shows "\<exists>t. schedule s = Inr ((), t) \<and> ring t ((y, r, pr\<lparr>p_state := RUNNING\<rparr>) # ws @ us) \<and>
    t = s\<lparr>procs := procs t, current := y\<rparr> \<and>
    (\<forall>a. a \<notin> entry_proc ` set ((x, q, p) # es) \<longrightarrow> procs t a = procs s a)"
proof -
  define p' where "p' = p\<lparr>p_state := (if p_state p = RUNNING then READY else p_state p)\<rparr>"
  define u where "u = s\<lparr>procs := (procs s)(q \<mapsto> p')\<rparr>"
  define t where "t = u\<lparr>current := y, procs := (procs u)(r \<mapsto> pr\<lparr>p_state := RUNNING\<rparr>)\<rparr>"
  obtain n where n: "slots s (current s) = Some \<lparr>slot_next = n, slot_process = q\<rparr>" "procs s q = Some p"
      "q \<noteq> NULL" "current s = x"
    using assms(1) by (auto simp: ring_def)
  have "path u x ([] @ (x, q, p') # es) x"
  proof (rule path_proc_update)
    show "path s x ([] @ (x, q, p) # es) x" using assms(1) n(4) by (simp add: ring_def)
    show "q \<notin> entry_proc ` set ([] @ es)" using assms(1) by (simp add: ring_def)
  qed (simp_all add: u_def)
  then have "path u n (es @ [(x, q, p')]) n"
    using n by (simp add: path_append u_def)
  then have path: "path u n (us @ (y, r, pr) # ws) n"
    using line by (simp add: p'_def)
  have perm: "map f (us @ (y, r, pr) # ws) = map f es @ [f (x, q, p')]" for f :: "entry \<Rightarrow> 'z"
    unfolding line [symmetric] p'_def by simp
  have dist: "distinct (map f (us @ (y, r, pr) # ws))"
    if "distinct (map f ((x, q, p) # es))" "f (x, q, p') = f (x, q, p)" for f :: "entry \<Rightarrow> 'z"
    unfolding perm using that by auto
  have d: "distinct (map entry_slot (us @ (y, r, pr) # ws))" "distinct (map entry_proc (us @ (y, r, pr) # ws))"
      "distinct (map entry_pid (us @ (y, r, pr) # ws))"
    using assms(1) by (intro dist; simp add: ring_def p'_def)+
  note sched = schedule_line [OF n(1-3) u_def [unfolded p'_def] t_def path d(2) assms(3,4)]
  have "length (ws @ us) = length es"
    using arg_cong [OF line, of length] by simp
  moreover have "procs t a = procs s a" if "a \<notin> entry_proc ` set ((x, q, p) # es)" for a
  proof -
    have "r \<in> entry_proc ` set ((x, q, p) # es)"
      using arg_cong [OF line, of "\<lambda>l. entry_proc ` set l"] by auto
    with that show ?thesis by (auto simp: t_def u_def)
  qed
  ultimately show ?thesis
    using sched d assms(1) by (auto simp: ring_def t_def u_def)
qed

lemma abs_schedule_None_iff:
  "abs_schedule (v # vs) = None \<longleftrightarrow> (\<forall>w\<in>set (vs @ [preempt v]). snd w \<noteq> READY)"
proof -
  define line where "line = vs @ [preempt v]"
  have "abs_schedule (v # vs) = None \<longleftrightarrow> dropWhile (\<lambda>w. snd w \<noteq> READY) line = []"
    by (cases "dropWhile (\<lambda>w. snd w \<noteq> READY) line") (simp_all add: Let_def del: dropWhile_eq_Nil_conv flip: line_def)
  then show ?thesis by (simp only: dropWhile_eq_Nil_conv line_def)
qed

lemma view_preempt:
  "view (x, q, p\<lparr>p_state := (if p_state p = RUNNING then READY else p_state p)\<rparr>) = preempt (view (x, q, p))"
  by (simp add: view_def preempt_def)

text \<open>The ring with the views of its processes.\<close>

definition ring_view :: "'a sched_scheme \<Rightarrow> (int \<times> processState) list \<Rightarrow> bool" where
  "ring_view s vs \<longleftrightarrow> (\<exists>es. ring s es \<and> map view es = vs)"

lemma schedule_diverges:
  assumes "ring s es" and "abs_schedule (map view es) = None"
  shows "schedule s = Inl Diverges"
proof -
  obtain x q p n fs where e: "es = (x, q, p) # fs" "current s = x" "x \<noteq> NULL" "q \<noteq> NULL"
    "procs s q = Some p" "slots s x = Some \<lparr>slot_next = n, slot_process = q\<rparr>" "path s n fs x"
    using assms(1) by (rule ring_ConsE)
  define p' where "p' = p\<lparr>p_state := (if p_state p = RUNNING then READY else p_state p)\<rparr>"
  define u where "u = s\<lparr>procs := (procs s)(q \<mapsto> p')\<rparr>"
  have "path u x ([] @ (x, q, p') # fs) x"
  proof (rule path_proc_update)
    show "path s x ([] @ (x, q, p) # fs) x" using assms(1) e(1,2) by (simp add: ring_def)
    show "q \<notin> entry_proc ` set ([] @ fs)" using assms(1) e(1) by (simp add: ring_def)
  qed (simp_all add: u_def)
  then have "path u n (fs @ [(x, q, p')]) n"
    using e(4,6) by (simp add: path_append u_def)
  moreover have "\<forall>e\<in>set (fs @ [(x, q, p')]). snd (view e) \<noteq> READY"
    using assms(2) by (simp only: e(1) list.map abs_schedule_None_iff) (auto simp: p'_def view_preempt)
  ultimately have "next_ready u n = None"
    by (intro next_ready_diverges) auto
  moreover have "schedule s = (case next_ready u n of None \<Rightarrow> Inl Diverges | Some (Inl e) \<Rightarrow> Inl e
     | Some (Inr a) \<Rightarrow>
         ebind (slot_proc a) (\<lambda>(q, pr). put_proc q (pr\<lparr>p_state := RUNNING\<rparr>)) (u\<lparr>current := a\<rparr>))"
    by (rule schedule_found) (simp_all add: e u_def p'_def)
  ultimately show ?thesis by simp
qed

text \<open>An entry up to the state of its process: what scheduling leaves alone.\<close>

definition entry_id :: "entry \<Rightarrow> addr \<times> addr \<times> Process" where
  "entry_id e = (entry_slot e, entry_proc e, (snd (snd e))\<lparr>p_state := READY\<rparr>)"

lemma entry_id_state [simp]: "entry_id (x, q, p\<lparr>p_state := st\<rparr>) = entry_id (x, q, p)"
  by (simp add: entry_id_def)

lemma schedule_simulates:
  assumes "ring s es" and "abs_schedule (map view es) = Some vs"
  shows "\<exists>t fs. schedule s = Inr ((), t) \<and> ring t fs \<and> map view fs = vs \<and>
    (\<exists>k. map entry_id fs = rotate k (map entry_id es)) \<and>
    t = s\<lparr>procs := procs t, current := current t\<rparr> \<and>
    (\<forall>a. a \<notin> entry_proc ` set es \<longrightarrow> procs t a = procs s a)"
proof -
  let ?wait = "\<lambda>w. snd w \<noteq> READY"
  obtain x q p gs where e: "es = (x, q, p) # gs" using assms(1) by (rule ring_ConsE)
  define line where "line = gs @ [(x, q, p\<lparr>p_state := (if p_state p = RUNNING then READY else p_state p)\<rparr>)]"
  have views: "map view gs @ [preempt (view (x, q, p))] = map view line"
    by (simp add: line_def view_preempt)
  have abs: "abs_schedule (map view es) = (case dropWhile ?wait (map view line) of [] \<Rightarrow> None
      | w # ws \<Rightarrow> Some ((fst w, RUNNING) # ws @ takeWhile ?wait (map view line)))"
    by (simp add: e Let_def views)
  have "dropWhile ?wait (map view line) \<noteq> []" using assms(2) unfolding abs by (metis list.case(1) option.distinct(1))
  then have "dropWhile (?wait \<circ> view) line \<noteq> []" by (simp add: dropWhile_map)
  then obtain y r pr ws where drop: "dropWhile (?wait \<circ> view) line = (y, r, pr) # ws"
    by (cases "dropWhile (?wait \<circ> view) line") auto
  define us where "us = takeWhile (?wait \<circ> view) line"
  have split: "line = us @ (y, r, pr) # ws"
    unfolding us_def drop [symmetric] by simp
  moreover have "\<forall>e\<in>set us. snd (view e) \<noteq> READY"
    by (auto simp: us_def dest: set_takeWhileD)
  moreover have "p_state pr = READY"
    using hd_dropWhile [of "?wait \<circ> view" line] drop by (simp add: view_def)
  ultimately obtain t where t: "schedule s = Inr ((), t)"
      "ring t ((y, r, pr\<lparr>p_state := RUNNING\<rparr>) # ws @ us)" "t = s\<lparr>procs := procs t, current := y\<rparr>"
      "\<forall>a. a \<notin> entry_proc ` set es \<longrightarrow> procs t a = procs s a"
    using schedule_step assms(1) by (metis e line_def)
  have "vs = map view ((y, r, pr\<lparr>p_state := RUNNING\<rparr>) # ws @ us)"
    using assms(2) unfolding abs dropWhile_map takeWhile_map drop us_def [symmetric]
    by (simp add: view_def)
  moreover have "map entry_id ((y, r, pr\<lparr>p_state := RUNNING\<rparr>) # ws @ us) =
      rotate (length us + 1) (map entry_id es)"
  proof -
    have "rotate 1 (map entry_id es) = map entry_id line" by (simp add: e line_def)
    then have "rotate (length us + 1) (map entry_id es) = rotate (length (map entry_id us)) (map entry_id line)"
      by (simp only: rotate_rotate [symmetric] length_map)
    then show ?thesis using rotate_append [of "map entry_id us"] by (simp add: split)
  qed
  moreover have "t = s\<lparr>procs := procs t, current := current t\<rparr>"
    using t(3) by (metis sched.select_convs(3) sched.surjective sched.update_convs(3,5) t(3))
  ultimately show ?thesis using t by blast
qed

section \<open>No process that is ready waits for ever\<close>

lemma abs_schedule_position:
  assumes "0 < i" and "i < length vs" and "vs ! i = (pid, READY)"
  obtains j ws where "1 \<le> j" "j \<le> i" "abs_schedule vs = Some ws" "length ws = length vs"
    "ws ! (i - j) = (pid, if j = i then RUNNING else READY)"
proof -
  let ?wait = "\<lambda>w. snd w \<noteq> READY"
  obtain v us where vs: "vs = v # us" using assms(2) by (cases vs) auto
  define line where "line = us @ [preempt v]"
  define k where "k = length (takeWhile ?wait line)"
  have at: "line ! (i - 1) = (pid, READY)" "i - 1 < length us"
    using assms vs by (auto simp: line_def nth_append nth_Cons')
  have ki: "k \<le> i - 1"
  proof (rule ccontr)
    assume "\<not> k \<le> i - 1"
    then have "i - 1 < length (takeWhile ?wait line)" by (simp add: k_def)
    then have "line ! (i - 1) \<in> set (takeWhile ?wait line)"
      by (metis nth_mem takeWhile_nth)
    with at set_takeWhileD show False by fastforce
  qed
  then have kl: "k < length line" using at by (simp add: line_def)
  have drop: "dropWhile ?wait line = line ! k # drop (Suc k) line"
    using kl by (simp add: dropWhile_eq_drop Cons_nth_drop_Suc flip: k_def)
  define ws where "ws = (fst (line ! k), RUNNING) # drop (Suc k) line @ take k line"
  have "takeWhile ?wait line = take k line"
    unfolding k_def by (rule takeWhile_eq_take)
  with drop have "abs_schedule vs = Some ws"
    by (simp add: vs Let_def ws_def flip: line_def)
  moreover have "length ws = length vs"
    using kl by (simp add: ws_def vs line_def)
  moreover have "ws ! (i - (k + 1)) = (pid, if k + 1 = i then RUNNING else READY)"
  proof (cases "k + 1 = i")
    case True
    with at(1) show ?thesis by (auto simp: ws_def)
  next
    case False
    then have "i - (k + 1) = Suc (i - 1 - (k + 1))" "i - 1 - (k + 1) < length line - Suc k"
        "Suc k + (i - 1 - (k + 1)) = i - 1"
      using ki assms(1) at(2) by (auto simp: line_def)
    with at(1) False show ?thesis by (simp add: ws_def nth_append)
  qed
  ultimately show thesis using that [of "k + 1" ws] ki assms(1) by auto
qed

text \<open>
  What the timer relies on: an operation that, seen on the list, is \<open>abs_schedule\<close>.  A process that
  is ready at position \<open>i\<close> of the list runs after at most \<open>i\<close> of them.
\<close>

fun erepeat :: "nat \<Rightarrow> ('s, unit) eprog \<Rightarrow> ('s, unit) eprog" where
  "erepeat 0 m = ereturn ()"
| "erepeat (Suc n) m = ebind m (\<lambda>_. erepeat n m)"

locale round_robin =
  fixes step :: "'s \<Rightarrow> fault + (unit \<times> 's)"
    and line :: "'s \<Rightarrow> (int \<times> processState) list \<Rightarrow> bool"
  assumes step_simulates:
    "line s vs \<Longrightarrow> abs_schedule vs = Some ws \<Longrightarrow> \<exists>t. step s = Inr ((), t) \<and> line t ws"
begin

lemma no_starvation:
  assumes "line s vs" and "0 < i" and "i < length vs" and "vs ! i = (pid, READY)"
  shows "\<exists>k t ws. 0 < k \<and> k \<le> i \<and> erepeat k step s = Inr ((), t) \<and> line t ((pid, RUNNING) # ws)"
  using assms
proof (induction i arbitrary: s vs rule: less_induct)
  case (less i)
  obtain j us where j: "1 \<le> j" "j \<le> i" "abs_schedule vs = Some us" "length us = length vs"
      "us ! (i - j) = (pid, if j = i then RUNNING else READY)"
    using less.prems(2-4) by (rule abs_schedule_position)
  obtain u where u: "step s = Inr ((), u)" "line u us"
    using step_simulates [OF less.prems(1) j(3)] by blast
  show ?case
  proof (cases "j = i")
    case True
    with j have "us = (pid, RUNNING) # tl us" using less.prems(3) by (cases us) auto
    then show ?thesis
      using u less.prems(2) by (intro exI [of _ "1"] exI [of _ u] exI [of _ "tl us"]) auto
  next
    case False
    with j less.prems(2,3) have i: "i - j < i" "0 < i - j" "i - j < length us" by auto
    have "us ! (i - j) = (pid, READY)" using j(5) False by simp
    then obtain k t ws where "0 < k" "k \<le> i - j" "erepeat k step u = Inr ((), t)"
        "line t ((pid, RUNNING) # ws)"
      using less.IH [OF i(1) u(2) i(2,3)] by blast
    then show ?thesis
      using u(1) j(1,2) by (intro exI [of _ "Suc k"] exI [of _ t] exI [of _ ws]) auto
  qed
qed

end

interpretation gatos: round_robin "schedule :: ('a sched_scheme, unit) eprog" ring_view
proof
  fix s :: "'a sched_scheme" and vs ws
  assume "ring_view s vs" "abs_schedule vs = Some ws"
  then obtain es where "ring s es" "abs_schedule (map view es) = Some ws"
    by (auto simp: ring_view_def)
  then obtain t fs where "schedule s = Inr ((), t)" "ring t fs" "map view fs = ws"
    using schedule_simulates by blast
  then show "\<exists>t. schedule s = Inr ((), t) \<and> ring_view t ws"
    by (auto simp: ring_view_def)
qed

end
