(* ===== verification/Lifecycle.thy ===== *)
theory Lifecycle
  imports Scheduler
begin

text \<open>
  The life of a process: what creating one, changing its state, switching to another and removing it
  do to the ring of theory \<open>Scheduler\<close>.  The invariant \<open>kernel_inv\<close> ties the ring to the page
  allocator: the slots, processes and active threads of the ring lie in pages of their own that
  the allocator handed out, so a page it hands out for a new process is none of them.
\<close>

section \<open>changeProcessState\<close>

definition abs_change :: "int \<Rightarrow> processState \<Rightarrow> (int \<times> processState) list \<Rightarrow> (int \<times> processState) list" where
  "abs_change pid st vs = map (\<lambda>v. if fst v = pid then (pid, st) else v) vs"

lemma changeProcessState_loop_found:
  assumes "path s a (us @ (x, q, p) # ws) b" and "pid \<notin> entry_pid ` set us" and "p_pid p = pid"
    and "length us < n"
  shows "changeProcessState_loop n a pid st s = Inr ((), s\<lparr>procs := (procs s)(q \<mapsto> p\<lparr>p_state := st\<rparr>)\<rparr>)"
  using assms
proof (induction us arbitrary: n a)
  case Nil
  then show ?case by (cases n) (auto simp: fun_upd_def)
next
  case (Cons e us)
  then show ?case by (cases n; cases e) auto
qed

lemma changeProcessState_loop_absent:
  assumes "path s a es b" and "pid \<notin> entry_pid ` set es" and "n \<le> length es"
  shows "changeProcessState_loop n a pid st s = Inr ((), s)"
  using assms
proof (induction es arbitrary: n a)
  case (Cons e es)
  then show ?case by (cases n; cases e) auto
qed simp

text \<open>The state of a ring after a change of one of its processes.\<close>

lemma ring_proc_update:
  assumes "ring s (us @ (x, q, p) # ws)" and "p_pid p' = p_pid p"
  shows "ring (s\<lparr>procs := (procs s)(q \<mapsto> p')\<rparr>) (us @ (x, q, p') # ws)"
proof -
  have "path (s\<lparr>procs := (procs s)(q \<mapsto> p')\<rparr>) (current s) (us @ (x, q, p') # ws) (current s)"
  proof (rule path_proc_update)
    show "path s (current s) (us @ (x, q, p) # ws) (current s)" using assms(1) by (simp add: ring_def)
    show "q \<notin> entry_proc ` set (us @ ws)" using assms(1) by (auto simp: ring_def)
  qed simp_all
  with assms show ?thesis by (auto simp: ring_def)
qed

lemma changeProcessState_simulates:
  assumes "ring s es"
  shows "\<exists>t fs. changeProcessState pid st s = Inr ((), t) \<and> ring t fs \<and>
    map view fs = abs_change pid st (map view es) \<and> map entry_slot fs = map entry_slot es \<and>
    t = s\<lparr>procs := procs t\<rparr>"
proof (cases "pid \<in> entry_pid ` set es")
  case False
  have "changeProcessState pid st s = Inr ((), s)"
    using assms False changeProcessState_loop_absent [of s "current s" es "current s" pid]
    by (simp add: changeProcessState_def ring_def)
  moreover have "abs_change pid st (map view es) = map view es"
    using False by (auto simp: abs_change_def view_def)
  ultimately show ?thesis using assms by (intro exI [of _ s] exI [of _ es]) simp
next
  case True
  then obtain e where "e \<in> set es" "entry_pid e = pid" by auto
  moreover obtain x q p where "e = (x, q, p)" by (cases e)
  ultimately obtain us ws where es: "es = us @ (x, q, p) # ws" "p_pid p = pid"
    by (metis split_list snd_conv)
  have rest: "pid \<notin> entry_pid ` set (us @ ws)"
    using assms es by (auto simp: ring_def)
  define t where "t = s\<lparr>procs := (procs s)(q \<mapsto> p\<lparr>p_state := st\<rparr>)\<rparr>"
  have "changeProcessState pid st s = Inr ((), t)"
    unfolding changeProcessState_def t_def
    by (rule changeProcessState_loop_found [where us = us and ws = ws and b = "current s"])
      (use assms es rest in \<open>auto simp: ring_def\<close>)
  moreover have "ring t (us @ (x, q, p\<lparr>p_state := st\<rparr>) # ws)"
    unfolding t_def using assms es by (intro ring_proc_update) auto
  moreover have "map view (us @ (x, q, p\<lparr>p_state := st\<rparr>) # ws) = abs_change pid st (map view es)"
    using es rest by (force simp: abs_change_def view_def image_iff)
  ultimately show ?thesis
    using es by (intro exI [of _ t] exI [of _ "us @ (x, q, p\<lparr>p_state := st\<rparr>) # ws"]) (simp add: t_def)
qed

section \<open>Adding a process\<close>

text \<open>
  The pages of the ring's slots and processes were handed out by the allocator, every process has a
  thread to run, and pids are given out in order.
\<close>

definition threads_ok :: "'a sched_scheme \<Rightarrow> Process \<Rightarrow> bool" where
  "threads_ok s p \<longleftrightarrow> length (p_thread p) = MAX_THREADS \<and> 0 \<le> p_activeThread p \<and>
     p_activeThread p < int MAX_THREADS \<and> p_thread p ! nat (p_activeThread p) \<noteq> NULL \<and>
     threads s (p_thread p ! nat (p_activeThread p)) \<noteq> None"

definition entry_thread :: "entry \<Rightarrow> addr" where
  "entry_thread e = p_thread (snd (snd e)) ! nat (p_activeThread (snd (snd e)))"

definition entry_pages :: "entry \<Rightarrow> addr list" where
  "entry_pages e = [entry_slot e, entry_proc e, entry_thread e]"

definition kernel_inv :: "(addr \<times> nat) list \<Rightarrow> 'a sched_scheme \<Rightarrow> entry list \<Rightarrow> bool" where
  "kernel_inv bs s es \<longleftrightarrow> blocks_inv bs s \<and>
     (if es = [] then current s = NULL \<and> cardinal_processes s = 0 else ring s es) \<and>
     distinct (concat (map entry_pages es)) \<and>
     (\<forall>e\<in>set es. (\<forall>a\<in>set (entry_pages e). (a, 1) \<in> set bs) \<and> entry_pid e < next_pid s \<and> threads_ok s (snd (snd e))) \<and>
     (\<forall>a p. procs s a = Some p \<longrightarrow> length (p_thread p) = MAX_THREADS)"

text \<open>The process \<open>getProcess\<close> builds in a page \<open>a\<close>, with its first thread in the page \<open>t\<close>.\<close>

definition new_process :: "addr \<Rightarrow> addr \<Rightarrow> int \<Rightarrow> string \<Rightarrow> Process \<Rightarrow> Process" where
  "new_process a t pid description old = initializePipeFields
     (old\<lparr>p_activeThread := 0, p_numberOfThreads := 1,
          p_thread := t # replicate (MAX_THREADS - 1) NULL, p_pid := pid, p_state := READY,
          p_description := description, p_heap := NULL, p_pagesIndex := 0\<rparr>) (a + sizeof_Process)"

lemma findNextSpot_fresh [simp]:
  assumes "0 < n"
  shows "findNextSpot (NULL # ts) n = (0, 1 # ts)"
proof -
  have "scan n (\<lambda>i. (NULL # ts) ! i = NULL) = Some 0"
    using assms by (simp add: scan_Some_iff)
  then show ?thesis by (simp add: findNextSpot_def)
qed

lemma initializeThreadArray_all:
  "length ts = n \<Longrightarrow> initializeThreadArray n ts = replicate n NULL"
  by (simp add: initializeThreadArray_def list_eq_iff_nth_eq)

text \<open>Requests that all succeed, one after the other.\<close>

lemma alloc_seq_Cons_fresh:
  assumes "alloc_seq (p # ps) bs s = Inr (cs, t)" and "length cs = length bs + length (p # ps)"
  obtains r u where "allocPage p s = Inr (r, u)" "r \<noteq> NULL" "alloc_seq ps ((r, p) # bs) u = Inr (cs, t)"
proof -
  have len: "length cs \<le> length bs + length ps" if "alloc_seq ps bs s = Inr (cs, t)"
    for ps bs and s :: "'a pagemem_scheme" and cs t
    using that
  proof (induction ps arbitrary: bs s)
    case (Cons p ps)
    from Cons.prems obtain r u where
      "alloc_seq ps (if r = NULL then bs else (r, p) # bs) u = Inr (cs, t)"
      by (auto split: sum.splits)
    from Cons.IH [OF this] show ?case by (simp split: if_splits)
  qed simp
  obtain r u where "allocPage p s = Inr (r, u)"
      "alloc_seq ps (if r = NULL then bs else (r, p) # bs) u = Inr (cs, t)"
    using assms(1) by (auto split: sum.splits)
  with len [of ps bs u cs t] assms(2) that show thesis by (auto split: if_splits)
qed

lemma pages_one [simp]:
  "nat (NUMBER_OF_PAGES_TO_ALLOC sizeof_Process) = 1" "nat (NUMBER_OF_PAGES_TO_ALLOC sizeof_Thread) = 1"
  "nat (NUMBER_OF_PAGES_TO_ALLOC sizeof_ProcessSlot) = 1"
  by (simp_all add: NUMBER_OF_PAGES_TO_ALLOC_def)

lemma createThread_built:
  assumes "allocPage 1 s = Inr (t, s1)" "t \<noteq> NULL" "allocPage 2 s1 = Inr (k1, s2)"
    "allocPage 2 s2 = Inr (k2, s3)" "procs s p = Some pr" "p_thread pr = NULL # ts" "p \<noteq> NULL"
  shows "\<exists>f. createThread cp entry args p s = Inr (0, s3\<lparr>frames := f,
     procs := (procs s)(p \<mapsto> pr\<lparr>p_numberOfThreads := p_numberOfThreads pr + 1, p_thread := t # ts\<rparr>),
     threads := (threads s)(t \<mapsto> \<lparr>userStack = k1 + 7824, kernelStack = k2 + 8192, entryPoint = entry\<rparr>)\<rparr>)"
proof -
  have "s1 = s\<lparr>occupied := occupied s1\<rparr>" "s2 = s1\<lparr>occupied := occupied s2\<rparr>"
    "s3 = s2\<lparr>occupied := occupied s3\<rparr>"
    using assms(1,3,4) by (blast dest: allocPage_frame)+
  then have s3: "s3 = s\<lparr>occupied := occupied s3\<rparr>"
    by (metis (no_types, lifting) pagemem.update_convs(1) pagemem.surjective)
  have fr: "procs s3 = procs s" "threads s3 = threads s" by (subst s3, simp)+
  show ?thesis
    using assms fr by (simp add: createThread_def fillStackFrame_def put_frame_def Let_def add.commute) blast
qed

lemma getProcess_built:
  assumes a1: "allocPage 1 s = Inr (a, s1)" "a \<noteq> NULL"
    and a2: "allocPage 1 s1 = Inr (t, s2)" "t \<noteq> NULL"
    and a3: "allocPage 2 s2 = Inr (k1, s3)"
    and a4: "allocPage 2 s3 = Inr (k2, s4)"
    and len: "\<forall>p. procs s a = Some p \<longrightarrow> length (p_thread p) = MAX_THREADS"
  shows "\<exists>u. getProcess cp entry description args s = Inr (a, u) \<and>
    procs u = (procs s)(a \<mapsto> new_process a t (next_pid s) description (page_process a s)) \<and>
    threads u = (threads s)(t \<mapsto> \<lparr>userStack = k1 + 7824, kernelStack = k2 + 8192, entryPoint = entry\<rparr>) \<and>
    next_pid u = next_pid s + 1 \<and> slots u = slots s \<and> current u = current s \<and>
    cardinal_processes u = cardinal_processes s \<and> cpu_rsp u = cpu_rsp s \<and>
    occupied u = occupied s4 \<and> base u = base s \<and> heapLevel u = heapLevel s \<and> baseMemory u = baseMemory s"
proof -
  have f1: "s1 = s\<lparr>occupied := occupied s1\<rparr>" using allocPage_frame [OF a1(1)] .
  have f2: "s2 = s1\<lparr>occupied := occupied s2\<rparr>" using allocPage_frame [OF a2(1)] .
  have f3: "s3 = s2\<lparr>occupied := occupied s3\<rparr>" using allocPage_frame [OF a3] .
  have pp: "page_process a s1 = page_process a s"
    by (subst f1) (simp add: page_process_def)
  have pl: "length (p_thread (page_process a s)) = MAX_THREADS"
    using len by (auto simp: page_process_def zero_process_def split: option.splits)
  define v1 where "v1 = s1\<lparr>procs := (procs s1)(a \<mapsto> (page_process a s)\<lparr>p_activeThread := 0,
    p_numberOfThreads := 0, p_thread := replicate MAX_THREADS NULL\<rparr>)\<rparr>"
  define v2 where "v2 = v1\<lparr>occupied := occupied s2\<rparr>"
  define v3 where "v3 = v2\<lparr>occupied := occupied s3\<rparr>"
  define v4 where "v4 = v3\<lparr>occupied := occupied s4\<rparr>"
  have b2: "allocPage 1 v1 = Inr (t, v2)"
    unfolding v2_def by (rule allocPage_indep [OF _ _ _ a2(1)]) (simp_all add: v1_def)
  have b3: "allocPage 2 v2 = Inr (k1, v3)"
    unfolding v3_def by (rule allocPage_indep [OF _ _ _ a3]) (subst f2, simp add: v1_def v2_def)+
  have b4: "allocPage 2 v3 = Inr (k2, v4)"
    unfolding v4_def by (rule allocPage_indep [OF _ _ _ a4]) (subst f3, subst f2, simp add: v1_def v2_def v3_def)+
  have th: "replicate MAX_THREADS NULL = NULL # replicate (MAX_THREADS - 1) NULL"
    by (simp add: numeral_eq_Suc)
  obtain f where f: "createThread cp entry args a v1 = Inr (0, v4\<lparr>frames := f,
     procs := (procs v1)(a \<mapsto> (page_process a s)\<lparr>p_activeThread := 0, p_numberOfThreads := 1,
       p_thread := t # replicate (MAX_THREADS - 1) NULL\<rparr>),
     threads := (threads v1)(t \<mapsto> \<lparr>userStack = k1 + 7824, kernelStack = k2 + 8192, entryPoint = entry\<rparr>)\<rparr>)"
    using createThread_built [OF b2 a2(2) b3 b4, of a
        "(page_process a s)\<lparr>p_activeThread := 0, p_numberOfThreads := 0, p_thread := replicate MAX_THREADS NULL\<rparr>"
        "replicate (MAX_THREADS - 1) NULL" cp entry args] a1(2)
    by (auto simp: v1_def th)
  have "v4 = s\<lparr>occupied := occupied s4, procs := procs v1\<rparr>"
    unfolding v4_def v3_def v2_def v1_def by (subst f1) simp
  moreover have "procs v1 = (procs s)(a \<mapsto> (page_process a s)\<lparr>p_activeThread := 0,
      p_numberOfThreads := 0, p_thread := replicate MAX_THREADS NULL\<rparr>)" "threads v1 = threads s"
    unfolding v1_def by (subst f1, simp)+
  ultimately show ?thesis
    using a1 f pl by (simp add: getProcess_def pp initializeThreadArray_all Let_def new_process_def flip: v1_def)
qed

fun insert_second :: "'b \<Rightarrow> 'b list \<Rightarrow> 'b list" where
  "insert_second y [] = [y]"
| "insert_second y (x # xs) = x # y # xs"

lemma set_insert_second [simp]: "set (insert_second y xs) = insert y (set xs)"
  by (cases xs) auto

lemma length_insert_second [simp]: "length (insert_second y xs) = Suc (length xs)"
  by (cases xs) auto

lemma map_insert_second: "map f (insert_second y xs) = insert_second (f y) (map f xs)"
  by (cases xs) auto

lemma distinct_insert_second [simp]: "distinct (insert_second y xs) \<longleftrightarrow> y \<notin> set xs \<and> distinct xs"
  by (cases xs) auto

lemma insert_second_not_Nil [simp]: "insert_second y xs \<noteq> []"
  by (cases xs) auto

lemma newProcessSlot_built:
  assumes "allocPage 1 s = Inr (n, s1)" "n \<noteq> NULL"
  shows "newProcessSlot q s = Inr (n, s\<lparr>occupied := occupied s1,
    slots := (slots s)(n \<mapsto> \<lparr>slot_next = slot_next (page_slot n s), slot_process = q\<rparr>)\<rparr>)"
proof -
  have f: "s1 = s\<lparr>occupied := occupied s1\<rparr>" using allocPage_frame [OF assms(1)] .
  have "page_slot n s1 = page_slot n s" by (subst f) (simp add: page_slot_def)
  then have "newProcessSlot q s = Inr (n, s1\<lparr>slots := (slots s1)(n \<mapsto>
      \<lparr>slot_next = slot_next (page_slot n s), slot_process = q\<rparr>)\<rparr>)"
    using assms by (cases "page_slot n s") (simp add: newProcessSlot_def)
  then show ?thesis by (subst (asm) (1 2) f) simp
qed

lemma addProcess_path:
  assumes "allocPage 1 s = Inr (n, s1)" "n \<noteq> NULL" "procs s q = Some p" "q \<noteq> NULL"
    and "if es = [] then current s = NULL else ring s es" and "n \<notin> entry_slot ` set es"
  shows "\<exists>sl c. addProcess q s = Inr ((), s\<lparr>occupied := occupied s1, slots := sl, current := c\<rparr>) \<and>
    path (s\<lparr>occupied := occupied s1, slots := sl, current := c\<rparr>) c (insert_second (n, q, p) es) c"
proof (cases es)
  case Nil
  define sl where "sl = (slots s)(n \<mapsto> \<lparr>slot_next = n, slot_process = q\<rparr>)"
  have "addProcess q s = Inr ((), s\<lparr>occupied := occupied s1, slots := sl, current := n\<rparr>)"
    using assms(2,5) Nil by (simp add: addProcess_def newProcessSlot_built [OF assms(1,2)] sl_def)
  moreover have "path (s\<lparr>occupied := occupied s1, slots := sl, current := n\<rparr>) n [(n, q, p)] n"
    using assms(2-4) by (simp add: sl_def)
  ultimately show ?thesis using Nil by (simp only: insert_second.simps) blast
next
  case (Cons e fs)
  with assms(5) have "ring s es" by simp
  then obtain x r pr m where e: "es = (x, r, pr) # fs" "current s = x" "x \<noteq> NULL" "r \<noteq> NULL"
    "procs s r = Some pr" "slots s x = Some \<lparr>slot_next = m, slot_process = r\<rparr>" "path s m fs x"
    by (elim ring_ConsE) (auto simp: Cons)
  have x: "x \<notin> entry_slot ` set fs" "n \<noteq> x"
    using \<open>ring s es\<close> assms(6) e(1) by (auto simp: ring_def)
  define sl where "sl = (slots s)(x \<mapsto> \<lparr>slot_next = n, slot_process = r\<rparr>,
    n \<mapsto> \<lparr>slot_next = m, slot_process = q\<rparr>)"
  have "addProcess q s = Inr ((), s\<lparr>occupied := occupied s1, slots := sl, current := x\<rparr>)"
    using e assms(2) x(2)
    by (simp add: addProcess_def newProcessSlot_built [OF assms(1,2)] sl_def fun_upd_twist)
  moreover have "path (s\<lparr>occupied := occupied s1, slots := sl, current := x\<rparr>) m fs x \<longleftrightarrow> path s m fs x"
    using x assms(6) e(1) by (intro path_cong) (auto simp: sl_def)
  then have "path (s\<lparr>occupied := occupied s1, slots := sl, current := x\<rparr>) x (insert_second (n, q, p) es) x"
    using e assms(2-4) x(2) by (simp add: sl_def)
  ultimately show ?thesis by blast
qed

lemma path_procs_absent:
  "q \<notin> entry_proc ` set es \<Longrightarrow> slots t = slots s \<Longrightarrow> procs t = (procs s)(q \<mapsto> p) \<Longrightarrow> path t a es b \<longleftrightarrow> path s a es b"
  by (rule path_cong) auto

lemma threads_ok_cong: "threads t = (threads s)(x \<mapsto> y) \<Longrightarrow> threads_ok s p \<Longrightarrow> threads_ok t p"
  by (auto simp: threads_ok_def)

lemma new_process_fields [simp]:
  "p_pid (new_process a t pid d old) = pid" "p_state (new_process a t pid d old) = READY"
  "length (p_thread (new_process a t pid d old)) = MAX_THREADS"
  "p_thread (new_process a t pid d old) = t # replicate (MAX_THREADS - 1) NULL"
  "p_activeThread (new_process a t pid d old) = 0" "p_numberOfThreads (new_process a t pid d old) = 1"
  "p_description (new_process a t pid d old) = d"
  by (simp_all add: new_process_def initializePipeFields_def Let_def)

lemma kernel_inv_fresh:
  assumes "kernel_inv bs s es" and "blocks_inv ds u" and "set bs \<subseteq> set ds"
    and "allocPage 1 u = Inr (r, v)" "r \<noteq> NULL"
  shows "r \<notin> set (concat (map entry_pages es))"
proof -
  have "r \<noteq> fst b" if "b \<in> set ds" "0 < snd b" for b
    using buddy.fresh_address [OF assms(2,4,5)] that by simp
  then have "r \<noteq> x" if "(x, 1) \<in> set bs" for x using that assms(3) by force
  with assms(1) show ?thesis by (auto simp: kernel_inv_def)
qed

lemma entry_pages_in:
  "entry_slot ` set es \<subseteq> set (concat (map entry_pages es))"
  "entry_proc ` set es \<subseteq> set (concat (map entry_pages es))"
  by (auto simp: entry_pages_def)

lemma blocks_inv_step:
  assumes "blocks_inv bs s" "allocPage p s = Inr (r, t)" "r \<noteq> NULL"
  shows "blocks_inv ((r, p) # bs) t"
  using buddy.alloc_returns [OF assms(1), of p] assms(2,3) by auto

lemma kernel_inv_insert:
  assumes inv: "kernel_inv bs s es" and blocks: "blocks_inv cs t" "set bs \<subseteq> set cs"
    "\<forall>b\<in>set (entry_pages (n, a, p)). (b, 1) \<in> set cs"
    and path: "path t (current t) (insert_second (n, a, p) es) (current t)"
    and fresh: "distinct (entry_pages (n, a, p))"
      "\<forall>b\<in>set (entry_pages (n, a, p)). b \<notin> set (concat (map entry_pages es))"
    and p: "p_pid p = next_pid s" "next_pid t = next_pid s + 1" "threads_ok t p"
    and t: "cardinal_processes t = cardinal_processes s + 1" "procs t = (procs s)(a \<mapsto> p)"
      "threads t = (threads s)(x \<mapsto> y)"
  shows "kernel_inv cs t (insert_second (n, a, p) es)"
proof -
  have pids: "next_pid s \<notin> entry_pid ` set es"
    using inv by (auto simp: kernel_inv_def)
  have na: "n \<notin> entry_slot ` set es" "a \<notin> entry_proc ` set es"
    using fresh(2) entry_pages_in [of es] by (auto simp: entry_pages_def)
  have "distinct (concat (map entry_pages es))" using inv by (simp add: kernel_inv_def)
  then have pages: "distinct (concat (map entry_pages (insert_second (n, a, p) es)))"
    using fresh by (cases es) auto
  have "distinct (map entry_slot (insert_second (n, a, p) es))"
      "distinct (map entry_proc (insert_second (n, a, p) es))"
      "distinct (map entry_pid (insert_second (n, a, p) es))"
    using inv pids p(1) na by (auto simp: kernel_inv_def map_insert_second ring_def split: if_splits)
  moreover have "cardinal_processes t = int (length (insert_second (n, a, p) es))"
    using inv t(1) by (auto simp: kernel_inv_def ring_def split: if_splits)
  ultimately have "ring t (insert_second (n, a, p) es)"
    using path by (simp add: ring_def)
  moreover have "\<forall>b q. procs t b = Some q \<longrightarrow> length (p_thread q) = MAX_THREADS"
    using inv t(2) p(3) by (auto simp: kernel_inv_def threads_ok_def)
  moreover have "\<forall>e\<in>set es. (\<forall>a\<in>set (entry_pages e). (a, 1) \<in> set cs) \<and> entry_pid e < next_pid t \<and>
      threads_ok t (snd (snd e))"
    using inv blocks(2) p(2) threads_ok_cong [OF t(3)] by (fastforce simp: kernel_inv_def)
  ultimately show ?thesis
    using blocks p pages by (simp add: kernel_inv_def)
qed

lemma allocPage_same:
  assumes "allocPage p s = Inr (r, t)"
  shows "base t = base s" "heapLevel t = heapLevel s" "baseMemory t = baseMemory s"
  by (subst allocPage_frame [OF assms], simp)+

lemma createProcess_inv:
  assumes inv: "kernel_inv bs s es"
    and room: "alloc_seq [1, 1, 2, 2, 1] bs s = Inr (cs, w)" "length cs = length bs + 5"
  shows "\<exists>t n a p. createProcess cp entry description args s = Inr (next_pid s, t) \<and>
    kernel_inv cs t (insert_second (n, a, p) es) \<and> p_pid p = next_pid s \<and> p_state p = READY"
proof -
  obtain a s1 where a1: "allocPage 1 s = Inr (a, s1)" "a \<noteq> NULL"
      and r1: "alloc_seq [1, 2, 2, 1] ((a, 1) # bs) s1 = Inr (cs, w)"
    using room by (elim alloc_seq_Cons_fresh) auto
  obtain x s2 where a2: "allocPage 1 s1 = Inr (x, s2)" "x \<noteq> NULL"
      and r2: "alloc_seq [2, 2, 1] ((x, 1) # (a, 1) # bs) s2 = Inr (cs, w)"
    using r1 room(2) by (elim alloc_seq_Cons_fresh) auto
  obtain k1 s3 where a3: "allocPage 2 s2 = Inr (k1, s3)" "k1 \<noteq> NULL"
      and r3: "alloc_seq [2, 1] ((k1, 2) # (x, 1) # (a, 1) # bs) s3 = Inr (cs, w)"
    using r2 room(2) by (elim alloc_seq_Cons_fresh) auto
  obtain k2 s4 where a4: "allocPage 2 s3 = Inr (k2, s4)" "k2 \<noteq> NULL"
      and r4: "alloc_seq [1] ((k2, 2) # (k1, 2) # (x, 1) # (a, 1) # bs) s4 = Inr (cs, w)"
    using r3 room(2) by (elim alloc_seq_Cons_fresh) auto
  obtain n s5 where a5: "allocPage 1 s4 = Inr (n, s5)" "n \<noteq> NULL"
      and cs: "cs = (n, 1) # (k2, 2) # (k1, 2) # (x, 1) # (a, 1) # bs" "w = s5"
    using r4 room(2) by (elim alloc_seq_Cons_fresh) auto
  define p where "p = new_process a x (next_pid s) description (page_process a s)"
  have b0: "blocks_inv bs s" using inv by (simp add: kernel_inv_def)
  note b1 = blocks_inv_step [OF b0 a1]
  note b4 = blocks_inv_step [OF blocks_inv_step [OF blocks_inv_step [OF b1 a2] a3] a4]
  note b5 = blocks_inv_step [OF b4 a5]
  have fresh: "\<forall>b\<in>{n, a, x}. b \<notin> set (concat (map entry_pages es))"
    using kernel_inv_fresh [OF inv b0 _ a1] kernel_inv_fresh [OF inv b1 _ a2]
      kernel_inv_fresh [OF inv b4 _ a5] by auto
  have new: "n \<noteq> a" "n \<noteq> x" "a \<noteq> x"
    using buddy.fresh_address [OF b4 a5, of "(a, 1)"] buddy.fresh_address [OF b4 a5, of "(x, 1)"]
      buddy.fresh_address [OF b1 a2, of "(a, 1)"] by auto
  have na: "n \<notin> entry_slot ` set es" "a \<notin> entry_proc ` set es"
    using fresh entry_pages_in [of es] by auto
  have pages: "entry_pages (n, a, p) = [n, a, x]"
    by (simp add: entry_pages_def entry_thread_def p_def)
  obtain u where u: "getProcess cp entry description args s = Inr (a, u)" "procs u = (procs s)(a \<mapsto> p)"
      "threads u = (threads s)(x \<mapsto> \<lparr>userStack = k1 + 7824, kernelStack = k2 + 8192, entryPoint = entry\<rparr>)"
      "next_pid u = next_pid s + 1" "slots u = slots s" "current u = current s"
      "cardinal_processes u = cardinal_processes s"
      "occupied u = occupied s4" "base u = base s" "heapLevel u = heapLevel s" "baseMemory u = baseMemory s"
    using getProcess_built [OF a1 a2 a3(1) a4(1), of cp entry description args] inv
    by (auto simp: kernel_inv_def p_def)
  have al: "allocPage 1 u = Inr (n, u\<lparr>occupied := occupied s5\<rparr>)"
    using u a1 a2 a3 a4 by (intro allocPage_indep [OF _ _ _ a5(1)]) (simp_all add: allocPage_same)
  have "path u c es d \<longleftrightarrow> path s c es d" for c d
    using u(2,5) na(2) by (intro path_procs_absent)
  then have "if es = [] then current u = NULL else ring u es"
    using inv u by (auto simp: kernel_inv_def ring_def split: if_splits)
  then obtain sl c where add: "addProcess a u = Inr ((), u\<lparr>occupied := occupied s5, slots := sl, current := c\<rparr>)"
    "path (u\<lparr>occupied := occupied s5, slots := sl, current := c\<rparr>) c (insert_second (n, a, p) es) c"
    using addProcess_path [OF al a5(2), of a p es] u(2) a1(2) na(1) by auto
  define t where "t = u\<lparr>occupied := occupied s5, slots := sl, current := c,
    cardinal_processes := cardinal_processes s + 1\<rparr>"
  have "createProcess cp entry description args s = Inr (next_pid s, t)"
    using u add by (simp add: createProcess_def t_def p_def)
  moreover have "path t (current t) (insert_second (n, a, p) es) (current t)"
    using add(2) path_frame [of t "u\<lparr>occupied := occupied s5, slots := sl, current := c\<rparr>"]
    by (simp add: t_def)
  moreover have "threads_ok t p"
    using a2(2) by (simp add: threads_ok_def p_def t_def u)
  moreover have "blocks_inv cs t"
    using b5 a1 a2 a3 a4 a5 by (subst blocks_inv_cong [of _ s5]) (simp_all add: t_def u cs allocPage_same)
  ultimately show ?thesis
    using fresh new u
    by (intro exI [of _ t] exI [of _ n] exI [of _ a] exI [of _ p] conjI kernel_inv_insert [OF inv])
      (auto simp: t_def p_def pages [unfolded p_def] cs)
qed

section \<open>The context switch\<close>

lemma active_thread_ok:
  assumes "ring s ((x, q, p) # es)" and "threads_ok s p"
  shows "\<exists>th. threads s (entry_thread (x, q, p)) = Some th \<and>
    active_thread s = Inr ((entry_thread (x, q, p), th), s) \<and> entry_thread (x, q, p) \<noteq> NULL"
proof -
  obtain n where "current s = x" "procs s q = Some p" "slots s x = Some \<lparr>slot_next = n, slot_process = q\<rparr>"
    using assms(1) by (auto simp: ring_def)
  with assms(2) show ?thesis
    by (auto simp: active_thread_def threads_ok_def entry_thread_def Let_def)
qed

lemma ring_threads: "ring (s\<lparr>threads := th\<rparr>) es \<longleftrightarrow> ring s es"
  using path_frame [of "s\<lparr>threads := th\<rparr>" s] by (simp add: ring_def)

text \<open>A rotation of the ring that keeps the processes up to their states keeps the invariant.\<close>

lemma entry_id_facts:
  assumes "entry_id e = entry_id f"
  shows "entry_pages e = entry_pages f" "entry_pid e = entry_pid f"
    "threads_ok s (snd (snd e)) = threads_ok s (snd (snd f))" "entry_thread e = entry_thread f"
    "entry_proc e = entry_proc f" "length (p_thread (snd (snd e))) = length (p_thread (snd (snd f)))"
proof -
  have "p_thread (snd (snd e)) = p_thread (snd (snd f))" "p_activeThread (snd (snd e)) = p_activeThread (snd (snd f))"
    "p_pid (snd (snd e)) = p_pid (snd (snd f))"
    using assms by (auto simp: entry_id_def dest: arg_cong [of _ _ p_thread] arg_cong [of _ _ p_activeThread]
        arg_cong [of _ _ p_pid])
  then show "entry_pages e = entry_pages f" "entry_pid e = entry_pid f"
    "threads_ok s (snd (snd e)) = threads_ok s (snd (snd f))" "entry_thread e = entry_thread f"
    "entry_proc e = entry_proc f" "length (p_thread (snd (snd e))) = length (p_thread (snd (snd f)))"
    using assms by (simp_all add: entry_pages_def entry_thread_def threads_ok_def entry_id_def)
qed

lemma distinct_concat_rotate:
  "distinct (concat (map f (rotate k xs))) \<longleftrightarrow> distinct (concat (map f xs))"
proof -
  define m where "m = k mod length xs"
  have "distinct (concat (map f (drop m xs @ take m xs))) \<longleftrightarrow> distinct (concat (map f (take m xs @ drop m xs)))"
    unfolding map_append concat_append by (auto simp: distinct_append)
  then show ?thesis by (simp only: rotate_drop_take m_def [symmetric] append_take_drop_id)
qed

lemma entry_pages_id: "entry_pages (entry_id e) = entry_pages e"
  by (rule entry_id_facts) (simp add: entry_id_def)

lemma entry_id_ball:
  assumes "map entry_id fs = rotate k (map entry_id es)" and "f \<in> set fs"
  shows "\<exists>e\<in>set es. entry_id f = entry_id e"
proof -
  have "entry_id f \<in> set (map entry_id es)"
    using assms by (metis image_eqI set_map set_rotate)
  then show ?thesis by auto
qed

lemma kernel_inv_rotate:
  assumes "kernel_inv bs s es" and "es \<noteq> []" and "ring t fs"
    and rot: "map entry_id fs = rotate k (map entry_id es)"
    and "blocks_inv bs t" and "next_pid t = next_pid s"
    and th: "\<And>x. threads s x \<noteq> None \<Longrightarrow> threads t x \<noteq> None"
    and pr: "\<And>b q. procs t b = Some q \<Longrightarrow> length (p_thread q) = MAX_THREADS"
  shows "kernel_inv bs t fs"
proof -
  have fs: "fs \<noteq> []" using assms(3) by (simp add: ring_def)
  have "map entry_pages fs = map entry_pages (map entry_id fs)" by (simp add: entry_pages_id)
  also have "\<dots> = map entry_pages (rotate k (map entry_id es))" by (simp only: rot)
  finally have "distinct (concat (map entry_pages fs)) \<longleftrightarrow> distinct (concat (map entry_pages es))"
    by (simp add: distinct_concat_rotate entry_pages_id comp_def)
  moreover have "(\<forall>a\<in>set (entry_pages f). (a, 1) \<in> set bs) \<and> entry_pid f < next_pid t \<and> threads_ok t (snd (snd f))"
    if f: "f \<in> set fs" for f
  proof -
    obtain e where e: "e \<in> set es" "entry_id f = entry_id e" using entry_id_ball [OF rot f] by blast
    have "threads_ok t (snd (snd e))" if "threads_ok s (snd (snd e))"
      using that th by (simp add: threads_ok_def)
    with assms(1,6) e(1) entry_id_facts(1,2) [OF e(2)] entry_id_facts(3) [OF e(2), of t] show ?thesis
      by (simp add: kernel_inv_def)
  qed
  ultimately show ?thesis
    using assms fs by (simp add: kernel_inv_def)
qed

lemma kernel_inv_ring_proc:
  assumes "kernel_inv bs s es" and "ring t fs" and rot: "map entry_id fs = rotate k (map entry_id es)"
    and "b \<in> entry_proc ` set es" and "procs t b = Some pr"
  shows "length (p_thread pr) = MAX_THREADS"
proof -
  have "entry_proc ` set fs = entry_proc ` set (map entry_id fs)" by (force simp: entry_id_def)
  also have "\<dots> = entry_proc ` set es" by (force simp: rot entry_id_def)
  finally obtain f where f: "f \<in> set fs" "b = entry_proc f" using assms(4) by (metis imageE)
  have "procs t b = Some (snd (snd f))"
    using path_next [of t _ fs _ f] assms(2) f by (auto simp: ring_def)
  with assms(5) have pr: "pr = snd (snd f)" by simp
  obtain e where e: "e \<in> set es" "entry_id f = entry_id e" using entry_id_ball [OF rot f(1)] by blast
  have "length (p_thread (snd (snd e))) = MAX_THREADS"
    using assms(1) e(1) by (simp add: kernel_inv_def threads_ok_def)
  with pr entry_id_facts(6) [OF e(2)] show ?thesis by simp
qed

text \<open>
  \<open>next_process\<close> saves the stack pointer it is given in the active thread of the process that ran,
  and returns the one saved in the active thread of the process that runs next.
\<close>

lemma next_process_switch:
  assumes inv: "kernel_inv bs s es" and ne: "es \<noteq> []" and sched: "abs_schedule (map view es) = Some vs"
  shows "\<exists>t fs old. next_process rsp s =
      Inr (if entry_thread (hd fs) = entry_thread (hd es) then rsp else userStack old, t) \<and>
    kernel_inv bs t fs \<and> map view fs = vs \<and>
    threads s (entry_thread (hd fs)) = Some old \<and>
    (\<exists>th. threads s (entry_thread (hd es)) = Some th \<and>
      threads t = (threads s)(entry_thread (hd es) \<mapsto> th\<lparr>userStack := rsp\<rparr>)) \<and>
    (\<exists>k. map entry_id fs = rotate k (map entry_id es)) \<and> slots t = slots s \<and> occupied t = occupied s"
proof -
  have ring: "ring s es" using inv ne by (simp add: kernel_inv_def)
  obtain x q p gs where es: "es = (x, q, p) # gs" using ring by (rule ring_ConsE)
  have ok: "threads_ok s p" using inv es by (simp add: kernel_inv_def)
  obtain th where th: "threads s (entry_thread (hd es)) = Some th"
      "active_thread s = Inr ((entry_thread (hd es), th), s)" "entry_thread (hd es) \<noteq> NULL"
    using active_thread_ok [OF ring [unfolded es] ok] es by auto
  define u where "u = s\<lparr>threads := (threads s)(entry_thread (hd es) \<mapsto> th\<lparr>userStack := rsp\<rparr>)\<rparr>"
  have "ring u es" using ring by (simp add: u_def ring_threads)
  then obtain t fs k where t: "schedule u = Inr ((), t)" "ring t fs" "map view fs = vs"
      "map entry_id fs = rotate k (map entry_id es)"
      and frame: "t = u\<lparr>procs := procs t, current := current t\<rparr>"
      and others: "\<forall>a. a \<notin> entry_proc ` set es \<longrightarrow> procs t a = procs u a"
    using schedule_simulates [OF _ sched] by blast
  have same: "threads t = threads u" "slots t = slots u" "occupied t = occupied u" "base t = base u"
      "heapLevel t = heapLevel u" "baseMemory t = baseMemory u" "next_pid t = next_pid u"
    by (subst frame, simp)+
  have "length (p_thread pr) = MAX_THREADS" if pr: "procs t b = Some pr" for b pr
  proof (cases "b \<in> entry_proc ` set es")
    case False
    with pr others inv show ?thesis by (simp add: kernel_inv_def u_def)
  next
    case True
    with kernel_inv_ring_proc [OF inv t(2,4)] pr show ?thesis by blast
  qed
  then have inv_t: "kernel_inv bs t fs"
    using inv ne t(2,4) same th(1)
    by (intro kernel_inv_rotate [OF inv]) (auto simp: u_def kernel_inv_def blocks_inv_cong [of t s])
  have "fs \<noteq> []" using t(2) by (simp add: ring_def)
  then obtain y r pr hs where fs: "fs = (y, r, pr) # hs" by (cases fs) auto
  have "threads_ok t pr" using inv_t fs by (simp add: kernel_inv_def)
  then obtain th2 where th2: "threads t (entry_thread (hd fs)) = Some th2"
      "active_thread t = Inr ((entry_thread (hd fs), th2), t)"
    using active_thread_ok [OF t(2) [unfolded fs]] fs by auto
  have run: "next_process rsp s = Inr (userStack th2, t)"
    using th t(1) th2(2) ring_not_NULL [OF ring]
    by (simp add: next_process_def getCurrentUserStack_def flip: u_def)
  show ?thesis
  proof (cases "entry_thread (hd fs) = entry_thread (hd es)")
    case True
    then have "userStack th2 = rsp" using th2(1) same(1) by (auto simp: u_def)
    with True run inv_t t th same show ?thesis
      by (intro exI [of _ t] exI [of _ fs] exI [of _ th]) (auto simp: u_def)
  next
    case False
    then have "threads s (entry_thread (hd fs)) = Some th2" using th2(1) same(1) by (simp add: u_def)
    with False run inv_t t th same show ?thesis
      by (intro exI [of _ t] exI [of _ fs] exI [of _ th2]) (auto simp: u_def)
  qed
qed

section \<open>Removing a process\<close>

lemma find_slot_found:
  assumes "path s a (us @ e # ws) b" and "pid \<notin> entry_pid ` set us" and "entry_pid e = pid"
    and "length us < n"
  shows "find_slot n prev a pid s = Inr ((last (prev # map entry_slot us), entry_slot e, n - length us), s)"
  using assms
proof (induction us arbitrary: n prev a)
  case Nil
  then show ?case by (cases n; cases e) auto
next
  case (Cons f us)
  then show ?case by (cases n; cases f) auto
qed

lemma find_slot_absent:
  assumes "path s a es b" and "pid \<notin> entry_pid ` set es" and "slot_proc b s = Inr (z, s)"
  shows "\<exists>prev'. find_slot (length es) prev a pid s = Inr ((prev', b, 0), s)"
  using assms
proof (induction es arbitrary: prev a)
  case (Cons f es)
  then show ?case by (cases f) auto
qed simp

text \<open>Unlinking the slot after \<open>prev\<close>.\<close>

lemma path_unlink:
  assumes "path s a (us @ e # f # ws) b"
    and "distinct (map entry_slot (us @ e # f # ws))"
    and "slots s (entry_slot e) = Some r" and "slots s (entry_slot f) = Some r'"
    and "slots t = (slots s)(entry_slot e \<mapsto> r\<lparr>slot_next := slot_next r'\<rparr>)" and "procs t = procs s"
  shows "path t a (us @ e # ws) b"
proof -
  obtain x q p y q' p' where ef: "e = (x, q, p)" "f = (y, q', p')" by (cases e; cases f)
  have keep: "path t c gs d \<longleftrightarrow> path s c gs d" if "x \<notin> entry_slot ` set gs" for c gs d
    using that assms(5,6) ef by (intro path_cong) auto
  from assms(1) ef obtain n where n: "path s a us x" "x \<noteq> NULL" "q \<noteq> NULL" "procs s q = Some p"
      "r = \<lparr>slot_next = y, slot_process = q\<rparr>" "r' = \<lparr>slot_next = n, slot_process = q'\<rparr>" "path s n ws b"
    using assms(3,4) by (auto simp: path_append)
  have "x \<notin> entry_slot ` set us" "x \<notin> entry_slot ` set ws"
    using assms(2) ef by auto
  with n keep assms(5,6) ef show ?thesis by (auto simp: path_append)
qed

lemma unlink_slot_found:
  assumes cur: "slots s (current s) = Some \<lparr>slot_next = n, slot_process = q0\<rparr>" "procs s q0 = Some p0"
    and path: "path s n (us @ f # ws) b" and pids: "pid \<notin> entry_pid ` set us" "entry_pid f = pid"
    and len: "int (length us) < cardinal_processes s"
    and prev: "prev = last (current s # map entry_slot us)" "slots s prev = Some pv" "prev \<noteq> NULL"
    and f: "slots s (entry_slot f) = Some r"
    and t: "t = s\<lparr>slots := (slots s)(prev \<mapsto> pv\<lparr>slot_next := slot_next r\<rparr>),
        cardinal_processes := cardinal_processes s - 1\<rparr>"
  shows "unlink_slot pid s = Inr (p_pid (snd (snd f)) = p_pid p0, t)"
proof -
  obtain y q p where fe: "f = (y, q, p)" by (cases f)
  have r: "procs s q = Some p" "slot_process r = q"
    using path f fe by (auto simp: path_append)
  have "find_slot (nat (cardinal_processes s)) (current s) n pid s =
      Inr ((prev, y, nat (cardinal_processes s) - length us), s)"
    using find_slot_found [OF path pids] len prev(1) fe by simp
  moreover have "nat (cardinal_processes s) - length us \<noteq> 0" using len by simp
  moreover have "\<exists>m. slots t y = Some \<lparr>slot_next = m, slot_process = q\<rparr>"
      "\<exists>m. slots t (current s) = Some \<lparr>slot_next = m, slot_process = q0\<rparr>"
    using cur(1) f fe r prev(2) by (cases r; cases pv; auto simp: t)+
  then have "slot_proc y t = Inr ((q, p), t)" "slot_proc (current s) t = Inr ((q0, p0), t)"
    using r(1) cur(2) by (auto simp: t)
  moreover have "current t = current s" by (simp add: t)
  ultimately show ?thesis
    using cur f fe prev(2,3) by (simp add: unlink_slot_def Let_def eqProcess_def flip: t)
qed

lemma path_not_NULL: "path s a es b \<Longrightarrow> e \<in> set es \<Longrightarrow> entry_slot e \<noteq> NULL \<and> entry_proc e \<noteq> NULL"
  by (induction s a es b rule: path.induct) auto

lemma last_entry_slot:
  assumes "path s a (e # es) b"
  obtains us f where "e # es = us @ [f]" "last (entry_slot e # map entry_slot es) = entry_slot f"
    "entry_slot f \<noteq> NULL" "\<exists>r. slots s (entry_slot f) = Some r"
proof -
  define f where "f = last (e # es)"
  have l: "e # es = butlast (e # es) @ [f]" by (simp add: f_def)
  moreover have "last (entry_slot e # map entry_slot es) = entry_slot f"
    by (simp add: f_def last_map flip: list.map)
  moreover have "f \<in> set (e # es)" unfolding f_def by (rule last_in_set) simp
  then have "entry_slot f \<noteq> NULL" "\<exists>r. slots s (entry_slot f) = Some r"
    using path_not_NULL [OF assms] path_next [OF assms] by blast+
  ultimately show thesis using that by blast
qed

text \<open>\<open>removeProcess\<close> of a pid that is neither 0 nor the current process.\<close>

lemma removeProcess_search:
  assumes "ring s ((x, q, p) # es)" and "pid \<noteq> 0" and "p_pid p \<noteq> pid \<or> es \<noteq> []"
  shows "removeProcess pid s = kbind (kcall (unlink_slot pid)) (\<lambda>self. if self then yield else kreturn ()) s"
proof -
  obtain n where n: "current s = x" "x \<noteq> NULL" "procs s q = Some p"
      "slots s x = Some \<lparr>slot_next = n, slot_process = q\<rparr>" "path s n es x"
    using assms(1) by (auto simp: ring_def)
  obtain y r pr m where y: "slots s n = Some \<lparr>slot_next = m, slot_process = r\<rparr>" "procs s r = Some pr"
      "\<not> (p_pid p = p_pid pr \<and> p_pid p = pid)"
  proof (cases es)
    case Nil
    then show thesis using that n assms(3) by simp
  next
    case (Cons f fs)
    obtain y r pr where f: "f = (y, r, pr)" by (cases f)
    have "p_pid pr \<noteq> p_pid p" using assms(1) Cons f by (auto simp: ring_def)
    then show thesis using that n(5) Cons f by auto
  qed
  then show ?thesis
    using n assms(2) by (auto simp: removeProcess_def eqProcess_def)
qed

lemma removeProcess_other:
  assumes "ring s (e # es)" and "pid \<noteq> 0" and "entry_pid e \<noteq> pid"
  shows "\<exists>t. removeProcess pid s = Ret () t \<and> ring t (e # filter (\<lambda>f. entry_pid f \<noteq> pid) es) \<and>
    t = s\<lparr>slots := slots t, cardinal_processes := cardinal_processes t\<rparr> \<and>
    (\<forall>a. a \<notin> entry_slot ` set (e # filter (\<lambda>f. entry_pid f \<noteq> pid) es) \<longrightarrow> slots t a = slots s a)"
proof -
  obtain x q p where e: "e = (x, q, p)" by (cases e)
  obtain n where n: "current s = x" "x \<noteq> NULL" "q \<noteq> NULL" "procs s q = Some p"
      "slots s x = Some \<lparr>slot_next = n, slot_process = q\<rparr>" "path s n es x"
    using assms(1) e by (auto simp: ring_def)
  have step: "removeProcess pid s = kbind (kcall (unlink_slot pid)) (\<lambda>self. if self then yield else kreturn ()) s"
    using assms e by (intro removeProcess_search) auto
  show ?thesis
  proof (cases "pid \<in> entry_pid ` set es")
    case False
    have closed: "path s n (es @ [e]) n" using n e by (auto simp: path_append)
    then obtain f fs where "es @ [e] = f # fs" "path s n (f # fs) n" by (cases "es @ [e]") auto
    then obtain z where z: "slot_proc n s = Inr (z, s)" by (cases f) auto
    have "pid \<notin> entry_pid ` set (es @ [e])" using False assms(3) by auto
    then obtain prev where "find_slot (length (es @ [e])) x n pid s = Inr ((prev, n, 0), s)"
      using find_slot_absent [OF closed _ z, of pid x] by blast
    moreover have "nat (cardinal_processes s) = length (es @ [e])"
      using assms(1) by (simp add: ring_def)
    ultimately have "unlink_slot pid s = Inr (False, s)"
      using n by (simp add: unlink_slot_def del: find_slot.simps length_append)
    moreover have "filter (\<lambda>f. entry_pid f \<noteq> pid) es = es"
      using False by (auto simp: filter_id_conv)
    moreover have "removeProcess pid s = Ret () s"
      using step \<open>unlink_slot pid s = Inr (False, s)\<close> by (simp add: kbind_def kcall_def)
    ultimately show ?thesis using assms(1) by (intro exI [of _ s]) simp
  next
    case True
    then obtain f where "f \<in> set es" "entry_pid f = pid" by auto
    then obtain us ws where es: "es = us @ f # ws" "entry_pid f = pid" by (metis split_list)
    have pids: "pid \<notin> entry_pid ` set us" "pid \<notin> entry_pid ` set ws"
      using assms(1) es by (auto simp: ring_def)
    have path: "path s x ((e # us) @ f # ws) x" using assms(1) n(1) es(1) by (simp add: ring_def)
    then obtain c where "path s x (e # us) c" unfolding path_append by blast
    then obtain vs g where g: "e # us = vs @ [g]" "last (x # map entry_slot us) = entry_slot g"
        "entry_slot g \<noteq> NULL" "\<exists>r. slots s (entry_slot g) = Some r"
      by (rule last_entry_slot) (simp add: e)
    obtain r where r: "slots s (entry_slot f) = Some r"
      by (rule path_next [OF path, of f]) simp_all
    obtain pv where "slots s (entry_slot g) = Some pv" using g(4) by blast
    note pv = this r
    define t where "t = s\<lparr>slots := (slots s)(entry_slot g \<mapsto> pv\<lparr>slot_next := slot_next r\<rparr>),
        cardinal_processes := cardinal_processes s - 1\<rparr>"
    have "unlink_slot pid s = Inr (p_pid (snd (snd f)) = p_pid p, t)"
      by (rule unlink_slot_found [where us = us and ws = ws and prev = "entry_slot g"])
        (use assms(1) n es pids g pv in \<open>auto simp: t_def ring_def\<close>)
    then have "removeProcess pid s = Ret () t"
      using step es(2) assms(3) e by simp
    moreover have all: "(e # us) @ f # ws = vs @ g # f # ws" by (simp only: g(1)) simp
    have "path t x (vs @ g # ws) x"
    proof (rule path_unlink)
      show "path s x (vs @ g # f # ws) x" using path unfolding all .
      show "distinct (map entry_slot (vs @ g # f # ws))"
        using assms(1) unfolding all [symmetric] by (simp add: ring_def es(1))
    qed (simp_all add: pv t_def)
    moreover have "vs @ g # ws = e # us @ ws"
      using arg_cong [OF g(1), of "\<lambda>l. l @ ws"] by simp
    ultimately have "removeProcess pid s = Ret () t" "path t x (e # us @ ws) x" by simp_all
    moreover have "filter (\<lambda>f. entry_pid f \<noteq> pid) us = us" "filter (\<lambda>f. entry_pid f \<noteq> pid) ws = ws"
      using pids by (auto simp: filter_id_conv)
    moreover have "g \<in> set (e # us)" by (simp only: g(1)) simp
    then have "\<forall>a. a \<notin> entry_slot ` set (e # us @ ws) \<longrightarrow> slots t a = slots s a"
      by (auto simp: t_def)
    ultimately show ?thesis
      using assms(1) n(1) es by (intro exI [of _ t]) (simp add: ring_def t_def)
  qed
qed

text \<open>A process that removes itself leaves the ring, and the first ready one of the others runs.\<close>

lemma kernel_inv_cpu: "kernel_inv bs (s\<lparr>cpu_rsp := a\<rparr>) es \<longleftrightarrow> kernel_inv bs s es"
proof -
  have "path (s\<lparr>cpu_rsp := a\<rparr>) c es d = path s c es d" for c d by (rule path_frame) simp_all
  then show ?thesis
    by (simp add: kernel_inv_def ring_def threads_ok_def blocks_inv_cong [of "s\<lparr>cpu_rsp := a\<rparr>" s])
qed

lemma removeProcess_self:
  assumes inv: "kernel_inv bs s (e # es)" and "es \<noteq> []" and "entry_pid e = pid" and "pid \<noteq> 0"
    and line: "es = us @ (y, r, pr) # ws" "\<forall>f\<in>set us. snd (view f) \<noteq> READY" "p_state pr = READY"
  shows "\<exists>t. removeProcess pid s = Yield t (kreturn ()) \<and>
    kernel_inv bs t ((y, r, pr\<lparr>p_state := RUNNING\<rparr>) # ws @ us)"
proof -
  obtain x q p where e: "e = (x, q, p)" by (cases e)
  have ring: "ring s (e # es)" using inv by (simp add: kernel_inv_def)
  obtain n where n: "current s = x" "x \<noteq> NULL" "q \<noteq> NULL" "procs s q = Some p"
      "slots s x = Some \<lparr>slot_next = n, slot_process = q\<rparr>" "path s n es x"
    using ring e by (auto simp: ring_def)
  have closed: "path s n (es @ [e]) n" using n e by (auto simp: path_append)
  obtain f fs where f: "es = f # fs" using assms(2) by (cases es) auto
  have "path s n (f # fs) x" using n(6) f by simp
  then obtain vs g where g: "es = vs @ [g]" "last (entry_slot f # map entry_slot fs) = entry_slot g"
      "entry_slot g \<noteq> NULL" "\<exists>r. slots s (entry_slot g) = Some r"
    by (rule last_entry_slot) (simp add: f)
  obtain pv where pv: "slots s (entry_slot g) = Some pv" using g(4) by blast
  have xg: "x \<noteq> entry_slot g" using ring g(1) e by (auto simp: ring_def)
  define u where "u = s\<lparr>slots := (slots s)(entry_slot g \<mapsto> pv\<lparr>slot_next := n\<rparr>),
      cardinal_processes := cardinal_processes s - 1\<rparr>"
  have "pid \<notin> entry_pid ` set es" using ring assms(3) by (auto simp: ring_def)
  then have "unlink_slot pid s = Inr (p_pid (snd (snd e)) = p_pid p, u)"
    by (intro unlink_slot_found [where us = es and ws = "[]" and prev = "entry_slot g"])
      (use ring n closed g pv f e assms(3) in \<open>auto simp: u_def ring_def\<close>)
  then have rem: "removeProcess pid s = yield u"
    using removeProcess_search [OF ring [unfolded e] assms(4)] assms(2) e by simp
  have "path u n (vs @ g # []) n"
    by (rule path_unlink [where f = e])
      (use closed pv ring g(1) e n(5) in \<open>auto simp: u_def ring_def\<close>)
  then have pu: "path u n es n" using g(1) by simp
  have ok: "threads_ok s p" using inv e by (simp add: kernel_inv_def)
  then obtain th where th: "threads s (entry_thread e) = Some th" "entry_thread e \<noteq> NULL"
    by (auto simp: threads_ok_def entry_thread_def e)
  define v where "v = u\<lparr>threads := (threads s)(entry_thread e \<mapsto> th\<lparr>userStack := cpu_rsp u - 184\<rparr>)\<rparr>"
  define w where "w = v\<lparr>procs := (procs v)(q \<mapsto> p\<lparr>p_state := (if p_state p = RUNNING then READY else p_state p)\<rparr>)\<rparr>"
  define t where "t = w\<lparr>current := y, procs := (procs w)(r \<mapsto> pr\<lparr>p_state := RUNNING\<rparr>)\<rparr>"
  have cu: "current u = x" "threads u = threads s" by (simp_all add: u_def n(1))
  have cur_v: "slots v (current v) = Some \<lparr>slot_next = n, slot_process = q\<rparr>" "procs v q = Some p"
    using n xg by (simp_all add: v_def u_def)
  have act: "active_thread u = Inr ((entry_thread e, th), u)"
    using ok th(1) n xg by (auto simp: active_thread_def threads_ok_def entry_thread_def e Let_def u_def)
  have "path v n es n" using pu path_frame [of v u] by (simp add: v_def)
  then have pw: "path w n es n"
    using ring e path_procs_absent [of q es w v] by (auto simp: w_def ring_def)
  have d: "distinct (map entry_proc (us @ (y, r, pr) # ws))"
    using ring line(1) by (auto simp: ring_def)
  note sched = schedule_line [OF cur_v n(3) w_def t_def pw [unfolded line(1)] d line(2,3)]
  let ?fs = "(y, r, pr\<lparr>p_state := RUNNING\<rparr>) # ws @ us"
  have ring_t: "ring t ?fs"
    using sched(2) ring line(1) e by (auto simp: ring_def t_def w_def v_def u_def)
  have "blocks_inv bs t \<longleftrightarrow> blocks_inv bs s"
    by (rule blocks_inv_cong) (simp_all add: t_def w_def v_def u_def)
  moreover have "next_pid t = next_pid s" by (simp add: t_def w_def v_def u_def)
  moreover have "threads t = (threads s)(entry_thread e \<mapsto> th\<lparr>userStack := cpu_rsp u - 184\<rparr>)"
    by (simp add: t_def w_def v_def)
  ultimately have same: "next_pid t = next_pid s" "blocks_inv bs t \<longleftrightarrow> blocks_inv bs s"
      "threads t = (threads s)(entry_thread e \<mapsto> th\<lparr>userStack := cpu_rsp u - 184\<rparr>)" by simp_all
  have ok_fs: "(\<forall>a\<in>set (entry_pages f). (a, 1) \<in> set bs) \<and> entry_pid f < next_pid t \<and> threads_ok t (snd (snd f))"
    if "f \<in> set es" for f
    using inv that same(1) threads_ok_cong [OF same(3)] by (auto simp: kernel_inv_def)
  have run: "entry_pages (y, r, pr\<lparr>p_state := RUNNING\<rparr>) = entry_pages (y, r, pr)"
      "threads_ok t (pr\<lparr>p_state := RUNNING\<rparr>) = threads_ok t pr"
    by (simp_all add: entry_pages_def entry_thread_def threads_ok_def)
  have "distinct (concat (map entry_pages es))" using inv by (simp add: kernel_inv_def)
  then have "distinct (concat (map entry_pages ?fs))"
    unfolding line(1) by (auto simp: run(1))
  moreover have "(\<forall>a\<in>set (entry_pages f). (a, 1) \<in> set bs) \<and> entry_pid f < next_pid t \<and> threads_ok t (snd (snd f))"
    if "f \<in> set ?fs" for f
    using that ok_fs [of "(y, r, pr)"] ok_fs [of f] line(1) run by auto
  moreover have "length (p_thread z) = MAX_THREADS" if "procs t a = Some z" for a z
  proof -
    have "length (p_thread pr) = MAX_THREADS"
      using ok_fs [of "(y, r, pr)"] line(1) by (simp add: threads_ok_def)
    with that inv ok show ?thesis
      by (auto simp: kernel_inv_def t_def w_def v_def u_def threads_ok_def split: if_splits)
  qed
  ultimately have inv_t: "kernel_inv bs t ?fs"
    using ring_t same(2) inv by (simp add: kernel_inv_def)
  then have "threads_ok t (pr\<lparr>p_state := RUNNING\<rparr>)" by (simp add: kernel_inv_def)
  then obtain th2 where "active_thread t = Inr ((entry_thread (y, r, pr\<lparr>p_state := RUNNING\<rparr>), th2), t)"
    using active_thread_ok [OF ring_t] by blast
  then have "next_process (cpu_rsp u - 184) u = Inr (userStack th2, t)"
    using n(2) sched(1) act th(2) cu
    by (simp add: next_process_def getCurrentUserStack_def flip: v_def)
  then have "removeProcess pid s = Yield (t\<lparr>cpu_rsp := userStack th2\<rparr>) (kreturn ())"
    using rem by (simp add: yield_def)
  with inv_t show ?thesis by (auto simp: kernel_inv_cpu)
qed

section \<open>A state to evaluate on\<close>

text \<open>
  Three processes (pid 0 running, pid 1 blocked, pid 2 ready) whose pages are the first nine of a
  heap with no page left.
\<close>

definition demo_process :: "int \<Rightarrow> processState \<Rightarrow> addr \<Rightarrow> Process" where
  "demo_process pid st t = zero_process\<lparr>p_pid := pid, p_state := st, p_numberOfThreads := 1,
     p_thread := t # replicate 9 NULL\<rparr>"

definition demo_entries :: "entry list" where
  "demo_entries =
    [(0x1000000, 0x1003000, demo_process 0 RUNNING 0x1006000),
     (0x1001000, 0x1004000, demo_process 1 BLOCKED 0x1007000),
     (0x1002000, 0x1005000, demo_process 2 READY 0x1008000)]"

definition demo_sched :: sched where
  "demo_sched = \<lparr>occupied = replicate HEAPSIZE BUDDY_FULL, base = base (createHeap bss_pagemem),
     heapLevel = 11, baseMemory = 0x1000000,
     next_pid = 3, cardinal_processes = 3, current = 0x1000000,
     slots = [0x1000000 \<mapsto> \<lparr>slot_next = 0x1001000, slot_process = 0x1003000\<rparr>,
              0x1001000 \<mapsto> \<lparr>slot_next = 0x1002000, slot_process = 0x1004000\<rparr>,
              0x1002000 \<mapsto> \<lparr>slot_next = 0x1000000, slot_process = 0x1005000\<rparr>],
     procs = [0x1003000 \<mapsto> demo_process 0 RUNNING 0x1006000,
              0x1004000 \<mapsto> demo_process 1 BLOCKED 0x1007000,
              0x1005000 \<mapsto> demo_process 2 READY 0x1008000],
     threads = [0x1006000 \<mapsto> \<lparr>userStack = 0x500, kernelStack = 0x600, entryPoint = 0x400000\<rparr>,
                0x1007000 \<mapsto> \<lparr>userStack = 0x700, kernelStack = 0x800, entryPoint = 0x400000\<rparr>,
                0x1008000 \<mapsto> \<lparr>userStack = 0x900, kernelStack = 0xA00, entryPoint = 0x400000\<rparr>],
     frames = Map.empty, ram = (\<lambda>_. 0), cpu_rsp = 0x500\<rparr>"

definition demo_blocks :: "(addr \<times> nat) list" where
  "demo_blocks = map (\<lambda>i. (0x1000000 + 4096 * int i, 1)) [0..<9]"

lemma heap_ok_demo: "heap_ok demo_sched \<and> up_closed demo_sched"
proof -
  have "occ demo_sched i = BUDDY_FULL" if "1 \<le> i" "i \<le> HEAPSIZE" for i
    using that by (simp add: occ_def demo_sched_def)
  moreover have "heap_ok (createHeap bss_pagemem)"
    using blocks_inv_createHeap [OF arrays_sized_bss] by (simp add: blocks_inv_def)
  ultimately show ?thesis
    by (auto simp: heap_ok_def up_closed_def demo_sched_def)
qed

lemma leaf_div:
  assumes "1024 \<le> b" and "a < 2048" and "a \<noteq> b"
  shows "a div 2 ^ j \<noteq> (b::nat)"
proof (cases j)
  case (Suc k)
  have "a div 2 ^ j = a div 2 div 2 ^ k" by (simp add: Suc div_mult2_eq)
  also have "\<dots> \<le> a div 2" by (rule div_le_dividend)
  also have "\<dots> < 1024" using assms(2) by simp
  finally show ?thesis using assms(1) by simp
qed (use assms(3) in simp)

lemma blocks_inv_demo: "blocks_inv demo_blocks demo_sched"
proof -
  define gs where "gs = map (\<lambda>i. (10::nat, 1024 + i, 1::nat)) [0..<9::nat]"
  have "demo_blocks = map node_block gs"
    by (simp add: demo_blocks_def gs_def node_block_def node_base_def node_size_def)
  moreover have "\<forall>g\<in>set gs. good_node demo_sched g"
    by (auto simp: gs_def good_node_def at_depth_def occ_def demo_sched_def)
  moreover have "sorted_wrt unrelated gs"
    unfolding gs_def sorted_wrt_map
    by (rule sorted_wrt_mono_rel [OF _ sorted_wrt_upt]) (simp add: unrelated_def leaf_div)
  ultimately show ?thesis
    using heap_ok_demo by (auto simp: blocks_inv_def)
qed

lemma ring_demo: "ring demo_sched demo_entries"
  by (simp add: ring_def demo_entries_def demo_sched_def demo_process_def)

lemma kernel_inv_demo: "kernel_inv demo_blocks demo_sched demo_entries"
proof -
  have "distinct (concat (map entry_pages demo_entries))"
    by (simp add: demo_entries_def entry_pages_def entry_thread_def demo_process_def zero_process_def)
  moreover have "\<forall>e\<in>set demo_entries. (\<forall>a\<in>set (entry_pages e). (a, 1) \<in> set demo_blocks) \<and>
      entry_pid e < next_pid demo_sched \<and> threads_ok demo_sched (snd (snd e))"
    by (simp add: demo_entries_def entry_pages_def entry_thread_def demo_process_def zero_process_def demo_blocks_def
        threads_ok_def demo_sched_def upt_rec)
  moreover have "\<forall>a p. procs demo_sched a = Some p \<longrightarrow> length (p_thread p) = MAX_THREADS"
    by (simp add: demo_sched_def demo_process_def)
  ultimately show ?thesis
    using blocks_inv_demo ring_demo by (simp add: kernel_inv_def demo_entries_def)
qed

section \<open>Threads and lookups\<close>

text \<open>The slots of the ring start pages, so \<open>slot[1]\<close> is no slot.\<close>

lemma getProcessById_first:
  assumes "ring s ((x, q, p) # es)"
  shows "getProcessById (p_pid p) s = Inr (q, s)"
proof -
  obtain n where "current s = x" "procs s q = Some p" "slots s x = Some \<lparr>slot_next = n, slot_process = q\<rparr>"
    using assms by (auto simp: ring_def)
  moreover have "nat (cardinal_processes s) = Suc (length es)"
    using assms by (simp add: ring_def)
  ultimately show ?thesis by (simp add: getProcessById_def)
qed

lemma getProcessById_other:
  assumes "ring s ((x, q, p) # e # es)" and "pid \<noteq> p_pid p" and "\<forall>a. slots s a \<noteq> None \<longrightarrow> PAGE_SIZE dvd a"
  shows "getProcessById pid s = Inl NullDeref"
proof -
  obtain n where n: "current s = x" "procs s q = Some p" "slots s x = Some \<lparr>slot_next = n, slot_process = q\<rparr>"
    using assms(1) by (auto simp: ring_def)
  have x: "PAGE_SIZE dvd x" using assms(3) n(3) by auto
  have "\<not> PAGE_SIZE dvd x + 16"
    unfolding dvd_add_right_iff [OF x] by simp
  then have "slots s (x + 16) = None" using assms(3) by blast
  moreover have "nat (cardinal_processes s) = Suc (Suc (length es))"
    using assms(1) by (simp add: ring_def)
  ultimately show ?thesis using n assms(2) by (simp add: getProcessById_def)
qed

lemma nextThread_ok:
  assumes "ring s ((x, q, p) # es)" and "threads_ok s p"
  shows "\<exists>i. nextThread s = Inr (int i, s) \<and> i < MAX_THREADS \<and> p_thread p ! i \<noteq> NULL"
proof -
  let ?P = "\<lambda>i. p_thread p ! ((nat (p_activeThread p) + i) mod MAX_THREADS) \<noteq> NULL"
  have r: "0 \<le> p_activeThread p" "nat (p_activeThread p) < 10" "length (p_thread p) = 10"
      "p_thread p ! nat (p_activeThread p) \<noteq> NULL"
    using assms(2) by (auto simp: threads_ok_def)
  then have "?P 10" by simp
  then have "find ?P [1..<11] \<noteq> None"
    unfolding find_None_iff by (auto intro!: exI [of _ 10])
  then obtain i where i: "find ?P [1..<11] = Some i" "?P i"
    by (auto simp: find_Some_iff)
  obtain n where "current s = x" "procs s q = Some p" "slots s x = Some \<lparr>slot_next = n, slot_process = q\<rparr>"
    using assms(1) by (auto simp: ring_def)
  then have "nextThread s = Inr (int ((nat (p_activeThread p) + i) mod MAX_THREADS), s)"
    using i(1) r by (simp add: nextThread_def getCurrentProcess_def)
  then show ?thesis using i(2) by (intro exI [of _ "(nat (p_activeThread p) + i) mod MAX_THREADS"]) simp
qed

text \<open>\<open>findNextSpot\<close> looks at the first three places only.\<close>

lemma findNextSpot_full:
  assumes "\<forall>i<n. t ! i \<noteq> NULL"
  shows "findNextSpot t n = (-1, t)"
proof -
  have "scan n (\<lambda>i. t ! i = NULL) = None" using assms by (simp add: scan_None_iff)
  then show ?thesis by (simp add: findNextSpot_def)
qed

lemma createThread_refused:
  assumes inv: "blocks_inv bs s" and p: "procs s p = Some pr" and full: "\<forall>i<3. p_thread pr ! i \<noteq> NULL"
  shows "\<exists>cs t. createThread cp entry args p s = Inr (-1, t) \<and> alloc_seq [1, 2, 2] bs s = Inr (cs, t\<lparr>frames := frames s\<rparr>) \<and>
    procs t = procs s \<and> threads t = threads s"
proof -
  obtain t1 s1 where a1: "allocPage 1 s = Inr (t1, s1)"
      and b1: "blocks_inv (if t1 = NULL then bs else (t1, 1) # bs) s1"
    using buddy.alloc_returns [OF inv] by blast
  obtain k1 s2 where a2: "allocPage 2 s1 = Inr (k1, s2)"
      and b2: "\<exists>ds. blocks_inv ds s2"
    using buddy.alloc_returns [OF b1] by blast
  obtain k2 s3 where a3: "allocPage 2 s2 = Inr (k2, s3)"
    using b2 buddy.alloc_returns by blast
  have same: "procs s3 = procs s" "threads s3 = threads s" "frames s3 = frames s"
    by (subst allocPage_frame [OF a3], subst allocPage_frame [OF a2], subst allocPage_frame [OF a1], simp)+
  define t where "t = s3\<lparr>frames := (frames s3)(k1 + 7824 \<mapsto>
    \<lparr>sf_gs = 0x001, sf_fs = 0x002, sf_r15 = 0x003, sf_r14 = 0x004, sf_r13 = 0x005, sf_r12 = 0x006, sf_r11 = 0x007,
         sf_r10 = 0x008, sf_r9 = 0x009, sf_r8 = 0x00A, sf_rsi = entry, sf_rdi = entry, sf_rbp = 0x00D,
         sf_rdx = args, sf_rcx = args, sf_rbx = 0x010, sf_rax = 0x011, sf_rip = cp, sf_cs = 0x008,
         sf_eflags = 0x202, sf_rsp = k1 + 8000, sf_ss = 0x000,
         sf_base = k1 - 1192\<rparr>)\<rparr>"
  have "createThread cp entry args p s = Inr (-1, t)"
    using a1 a2 a3 p same findNextSpot_full [OF full]
    by (simp add: createThread_def fillStackFrame_def put_frame_def Let_def t_def add.commute)
  moreover have "t\<lparr>frames := frames s\<rparr> = s3" using same(3) by (simp add: t_def)
  moreover have "\<exists>cs. alloc_seq [1, 2, 2] bs s = Inr (cs, s3)"
    using a1 a2 a3 by simp
  ultimately show ?thesis using same by (auto simp: t_def)
qed

section \<open>killAllExceptCurrent\<close>

lemma path_start: "path s a es b \<Longrightarrow> path t c es b \<Longrightarrow> a = c"
  by (cases es) auto

lemma killAllExceptCurrent_loop_ring:
  assumes "ring s (e # ds @ rest)" and "\<forall>d\<in>set ds. entry_pid d = 0"
    and "path s aux rest (current s)" and "length rest < fuel"
  shows "\<exists>t. killAllExceptCurrent_loop fuel (entry_pid e) aux s = Ret () t \<and>
    ring t (e # ds @ filter (\<lambda>f. entry_pid f = 0) rest)"
  using assms
proof (induction rest arbitrary: s ds aux fuel)
  case Nil
  then show ?case by (cases fuel) auto
next
  case (Cons f rest)
  obtain n fuel' where fuel: "fuel = Suc fuel'" "length rest < fuel'" using Cons.prems(4) by (cases fuel) auto
  obtain x q p where f: "f = (x, q, p)" by (cases f)
  from Cons.prems(3) f obtain n where n: "aux = x" "procs s q = Some p"
      "slots s x = Some \<lparr>slot_next = n, slot_process = q\<rparr>" "path s n rest (current s)"
    by auto
  have cur: "current s = entry_slot e"
    using Cons.prems(1) by (cases e) (auto simp: ring_def)
  have dist: "x \<noteq> entry_slot e" "p_pid p \<noteq> entry_pid e" "x \<notin> entry_slot ` set (ds @ rest)"
      "p_pid p \<notin> entry_pid ` set (ds @ rest)"
    using Cons.prems(1) f by (auto simp: ring_def)
  show ?case
  proof (cases "p_pid p = 0")
    case True
    have "\<exists>t. killAllExceptCurrent_loop fuel' (entry_pid e) n s = Ret () t \<and>
        ring t (e # (ds @ [f]) @ filter (\<lambda>f. entry_pid f = 0) rest)"
      using Cons.prems True f n fuel by (intro Cons.IH) auto
    then show ?thesis using True f n fuel cur dist by auto
  next
    case False
    obtain t where t: "removeProcess (p_pid p) s = Ret () t"
        "ring t (e # filter (\<lambda>g. entry_pid g \<noteq> p_pid p) (ds @ f # rest))"
        "t = s\<lparr>slots := slots t, cardinal_processes := cardinal_processes t\<rparr>"
        "\<forall>a. a \<notin> entry_slot ` set (e # filter (\<lambda>g. entry_pid g \<noteq> p_pid p) (ds @ f # rest)) \<longrightarrow> slots t a = slots s a"
      using removeProcess_other [OF Cons.prems(1) False dist(2) [symmetric]] by blast
    have same: "current t = current s" by (subst t(3)) simp
    have flt: "filter (\<lambda>g. entry_pid g \<noteq> p_pid p) (ds @ f # rest) = ds @ rest"
    proof -
      have "filter (\<lambda>g. entry_pid g \<noteq> p_pid p) zs = zs" if "set zs \<subseteq> set (ds @ rest)" for zs
        unfolding filter_id_conv
      proof
        fix g
        assume "g \<in> set zs"
        with that have "entry_pid g \<in> entry_pid ` set (ds @ rest)" by (intro imageI) (rule subsetD)
        with dist(4) show "entry_pid g \<noteq> p_pid p" by metis
      qed
      then show ?thesis using f by simp
    qed
    have next_x: "slots t x = Some \<lparr>slot_next = n, slot_process = q\<rparr>"
      using t(4) [rule_format, of x, unfolded flt] dist(1,3) n(3) by auto
    have ring: "ring t (e # ds @ rest)" using t(2) flt by simp
    then obtain c where "path t c rest (current t)"
      by (auto simp: ring_def path_append simp del: path.simps simp flip: append_Cons)
    then have "path t n rest (current t)" using path_start n(4) same by metis
    then obtain u where "killAllExceptCurrent_loop fuel' (entry_pid e) n t = Ret () u"
        "ring u (e # ds @ filter (\<lambda>f. entry_pid f = 0) rest)"
      using Cons.IH [OF ring Cons.prems(2) _ fuel(2)] by blast
    then show ?thesis
      using False f n fuel cur dist t(1) next_x by auto
  qed
qed

text \<open>More states to evaluate on: the boot, pid 1 as the current process, a process with three threads.\<close>

definition boot_sched :: sched where
  "boot_sched = pagemem.extend (createHeap bss_pagemem)
     \<lparr>next_pid = 0, cardinal_processes = 0, current = NULL, slots = Map.empty, procs = Map.empty,
      threads = Map.empty, frames = Map.empty, ram = (\<lambda>_. 0), cpu_rsp = 0x7000\<rparr>"

definition demo_threads :: sched where
  "demo_threads = demo_sched\<lparr>procs := [0x1003000 \<mapsto> (demo_process 0 RUNNING 0x1006000)
     \<lparr>p_thread := 0x1006000 # 0x1007000 # 0x1008000 # replicate 7 NULL\<rparr>]\<rparr>"

lemma kernel_inv_demo_1:
  "kernel_inv demo_blocks (demo_sched\<lparr>current := 0x1001000\<rparr>)
     (demo_entries ! 1 # [demo_entries ! 2, demo_entries ! 0])"
proof (rule kernel_inv_rotate [OF kernel_inv_demo])
  show "ring (demo_sched\<lparr>current := 0x1001000\<rparr>) (demo_entries ! 1 # [demo_entries ! 2, demo_entries ! 0])"
    by (simp add: ring_def demo_entries_def demo_sched_def demo_process_def)
  show "map entry_id (demo_entries ! 1 # [demo_entries ! 2, demo_entries ! 0]) = rotate 1 (map entry_id demo_entries)"
    by (simp add: demo_entries_def)
  show "blocks_inv demo_blocks (demo_sched\<lparr>current := 0x1001000\<rparr>)"
    using blocks_inv_demo blocks_inv_cong [of "demo_sched\<lparr>current := 0x1001000\<rparr>" demo_sched] by simp
  show "length (p_thread q) = MAX_THREADS" if "procs (demo_sched\<lparr>current := 0x1001000\<rparr>) b = Some q" for b q
    using that kernel_inv_demo by (simp add: kernel_inv_def)
qed (simp_all add: demo_entries_def)

lemma boot_pages:
  "occupied boot_sched = occupied (createHeap bss_pagemem)" "base boot_sched = base (createHeap bss_pagemem)"
  "heapLevel boot_sched = heapLevel (createHeap bss_pagemem)"
  "baseMemory boot_sched = baseMemory (createHeap bss_pagemem)"
  by (simp_all add: boot_sched_def pagemem.defs)

lemma boot_pid: "next_pid boot_sched = 0"
  by (simp add: boot_sched_def pagemem.defs)

lemma kernel_inv_boot: "kernel_inv [] boot_sched []"
proof -
  have "blocks_inv [] boot_sched"
  proof -
    have "occ boot_sched = occ (createHeap bss_pagemem)" by (simp add: fun_eq_iff occ_def boot_pages)
    then show ?thesis
      using blocks_inv_createHeap [OF arrays_sized_bss]
      by (simp add: blocks_inv_def heap_ok_def up_closed_def boot_pages)
  qed
  then show ?thesis by (simp add: kernel_inv_def boot_sched_def pagemem.defs)
qed

lemma boot_room: "\<exists>cs w. alloc_seq [1, 1, 2, 2, 1] [] boot_sched = Inr (cs, w) \<and> length cs = 5"
proof -
  have "occ boot_sched = occ (createHeap bss_pagemem)" by (simp add: fun_eq_iff occ_def boot_pages)
  then have o: "occ boot_sched (numeral i) = 0" if "numeral i \<le> HEAPSIZE" for i
    using occ_createHeap [OF arrays_sized_bss, of "numeral i"] that by simp
  have o1: "occ boot_sched (Suc 0) = 0"
    using occ_createHeap [OF arrays_sized_bss, of 1] by (simp add: \<open>occ boot_sched = _\<close>)
  have l: "length (occupied boot_sched) = 2047" "heapLevel boot_sched = 11"
    using createHeap_built [OF arrays_sized_bss] by (simp_all add: boot_pages heap_built_def)
  have b': "base boot_sched ! k \<noteq> 0" if "k < HEAPSIZE" for k
    using heap_ok_base_pos [of "createHeap bss_pagemem" "Suc k"] that
      blocks_inv_createHeap [OF arrays_sized_bss] by (simp add: boot_pages blocks_inv_def)
  then have b: "base boot_sched ! numeral i \<noteq> 0" if "numeral i < HEAPSIZE" for i
    using that by simp
  show ?thesis
    by (simp add: allocPage_def getLevel_def getLevel_loop.simps getNextPageRecursive.simps o o1 l b)
qed

section \<open>Properties\<close>

text \<open>C5. On a ring of processes, \<open>schedule\<close> is a round robin: the process that ran becomes ready and
  goes to the end of the line, the first ready process of the line runs, and the order, the slots and
  the threads are kept.  If no process is ready it never returns.\<close>

theorem schedule_round_robin:
  assumes "ring s es"
  shows "case abs_schedule (map view es) of
      None \<Rightarrow> schedule s = Inl Diverges
    | Some vs \<Rightarrow> \<exists>t fs. schedule s = Inr ((), t) \<and> ring t fs \<and> map view fs = vs \<and>
        (\<exists>k. map entry_id fs = rotate k (map entry_id es)) \<and> slots t = slots s \<and> threads t = threads s"
proof (cases "abs_schedule (map view es)")
  case None
  with schedule_diverges [OF assms] show ?thesis by simp
next
  case (Some vs)
  obtain t fs k where t: "schedule s = Inr ((), t)" "ring t fs" "map view fs = vs"
      "map entry_id fs = rotate k (map entry_id es)"
      and frame: "t = s\<lparr>procs := procs t, current := current t\<rparr>"
    using schedule_simulates [OF assms Some] by blast
  have "slots t = slots s" "threads t = threads s" by (subst frame, simp)+
  with t Some show ?thesis by auto
qed

theorem schedule_round_robin_witness:
  "\<exists>t fs. schedule demo_sched = Inr ((), t) \<and> ring t fs \<and>
     map view fs = [(2, RUNNING), (0, READY), (1, BLOCKED)] \<and> slots t = slots demo_sched"
proof -
  have abs: "abs_schedule (map view demo_entries) = Some [(2, RUNNING), (0, READY), (1, BLOCKED)]"
    by (simp add: demo_entries_def view_def demo_process_def preempt_def)
  show ?thesis using schedule_round_robin [OF ring_demo] unfolding abs option.case
    by (elim exE conjE) (intro exI conjI)
qed

text \<open>C6. No ready process starves: one that is ready at position \<open>i\<close> of the line is running after at
  most \<open>i\<close> calls of \<open>schedule\<close>.\<close>

theorem schedule_no_starvation:
  assumes "ring_view s vs" and "0 < i" and "i < length vs" and "vs ! i = (pid, READY)"
  shows "\<exists>k t ws. 0 < k \<and> k \<le> i \<and> erepeat k schedule s = Inr ((), t) \<and> ring_view t ((pid, RUNNING) # ws)"
  using assms by (rule gatos.no_starvation)

theorem schedule_no_starvation_witness:
  "\<exists>k t ws. 0 < k \<and> k \<le> 2 \<and> erepeat k schedule demo_sched = Inr ((), t) \<and> ring_view t ((2, RUNNING) # ws)"
proof (rule schedule_no_starvation)
  show "ring_view demo_sched (map view demo_entries)" using ring_demo by (auto simp: ring_view_def)
qed (simp_all add: demo_entries_def view_def demo_process_def)

text \<open>C7. When five blocks are left for it, \<open>createProcess\<close> returns the next pid and puts a ready process
  with that pid right behind the current one; its slot, process and thread are in pages of their
  own, disjoint from all those in use.\<close>

theorem createProcess_enters_ring:
  assumes "kernel_inv bs s es" and "alloc_seq [1, 1, 2, 2, 1] bs s = Inr (cs, w)" and "length cs = length bs + 5"
  shows "\<exists>t fs. createProcess cp entry description args s = Inr (next_pid s, t) \<and> kernel_inv cs t fs \<and>
    map view fs = insert_second (next_pid s, READY) (map view es)"
proof -
  obtain t n a p where "createProcess cp entry description args s = Inr (next_pid s, t)"
      "kernel_inv cs t (insert_second (n, a, p) es)" "p_pid p = next_pid s" "p_state p = READY"
    using createProcess_inv [OF assms] by blast
  then show ?thesis
    by (intro exI [of _ t] exI [of _ "insert_second (n, a, p) es"]) (simp add: map_insert_second view_def)
qed

theorem createProcess_enters_ring_witness:
  "\<exists>cs t fs. createProcess 0x400 0x500 ''init'' NULL boot_sched = Inr (0, t) \<and> kernel_inv cs t fs \<and>
    map view fs = [(0, READY)]"
proof -
  obtain cs w where "alloc_seq [1, 1, 2, 2, 1] [] boot_sched = Inr (cs, w)"
      "length cs = length ([] :: (addr \<times> nat) list) + 5"
    using boot_room by auto
  from createProcess_enters_ring [OF kernel_inv_boot this, where cp = "0x400" and entry = "0x500"
      and description = "''init''" and args = NULL]
  show ?thesis unfolding boot_pid list.map insert_second.simps
    by (elim exE conjE) (intro exI conjI)
qed

text \<open>C8. A context switch saves the stack pointer in the thread that ran and resumes the next
  process where its own thread was suspended; the invariant of the process table is kept.\<close>

theorem next_process_switches_context:
  assumes "kernel_inv bs s es" and "es \<noteq> []" and "abs_schedule (map view es) = Some vs"
  shows "\<exists>t fs old. next_process rsp s =
      Inr (if entry_thread (hd fs) = entry_thread (hd es) then rsp else userStack old, t) \<and>
    kernel_inv bs t fs \<and> map view fs = vs \<and> threads s (entry_thread (hd fs)) = Some old \<and>
    (\<exists>th. threads s (entry_thread (hd es)) = Some th \<and>
      threads t = (threads s)(entry_thread (hd es) \<mapsto> th\<lparr>userStack := rsp\<rparr>))"
  using next_process_switch [OF assms, of rsp] by blast

theorem next_process_switches_context_witness:
  "\<exists>t fs old. next_process 0x123 demo_sched =
      Inr (if entry_thread (hd fs) = entry_thread (hd demo_entries) then 0x123 else userStack old, t) \<and>
    kernel_inv demo_blocks t fs \<and> map view fs = [(2, RUNNING), (0, READY), (1, BLOCKED)] \<and>
    threads demo_sched (entry_thread (hd fs)) = Some old \<and>
    (\<exists>th. threads demo_sched (entry_thread (hd demo_entries)) = Some th \<and>
      threads t = (threads demo_sched)(entry_thread (hd demo_entries) \<mapsto> th\<lparr>userStack := 0x123\<rparr>))"
  by (rule next_process_switches_context [OF kernel_inv_demo])
    (simp_all add: demo_entries_def view_def demo_process_def preempt_def)

text \<open>C9. \<open>removeProcess\<close> of a process other than init and the current one takes exactly that process
  out of the ring, and does nothing when there is none with that pid.\<close>

theorem removeProcess_deletes:
  assumes "ring s (e # es)" and "pid \<noteq> 0" and "entry_pid e \<noteq> pid"
  shows "\<exists>t. removeProcess pid s = Ret () t \<and> ring t (e # filter (\<lambda>f. entry_pid f \<noteq> pid) es)"
  using removeProcess_other [OF assms] by blast

theorem removeProcess_deletes_witness:
  "\<exists>t. removeProcess 1 demo_sched = Ret () t \<and>
     ring t [demo_entries ! 0, demo_entries ! 2]"
proof -
  have d: "demo_entries = demo_entries ! 0 # [demo_entries ! 1, demo_entries ! 2]"
    by (simp add: demo_entries_def)
  have "\<exists>t. removeProcess 1 demo_sched = Ret () t \<and>
      ring t (demo_entries ! 0 # filter (\<lambda>f. entry_pid f \<noteq> 1) [demo_entries ! 1, demo_entries ! 2])"
    by (rule removeProcess_deletes) (use ring_demo d in simp, simp_all add: demo_entries_def demo_process_def)
  then show ?thesis by (simp add: demo_entries_def demo_process_def)
qed

text \<open>A process that removes itself gives up the processor and leaves the ring: the first ready
  process behind it runs, and the invariant of the process table holds without it.\<close>

theorem removeProcess_exit:
  assumes "kernel_inv bs s (e # es)" and "entry_pid e = pid" and "pid \<noteq> 0"
    and "es = us @ (y, r, pr) # ws" and "\<forall>f\<in>set us. snd (view f) \<noteq> READY" and "p_state pr = READY"
  shows "\<exists>t. removeProcess pid s = Yield t (kreturn ()) \<and>
    kernel_inv bs t ((y, r, pr\<lparr>p_state := RUNNING\<rparr>) # ws @ us)"
proof -
  have "es \<noteq> []" using assms(4) by simp
  from removeProcess_self [OF assms(1) this assms(2-6)] show ?thesis .
qed

theorem removeProcess_exit_witness:
  "\<exists>t. removeProcess 1 (demo_sched\<lparr>current := 0x1001000\<rparr>) = Yield t (kreturn ()) \<and>
    kernel_inv demo_blocks t
      [(0x1002000, 0x1005000, demo_process 2 RUNNING 0x1008000),
       (0x1000000, 0x1003000, demo_process 0 RUNNING 0x1006000)]"
proof -
  let ?pr = "demo_process 2 READY 0x1008000"
  have "\<exists>t. removeProcess 1 (demo_sched\<lparr>current := 0x1001000\<rparr>) = Yield t (kreturn ()) \<and>
      kernel_inv demo_blocks t ((0x1002000, 0x1005000, ?pr\<lparr>p_state := RUNNING\<rparr>) # [demo_entries ! 0] @ [])"
    by (rule removeProcess_exit [OF kernel_inv_demo_1]) (simp_all add: demo_entries_def demo_process_def)
  then show ?thesis by (simp add: demo_entries_def demo_process_def zero_process_def)
qed

text \<open>\<open>changeProcessState\<close> sets the state of the process with the given pid, if there is one, and
  changes no other process.\<close>

theorem changeProcessState_exact:
  assumes "ring s es"
  shows "\<exists>t fs. changeProcessState pid st s = Inr ((), t) \<and> ring t fs \<and>
    map view fs = map (\<lambda>v. if fst v = pid then (pid, st) else v) (map view es) \<and>
    map entry_slot fs = map entry_slot es \<and> threads t = threads s \<and> slots t = slots s"
proof -
  obtain t fs where t: "changeProcessState pid st s = Inr ((), t)" "ring t fs"
      "map view fs = abs_change pid st (map view es)" "map entry_slot fs = map entry_slot es"
      and frame: "t = s\<lparr>procs := procs t\<rparr>"
    using changeProcessState_simulates [OF assms] by blast
  have "slots t = slots s" "threads t = threads s" by (subst frame, simp)+
  with t show ?thesis unfolding abs_change_def by blast
qed

theorem changeProcessState_exact_witness:
  "\<exists>t fs. changeProcessState 1 READY demo_sched = Inr ((), t) \<and> ring t fs \<and>
     map view fs = [(0, RUNNING), (1, READY), (2, READY)]"
proof -
  have views: "map (\<lambda>v. if fst v = 1 then (1, READY) else v) (map view demo_entries) =
      [(0, RUNNING), (1, READY), (2, READY)]"
    by (simp add: demo_entries_def view_def demo_process_def)
  show ?thesis using changeProcessState_exact [OF ring_demo, of 1 READY] unfolding views
    by (elim exE conjE) (intro exI conjI)
qed

text \<open>\<open>getProcessById\<close> indexes the current slot as an array instead of following the ring: it finds
  the current process, and for every other pid, as soon as there are two processes, it reads a
  structure that is not there.\<close>

theorem getProcessById_current_only:
  assumes "ring s (e # es)" and "es \<noteq> []" and "\<forall>a. slots s a \<noteq> None \<longrightarrow> PAGE_SIZE dvd a"
  shows "getProcessById pid s = (if pid = entry_pid e then Inr (entry_proc e, s) else Inl NullDeref)"
proof -
  obtain x q p where e: "e = (x, q, p)" by (cases e)
  obtain f fs where f: "es = f # fs" using assms(2) by (cases es) auto
  show ?thesis
    using getProcessById_first [OF assms(1) [unfolded e]] getProcessById_other [OF assms(1) [unfolded e f] _ assms(3)] e
    by (cases "pid = p_pid p") auto
qed

theorem getProcessById_current_only_witness:
  "getProcessById 0 demo_sched = Inr (0x1003000, demo_sched) \<and> getProcessById 2 demo_sched = Inl NullDeref"
proof -
  have d: "demo_entries = demo_entries ! 0 # [demo_entries ! 1, demo_entries ! 2]"
    by (simp add: demo_entries_def)
  have r: "ring demo_sched (demo_entries ! 0 # [demo_entries ! 1, demo_entries ! 2])"
    using ring_demo d by simp
  have "\<forall>a. slots demo_sched a \<noteq> None \<longrightarrow> PAGE_SIZE dvd a"
    by (auto simp: demo_sched_def split: if_splits)
  from getProcessById_current_only [OF r _ this, of 0] getProcessById_current_only [OF r _ this, of 2]
  show ?thesis by (simp add: demo_entries_def demo_process_def)
qed

text \<open>A process has at most three threads, whatever \<open>MAX_THREADS\<close> says: when the first three
  places are taken, \<open>createThread\<close> answers -1 and keeps the five pages it had allocated.\<close>

theorem createThread_limit:
  assumes "blocks_inv bs s" and "procs s p = Some pr" and "\<forall>i<3. p_thread pr ! i \<noteq> NULL"
  shows "\<exists>cs t. createThread cp entry args p s = Inr (-1, t) \<and>
    alloc_seq [1, 2, 2] bs s = Inr (cs, t\<lparr>frames := frames s\<rparr>) \<and> procs t = procs s \<and> threads t = threads s"
  using assms by (rule createThread_refused)

theorem createThread_limit_witness:
  "\<exists>cs t. createThread 0x400 0x500 NULL 0x1003000 demo_threads = Inr (-1, t) \<and>
    alloc_seq [1, 2, 2] demo_blocks demo_threads = Inr (cs, t\<lparr>frames := frames demo_threads\<rparr>) \<and>
    procs t = procs demo_threads \<and> threads t = threads demo_threads"
proof (rule createThread_limit)
  show "blocks_inv demo_blocks demo_threads"
    using blocks_inv_demo by (simp add: demo_threads_def cong: blocks_inv_cong)
qed (auto simp: demo_threads_def less_Suc_eq numeral_eq_Suc)

text \<open>C10. \<open>killAllExceptCurrent\<close> ends, whatever the ring, and leaves the current process and init.\<close>

theorem killAllExceptCurrent_leaves:
  assumes "ring s (e # es)" and "length es < fuel"
  shows "\<exists>t. killAllExceptCurrent fuel s = Ret () t \<and> ring t (e # filter (\<lambda>f. entry_pid f = 0) es)"
proof -
  obtain x q p where e: "e = (x, q, p)" by (cases e)
  obtain n where n: "current s = x" "x \<noteq> NULL" "procs s q = Some p"
      "slots s x = Some \<lparr>slot_next = n, slot_process = q\<rparr>" "path s n es x"
    using assms(1) e by (auto simp: ring_def)
  have "getCurrentPid s = Inr (p_pid p, s)" using n by (simp add: getCurrentPid_def)
  then have "killAllExceptCurrent fuel s = killAllExceptCurrent_loop fuel (p_pid p) n s"
    using n by (simp add: killAllExceptCurrent_def)
  moreover have "\<exists>t. killAllExceptCurrent_loop fuel (entry_pid e) n s = Ret () t \<and>
      ring t (e # [] @ filter (\<lambda>f. entry_pid f = 0) es)"
    using assms n by (intro killAllExceptCurrent_loop_ring) auto
  ultimately show ?thesis using e by simp
qed

theorem killAllExceptCurrent_leaves_witness:
  "\<exists>t. killAllExceptCurrent 3 demo_sched = Ret () t \<and> ring t [demo_entries ! 0]"
proof -
  have d: "demo_entries = demo_entries ! 0 # [demo_entries ! 1, demo_entries ! 2]"
    by (simp add: demo_entries_def)
  have "\<exists>t. killAllExceptCurrent 3 demo_sched = Ret () t \<and>
      ring t (demo_entries ! 0 # filter (\<lambda>f. entry_pid f = 0) [demo_entries ! 1, demo_entries ! 2])"
    by (rule killAllExceptCurrent_leaves) (use ring_demo d in simp_all)
  then show ?thesis by (simp add: demo_entries_def demo_process_def)
qed

end
