(* ===== verification/Queue.thy ===== *)
theory Queue
  imports Lifecycle
begin

text \<open>
  The queue of Kernel/queue.c: a header with the first and the last node of a singly linked list.
  Its users are the mutexes and the condition variables, which queue processes (pointers) in it.

  The header and every node are allocated with \<open>allocPage(sizeof ...)\<close>, which asks for 16 \<^emph>\<open>pages\<close>
  each.

  The lemmas show that the structure is a first-in first-out queue, as an interface (\<open>fifo\<close>) the
  synchronisation primitives use.
\<close>

section \<open>State and operations\<close>

record qnode =
  node_elem :: addr
  node_next :: addr

record queue =
  q_first :: addr
  q_last :: addr

record qmem = sched +
  queues :: "addr \<Rightarrow> queue option"
  nodes :: "addr \<Rightarrow> qnode option"

abbreviation (input) sizeof_queue :: nat where
  "sizeof_queue \<equiv> 16"

abbreviation (input) sizeof_node :: nat where
  "sizeof_node \<equiv> 16"

definition put_queue :: "addr \<Rightarrow> queue \<Rightarrow> ('a qmem_scheme, unit) eprog" where
  "put_queue a q s = (if a = NULL then Inl NullDeref else Inr ((), s\<lparr>queues := (queues s)(a \<mapsto> q)\<rparr>))"

definition put_node :: "addr \<Rightarrow> qnode \<Rightarrow> ('a qmem_scheme, unit) eprog" where
  "put_node a n s = (if a = NULL then Inl NullDeref else Inr ((), s\<lparr>nodes := (nodes s)(a \<mapsto> n)\<rparr>))"

lemma put_queue_apply [simp]:
  "a \<noteq> NULL \<Longrightarrow> put_queue a q s = Inr ((), s\<lparr>queues := (queues s)(a \<mapsto> q)\<rparr>)"
  "a \<noteq> NULL \<Longrightarrow> put_node a n s = Inr ((), s\<lparr>nodes := (nodes s)(a \<mapsto> n)\<rparr>)"
  "put_node NULL n s = Inl NullDeref"
  by (simp_all add: put_queue_def put_node_def)

definition create_queue :: "('a qmem_scheme, addr) eprog" where
  "create_queue =
     ebind (allocPage sizeof_queue) (\<lambda>q.
     if q = NULL then ereturn NULL
     else ebind (put_queue q \<lparr>q_first = NULL, q_last = NULL\<rparr>) (\<lambda>_. ereturn q))"

definition is_empty :: "addr \<Rightarrow> ('a qmem_scheme, bool) eprog" where
  "is_empty q =
     (if q = NULL then ereturn True
      else ebind (deref queues q) (\<lambda>h. ereturn (q_first h = NULL)))"

definition enqueue :: "addr \<Rightarrow> addr \<Rightarrow> ('a qmem_scheme, unit) eprog" where
  "enqueue q elem =
     (if q = NULL then ereturn ()
      else ebind (allocPage sizeof_node) (\<lambda>new_node.
           ebind (put_node new_node \<lparr>node_elem = elem, node_next = NULL\<rparr>) (\<lambda>_.
           ebind (deref queues q) (\<lambda>h.
           if q_first h = NULL then put_queue q (h\<lparr>q_first := new_node, q_last := new_node\<rparr>)
           else ebind (deref nodes (q_last h)) (\<lambda>l.
                ebind (put_node (q_last h) (l\<lparr>node_next := new_node\<rparr>)) (\<lambda>_.
                put_queue q (h\<lparr>q_last := new_node\<rparr>)))))))"

definition peek :: "addr \<Rightarrow> ('a qmem_scheme, addr) eprog" where
  "peek q =
     ebind (is_empty q) (\<lambda>e.
     if e then ereturn NULL
     else ebind (deref queues q) (\<lambda>h. ebind (deref nodes (q_first h)) (\<lambda>f. ereturn (node_elem f))))"

definition dequeue :: "addr \<Rightarrow> ('a qmem_scheme, addr) eprog" where
  "dequeue q =
     ebind (is_empty q) (\<lambda>e.
     if e then ereturn NULL
     else ebind (deref queues q) (\<lambda>h.
          let f = q_first h in
          ebind (deref nodes f) (\<lambda>n.
          let h1 = h\<lparr>q_first := node_next n\<rparr>;
              h2 = (if q_first h1 = NULL then h1\<lparr>q_last := NULL\<rparr> else h1)
          in ebind (put_queue q h2) (\<lambda>_.
             ebind (deallocPage f) (\<lambda>_. ereturn (node_elem n))))))"

text \<open>The loop of \<open>destroy_queue\<close>; \<open>None\<close> when it never ends.\<close>

partial_function (option) drain :: "addr \<Rightarrow> 'a qmem_scheme \<Rightarrow> (fault + 'a qmem_scheme) option" where
  "drain q s =
     (case is_empty q s of
        Inl e \<Rightarrow> Some (Inl e)
      | Inr (e, s1) \<Rightarrow>
          if e then Some (Inr s1)
          else (case dequeue q s1 of Inl e \<Rightarrow> Some (Inl e) | Inr (_, s2) \<Rightarrow> drain q s2))"

definition destroy_queue :: "addr \<Rightarrow> ('a qmem_scheme, unit) eprog" where
  "destroy_queue q s =
     (case drain q s of
        None \<Rightarrow> Inl Diverges
      | Some (Inl e) \<Rightarrow> Inl e
      | Some (Inr s1) \<Rightarrow> ebind (deallocPage q) (\<lambda>_. ereturn ()) s1)"

section \<open>The queue as a list\<close>

text \<open>\<open>chain m a ns xs\<close>: from the node \<open>a\<close> the nodes \<open>ns\<close> follow, with the elements \<open>xs\<close>, up to NULL.\<close>

fun chain :: "(addr \<Rightarrow> qnode option) \<Rightarrow> addr \<Rightarrow> addr list \<Rightarrow> addr list \<Rightarrow> bool" where
  "chain m a [] xs \<longleftrightarrow> a = NULL \<and> xs = []"
| "chain m a (n # ns) xs \<longleftrightarrow> a = n \<and> n \<noteq> NULL \<and>
     (\<exists>r ys. m n = Some r \<and> xs = node_elem r # ys \<and> chain m (node_next r) ns ys)"

definition queue_of :: "'a qmem_scheme \<Rightarrow> addr \<Rightarrow> addr list \<Rightarrow> addr list \<Rightarrow> bool" where
  "queue_of s q ns xs \<longleftrightarrow> q \<noteq> NULL \<and> distinct ns \<and> set ns \<subseteq> managed \<and> baseMemory s = 0x1000000 \<and>
     (\<exists>h. queues s q = Some h \<and> chain (nodes s) (q_first h) ns xs \<and>
        q_last h = (if ns = [] then NULL else last ns))"

definition is_queue :: "'a qmem_scheme \<Rightarrow> addr \<Rightarrow> addr list \<Rightarrow> bool" where
  "is_queue s q xs \<longleftrightarrow> (\<exists>ns. queue_of s q ns xs)"

text \<open>There is room for one more node: the allocator has a block that holds no node of the queue.\<close>

definition room :: "'a qmem_scheme \<Rightarrow> addr \<Rightarrow> addr list \<Rightarrow> bool" where
  "room s q ns \<longleftrightarrow> (\<exists>n t. allocPage sizeof_node s = Inr (n, t) \<and> n \<noteq> NULL \<and> n \<notin> set ns \<and> n \<in> managed)"

lemma chain_Nil_iff: "chain m a ns xs \<Longrightarrow> ns = [] \<longleftrightarrow> a = NULL"
  by (cases ns) auto

lemma chain_length: "chain m a ns xs \<Longrightarrow> length xs = length ns"
  by (induction ns arbitrary: a xs) auto

lemma chain_upd_notin: "n \<notin> set ns \<Longrightarrow> chain (m(n \<mapsto> r)) a ns xs \<longleftrightarrow> chain m a ns xs"
  by (induction ns arbitrary: a xs) auto

lemma chain_snoc:
  assumes "chain m a ns xs" and "ns \<noteq> []" and "distinct ns" and "n \<notin> set ns" and "n \<noteq> NULL"
    and "m (last ns) = Some l"
  shows "chain (m(n \<mapsto> \<lparr>node_elem = x, node_next = NULL\<rparr>, last ns \<mapsto> l\<lparr>node_next := n\<rparr>)) a (ns @ [n]) (xs @ [x])"
  using assms
proof (induction ns arbitrary: a xs)
  case (Cons k ns)
  obtain r ys where r: "a = k" "k \<noteq> NULL" "m k = Some r" "xs = node_elem r # ys" "chain m (node_next r) ns ys"
    using Cons.prems(1) by auto
  show ?case
  proof (cases "ns = []")
    case True
    with r Cons.prems show ?thesis by auto
  next
    case False
    have k: "k \<noteq> last ns" "k \<noteq> n" using Cons.prems(3,4) False by auto
    have "chain (m(n \<mapsto> \<lparr>node_elem = x, node_next = NULL\<rparr>, last ns \<mapsto> l\<lparr>node_next := n\<rparr>)) (node_next r) (ns @ [n]) (ys @ [x])"
      using Cons.prems False r by (intro Cons.IH) auto
    with r k False show ?thesis by (simp add: fun_upd_def)
  qed
qed simp

lemma chain_last:
  assumes "chain m a ns xs" and "ns \<noteq> []"
  shows "\<exists>l. m (last ns) = Some l" and "last ns \<noteq> NULL"
proof -
  have "\<forall>n\<in>set ns. (\<exists>l. m n = Some l) \<and> n \<noteq> NULL"
    using assms(1) by (induction ns arbitrary: a xs) auto
  with assms(2) show "\<exists>l. m (last ns) = Some l" "last ns \<noteq> NULL" by auto
qed

section \<open>The operations on the list\<close>

text \<open>Everything but the page occupancy and the queues is left alone.\<close>

definition queue_frame :: "'a qmem_scheme \<Rightarrow> 'a qmem_scheme \<Rightarrow> bool" where
  "queue_frame s t \<longleftrightarrow> (\<exists>oc qs ns. t = s\<lparr>occupied := oc, queues := qs, nodes := ns\<rparr>)"

lemma queue_frame_fields:
  assumes "queue_frame s t"
  shows "slots t = slots s" "procs t = procs s" "threads t = threads s" "current t = current s"
    "cardinal_processes t = cardinal_processes s" "next_pid t = next_pid s" "cpu_rsp t = cpu_rsp s"
    "base t = base s" "heapLevel t = heapLevel s" "baseMemory t = baseMemory s" "qmem.more t = qmem.more s"
  using assms by (auto simp: queue_frame_def)

lemma queue_frame_trans: "queue_frame s t \<Longrightarrow> queue_frame t u \<Longrightarrow> queue_frame s u"
proof (unfold queue_frame_def, elim exE)
  fix oc qs ns oc' qs' ns'
  assume "t = s\<lparr>occupied := oc, queues := qs, nodes := ns\<rparr>" "u = t\<lparr>occupied := oc', queues := qs', nodes := ns'\<rparr>"
  then have "u = s\<lparr>occupied := oc', queues := qs', nodes := ns'\<rparr>" by simp
  then show "\<exists>oc qs ns. u = s\<lparr>occupied := oc, queues := qs, nodes := ns\<rparr>" by blast
qed

lemma queue_frame_alloc:
  assumes "u = s\<lparr>occupied := occupied u\<rparr>"
  shows "queue_frame s (u\<lparr>nodes := ns, queues := qs\<rparr>)"
proof -
  have "u\<lparr>nodes := ns, queues := qs\<rparr> = s\<lparr>occupied := occupied u, queues := qs, nodes := ns\<rparr>"
    by (subst (1) assms) simp
  then show ?thesis unfolding queue_frame_def by blast
qed

lemma is_empty_queue:
  "queue_of s q ns xs \<Longrightarrow> is_empty q s = Inr (xs = [], s)"
  using chain_Nil_iff chain_length by (fastforce simp: queue_of_def is_empty_def)

lemma peek_queue:
  assumes "queue_of s q ns xs"
  shows "peek q s = Inr (if xs = [] then NULL else hd xs, s)"
proof (cases ns)
  case Nil
  with assms is_empty_queue [OF assms] show ?thesis by (auto simp: peek_def queue_of_def)
next
  case (Cons n ms)
  obtain h r ys where "queues s q = Some h" "nodes s n = Some r" "q_first h = n" "xs = node_elem r # ys"
    using assms Cons by (auto simp: queue_of_def)
  then show ?thesis using is_empty_queue [OF assms] by (simp add: peek_def ebind_def)
qed

lemma dequeue_queue_empty: "queue_of s q ns [] \<Longrightarrow> dequeue q s = Inr (NULL, s)"
  using is_empty_queue [of s q ns "[]"] by (simp add: dequeue_def ebind_def)

lemma dequeue_queue:
  assumes "queue_of s q (n # ns) (x # xs)"
  shows "\<exists>t. dequeue q s = Inr (x, t) \<and> queue_of t q ns xs \<and> queue_frame s t"
proof -
  obtain h r where h: "queues s q = Some h" "nodes s n = Some r" "q_first h = n" "x = node_elem r"
      "chain (nodes s) (node_next r) ns xs" "q \<noteq> NULL" "n \<in> managed" "baseMemory s = 0x1000000"
      "q_last h = last (n # ns)" "distinct (n # ns)" "set ns \<subseteq> managed"
    using assms by (auto simp: queue_of_def)
  define h2 where "h2 = (if node_next r = NULL then h\<lparr>q_first := node_next r, q_last := NULL\<rparr>
    else h\<lparr>q_first := node_next r\<rparr>)"
  define u where "u = s\<lparr>queues := (queues s)(q \<mapsto> h2)\<rparr>"
  have "baseMemory u = 0x1000000" using h(8) by (simp add: u_def)
  then obtain t where t: "deallocPage n u = Inr (0, t)" "same_but_occupied u t"
    using deallocPage_managed [OF _ h(7)] by blast
  have frame: "t = u\<lparr>occupied := occupied t\<rparr>"
    using same_but_occupied_eq [OF t(2)] .
  have "dequeue q s = Inr (x, t)"
    using is_empty_queue [OF assms] h t(1) by (simp add: dequeue_def ebind_def Let_def u_def h2_def)
  moreover have "queue_of t q ns xs"
  proof -
    have "queues t q = Some h2" "nodes t = nodes s" by (subst frame, simp add: u_def)+
    moreover have "q_first h2 = node_next r" "q_last h2 = (if ns = [] then NULL else last ns)"
      using h(9) chain_Nil_iff [OF h(5)] by (auto simp: h2_def)
    moreover have "baseMemory t = 0x1000000" by (subst frame) (simp add: u_def h(8))
    ultimately show ?thesis using h by (simp add: queue_of_def)
  qed
  moreover have "queue_frame s t"
  proof -
    have "t = s\<lparr>occupied := occupied t, queues := (queues s)(q \<mapsto> h2), nodes := nodes s\<rparr>"
      by (subst (1) frame) (simp add: u_def)
    then show ?thesis unfolding queue_frame_def by blast
  qed
  ultimately show ?thesis by blast
qed

lemma enqueue_queue:
  assumes "queue_of s q ns xs" and "room s q ns"
  shows "\<exists>n t. enqueue q x s = Inr ((), t) \<and> queue_of t q (ns @ [n]) (xs @ [x]) \<and> queue_frame s t"
proof -
  obtain n u where n: "allocPage sizeof_node s = Inr (n, u)" "n \<noteq> NULL" "n \<notin> set ns" "n \<in> managed"
    using assms(2) by (auto simp: room_def)
  have frame: "u = s\<lparr>occupied := occupied u\<rparr>" using allocPage_frame [OF n(1)] .
  have same: "queues u = queues s" "nodes u = nodes s" "baseMemory u = baseMemory s" by (subst frame, simp)+
  obtain h where h: "queues s q = Some h" "chain (nodes s) (q_first h) ns xs" "q \<noteq> NULL"
      "q_last h = (if ns = [] then NULL else last ns)" "distinct ns" "set ns \<subseteq> managed"
      "baseMemory s = 0x1000000"
    using assms(1) by (auto simp: queue_of_def)
  let ?new = "\<lparr>node_elem = x, node_next = NULL\<rparr>"
  show ?thesis
  proof (cases "ns = []")
    case True
    then have xs: "xs = []" "q_first h = NULL" using h(2) by auto
    define t where "t = u\<lparr>nodes := (nodes s)(n \<mapsto> ?new), queues := (queues s)(q \<mapsto> h\<lparr>q_first := n, q_last := n\<rparr>)\<rparr>"
    have "enqueue q x s = Inr ((), t)"
      using n h xs same by (simp add: enqueue_def t_def)
    moreover have "queue_of t q (ns @ [n]) (xs @ [x])"
      using n h True xs by (simp add: queue_of_def t_def same fun_upd_def)
    moreover have "queue_frame s t"
      unfolding t_def by (rule queue_frame_alloc [OF frame])
    ultimately show ?thesis by blast
  next
    case False
    obtain l where l: "nodes s (last ns) = Some l" "last ns \<noteq> NULL" using chain_last [OF h(2) False] by blast
    have ne: "q_first h \<noteq> NULL" using chain_Nil_iff [OF h(2)] False by simp
    have nl: "n \<noteq> last ns" using n(3) False by auto
    define t where "t = u\<lparr>nodes := (nodes s)(n \<mapsto> ?new, last ns \<mapsto> l\<lparr>node_next := n\<rparr>),
      queues := (queues s)(q \<mapsto> h\<lparr>q_last := n\<rparr>)\<rparr>"
    have "enqueue q x s = Inr ((), t)"
      using n h False l ne nl same by (simp add: enqueue_def t_def)
    moreover have "queue_of t q (ns @ [n]) (xs @ [x])"
      using n h False chain_snoc [OF h(2) False h(5) n(3,2) l(1)]
      by (simp add: queue_of_def t_def same fun_upd_def)
    moreover have "queue_frame s t"
      unfolding t_def by (rule queue_frame_alloc [OF frame])
    ultimately show ?thesis by blast
  qed
qed

lemma create_queue_new:
  assumes "allocPage sizeof_queue s = Inr (q, u)" and "q \<noteq> NULL" and "baseMemory s = 0x1000000"
  shows "\<exists>t. create_queue s = Inr (q, t) \<and> queue_of t q [] [] \<and> queue_frame s t"
proof -
  have frame: "u = s\<lparr>occupied := occupied u\<rparr>" using allocPage_frame [OF assms(1)] .
  define t where "t = u\<lparr>nodes := nodes u, queues := (queues u)(q \<mapsto> \<lparr>q_first = NULL, q_last = NULL\<rparr>)\<rparr>"
  have "create_queue s = Inr (q, t)" using assms by (simp add: create_queue_def t_def)
  moreover have "queue_of t q [] []" using assms allocPage_same(3) [OF assms(1)] by (simp add: queue_of_def t_def)
  moreover have "queue_frame s t" unfolding t_def by (rule queue_frame_alloc [OF frame])
  ultimately show ?thesis by blast
qed

section \<open>destroy_queue\<close>

lemma drain_queue:
  "queue_of s q ns xs \<Longrightarrow> \<exists>t. drain q s = Some (Inr t) \<and> queue_of t q [] [] \<and> queue_frame s t"
proof (induction ns arbitrary: s xs)
  case Nil
  then have "xs = []" by (auto simp: queue_of_def)
  moreover have "queue_frame s s" by (auto simp: queue_frame_def intro!: exI [of _ "occupied s"] exI [of _ "queues s"] exI [of _ "nodes s"])
  ultimately show ?case using Nil is_empty_queue [OF Nil] by (subst drain.simps) auto
next
  case (Cons n ns)
  obtain x ys where xs: "xs = x # ys" using Cons.prems by (auto simp: queue_of_def)
  obtain t where t: "dequeue q s = Inr (x, t)" "queue_of t q ns ys" "queue_frame s t"
    using dequeue_queue [OF Cons.prems [unfolded xs]] by blast
  from Cons.IH [OF t(2)] obtain u where "drain q t = Some (Inr u)" "queue_of u q [] []" "queue_frame t u" by blast
  then show ?case
    using is_empty_queue [OF Cons.prems] xs t queue_frame_trans by (subst drain.simps) auto
qed

section \<open>The interface of a queue\<close>

datatype qop = Enq addr | Deq

fun run_ops :: "(addr \<Rightarrow> ('s, unit) eprog) \<Rightarrow> ('s, addr) eprog \<Rightarrow> qop list \<Rightarrow> ('s, addr list) eprog" where
  "run_ops enq deq [] = ereturn []"
| "run_ops enq deq (Enq x # ops) = ebind (enq x) (\<lambda>_. run_ops enq deq ops)"
| "run_ops enq deq (Deq # ops) = ebind deq (\<lambda>y. ebind (run_ops enq deq ops) (\<lambda>ys. ereturn (y # ys)))"

text \<open>The same operations on a list: what the dequeues return, and the list that is left.\<close>

fun list_ops :: "qop list \<Rightarrow> addr list \<Rightarrow> addr list \<times> addr list" where
  "list_ops [] xs = ([], xs)"
| "list_ops (Enq x # ops) xs = list_ops ops (xs @ [x])"
| "list_ops (Deq # ops) [] = map_prod (Cons NULL) id (list_ops ops [])"
| "list_ops (Deq # ops) (x # xs) = map_prod (Cons x) id (list_ops ops xs)"

text \<open>Every enqueue of the run finds room.\<close>

fun roomy :: "('s \<Rightarrow> bool) \<Rightarrow> (addr \<Rightarrow> ('s, unit) eprog) \<Rightarrow> ('s, addr) eprog \<Rightarrow> qop list \<Rightarrow> 's \<Rightarrow> bool" where
  "roomy space enq deq [] s = True"
| "roomy space enq deq (Enq x # ops) s \<longleftrightarrow> space s \<and>
     (case enq x s of Inl e \<Rightarrow> True | Inr (_, t) \<Rightarrow> roomy space enq deq ops t)"
| "roomy space enq deq (Deq # ops) s \<longleftrightarrow>
     (case deq s of Inl e \<Rightarrow> True | Inr (_, t) \<Rightarrow> roomy space enq deq ops t)"

locale fifo =
  fixes repr :: "'s \<Rightarrow> 'q \<Rightarrow> addr list \<Rightarrow> bool"
    and space :: "'q \<Rightarrow> 's \<Rightarrow> bool"
    and empty_test :: "'q \<Rightarrow> 's \<Rightarrow> fault + (bool \<times> 's)"
    and enq :: "'q \<Rightarrow> addr \<Rightarrow> 's \<Rightarrow> fault + (unit \<times> 's)"
    and deq :: "'q \<Rightarrow> 's \<Rightarrow> fault + (addr \<times> 's)"
  assumes empty_test: "repr s q xs \<Longrightarrow> empty_test q s = Inr (xs = [], s)"
    and enq: "repr s q xs \<Longrightarrow> space q s \<Longrightarrow> \<exists>t. enq q x s = Inr ((), t) \<and> repr t q (xs @ [x])"
    and deq_Nil: "repr s q [] \<Longrightarrow> deq q s = Inr (NULL, s)"
    and deq_Cons: "repr s q (x # xs) \<Longrightarrow> \<exists>t. deq q s = Inr (x, t) \<and> repr t q xs"
begin

lemma run_ops_list:
  assumes "repr s q xs" and "roomy (space q) (enq q) (deq q) ops s"
  shows "\<exists>t. run_ops (enq q) (deq q) ops s = Inr (fst (list_ops ops xs), t) \<and> repr t q (snd (list_ops ops xs))"
  using assms
proof (induction ops xs arbitrary: s rule: list_ops.induct)
  case (2 x ops xs)
  obtain t where t: "enq q x s = Inr ((), t)" "repr t q (xs @ [x])"
    using enq [OF 2(2), of x] 2(3) by auto
  with 2(1) [OF t(2)] 2(3) show ?case by simp
next
  case (3 ops)
  have t: "deq q s = Inr (NULL, s)" using deq_Nil [OF 3(2)] .
  with 3(1) [OF 3(2)] 3(3) show ?case by (auto simp: ebind_def)
next
  case (4 ops x xs)
  obtain t where t: "deq q s = Inr (x, t)" "repr t q xs" using deq_Cons [OF 4(2)] by blast
  with 4(1) [OF t(2)] 4(3) show ?case by (auto simp: ebind_def)
qed auto

end

definition queue_space :: "addr \<Rightarrow> 'a qmem_scheme \<Rightarrow> bool" where
  "queue_space q s \<longleftrightarrow> (\<forall>ns xs. queue_of s q ns xs \<longrightarrow> room s q ns)"

interpretation kqueue: fifo is_queue queue_space is_empty enqueue dequeue
proof unfold_locales
  fix s :: "'a qmem_scheme" and q xs
  assume "is_queue s q xs"
  then show "is_empty q s = Inr (xs = [], s)"
    using is_empty_queue by (auto simp: is_queue_def)
next
  fix s :: "'a qmem_scheme" and q xs x
  assume "is_queue s q xs" "queue_space q s"
  then show "\<exists>t. enqueue q x s = Inr ((), t) \<and> is_queue t q (xs @ [x])"
    using enqueue_queue unfolding is_queue_def queue_space_def by blast
next
  fix s :: "'a qmem_scheme" and q
  assume "is_queue s q []"
  then show "dequeue q s = Inr (NULL, s)"
    using dequeue_queue_empty unfolding is_queue_def by blast
next
  fix s :: "'a qmem_scheme" and q x xs
  assume "is_queue s q (x # xs)"
  then obtain n ns where "queue_of s q (n # ns) (x # xs)"
    unfolding is_queue_def queue_of_def by (metis chain.simps(1) list.distinct(1) list.exhaust)
  then show "\<exists>t. dequeue q s = Inr (x, t) \<and> is_queue t q xs"
    using dequeue_queue unfolding is_queue_def by blast
qed

section \<open>The memory a queue takes\<close>

lemma card_block_range: "card (block_range (a, p)) = 4096 * p"
  by (simp add: block_range_def nat_mult_distrib)

lemma card_blocks:
  "sorted_wrt (\<lambda>b c. block_range b \<inter> block_range c = {}) bs \<Longrightarrow>
    card (\<Union>b\<in>set bs. block_range b) = 4096 * sum_list (map snd bs)"
proof (induction bs)
  case (Cons b bs)
  have "block_range b \<inter> (\<Union>c\<in>set bs. block_range c) = {}" using Cons.prems by auto
  moreover have "finite (block_range c)" for c by (simp add: block_range_def)
  ultimately show ?case
    using Cons by (cases b) (simp add: card_Un_disjoint card_block_range)
qed simp

lemma blocks_inv_total:
  assumes "blocks_inv bs s"
  shows "sum_list (map snd bs) \<le> NUMBER_OF_PAGES"
proof -
  have "4096 * sum_list (map snd bs) = card (\<Union>b\<in>set bs. block_range b)"
    using card_blocks [OF buddy.inv_disjoint [OF assms]] by simp
  also have "\<dots> \<le> card managed"
    using buddy.inv_managed [OF assms] by (intro card_mono) (auto simp: managed_def)
  also have "card managed = 4096 * NUMBER_OF_PAGES" by (simp add: managed_def)
  finally show ?thesis by simp
qed

lemma allocPage_exhausted:
  assumes "blocks_inv bs s" and "NUMBER_OF_PAGES < sum_list (map snd bs) + p"
  shows "\<exists>t. allocPage p s = Inr (NULL, t)"
proof -
  obtain r t where r: "allocPage p s = Inr (r, t)" "blocks_inv (if r = NULL then bs else (r, p) # bs) t"
    using buddy.alloc_returns [OF assms(1)] by blast
  with blocks_inv_total [OF r(2)] assms(2) show ?thesis by (auto split: if_splits)
qed

section \<open>Properties\<close>

text \<open>States to evaluate on: a queue with one element on the heap of the boot, and the same on a heap
  that is one single block.\<close>

definition demo_queue :: qmem where
  "demo_queue = sched.extend boot_sched
     \<lparr>queues = [0x1020000 \<mapsto> \<lparr>q_first = 0x1010000, q_last = 0x1010000\<rparr>],
      nodes = [0x1010000 \<mapsto> \<lparr>node_elem = 7, node_next = NULL\<rparr>]\<rparr>"

definition full_queue :: qmem where
  "full_queue = sched.extend demo_sched \<lparr>queues = queues demo_queue, nodes = nodes demo_queue\<rparr>"

lemma demo_queue_fields:
  "queues demo_queue = [0x1020000 \<mapsto> \<lparr>q_first = 0x1010000, q_last = 0x1010000\<rparr>]"
  "nodes demo_queue = [0x1010000 \<mapsto> \<lparr>node_elem = 7, node_next = NULL\<rparr>]"
  "occupied demo_queue = occupied (createHeap bss_pagemem)" "base demo_queue = base (createHeap bss_pagemem)"
  "heapLevel demo_queue = heapLevel (createHeap bss_pagemem)"
  "baseMemory demo_queue = baseMemory (createHeap bss_pagemem)"
  by (simp_all add: demo_queue_def sched.defs boot_pages)

lemma demo_queue_of: "queue_of demo_queue 0x1020000 [0x1010000] [7]"
  using createHeap_built [OF arrays_sized_bss]
  by (simp add: queue_of_def demo_queue_fields managed_def heap_built_def)

lemma demo_queue_alloc: "\<exists>t. allocPage 16 demo_queue = Inr (0x1000000, t)"
proof -
  have "\<exists>t. allocPage 16 (createHeap bss_pagemem) = Inr (0x1000000, t) \<and>
      deallocPage 0x1000000 t = Inr (0, createHeap bss_pagemem)"
  proof (rule alloc_dealloc_fresh)
    show "heap_ok (createHeap bss_pagemem)"
      using blocks_inv_createHeap [OF arrays_sized_bss] by (simp add: blocks_inv_def)
    show "\<forall>m. 1 \<le> m \<longrightarrow> m \<le> HEAPSIZE \<longrightarrow> occ (createHeap bss_pagemem) m = EMPTY"
      using occ_createHeap [OF arrays_sized_bss] by blast
  qed simp_all
  then show ?thesis using allocPage_indep demo_queue_fields by blast
qed

lemma demo_queue_space: "queue_space 0x1020000 demo_queue"
proof -
  have ns: "ns = [0x1010000]" if "queue_of demo_queue 0x1020000 ns xs" for ns xs
    using that by (cases ns; cases "tl ns") (auto simp: queue_of_def demo_queue_fields)
  obtain t where "allocPage 16 demo_queue = Inr (0x1000000, t)" using demo_queue_alloc by blast
  then have "room demo_queue 0x1020000 [0x1010000]" by (simp add: room_def managed_def)
  then show ?thesis using ns unfolding queue_space_def by blast
qed

lemma full_queue_blocks: "blocks_inv [(0x1000000, 1024)] full_queue"
proof -
  have "[(0x1000000, 1024)] = map node_block [(0, 1, 1024)]"
    by (simp add: node_block_def node_base_def node_size_def)
  moreover have "good_node demo_sched (0, 1, 1024)"
    by (simp add: good_node_def at_depth_def occ_def demo_sched_def)
  ultimately have "blocks_inv [(0x1000000, 1024)] demo_sched"
    using heap_ok_demo unfolding blocks_inv_def by (intro conjI exI [of _ "[(0, 1, 1024)]"]) simp_all
  moreover have "occ full_queue = occ demo_sched"
    by (simp add: fun_eq_iff occ_def full_queue_def sched.defs)
  ultimately show ?thesis
    by (simp add: blocks_inv_def heap_ok_def up_closed_def good_node_def full_queue_def sched.defs split_beta)
qed

text \<open>C11. The linked queue is a first-in first-out queue: as long as every enqueue finds room, any run
  of enqueues and dequeues returns what the same run on a list returns, \<open>NULL\<close> for a dequeue from
  an empty queue, and leaves the queue that represents the list that is left.\<close>

theorem queue_is_fifo:
  assumes "is_queue s q xs" and "roomy (queue_space q) (enqueue q) (dequeue q) ops s"
  shows "\<exists>t. run_ops (enqueue q) (dequeue q) ops s = Inr (fst (list_ops ops xs), t) \<and>
    is_queue t q (snd (list_ops ops xs))"
  using assms by (rule kqueue.run_ops_list)

theorem queue_is_fifo_witness:
  "\<exists>t. run_ops (enqueue 0x1020000) (dequeue 0x1020000) [Enq 8, Deq, Deq, Deq] demo_queue = Inr ([7, 8, NULL], t) \<and>
    is_queue t 0x1020000 []"
proof -
  have "is_queue demo_queue 0x1020000 [7]" using demo_queue_of by (auto simp: is_queue_def)
  moreover have "roomy (queue_space 0x1020000) (enqueue 0x1020000) (dequeue 0x1020000) [Enq 8, Deq, Deq, Deq] demo_queue"
    using demo_queue_space by (simp split: sum.splits)
  ultimately show ?thesis using queue_is_fifo [of demo_queue "0x1020000" "[7]" "[Enq 8, Deq, Deq, Deq]"] by simp
qed

text \<open>\<open>destroy_queue\<close> ends: it takes every node out and gives the header back.\<close>

theorem destroy_queue_returns:
  assumes "is_queue s q xs" and "q \<in> managed"
  shows "\<exists>t. destroy_queue q s = Inr ((), t) \<and> procs t = procs s \<and> slots t = slots s \<and> current t = current s"
proof -
  obtain ns where "queue_of s q ns xs" using assms(1) by (auto simp: is_queue_def)
  then obtain u where u: "drain q s = Some (Inr u)" "queue_of u q [] []" "queue_frame s u"
    using drain_queue by blast
  obtain t where t: "deallocPage q u = Inr (0, t)" "same_but_occupied u t"
    using deallocPage_managed [OF _ assms(2), of u] u(2) by (auto simp: queue_of_def)
  have "procs t = procs u" "slots t = slots u" "current t = current u"
    by (subst same_but_occupied_eq [OF t(2)], simp)+
  then show ?thesis using u t queue_frame_fields [OF u(3)] by (auto simp: destroy_queue_def)
qed

theorem destroy_queue_returns_witness:
  "\<exists>t. destroy_queue 0x1020000 demo_queue = Inr ((), t) \<and> procs t = procs demo_queue \<and>
    slots t = slots demo_queue \<and> current t = current demo_queue"
  by (rule destroy_queue_returns [of _ _ "[7]"]) (use demo_queue_of in \<open>auto simp: is_queue_def managed_def\<close>)

text \<open>A node takes 16 pages of the 1024: when more than 1008 pages are in use, \<open>enqueue\<close> writes
  through the null pointer the allocator returned.\<close>

theorem enqueue_out_of_memory:
  assumes "blocks_inv bs s" and "1008 < sum_list (map snd bs)" and "q \<noteq> NULL"
  shows "enqueue q x s = Inl NullDeref"
proof -
  obtain t where "allocPage 16 s = Inr (NULL, t)"
    using allocPage_exhausted [OF assms(1), of 16] assms(2) by auto
  then show ?thesis using assms(3) by (simp add: enqueue_def)
qed

theorem enqueue_out_of_memory_witness: "enqueue 0x1020000 8 full_queue = Inl NullDeref"
  by (rule enqueue_out_of_memory [OF full_queue_blocks]) simp_all

end
