(* ===== verification/Waiting.thy ===== *)
theory Waiting
  imports Queue
begin

text \<open>
  What the blocking primitives (mutexes, semaphores, pipes, condition variables) share: the arrays of
  waiting pids, a mark in the free places; the state of a process as the ring of theory \<open>Scheduler\<close>
  has it; and what \<open>changeProcessState\<close> and \<open>_yield\<close> do to those states whatever else the kernel's
  state holds.
\<close>

section \<open>Arrays of waiters\<close>

text \<open>The pids of an array, in the order a search from the front meets them.\<close>

definition waiting :: "int list \<Rightarrow> int list" where
  "waiting queue = filter (\<lambda>p. p \<noteq> -1) queue"

lemma waiting_fill:
  assumes "i < length xs" and "xs ! i = -1" and "v \<noteq> -1"
  obtains us ws where "waiting xs = us @ ws" and "waiting (xs[i := v]) = us @ v # ws"
proof
  have "xs = take i xs @ -1 # drop (Suc i) xs"
    using assms(1,2) by (metis id_take_nth_drop)
  then have "waiting xs = waiting (take i xs @ -1 # drop (Suc i) xs)" by (rule arg_cong)
  then show "waiting xs = waiting (take i xs) @ waiting (drop (Suc i) xs)"
    by (simp only: waiting_def filter_append) simp
  show "waiting (xs[i := v]) = waiting (take i xs) @ v # waiting (drop (Suc i) xs)"
    using assms by (simp add: upd_conv_take_nth_drop waiting_def)
qed

lemma waiting_take_first:
  assumes "scan n (\<lambda>i. xs ! i \<noteq> -1) = Some i" and "n \<le> length xs"
  shows "waiting xs = xs ! i # waiting (xs[i := -1])"
proof -
  have i: "i < length xs" "xs ! i \<noteq> -1" "\<And>j. j < i \<Longrightarrow> xs ! j = -1"
    using scan_SomeD [OF assms(1)] assms(2) by auto
  then have none: "filter (\<lambda>p. p \<noteq> -1) (take i xs) = []"
    by (auto simp: filter_empty_conv in_set_conv_nth)
  have "waiting xs = waiting (take i xs @ xs ! i # drop (Suc i) xs)"
    using i(1) by (simp add: id_take_nth_drop [symmetric])
  then show ?thesis
    using i none by (simp add: waiting_def upd_conv_take_nth_drop)
qed

lemma length_waiting: "length (waiting xs) = used_count (-1) xs"
  by (simp add: waiting_def)

lemma waiting_room:
  "length (waiting xs) < length xs \<Longrightarrow> \<exists>i. scan (length xs) (\<lambda>i. xs ! i = -1) = Some i"
  using used_count_less_iff [of "-1" xs] scan_exists [of _ "length xs" "\<lambda>i. xs ! i = -1"]
  by (auto simp: length_waiting)

lemma waiting_some:
  "waiting xs \<noteq> [] \<Longrightarrow> \<exists>i. scan (length xs) (\<lambda>i. xs ! i \<noteq> -1) = Some i"
  using used_count_pos_iff [of "-1" xs] scan_exists [of _ "length xs" "\<lambda>i. xs ! i \<noteq> -1"]
  by (auto simp: waiting_def)

section \<open>The state of a process\<close>

lemma path_unique:
  "path s a es b \<Longrightarrow> path s a fs c \<Longrightarrow> length es = length fs \<Longrightarrow> es = fs"
proof (induction es arbitrary: a fs)
  case (Cons e es)
  then show ?case by (cases fs; cases e; cases "hd fs") auto
qed simp

lemma ring_unique: "ring s es \<Longrightarrow> ring s fs \<Longrightarrow> es = fs"
  by (auto simp: ring_def intro: path_unique)

definition in_state :: "'a sched_scheme \<Rightarrow> int \<Rightarrow> processState \<Rightarrow> bool" where
  "in_state s pid st \<longleftrightarrow> (\<exists>es. ring s es \<and> (pid, st) \<in> view ` set es)"

lemma in_state_ring: "ring s es \<Longrightarrow> in_state s pid st \<longleftrightarrow> (pid, st) \<in> view ` set es"
  using ring_unique by (auto simp: in_state_def)

text \<open>The processes form a ring, and none has the pid that marks a free place.\<close>

definition pids_ok :: "'a sched_scheme \<Rightarrow> bool" where
  "pids_ok s \<longleftrightarrow> (\<exists>es. ring s es \<and> (\<forall>e\<in>set es. 0 \<le> entry_pid e))"

definition running_pid :: "'a sched_scheme \<Rightarrow> int" where
  "running_pid s = (case slots s (current s) of None \<Rightarrow> -1
     | Some sl \<Rightarrow> (case procs s (slot_process sl) of None \<Rightarrow> -1 | Some p \<Rightarrow> p_pid p))"

lemma running_pid_ring: "ring s es \<Longrightarrow> running_pid s = entry_pid (hd es)"
  by (erule ring_ConsE) (simp add: running_pid_def)

lemma getCurrentPid_ring: "ring s es \<Longrightarrow> getCurrentPid s = Inr (running_pid s, s)"
  by (frule running_pid_ring, frule ring_not_NULL, erule ring_ConsE) (simp add: getCurrentPid_def)

lemma running_pid_ok: "pids_ok s \<Longrightarrow> 0 \<le> running_pid s"
  by (auto simp: pids_ok_def running_pid_ring ring_def intro: hd_in_set)

lemma running_in_state:
  assumes "pids_ok s"
  shows "\<exists>st. in_state s (running_pid s) st"
proof -
  obtain es where "ring s es" using assms by (auto simp: pids_ok_def)
  moreover from this have "hd es \<in> set es" by (simp add: ring_def)
  then have "(entry_pid (hd es), p_state (snd (snd (hd es)))) \<in> view ` set es" by (force simp: view_def)
  ultimately show ?thesis by (auto simp: in_state_ring running_pid_ring)
qed

text \<open>All of this depends on the scheduler's own fields only.\<close>

definition same_sched :: "'a sched_scheme \<Rightarrow> 'b sched_scheme \<Rightarrow> bool" where
  "same_sched s t \<longleftrightarrow> slots t = slots s \<and> procs t = procs s \<and> current t = current s \<and>
     cardinal_processes t = cardinal_processes s"

lemma path_frame_gen:
  "slots t = slots s \<Longrightarrow> procs t = procs s \<Longrightarrow> path t a es b \<longleftrightarrow> path s a es b"
proof (induction es arbitrary: a)
  case (Cons e es)
  then show ?case by (cases e) auto
qed simp

lemma same_sched_facts:
  assumes "same_sched s t"
  shows "ring t es \<longleftrightarrow> ring s es" and "pids_ok t \<longleftrightarrow> pids_ok s" and "in_state t = in_state s"
    and "running_pid t = running_pid s"
proof -
  have ring: "ring t es \<longleftrightarrow> ring s es" for es
    using assms path_frame_gen [of t s] by (simp add: ring_def same_sched_def)
  show "ring t es \<longleftrightarrow> ring s es" by (rule ring)
  show "pids_ok t \<longleftrightarrow> pids_ok s" by (simp add: pids_ok_def ring)
  show "in_state t = in_state s" by (simp add: fun_eq_iff in_state_def ring)
  show "running_pid t = running_pid s" using assms by (simp add: running_pid_def same_sched_def split: option.split)
qed

lemma view_pid: "(pid, st) = view e \<longleftrightarrow> entry_pid e = pid \<and> p_state (snd (snd e)) = st"
  by (auto simp: view_def)

lemma pids_ok_views:
  assumes "ring s es" and "ring t fs" and "fst ` view ` set fs \<subseteq> fst ` view ` set es" and "pids_ok s"
  shows "pids_ok t"
proof -
  have "\<forall>e\<in>set es. 0 \<le> entry_pid e" using assms(1,4) ring_unique by (auto simp: pids_ok_def)
  then have "\<forall>v\<in>fst ` view ` set fs. 0 \<le> v" using assms(3) by (force simp: view_def)
  then show ?thesis using assms(2) by (auto simp: pids_ok_def view_def)
qed

lemma abs_change_set:
  "set (abs_change pid st vs) = (\<lambda>v. if fst v = pid then (pid, st) else v) ` set vs"
  by (simp add: abs_change_def)

lemma changeProcessState_effect:
  assumes "pids_ok s"
  obtains t where "changeProcessState pid st s = Inr ((), t)" and "t = s\<lparr>procs := procs t\<rparr>"
    and "pids_ok t" and "running_pid t = running_pid s"
    and "\<And>p x. p \<noteq> pid \<Longrightarrow> in_state t p x \<longleftrightarrow> in_state s p x"
    and "\<And>x y. in_state s pid x \<Longrightarrow> in_state t pid y \<longleftrightarrow> y = st"
proof -
  obtain es where es: "ring s es" using assms by (auto simp: pids_ok_def)
  obtain t fs where t: "changeProcessState pid st s = Inr ((), t)" "ring t fs"
      "map view fs = abs_change pid st (map view es)" "map entry_slot fs = map entry_slot es"
      and frame: "t = s\<lparr>procs := procs t\<rparr>"
    using changeProcessState_simulates [OF es] by blast
  have views: "view ` set fs = (\<lambda>v. if fst v = pid then (pid, st) else v) ` view ` set es"
    using arg_cong [OF t(3), of set] by (simp add: abs_change_set)
  have pids: "map entry_pid fs = map entry_pid es"
  proof -
    have "map fst (map view fs) = map fst (map view es)"
      unfolding t(3) abs_change_def by (simp add: comp_def)
    then show ?thesis by (simp add: view_def comp_def)
  qed
  show thesis
  proof (rule that [OF t(1) frame])
    show "pids_ok t"
      by (rule pids_ok_views [OF es t(2) _ assms]) (auto simp: views image_image)
    show "running_pid t = running_pid s"
      using pids es t(2) by (simp add: running_pid_ring) (metis list.map_sel(1) ring_def)
    show "in_state t p x \<longleftrightarrow> in_state s p x" if "p \<noteq> pid" for p x
      using that unfolding in_state_ring [OF es] in_state_ring [OF t(2)] views by force
    show "in_state t pid y \<longleftrightarrow> y = st" if "in_state s pid x" for x y
      using that unfolding in_state_ring [OF es] in_state_ring [OF t(2)] views
      by (auto split: if_splits intro!: image_eqI [of _ _ "(pid, x)"] dest: sym)
  qed
qed

lemma abs_schedule_SomeE:
  assumes "abs_schedule vs = Some ws"
  obtains v us w ys zs where "vs = v # us" and "us @ [preempt v] = zs @ w # ys" and "snd w = READY"
    and "ws = (fst w, RUNNING) # ys @ zs"
proof -
  obtain v us where vs: "vs = v # us" using assms by (cases vs) auto
  define line where "line = us @ [preempt v]"
  define P where "P = (\<lambda>w::int \<times> processState. snd w \<noteq> READY)"
  have abs: "abs_schedule vs = (case dropWhile P line of [] \<Rightarrow> None
      | w # ws \<Rightarrow> Some ((fst w, RUNNING) # ws @ takeWhile P line))"
    unfolding vs abs_schedule.simps Let_def line_def P_def ..
  then obtain w ys where w: "dropWhile P line = w # ys"
    using assms by (cases "dropWhile P line") auto
  have "line = takeWhile P line @ w # ys" using w by (metis takeWhile_dropWhile_id)
  moreover have "snd w = READY" using hd_dropWhile [of P line] w unfolding P_def by (metis list.distinct(1) list.sel(1))
  ultimately show thesis using that [OF vs] assms w abs by (simp add: line_def)
qed

lemma abs_schedule_blocked:
  assumes "abs_schedule vs = Some ws" and "(pid, BLOCKED) \<in> set vs"
  shows "(pid, BLOCKED) \<in> set ws"
  using assms(1)
proof (rule abs_schedule_SomeE)
  fix v us w ys zs
  assume *: "vs = v # us" "us @ [preempt v] = zs @ w # ys" "snd w = READY" "ws = (fst w, RUNNING) # ys @ zs"
  have "(pid, BLOCKED) \<in> set (us @ [preempt v])" using assms(2) *(1) by (auto simp: preempt_def)
  with * show ?thesis by auto
qed

lemma abs_schedule_pids:
  assumes "abs_schedule vs = Some ws"
  shows "fst ` set ws = fst ` set vs"
  using assms
proof (rule abs_schedule_SomeE)
  fix v us w ys zs
  assume *: "vs = v # us" "us @ [preempt v] = zs @ w # ys" "ws = (fst w, RUNNING) # ys @ zs"
  have "fst ` set (us @ [preempt v]) = fst ` set vs" by (auto simp: *(1) preempt_def)
  with * show ?thesis by auto
qed

text \<open>
  When a yield hands the processor over, nothing but the scheduler's part of the state has changed,
  blocked processes are still blocked, and the suspended function continues with a plain return.
\<close>

lemma yield_effect:
  assumes "pids_ok s" and "yield s = Yield t k"
  shows "k = kreturn () \<and> pids_ok t \<and> (\<forall>p. in_state s p BLOCKED \<longrightarrow> in_state t p BLOCKED) \<and>
    t = s\<lparr>procs := procs t, current := current t, threads := threads t, cpu_rsp := cpu_rsp t\<rparr>"
proof -
  obtain es where es: "ring s es" using assms by (auto simp: pids_ok_def)
  obtain stack u where u: "next_process (cpu_rsp s - 184) s = Inr (stack, u)" "t = u\<lparr>cpu_rsp := stack\<rparr>"
      and k: "k = kreturn ()"
    using assms(2) by (auto simp: yield_def split: sum.splits)
  obtain a th v where act: "active_thread s = Inr ((a, th), s)"
      and v: "v = s\<lparr>threads := (threads s)(a \<mapsto> th\<lparr>userStack := cpu_rsp s - 184\<rparr>)\<rparr>"
      and rest: "ebind schedule (\<lambda>_. getCurrentUserStack) v = Inr (stack, u)"
    using u(1) ring_not_NULL [OF es]
    by (auto simp: next_process_def ebind_eq_Inr active_thread_def slot_proc_def deref_def put_thread_def Let_def
        split: if_splits option.splits)
  obtain w where w: "schedule v = Inr ((), w)" "getCurrentUserStack w = Inr (stack, u)"
    using rest by (auto simp: ebind_eq_Inr)
  have "w = u"
    using w(2) by (auto simp: getCurrentUserStack_def ebind_eq_Inr active_thread_def slot_proc_def deref_def Let_def
        split: if_splits option.splits)
  have ring_v: "ring v es" using es by (simp add: v ring_threads)
  obtain ws where ws: "abs_schedule (map view es) = Some ws"
    using schedule_diverges [OF ring_v] w(1) by (cases "abs_schedule (map view es)") auto
  obtain fs where fs: "ring w fs" "map view fs = ws"
      and frame: "w = v\<lparr>procs := procs w, current := current w\<rparr>"
    using schedule_simulates [OF ring_v ws] w(1) by auto
  have ring_t: "ring t fs" using fs(1) by (simp add: u(2) \<open>w = u\<close> ring_def path_frame [of "u\<lparr>cpu_rsp := stack\<rparr>" u])
  have views: "view ` set fs = set ws" using fs(2) by auto
  have "pids_ok t"
    by (rule pids_ok_views [OF es ring_t _ assms(1)])
      (use abs_schedule_pids [OF ws] in \<open>simp add: views\<close>)
  moreover have "in_state t p BLOCKED" if "in_state s p BLOCKED" for p
    using that abs_schedule_blocked [OF ws, of p]
    unfolding in_state_ring [OF es] in_state_ring [OF ring_t] views by simp
  moreover have "t = s\<lparr>procs := procs t, current := current t, threads := threads t, cpu_rsp := cpu_rsp t\<rparr>"
  proof -
    obtain P C where w: "w = v\<lparr>procs := P, current := C\<rparr>" using frame by (rule that)
    show ?thesis by (simp add: u(2) \<open>w = u\<close> [symmetric] w v)
  qed
  ultimately show ?thesis using k by blast
qed

end
