(* ===== verification/Mutex.thy ===== *)
theory Mutex
  imports Waiting Strings
begin

text \<open>
  The mutexes user programs get (the second half of Kernel/mutex.c, which the file calls the old
  implementation, and \<open>_testAndSet\<close> of Kernel/asm/lock.asm): a table of 128 mutexes, each with an
  array of the pids that wait for it.  System calls run with interrupts disabled, so what is
  between two yields is atomic.

  A name is a pointer the caller passes; \<open>None\<close> is the null pointer.  The kernel does read through
  it (the name of the entry 0 is null), and finds whatever is at address 0: the parameter \<open>nul\<close> of
  the definitions that compare names is the string there.

  The lemmas show mutual exclusion with direct hand-off as an invariant of every interleaving of
  the operations, and what happens at the limits of the tables.
\<close>

section \<open>State\<close>

abbreviation (input) MAX_MUTEXES :: nat where
  "MAX_MUTEXES \<equiv> 128"           \<comment> \<open>mutex.c redefines the 100 of mutex.h\<close>

abbreviation (input) MAX_BLOCKED_QUEUE_SIZE :: nat where
  "MAX_BLOCKED_QUEUE_SIZE \<equiv> 20"

abbreviation (input) NO_BLOCKED_QUEUE_VALUE :: int where
  "NO_BLOCKED_QUEUE_VALUE \<equiv> -1"

abbreviation (input) MUTEX_NOT_FOUND :: int where
  "MUTEX_NOT_FOUND \<equiv> -1"

abbreviation (input) NO_SPACE_LEFT_M :: int where
  "NO_SPACE_LEFT_M \<equiv> -2"

abbreviation (input) ERROR :: int where
  "ERROR \<equiv> -4"

record Mutex =
  m_used :: bool
  m_name :: "string option"
  m_queue :: "int list"
  m_mutex :: int
  m_cardinalBlocked :: int
  m_pidCreator :: int

text \<open>\<open>console\<close> is what the kernel has printed.\<close>

record omutex = qmem +
  mutexes :: "Mutex list"
  adminMutex :: int
  console :: string

definition ncPrint :: "string \<Rightarrow> ('a omutex_scheme, unit) eprog" where
  "ncPrint msg s = Inr ((), s\<lparr>console := console s @ msg\<rparr>)"

text \<open>\<open>&mutexes[i]\<close>, and a store into it.\<close>

definition mutex_at :: "int \<Rightarrow> ('a omutex_scheme, Mutex) eprog" where
  "mutex_at i s = (if 0 \<le> i \<and> i < int MAX_MUTEXES then Inr (mutexes s ! nat i, s) else Inl OutOfBounds)"

definition set_mutex :: "int \<Rightarrow> Mutex \<Rightarrow> ('a omutex_scheme, unit) eprog" where
  "set_mutex i m s = (if 0 \<le> i \<and> i < int MAX_MUTEXES
     then Inr ((), s\<lparr>mutexes := (mutexes s)[nat i := m]\<rparr>) else Inl OutOfBounds)"

definition c_name :: "string \<Rightarrow> string option \<Rightarrow> string" where
  "c_name nul n = (case n of None \<Rightarrow> nul | Some s \<Rightarrow> s)"

section \<open>The table\<close>

definition clearArray :: "int list \<Rightarrow> nat \<Rightarrow> int \<Rightarrow> int list" where
  "clearArray array n v = map (\<lambda>i. if i < n then v else array ! i) [0..<length array]"

definition cleanMutex :: "int \<Rightarrow> ('a omutex_scheme, unit) eprog" where
  "cleanMutex index =
     (if int MAX_MUTEXES \<le> index then ereturn ()
      else ebind (mutex_at index) (\<lambda>m.
           set_mutex index (m\<lparr>m_used := False, m_name := None, m_cardinalBlocked := 0, m_mutex := 0,
             m_queue := clearArray (m_queue m) MAX_BLOCKED_QUEUE_SIZE NO_BLOCKED_QUEUE_VALUE\<rparr>)))"

fun cleanMutexes :: "nat \<Rightarrow> nat \<Rightarrow> ('a omutex_scheme, unit) eprog" where
  "cleanMutexes 0 i = ereturn ()"
| "cleanMutexes (Suc n) i = ebind (cleanMutex (int i)) (\<lambda>_. cleanMutexes n (i + 1))"

definition initializeMutexes :: "('a omutex_scheme, unit) eprog" where
  "initializeMutexes =
     ebind (cleanMutexes MAX_MUTEXES 0) (\<lambda>_ s.
     ebind (mutex_at 0) (\<lambda>m. set_mutex 0 (m\<lparr>m_used := True\<rparr>)) (s\<lparr>adminMutex := 0\<rparr>))"

definition getIndex :: "string \<Rightarrow> string \<Rightarrow> 'a omutex_scheme \<Rightarrow> int" where
  "getIndex nul mutexName s =
     (case scan MAX_MUTEXES (\<lambda>i. strcmp (c_name nul (m_name (mutexes s ! i))) mutexName = 0 \<and> m_used (mutexes s ! i)) of
        Some i \<Rightarrow> int i
      | None \<Rightarrow> MUTEX_NOT_FOUND)"

definition getFreeSpot :: "'a omutex_scheme \<Rightarrow> int" where
  "getFreeSpot s = (case scan MAX_MUTEXES (\<lambda>i. \<not> m_used (mutexes s ! i)) of
     Some i \<Rightarrow> int i | None \<Rightarrow> NO_SPACE_LEFT_M)"

definition createMutex :: "string \<Rightarrow> ('a omutex_scheme, int) eprog" where
  "createMutex mutexName =
     ebind getCurrentPid (\<lambda>pid s.
     let index = getFreeSpot s
     in if index = NO_SPACE_LEFT_M then Inr (ERROR, s)
        else ebind (mutex_at index) (\<lambda>m.
             ebind (set_mutex index (m\<lparr>m_used := True, m_name := Some mutexName, m_pidCreator := pid\<rparr>)) (\<lambda>_.
             ereturn index)) s)"

definition isValidMutex :: "int \<Rightarrow> ('a omutex_scheme, bool) eprog" where
  "isValidMutex mutex =
     (if int MAX_MUTEXES \<le> mutex then ereturn False
      else ebind (mutex_at mutex) (\<lambda>m. ereturn (m_used m)))"

definition isQueueFull :: "int \<Rightarrow> ('a omutex_scheme, bool) eprog" where
  "isQueueFull mutex =
     ebind (mutex_at mutex) (\<lambda>m. ereturn (int MAX_BLOCKED_QUEUE_SIZE \<le> m_cardinalBlocked m))"

definition getFreeSpotInBlockedQueue :: "int list \<Rightarrow> nat \<Rightarrow> int" where
  "getFreeSpotInBlockedQueue blocked n =
     (case scan n (\<lambda>i. blocked ! i = NO_BLOCKED_QUEUE_VALUE) of
        Some i \<Rightarrow> int i
      | None \<Rightarrow> NO_SPACE_LEFT_M)"

text \<open>The same search over the array of users, which nothing calls.\<close>

definition getFreeSpotInUsingQueue :: "int list \<Rightarrow> nat \<Rightarrow> int" where
  "getFreeSpotInUsingQueue using n =
     (case scan n (\<lambda>i. using ! i = -1) of Some i \<Rightarrow> int i | None \<Rightarrow> NO_SPACE_LEFT_M)"

definition addToBlocked :: "int \<Rightarrow> int \<Rightarrow> ('a omutex_scheme, unit) eprog" where
  "addToBlocked mutex pid =
     ebind (mutex_at mutex) (\<lambda>m.
     let index = getFreeSpotInBlockedQueue (m_queue m) MAX_BLOCKED_QUEUE_SIZE
     in if index = NO_SPACE_LEFT_M then ncPrint ''MUERTE5''
        else set_mutex mutex (m\<lparr>m_queue := (m_queue m)[nat index := pid],
                                m_cardinalBlocked := m_cardinalBlocked m + 1\<rparr>))"

text \<open>
  \<open>_testAndSet\<close> is \<open>lock cmpxchg8b\<close> on the eight bytes at the field \<open>mutex\<close>: that field and
  \<open>cardinalBlocked\<close> behind it.
\<close>

definition testAndSet :: "int \<Rightarrow> ('a omutex_scheme, bool) eprog" where
  "testAndSet mutex =
     ebind (mutex_at mutex) (\<lambda>m.
     if m_mutex m = 0 \<and> m_cardinalBlocked m = 0
     then ebind (set_mutex mutex (m\<lparr>m_mutex := 1, m_cardinalBlocked := 0\<rparr>)) (\<lambda>_. ereturn True)
     else ereturn False)"

section \<open>Locking\<close>

text \<open>When the array of waiters is full the variable \<open>pid\<close> is used without a value.\<close>

definition block_on :: "int \<Rightarrow> ('a omutex_scheme, unit) eprog" where
  "block_on mutex =
     ebind (isQueueFull mutex) (\<lambda>full.
     if full then efail Uninitialised
     else ebind getCurrentPid (\<lambda>pid.
          ebind (addToBlocked mutex pid) (\<lambda>_.
          changeProcessState pid BLOCKED)))"

definition lockMutex :: "int \<Rightarrow> ('a omutex_scheme, unit) kprog" where
  "lockMutex mutex =
     kbind (kcall (isValidMutex mutex)) (\<lambda>valid.
     if \<not> valid then kreturn ()
     else kbind (kcall (testAndSet mutex)) (\<lambda>lock.
          if lock then kreturn ()
          else kbind (kcall (block_on mutex)) (\<lambda>_. yield)))"

definition unblockProcess :: "int \<Rightarrow> ('a omutex_scheme, unit) eprog" where
  "unblockProcess mutex =
     ebind (mutex_at mutex) (\<lambda>m.
     case scan MAX_BLOCKED_QUEUE_SIZE (\<lambda>i. m_queue m ! i \<noteq> NO_BLOCKED_QUEUE_VALUE) of
       None \<Rightarrow> ereturn ()
     | Some i \<Rightarrow>
         ebind (changeProcessState (m_queue m ! i) READY) (\<lambda>_.
         set_mutex mutex (m\<lparr>m_queue := (m_queue m)[i := NO_BLOCKED_QUEUE_VALUE]\<rparr>)))"

definition freeMutex :: "int \<Rightarrow> ('a omutex_scheme, unit) eprog" where
  "freeMutex mutex =
     ebind (isValidMutex mutex) (\<lambda>valid.
     if \<not> valid then ereturn ()
     else ebind (mutex_at mutex) (\<lambda>m.
          if 0 < m_cardinalBlocked m then
            ebind (unblockProcess mutex) (\<lambda>_.
            ebind (mutex_at mutex) (\<lambda>m.
            set_mutex mutex (m\<lparr>m_cardinalBlocked := m_cardinalBlocked m - 1\<rparr>)))
          else set_mutex mutex (m\<lparr>m_mutex := 0\<rparr>)))"

definition getMutex :: "string \<Rightarrow> string \<Rightarrow> ('a omutex_scheme, int) kprog" where
  "getMutex nul mutexName =
     kbind (kget adminMutex) (\<lambda>admin.
     kbind (lockMutex admin) (\<lambda>_.
     kbind (kget (getIndex nul mutexName)) (\<lambda>index.
     kbind (if index = MUTEX_NOT_FOUND then kcall (createMutex mutexName) else kreturn index) (\<lambda>index.
     kbind (kget adminMutex) (\<lambda>admin.
     kbind (kcall (freeMutex admin)) (\<lambda>_. kreturn index))))))"

definition closeMutex :: "int \<Rightarrow> ('a omutex_scheme, unit) eprog" where
  "closeMutex index =
     ebind (isValidMutex index) (\<lambda>valid.
     if \<not> valid then ereturn ()
     else ebind getCurrentPid (\<lambda>pid.
          ebind (mutex_at index) (\<lambda>m.
          if pid = m_pidCreator m then set_mutex index (m\<lparr>m_used := False\<rparr>) else ereturn ())))"

section \<open>One mutex\<close>

text \<open>
  The count of waiters is the number of pids in the array, and nobody waits for a mutex that is
  free.
\<close>

definition mutex_wf :: "Mutex \<Rightarrow> bool" where
  "mutex_wf m \<longleftrightarrow> length (m_queue m) = MAX_BLOCKED_QUEUE_SIZE \<and>
     m_cardinalBlocked m = int (length (waiting (m_queue m))) \<and>
     (m_mutex m = 0 \<and> m_cardinalBlocked m = 0 \<or> m_mutex m = 1)"

definition table_ok :: "'a omutex_scheme \<Rightarrow> bool" where
  "table_ok s \<longleftrightarrow> length (mutexes s) = MAX_MUTEXES \<and> (\<forall>m\<in>set (mutexes s). mutex_wf m)"

text \<open>A place of the table somebody uses.\<close>

definition live :: "'a omutex_scheme \<Rightarrow> nat \<Rightarrow> bool" where
  "live s i \<longleftrightarrow> i < MAX_MUTEXES \<and> m_used (mutexes s ! i)"

lemma mutex_at_nat [simp]: "i < MAX_MUTEXES \<Longrightarrow> mutex_at (int i) s = Inr (mutexes s ! i, s)"
  by (simp add: mutex_at_def)

lemma set_mutex_nat [simp]:
  "i < MAX_MUTEXES \<Longrightarrow> set_mutex (int i) m s = Inr ((), s\<lparr>mutexes := (mutexes s)[i := m]\<rparr>)"
  by (simp add: set_mutex_def)

lemma table_ok_nth: "table_ok s \<Longrightarrow> i < MAX_MUTEXES \<Longrightarrow> mutex_wf (mutexes s ! i)"
  by (simp add: table_ok_def)

lemma table_ok_update:
  "table_ok s \<Longrightarrow> mutex_wf m \<Longrightarrow> table_ok (s\<lparr>mutexes := (mutexes s)[i := m]\<rparr>)"
  by (auto simp: table_ok_def dest: set_list_update_subset)

lemma mutexes_update_nth [simp]:
  "table_ok s \<Longrightarrow> i < MAX_MUTEXES \<Longrightarrow>
     mutexes (s\<lparr>mutexes := (mutexes s)[i := m]\<rparr>) ! j = (if j = i then m else mutexes s ! j)"
  by (simp add: table_ok_def nth_list_update_if)

lemma isValidMutex_live: "live s i \<Longrightarrow> isValidMutex (int i) s = Inr (True, s)"
  by (simp add: isValidMutex_def live_def)

lemma same_sched_mutexes: "same_sched s (s\<lparr>mutexes := x\<rparr>)"
  by (simp add: same_sched_def)

lemmas sched_mutexes [simp] = same_sched_facts [OF same_sched_mutexes]

subsection \<open>Locking\<close>

definition acquired :: "Mutex \<Rightarrow> Mutex" where
  "acquired m = m\<lparr>m_mutex := 1, m_cardinalBlocked := 0\<rparr>"

lemma lockMutex_free:
  assumes "live s i" and "mutex_wf (mutexes s ! i)" and "m_mutex (mutexes s ! i) = 0"
  shows "lockMutex (int i) s = Ret () (s\<lparr>mutexes := (mutexes s)[i := acquired (mutexes s ! i)]\<rparr>)"
  using assms isValidMutex_live [OF assms(1)]
  by (auto simp: lockMutex_def kbind_def kcall_def testAndSet_def mutex_wf_def live_def acquired_def)

text \<open>The waiter's pid goes into the first free place, and the process blocks.\<close>

lemma block_on_effect:
  assumes "live s i" and "table_ok s" and "m_mutex (mutexes s ! i) = 1" and "pids_ok s"
    and "length (waiting (m_queue (mutexes s ! i))) < MAX_BLOCKED_QUEUE_SIZE"
  obtains t us ws where "block_on (int i) s = Inr ((), t)" and "pids_ok t" and "table_ok t"
    and "waiting (m_queue (mutexes s ! i)) = us @ ws"
    and "waiting (m_queue (mutexes t ! i)) = us @ running_pid s # ws"
    and "m_mutex (mutexes t ! i) = 1" and "m_used (mutexes t ! i)"
    and "\<And>j. j \<noteq> i \<Longrightarrow> mutexes t ! j = mutexes s ! j"
    and "in_state t (running_pid s) BLOCKED"
    and "\<And>p x. p \<noteq> running_pid s \<Longrightarrow> in_state t p x = in_state s p x"
proof -
  define m where "m = mutexes s ! i"
  have i: "i < MAX_MUTEXES" "m_used m" using assms(1) by (simp_all add: live_def m_def)
  have m: "mutex_wf m" using table_ok_nth [OF assms(2) i(1)] by (simp add: m_def)
  have pid: "getCurrentPid s = Inr (running_pid s, s)" "0 \<le> running_pid s"
    using assms(4) running_pid_ok getCurrentPid_ring by (auto simp: pids_ok_def)
  obtain k where k: "scan MAX_BLOCKED_QUEUE_SIZE (\<lambda>j. m_queue m ! j = -1) = Some k"
    using waiting_room [of "m_queue m"] assms(5) m by (auto simp: mutex_wf_def m_def)
  then have place: "k < length (m_queue m)" "m_queue m ! k = -1"
    using scan_SomeD [OF k] m by (simp_all add: mutex_wf_def)
  obtain us ws where w: "waiting (m_queue m) = us @ ws"
      "waiting ((m_queue m)[k := running_pid s]) = us @ running_pid s # ws"
    by (rule waiting_fill [OF place]) (use pid(2) in auto)
  define n where "n = m\<lparr>m_queue := (m_queue m)[k := running_pid s], m_cardinalBlocked := m_cardinalBlocked m + 1\<rparr>"
  define u where "u = s\<lparr>mutexes := (mutexes s)[i := n]\<rparr>"
  have "addToBlocked (int i) (running_pid s) s = Inr ((), u)"
    using i(1) k by (simp add: addToBlocked_def getFreeSpotInBlockedQueue_def u_def n_def flip: m_def)
  moreover have "isQueueFull (int i) s = Inr (False, s)"
    using i(1) m assms(5) by (simp add: isQueueFull_def mutex_wf_def flip: m_def)
  moreover have u: "pids_ok u" "in_state u = in_state s" using assms(4) by (simp_all add: u_def)
  moreover obtain t where t: "changeProcessState (running_pid s) BLOCKED u = Inr ((), t)"
      "t = u\<lparr>procs := procs t\<rparr>" "pids_ok t"
      "\<And>p x. p \<noteq> running_pid s \<Longrightarrow> in_state t p x = in_state s p x"
      "in_state t (running_pid s) BLOCKED"
    using changeProcessState_effect [OF u(1), of "running_pid s" BLOCKED] running_in_state [OF assms(4)] u(2)
    by metis
  ultimately have "block_on (int i) s = Inr ((), t)"
    by (simp add: block_on_def pid(1) ebind_def)
  moreover have "mutexes t = mutexes u" by (subst t(2)) simp
  moreover have "mutex_wf n"
    using m w assms(3) by (simp add: mutex_wf_def n_def m_def)
  moreover have "length (mutexes s) = MAX_MUTEXES" using assms(2) by (simp add: table_ok_def)
  ultimately show thesis
    using t(3-5) w i assms(2,3) table_ok_update [OF assms(2), of n i]
    by (intro that [of t us ws]) (auto simp: u_def n_def table_ok_def simp flip: m_def)
qed

lemma lockMutex_held:
  assumes "live s i" and "m_mutex (mutexes s ! i) = 1" and "block_on (int i) s = Inr ((), t)"
  shows "lockMutex (int i) s = yield t"
  using assms isValidMutex_live [OF assms(1)]
  by (simp add: lockMutex_def kbind_def kcall_def testAndSet_def live_def)

subsection \<open>Freeing\<close>

lemma freeMutex_nobody:
  assumes "live s i" and "m_cardinalBlocked (mutexes s ! i) \<le> 0"
  shows "freeMutex (int i) s = Inr ((), s\<lparr>mutexes := (mutexes s)[i := (mutexes s ! i)\<lparr>m_mutex := 0\<rparr>]\<rparr>)"
  using assms isValidMutex_live [OF assms(1)] by (simp add: freeMutex_def ebind_def live_def)

text \<open>
  With waiters the mutex stays taken: the pid in the first occupied place leaves the array and its
  process, if there is one, becomes ready.
\<close>

lemma freeMutex_handoff:
  assumes "live s i" and "table_ok s" and "pids_ok s" and "waiting (m_queue (mutexes s ! i)) = w # ws"
  obtains t where "freeMutex (int i) s = Inr ((), t)" and "pids_ok t" and "table_ok t"
    and "waiting (m_queue (mutexes t ! i)) = ws"
    and "m_mutex (mutexes t ! i) = m_mutex (mutexes s ! i)" and "m_used (mutexes t ! i)"
    and "\<And>j. j \<noteq> i \<Longrightarrow> mutexes t ! j = mutexes s ! j"
    and "\<And>x. in_state s w x \<Longrightarrow> in_state t w READY"
    and "\<And>p x. p \<noteq> w \<Longrightarrow> in_state t p x = in_state s p x"
    and "running_pid t = running_pid s"
proof -
  define m where "m = mutexes s ! i"
  have i: "i < MAX_MUTEXES" "m_used m" using assms(1) by (simp_all add: live_def m_def)
  have m: "mutex_wf m" using table_ok_nth [OF assms(2) i(1)] by (simp add: m_def)
  have len: "length (mutexes s) = MAX_MUTEXES" using assms(2) by (simp add: table_ok_def)
  obtain k where k: "scan MAX_BLOCKED_QUEUE_SIZE (\<lambda>j. m_queue m ! j \<noteq> -1) = Some k"
    using waiting_some [of "m_queue m"] assms(4) m by (auto simp: mutex_wf_def m_def)
  have w: "m_queue m ! k = w" "waiting ((m_queue m)[k := -1]) = ws"
    using waiting_take_first [OF k] m assms(4) by (simp_all add: mutex_wf_def m_def)
  obtain u where u: "changeProcessState w READY s = Inr ((), u)" "u = s\<lparr>procs := procs u\<rparr>" "pids_ok u"
      "running_pid u = running_pid s" "\<And>p x. p \<noteq> w \<Longrightarrow> in_state u p x = in_state s p x"
      "\<And>x y. in_state s w x \<Longrightarrow> in_state u w y \<longleftrightarrow> y = READY"
    using changeProcessState_effect [OF assms(3), of w READY] by metis
  have mu: "mutexes u = mutexes s" by (subst u(2)) simp
  define n where "n = m\<lparr>m_queue := (m_queue m)[k := -1], m_cardinalBlocked := m_cardinalBlocked m - 1\<rparr>"
  define t where "t = u\<lparr>mutexes := (mutexes s)[i := n]\<rparr>"
  have unb: "unblockProcess (int i) s =
      Inr ((), u\<lparr>mutexes := (mutexes s)[i := m\<lparr>m_queue := (m_queue m)[k := -1]\<rparr>]\<rparr>)"
    using i(1) k w(1) u(1) mu by (simp add: unblockProcess_def ebind_def flip: m_def)
  have card: "0 < m_cardinalBlocked m" using m assms(4) by (simp add: mutex_wf_def m_def)
  have free: "freeMutex (int i) s = Inr ((), t)"
    using i(1) len unb card isValidMutex_live [OF assms(1)]
    by (simp add: freeMutex_def ebind_def t_def n_def flip: m_def)
  have "mutex_wf n"
    using m w assms(4) by (auto simp: mutex_wf_def n_def m_def)
  then have "table_ok t"
    using table_ok_update [OF assms(2), of n i] by (simp add: t_def table_ok_def)
  moreover have "mutexes t ! j = (if j = i then n else mutexes s ! j)" for j
    using i(1) len by (simp add: t_def nth_list_update_if)
  ultimately show thesis
    using u w i by (intro that [OF free]) (simp_all add: t_def, simp_all add: n_def flip: m_def)
qed

section \<open>Every interleaving: mutual exclusion\<close>

text \<open>
  \<open>lock_run i s H W\<close>: the kernel can reach the state \<open>s\<close> with the processes \<open>H\<close> past a
  \<open>lockMutex(i)\<close> they have not released, and the processes \<open>W\<close> suspended inside it.  A run
  interleaves the calls of any processes, each of which does not lock again what it holds and
  releases only what it holds; \<open>other\<close> is every other step of the kernel (the scheduler, other
  mutexes, process creation), of which it asks that it leaves this mutex alone and does not wake
  or kill a process that is blocked in it.  A suspended process comes undo from \<open>_yield\<close>, and
  with that from \<open>lockMutex\<close>, once it is no longer blocked.  A call that finds the array of waiting processes
  full has no outcome in the model (\<open>Undef\<close>) and so no step here: the code goes on with an unassigned pid.
\<close>

inductive lock_run :: "nat \<Rightarrow> 'a omutex_scheme \<Rightarrow> int set \<Rightarrow> int set \<Rightarrow> bool" for i where
  start: "live s i \<Longrightarrow> table_ok s \<Longrightarrow> pids_ok s \<Longrightarrow> m_mutex (mutexes s ! i) = 0 \<Longrightarrow> lock_run i s {} {}"
| other: "lock_run i s H W \<Longrightarrow> table_ok t \<Longrightarrow> pids_ok t \<Longrightarrow> mutexes t ! i = mutexes s ! i \<Longrightarrow>
    (\<And>p. p \<in> W \<Longrightarrow> in_state s p BLOCKED \<Longrightarrow> in_state t p BLOCKED) \<Longrightarrow> lock_run i t H W"
| acquire: "lock_run i s H W \<Longrightarrow> running_pid s \<notin> H \<union> W \<Longrightarrow> lockMutex (int i) s = Ret () t \<Longrightarrow>
    lock_run i t (insert (running_pid s) H) W"
| block: "lock_run i s H W \<Longrightarrow> running_pid s \<notin> H \<union> W \<Longrightarrow> lockMutex (int i) s = Yield t k \<Longrightarrow>
    lock_run i t H (insert (running_pid s) W)"
| resume: "lock_run i s H W \<Longrightarrow> p \<in> W \<Longrightarrow> \<not> in_state s p BLOCKED \<Longrightarrow> lock_run i s (insert p H) (W - {p})"
| release: "lock_run i s H W \<Longrightarrow> running_pid s \<in> H \<Longrightarrow> freeMutex (int i) s = Inr ((), t) \<Longrightarrow>
    lock_run i t (H - {running_pid s}) W"

text \<open>
  A taken mutex belongs to one process: the one that holds it, or the one it was handed to, which
  has not run since; everybody else who called is in the array, blocked.
\<close>

definition lock_inv :: "nat \<Rightarrow> 'a omutex_scheme \<Rightarrow> int set \<Rightarrow> int set \<Rightarrow> bool" where
  "lock_inv i s H W \<longleftrightarrow> live s i \<and> table_ok s \<and> pids_ok s \<and>
     (let m = mutexes s ! i; ws = waiting (m_queue m) in
        distinct ws \<and> set ws \<subseteq> W \<and> H \<inter> W = {} \<and> (\<forall>p\<in>set ws. in_state s p BLOCKED) \<and>
        (if m_mutex m = 0 then H = {} \<and> W = {} else \<exists>p. H \<union> (W - set ws) = {p}))"

lemma yield_not_Ret [simp]: "yield s \<noteq> Ret x t" "Ret x t \<noteq> yield s"
  by (auto simp: yield_def split: sum.splits)

lemma lock_inv_frame:
  assumes "lock_inv i s H W" and "table_ok t" and "pids_ok t" and "mutexes t ! i = mutexes s ! i"
    and "\<And>p. p \<in> W \<Longrightarrow> in_state s p BLOCKED \<Longrightarrow> in_state t p BLOCKED"
  shows "lock_inv i t H W"
  using assms by (auto simp: lock_inv_def live_def Let_def)

lemma lock_inv_acquire:
  assumes "lock_inv i s H W" and "lockMutex (int i) s = Ret () t"
  shows "lock_inv i t (insert (running_pid s) H) W"
proof -
  define m where "m = mutexes s ! i"
  have inv: "live s i" "table_ok s" "pids_ok s" "i < MAX_MUTEXES" "m_used m" "mutex_wf m" "length (mutexes s) = MAX_MUTEXES"
    using assms(1) table_ok_nth [of s i] by (auto simp: lock_inv_def live_def m_def table_ok_def)
  have "m_mutex m = 0"
  proof (rule ccontr)
    assume "m_mutex m \<noteq> 0"
    then have "m_mutex m = 1" using inv(6) by (auto simp: mutex_wf_def)
    then have "kbind (kcall (block_on (int i))) (\<lambda>_. yield) s = Ret () t"
      using assms(2) inv(4,5) isValidMutex_live [OF inv(1)]
      by (simp add: lockMutex_def kbind_def kcall_def testAndSet_def flip: m_def)
    then show False by (simp add: kbind_def kcall_def split: sum.splits prod.splits)
  qed
  moreover from this have "t = s\<lparr>mutexes := (mutexes s)[i := acquired m]\<rparr>"
    using assms(2) lockMutex_free [OF inv(1)] inv(6) by (simp flip: m_def)
  moreover have "waiting (m_queue m) = []" "H = {}" "W = {}"
    using assms(1) inv(6) \<open>m_mutex m = 0\<close> by (auto simp: lock_inv_def mutex_wf_def Let_def simp flip: m_def)
  moreover have "mutex_wf (acquired m)"
    using inv(6) \<open>waiting (m_queue m) = []\<close> by (auto simp: mutex_wf_def acquired_def)
  ultimately show ?thesis
    using inv table_ok_update [OF inv(2), of "acquired m" i]
    by (simp add: lock_inv_def live_def Let_def) (simp add: acquired_def)
qed

text \<open>
  When the 20 places of the array are taken, a caller that finds the mutex taken skips the assignment of \<open>pid\<close> and then
  changes the state of the process with that pid: the code uses a variable that was never written.
\<close>

lemma lockMutex_full:
  assumes "live s i" and "table_ok s" and "MAX_BLOCKED_QUEUE_SIZE \<le> length (waiting (m_queue (mutexes s ! i)))"
  shows "lockMutex (int i) s = Undef Uninitialised"
proof -
  define m where "m = mutexes s ! i"
  have m: "i < MAX_MUTEXES" "m_used m" "mutex_wf m" using assms(1,2) table_ok_nth [of s i] by (auto simp: live_def m_def)
  have held: "m_mutex m = 1" using m(3) assms(3) by (auto simp: mutex_wf_def m_def)
  have "block_on (int i) s = Inl Uninitialised"
    using m(1,3) assms(3) by (simp add: block_on_def isQueueFull_def ebind_def mutex_wf_def m_def)
  then show ?thesis using held m(1,2) isValidMutex_live [OF assms(1)]
    by (simp add: lockMutex_def kbind_def kcall_def testAndSet_def flip: m_def)
qed

lemma lock_inv_block:
  assumes "lock_inv i s H W" and "running_pid s \<notin> H \<union> W" and "lockMutex (int i) s = Yield t k"
  shows "lock_inv i t H (insert (running_pid s) W)"
proof -
  define m where "m = mutexes s ! i"
  have inv: "live s i" "table_ok s" "pids_ok s" "i < MAX_MUTEXES" "m_used m" "mutex_wf m"
    using assms(1) table_ok_nth [of s i] by (auto simp: lock_inv_def live_def m_def)
  have held: "m_mutex m = 1"
    using lockMutex_free [OF inv(1)] assms(3) inv(6) by (auto simp: mutex_wf_def simp flip: m_def)
  have "length (waiting (m_queue m)) < MAX_BLOCKED_QUEUE_SIZE"
  proof (rule ccontr)
    assume "\<not> ?thesis"
    then have "lockMutex (int i) s = Undef Uninitialised" using lockMutex_full [OF inv(1,2)] by (simp add: m_def)
    with assms(3) show False by simp
  qed
  then obtain u us ws where u: "block_on (int i) s = Inr ((), u)" "pids_ok u" "table_ok u"
      "waiting (m_queue m) = us @ ws" "waiting (m_queue (mutexes u ! i)) = us @ running_pid s # ws"
      "m_mutex (mutexes u ! i) = 1" "m_used (mutexes u ! i)"
      "in_state u (running_pid s) BLOCKED" "\<And>p x. p \<noteq> running_pid s \<Longrightarrow> in_state u p x = in_state s p x"
    using block_on_effect [OF inv(1,2) _ inv(3)] held unfolding m_def by metis
  have "yield u = Yield t k" using lockMutex_held [OF inv(1) _ u(1)] held assms(3) by (simp flip: m_def)
  then have t: "pids_ok t" "\<And>p. in_state u p BLOCKED \<Longrightarrow> in_state t p BLOCKED"
      and frame: "t = u\<lparr>procs := procs t, current := current t, threads := threads t, cpu_rsp := cpu_rsp t\<rparr>"
    using yield_effect [OF u(2)] by blast+
  have mu: "mutexes t = mutexes u" by (subst frame) simp
  have old: "distinct (us @ ws)" "set (us @ ws) \<subseteq> W" "H \<inter> W = {}" "\<forall>p\<in>set (us @ ws). in_state s p BLOCKED"
      "\<exists>p. H \<union> (W - set (us @ ws)) = {p}"
    using assms(1) held u(4) by (auto simp: lock_inv_def Let_def simp flip: m_def)
  have "lock_inv i u H (insert (running_pid s) W)"
  proof -
    have "insert (running_pid s) W - set (us @ running_pid s # ws) = W - set (us @ ws)"
      using assms(2) old(2) by auto
    moreover have "in_state u p BLOCKED" if "p \<in> set (us @ running_pid s # ws)" for p
      using that u(8,9) old(4) by (cases "p = running_pid s") auto
    ultimately show ?thesis
      using old assms(2) u(2,3,5-7) inv(4) by (auto simp: lock_inv_def live_def Let_def)
  qed
  then show ?thesis
    by (rule lock_inv_frame) (use t u(3) in \<open>simp_all add: mu table_ok_def\<close>)
qed

lemma lock_inv_resume:
  assumes "lock_inv i s H W" and "p \<in> W" and "\<not> in_state s p BLOCKED"
  shows "lock_inv i s (insert p H) (W - {p})"
proof -
  define ws where "ws = waiting (m_queue (mutexes s ! i))"
  have out: "p \<notin> set ws" using assms by (auto simp: lock_inv_def Let_def ws_def)
  then have "insert p H \<union> (W - {p} - set ws) = H \<union> (W - set ws)" using assms(2) by auto
  with assms out show ?thesis by (auto simp: lock_inv_def Let_def simp flip: ws_def split: if_splits)
qed

lemma lock_inv_release:
  assumes "lock_inv i s H W" and "running_pid s \<in> H" and "freeMutex (int i) s = Inr ((), t)"
  shows "lock_inv i t (H - {running_pid s}) W"
proof -
  define m where "m = mutexes s ! i"
  have inv: "live s i" "table_ok s" "pids_ok s" "i < MAX_MUTEXES" "m_used m" "mutex_wf m" "length (mutexes s) = MAX_MUTEXES"
    using assms(1) table_ok_nth [of s i] by (auto simp: lock_inv_def live_def m_def table_ok_def)
  have old: "distinct (waiting (m_queue m))" "set (waiting (m_queue m)) \<subseteq> W" "H \<inter> W = {}"
      "\<forall>p\<in>set (waiting (m_queue m)). in_state s p BLOCKED" and held: "m_mutex m = 1"
    using assms(1,2) inv(6) by (auto simp: lock_inv_def mutex_wf_def Let_def simp flip: m_def split: if_splits)
  define X where "X = set (waiting (m_queue m))"
  have X: "X \<subseteq> W" "H \<inter> W = {}" using old(2,3) by (simp_all add: X_def)
  obtain p where p: "H \<union> (W - X) = {p}"
    using assms(1) held by (auto simp: lock_inv_def Let_def X_def simp flip: m_def)
  have p2: "p = running_pid s" using p assms(2) by (metis UnI1 singletonD)
  have "H \<subseteq> {p}" using p by (metis Un_upper1)
  then have "H = {running_pid s}" using assms(2) p2 by auto
  moreover have "W - X \<subseteq> {p}" using p by (metis Un_upper2)
  then have "W = X" using X assms(2) p2 by auto
  ultimately
  have only: "H = {running_pid s}" "W = set (waiting (m_queue m))" by (simp_all add: X_def)
  show ?thesis
  proof (cases "waiting (m_queue m)")
    case Nil
    then have "m_cardinalBlocked m = 0" using inv(6) by (simp add: mutex_wf_def)
    then have t: "t = s\<lparr>mutexes := (mutexes s)[i := m\<lparr>m_mutex := 0\<rparr>]\<rparr>"
      using freeMutex_nobody [OF inv(1)] assms(3) by (simp flip: m_def)
    have "mutex_wf (m\<lparr>m_mutex := 0\<rparr>)" using inv(6) Nil by (simp add: mutex_wf_def)
    then show ?thesis
      using table_ok_update [OF inv(2), of "m\<lparr>m_mutex := 0\<rparr>" i] inv Nil only
      by (simp add: lock_inv_def live_def Let_def t)
  next
    case (Cons w ws)
    obtain t' where t': "freeMutex (int i) s = Inr ((), t')" "pids_ok t'" "table_ok t'"
        "waiting (m_queue (mutexes t' ! i)) = ws" "m_mutex (mutexes t' ! i) = m_mutex m" "m_used (mutexes t' ! i)"
        "\<And>p x. p \<noteq> w \<Longrightarrow> in_state t' p x = in_state s p x"
      using freeMutex_handoff [OF inv(1-3) Cons [unfolded m_def]] unfolding m_def by metis
    then have t: "t' = t" using assms(3) by simp
    have "W - set ws = {w}" using old(1) only Cons by auto
    then show ?thesis
      using t' held old only Cons inv(4) by (auto simp: lock_inv_def live_def Let_def t)
  qed
qed

lemma lock_run_inv: "lock_run i s H W \<Longrightarrow> lock_inv i s H W"
proof (induction rule: lock_run.induct)
  case (start s)
  then have "waiting (m_queue (mutexes s ! i)) = []"
    using table_ok_nth [of s i] by (auto simp: live_def mutex_wf_def)
  with start show ?case by (simp add: lock_inv_def Let_def)
next
  case (other s H W t)
  show ?case by (rule lock_inv_frame [OF other.IH]) (use other in auto)
next
  case (acquire s H W t)
  then show ?case by (blast intro: lock_inv_acquire)
next
  case (block s H W t k)
  then show ?case by (blast intro: lock_inv_block)
next
  case (resume s H W p)
  then show ?case by (blast intro: lock_inv_resume)
next
  case (release s H W t)
  then show ?case by (blast intro: lock_inv_release)
qed

section \<open>The table\<close>

lemma cleanMutexes_run:
  "i + n \<le> MAX_MUTEXES \<Longrightarrow> length (mutexes s) = MAX_MUTEXES \<Longrightarrow>
     \<exists>t. cleanMutexes n i s = Inr ((), t) \<and> t = s\<lparr>mutexes := mutexes t\<rparr> \<and> length (mutexes t) = MAX_MUTEXES \<and>
       (\<forall>j<MAX_MUTEXES. mutexes t ! j = (if i \<le> j \<and> j < i + n
          then (mutexes s ! j)\<lparr>m_used := False, m_name := None, m_cardinalBlocked := 0, m_mutex := 0,
             m_queue := clearArray (m_queue (mutexes s ! j)) MAX_BLOCKED_QUEUE_SIZE NO_BLOCKED_QUEUE_VALUE\<rparr>
          else mutexes s ! j))"
proof (induction n arbitrary: i s)
  case 0
  then show ?case by auto
next
  case (Suc n)
  let ?m = "(mutexes s ! i)\<lparr>m_used := False, m_name := None, m_cardinalBlocked := 0, m_mutex := 0,
     m_queue := clearArray (m_queue (mutexes s ! i)) MAX_BLOCKED_QUEUE_SIZE NO_BLOCKED_QUEUE_VALUE\<rparr>"
  let ?u = "s\<lparr>mutexes := (mutexes s)[i := ?m]\<rparr>"
  have step: "cleanMutexes (Suc n) i s = cleanMutexes n (i + 1) ?u"
    using Suc.prems(1) by (simp add: cleanMutex_def ebind_def)
  obtain t where t: "cleanMutexes n (i + 1) ?u = Inr ((), t)" "t = ?u\<lparr>mutexes := mutexes t\<rparr>"
      "length (mutexes t) = MAX_MUTEXES"
      "\<forall>j<MAX_MUTEXES. mutexes t ! j = (if i + 1 \<le> j \<and> j < i + 1 + n
          then (mutexes ?u ! j)\<lparr>m_used := False, m_name := None, m_cardinalBlocked := 0, m_mutex := 0,
             m_queue := clearArray (m_queue (mutexes ?u ! j)) MAX_BLOCKED_QUEUE_SIZE NO_BLOCKED_QUEUE_VALUE\<rparr>
          else mutexes ?u ! j)"
    using Suc.IH [of "i + 1" ?u] Suc.prems by auto
  have "t = s\<lparr>mutexes := mutexes t\<rparr>" by (subst t(2)) simp
  moreover have "mutexes ?u ! j = (if j = i then ?m else mutexes s ! j)" for j
    using Suc.prems by (simp add: nth_list_update_if)
  ultimately show ?case using t(1,3,4) step by (intro exI [of _ t]) auto
qed

lemma initializeMutexes_table:
  assumes "length (mutexes s) = MAX_MUTEXES" and "\<forall>m\<in>set (mutexes s). length (m_queue m) = MAX_BLOCKED_QUEUE_SIZE"
  shows "\<exists>t. initializeMutexes s = Inr ((), t) \<and> table_ok t \<and> adminMutex t = 0 \<and> same_sched s t \<and>
    (\<forall>j<MAX_MUTEXES. m_mutex (mutexes t ! j) = 0 \<and> m_name (mutexes t ! j) = None \<and> (live t j \<longleftrightarrow> j = 0))"
proof -
  obtain u where u: "cleanMutexes MAX_MUTEXES 0 s = Inr ((), u)" "u = s\<lparr>mutexes := mutexes u\<rparr>"
      "length (mutexes u) = MAX_MUTEXES"
      "\<forall>j<MAX_MUTEXES. mutexes u ! j = (mutexes s ! j)\<lparr>m_used := False, m_name := None, m_cardinalBlocked := 0,
         m_mutex := 0, m_queue := clearArray (m_queue (mutexes s ! j)) MAX_BLOCKED_QUEUE_SIZE NO_BLOCKED_QUEUE_VALUE\<rparr>"
    using cleanMutexes_run [of 0 MAX_MUTEXES s] assms(1) by auto
  define t where "t = u\<lparr>adminMutex := 0, mutexes := (mutexes u)[0 := (mutexes u ! 0)\<lparr>m_used := True\<rparr>]\<rparr>"
  have cleared: "length (clearArray q 20 (-1)) = 20 \<and> waiting (clearArray q 20 (-1)) = []" if "length q = 20" for q
    using that by (auto simp: clearArray_def waiting_def filter_empty_conv)
  have nth: "mutexes t ! j = (mutexes s ! j)\<lparr>m_used := j = 0, m_name := None, m_cardinalBlocked := 0,
         m_mutex := 0, m_queue := clearArray (m_queue (mutexes s ! j)) 20 (-1)\<rparr>" if "j < MAX_MUTEXES" for j
    using that u(3,4) by (simp add: t_def nth_list_update_if)
  have "initializeMutexes s = Inr ((), t)"
    using u(1) by (simp add: initializeMutexes_def ebind_def t_def mutex_at_def set_mutex_def)
  moreover have "table_ok t"
  proof -
    have "length (mutexes t) = MAX_MUTEXES" using u(3) by (simp add: t_def)
    moreover have "length (m_queue (mutexes s ! j)) = 20" if "j < MAX_MUTEXES" for j using that assms by simp
    ultimately show ?thesis by (auto simp: table_ok_def in_set_conv_nth nth mutex_wf_def cleared)
  qed
  moreover have "same_sched s t" 
  proof -
    obtain M where u: "u = s\<lparr>mutexes := M\<rparr>" using u(2) by (rule that)
    show ?thesis by (simp add: t_def u same_sched_def)
  qed
  ultimately show ?thesis using nth by (intro exI [of _ t]) (auto simp: live_def t_def)
qed

text \<open>Locking a free mutex and freeing it again restores it.\<close>

lemma freeMutex_undo:
  assumes "i < MAX_MUTEXES" and "mutexes t ! i = acquired m" and "mutex_wf m" and "m_used m" and "m_mutex m = 0"
  shows "freeMutex (int i) t = Inr ((), t\<lparr>mutexes := (mutexes t)[i := m]\<rparr>)"
proof -
  have "live t i" using assms by (simp add: live_def acquired_def)
  moreover have "m\<lparr>m_cardinalBlocked := 0, m_mutex := 0\<rparr> = m"
    using assms(3,5) by (cases m) (auto simp: mutex_wf_def)
  ultimately show ?thesis using freeMutex_nobody [of t i] assms(2) by (simp add: acquired_def)
qed

section \<open>Properties\<close>

text \<open>A state to evaluate on: the processes of \<open>demo_sched\<close> and the table as the boot leaves it, with a
  second mutex in use.\<close>

definition free_mutex :: Mutex where
  "free_mutex = \<lparr>m_used = False, m_name = None, m_queue = replicate 20 (-1), m_mutex = 0,
     m_cardinalBlocked = 0, m_pidCreator = 0\<rparr>"

definition demo_mutex :: omutex where
  "demo_mutex = qmem.extend full_queue
     \<lparr>mutexes = free_mutex\<lparr>m_used := True\<rparr> # free_mutex\<lparr>m_used := True, m_name := Some ''a''\<rparr> # replicate 126 free_mutex,
      adminMutex = 0, console = []\<rparr>"

lemma mutex_wf_free [simp]: "mutex_wf free_mutex" "mutex_wf (free_mutex\<lparr>m_used := u\<rparr>)"
    "mutex_wf (free_mutex\<lparr>m_used := u, m_name := n\<rparr>)"
  by (simp_all add: mutex_wf_def free_mutex_def waiting_def)

lemma demo_mutex_table:
  "mutexes demo_mutex = free_mutex\<lparr>m_used := True\<rparr> # free_mutex\<lparr>m_used := True, m_name := Some ''a''\<rparr> # replicate 126 free_mutex"
  "adminMutex demo_mutex = 0"
  by (simp_all add: demo_mutex_def qmem.defs)

lemma demo_mutex_ok: "table_ok demo_mutex" "live demo_mutex 0" "live demo_mutex 1"
  by (auto simp: table_ok_def live_def demo_mutex_table)

lemma demo_mutex_sched: "same_sched demo_sched demo_mutex"
  by (simp add: same_sched_def demo_mutex_def full_queue_def qmem.defs sched.defs)

lemma pids_ok_demo: "pids_ok demo_sched" "running_pid demo_sched = 0"
proof -
  show "pids_ok demo_sched"
    unfolding pids_ok_def using ring_demo
    by (intro exI [of _ demo_entries] conjI) (simp_all add: demo_entries_def demo_process_def)
  show "running_pid demo_sched = 0"
    using running_pid_ring [OF ring_demo] by (simp add: demo_entries_def demo_process_def)
qed

lemmas demo_mutex_facts = pids_ok_demo [folded same_sched_facts(2,4) [OF demo_mutex_sched]]



definition named :: "string \<Rightarrow> int \<Rightarrow> Mutex \<Rightarrow> Mutex" where
  "named mutexName pid m = m\<lparr>m_used := True, m_name := Some mutexName, m_pidCreator := pid\<rparr>"

lemma getIndex_named:
  assumes "getIndex nul n s = MUTEX_NOT_FOUND" and "length (mutexes s) = MAX_MUTEXES" and "j < MAX_MUTEXES"
  shows "getIndex nul n (s\<lparr>mutexes := (mutexes s)[j := named n pid m]\<rparr>) = int j"
proof -
  have none: "\<not> (strcmp (c_name nul (m_name (mutexes s ! i))) n = 0 \<and> m_used (mutexes s ! i))" if "i < MAX_MUTEXES" for i
    using assms(1) that by (auto simp: getIndex_def scan_None_iff split: option.splits)
  have "strcmp n n = 0" by (simp add: strcmp_zero_iff)
  then have "scan MAX_MUTEXES (\<lambda>i. strcmp (c_name nul (m_name ((mutexes s)[j := named n pid m] ! i))) n = 0 \<and>
      m_used ((mutexes s)[j := named n pid m] ! i)) = Some j"
    using assms(2,3) none by (auto simp: scan_Some_iff named_def c_name_def nth_list_update)
  then show ?thesis by (simp add: getIndex_def)
qed

lemma getIndex_same_names:
  "(\<And>i. i < MAX_MUTEXES \<Longrightarrow> m_name (mutexes t ! i) = m_name (mutexes s ! i) \<and> m_used (mutexes t ! i) = m_used (mutexes s ! i)) \<Longrightarrow>
     getIndex nul n t = getIndex nul n s"
  unfolding getIndex_def by (subst scan_cong) auto

text \<open>\<open>getMutex\<close> returns the index of the mutex in use with that name, and the state as it was; if
  there is none it takes the first free place for it, and if there is no free place it returns
  \<open>ERROR\<close>.  A mutex just created is the one the name finds from then on.\<close>

theorem getMutex_finds_or_creates:
  assumes "table_ok s" and "pids_ok s" and "live s 0" and "adminMutex s = 0" and "m_mutex (mutexes s ! 0) = 0"
  shows "getMutex nul n s =
      (if getIndex nul n s \<noteq> MUTEX_NOT_FOUND then Ret (getIndex nul n s) s
       else case scan MAX_MUTEXES (\<lambda>i. \<not> m_used (mutexes s ! i)) of
              None \<Rightarrow> Ret ERROR s
            | Some j \<Rightarrow> Ret (int j) (s\<lparr>mutexes := (mutexes s)[j := named n (running_pid s) (mutexes s ! j)]\<rparr>)) \<and>
    (\<forall>j<MAX_MUTEXES. getIndex nul n s = MUTEX_NOT_FOUND \<longrightarrow>
       getIndex nul n (s\<lparr>mutexes := (mutexes s)[j := named n (running_pid s) (mutexes s ! j)]\<rparr>) = int j)"
proof -
  define m where "m = mutexes s ! 0"
  define u where "u = s\<lparr>mutexes := (mutexes s)[0 := acquired m]\<rparr>"
  have m: "mutex_wf m" "m_used m" "m_mutex m = 0" and len: "length (mutexes s) = MAX_MUTEXES"
    using assms table_ok_nth [of s 0] by (auto simp: m_def live_def table_ok_def)
  have lock: "lockMutex 0 s = Ret () u"
    using lockMutex_free [OF assms(3)] m by (simp add: u_def flip: m_def)
  have unlock: "freeMutex 0 (s\<lparr>mutexes := xs[0 := acquired m]\<rparr>) = Inr ((), s\<lparr>mutexes := xs[0 := m]\<rparr>)"
    if "length xs = MAX_MUTEXES" for xs
    using freeMutex_undo [of 0 "s\<lparr>mutexes := xs[0 := acquired m]\<rparr>"] that m by simp
  have names: "m_name (mutexes u ! i) = m_name (mutexes s ! i)" "m_used (mutexes u ! i) = m_used (mutexes s ! i)" for i
    by (simp_all add: u_def acquired_def m_def nth_list_update_if)
  have index: "getIndex nul n u = getIndex nul n s"
    by (rule getIndex_same_names) (simp add: names)
  have spot: "getFreeSpot u = getFreeSpot s"
    unfolding getFreeSpot_def by (subst scan_cong) (auto simp: names)
  have pid: "getCurrentPid u = Inr (running_pid s, u)"
    using assms(2) getCurrentPid_ring [of u] by (auto simp: pids_ok_def u_def)
  have self: "(mutexes s)[0 := m] = mutexes s" by (simp add: m_def)
  have run: "getMutex nul n s =
      kbind (if getIndex nul n s = MUTEX_NOT_FOUND then kcall (createMutex n) else kreturn (getIndex nul n s)) (\<lambda>index.
      kbind (kget adminMutex) (\<lambda>admin. kbind (kcall (freeMutex admin)) (\<lambda>_. kreturn index))) u"
    by (simp add: getMutex_def assms(4) kbind_Ret [OF kget_apply] kbind_Ret [where m = "lockMutex 0", OF lock] index)
  have admin: "adminMutex u = 0" by (simp add: u_def assms(4))
  consider (found) "getIndex nul n s \<noteq> MUTEX_NOT_FOUND"
    | (full) "getIndex nul n s = MUTEX_NOT_FOUND" "scan MAX_MUTEXES (\<lambda>i. \<not> m_used (mutexes s ! i)) = None"
    | (create) j where "getIndex nul n s = MUTEX_NOT_FOUND" "scan MAX_MUTEXES (\<lambda>i. \<not> m_used (mutexes s ! i)) = Some j"
    by (cases "scan MAX_MUTEXES (\<lambda>i. \<not> m_used (mutexes s ! i))") auto
  then have "getMutex nul n s =
      (if getIndex nul n s \<noteq> MUTEX_NOT_FOUND then Ret (getIndex nul n s) s
       else case scan MAX_MUTEXES (\<lambda>i. \<not> m_used (mutexes s ! i)) of
              None \<Rightarrow> Ret ERROR s
            | Some j \<Rightarrow> Ret (int j) (s\<lparr>mutexes := (mutexes s)[j := named n (running_pid s) (mutexes s ! j)]\<rparr>))"
  proof cases
    case found
    then show ?thesis using run unlock [of "mutexes s"] len self admin
      by (simp add: kbind_def kcall_def u_def)
  next
    case full
    then have "createMutex n u = Inr (ERROR, u)"
      by (simp add: createMutex_def ebind_def pid spot) (simp add: getFreeSpot_def)
    with full show ?thesis using run unlock [of "mutexes s"] len self admin
      by (simp add: kbind_def kcall_def u_def)
  next
    case (create j)
    then have j: "j < MAX_MUTEXES" "\<not> m_used (mutexes s ! j)" using scan_SomeD [OF create(2)] by auto
    then have "j \<noteq> 0" using m(2) by (auto simp: m_def intro: ccontr)
    have "createMutex n u = Inr (int j, u\<lparr>mutexes := (mutexes u)[j := named n (running_pid s) (mutexes u ! j)]\<rparr>)"
      using j(1) create(2)
      by (simp add: createMutex_def ebind_def pid spot mutex_at_def set_mutex_def named_def) (simp add: getFreeSpot_def)
    moreover have "(mutexes u)[j := named n (running_pid s) (mutexes u ! j)] =
        (mutexes s)[j := named n (running_pid s) (mutexes s ! j), 0 := acquired m]"
      using \<open>j \<noteq> 0\<close> by (simp add: u_def list_update_swap)
    moreover have "(mutexes s)[j := named n (running_pid s) (mutexes s ! j), 0 := m] =
        (mutexes s)[j := named n (running_pid s) (mutexes s ! j)]"
      using \<open>j \<noteq> 0\<close> by (simp add: list_update_swap self)
    ultimately show ?thesis
      using create run unlock [of "(mutexes s)[j := named n (running_pid s) (mutexes s ! j)]"] len assms(4)
      by (simp add: kbind_def kcall_def u_def)
  qed
  then show ?thesis using getIndex_named [of nul n s] len by blast
qed

theorem getMutex_finds_or_creates_witness:
  "getMutex '''' ''a'' demo_mutex = Ret 1 demo_mutex \<and>
   getMutex '''' ''b'' demo_mutex = Ret 2 (demo_mutex\<lparr>mutexes := (mutexes demo_mutex)[2 := named ''b'' 0 free_mutex]\<rparr>)"
proof -
  have ok: "m_mutex (mutexes demo_mutex ! 0) = 0" by (simp add: demo_mutex_table free_mutex_def)
  have a: "getIndex '''' ''a'' demo_mutex = 1"
  proof -
    have "scan MAX_MUTEXES (\<lambda>i. strcmp (c_name '''' (m_name (mutexes demo_mutex ! i))) ''a'' = 0 \<and> m_used (mutexes demo_mutex ! i)) = Some 1"
      by (simp add: scan_Some_iff demo_mutex_table free_mutex_def c_name_def)
    then show ?thesis by (simp add: getIndex_def)
  qed
  have b: "getIndex '''' ''b'' demo_mutex = MUTEX_NOT_FOUND"
  proof -
    have "\<not> (strcmp (c_name '''' (m_name (mutexes demo_mutex ! i))) ''b'' = 0 \<and> m_used (mutexes demo_mutex ! i))"
      if "i < MAX_MUTEXES" for i
      using that by (cases "i = 0"; cases "i = 1") (simp_all add: demo_mutex_table free_mutex_def c_name_def nth_Cons')
    then have "scan MAX_MUTEXES (\<lambda>i. strcmp (c_name '''' (m_name (mutexes demo_mutex ! i))) ''b'' = 0 \<and> m_used (mutexes demo_mutex ! i)) = None"
      by (simp add: scan_None_iff)
    then show ?thesis by (simp add: getIndex_def)
  qed
  have free: "scan MAX_MUTEXES (\<lambda>i. \<not> m_used (mutexes demo_mutex ! i)) = Some 2"
    by (auto simp: scan_Some_iff demo_mutex_table free_mutex_def nth_Cons' numeral_2_eq_2 less_Suc_eq)
  note spec = getMutex_finds_or_creates [OF demo_mutex_ok(1) demo_mutex_facts(1) demo_mutex_ok(2) demo_mutex_table(2) ok]
  have "mutexes demo_mutex ! 2 = free_mutex" by (simp add: demo_mutex_table)
  with spec [of "''''" "''a''"] spec [of "''''" "''b''"] a b free demo_mutex_facts(2) show ?thesis by simp
qed

text \<open>\<open>freeMutex\<close> with waiters hands the mutex over: it stays taken, the pid in the lowest occupied
  place leaves the array and its process becomes ready, and nothing else changes state.  The order
  is that of the places, not of the calls: a caller that found a low place free overtakes.\<close>

theorem freeMutex_hands_over:
  assumes "live s i" and "table_ok s" and "pids_ok s" and "waiting (m_queue (mutexes s ! i)) = w # ws"
    and "in_state s w BLOCKED"
  shows "\<exists>t. freeMutex (int i) s = Inr ((), t) \<and> m_mutex (mutexes t ! i) = m_mutex (mutexes s ! i) \<and>
    waiting (m_queue (mutexes t ! i)) = ws \<and> in_state t w READY \<and>
    (\<forall>p x. p \<noteq> w \<longrightarrow> in_state t p x = in_state s p x) \<and> table_ok t"
  by (rule freeMutex_handoff [OF assms(1-4)]) (use assms(5) in blast)

text \<open>A mutex that pid 0 holds and pid 1 waits for.\<close>

definition demo_held :: omutex where
  "demo_held = demo_mutex\<lparr>mutexes := (mutexes demo_mutex)[1 := free_mutex\<lparr>m_used := True, m_mutex := 1,
     m_queue := 1 # replicate 19 (-1), m_cardinalBlocked := 1\<rparr>]\<rparr>"

lemma demo_held_facts:
  "table_ok demo_held" "live demo_held 1" "pids_ok demo_held" "waiting (m_queue (mutexes demo_held ! 1)) = [1]"
  "in_state demo_held 1 BLOCKED" "running_pid demo_held = 0"
proof -
  show "table_ok demo_held" unfolding demo_held_def
    by (rule table_ok_update [OF demo_mutex_ok(1)]) (simp add: mutex_wf_def free_mutex_def waiting_def)
  show "live demo_held 1" "waiting (m_queue (mutexes demo_held ! 1)) = [1]"
    by (simp_all add: demo_held_def live_def waiting_def demo_mutex_table)
  show "pids_ok demo_held" "running_pid demo_held = 0" by (simp_all add: demo_held_def demo_mutex_facts)
  have "in_state demo_sched 1 BLOCKED"
    unfolding in_state_ring [OF ring_demo] by (simp add: demo_entries_def demo_process_def view_def)
  then show "in_state demo_held 1 BLOCKED"
    by (simp add: demo_held_def same_sched_facts(3) [OF demo_mutex_sched])
qed

theorem freeMutex_hands_over_witness:
  "\<exists>t. freeMutex 1 demo_held = Inr ((), t) \<and> m_mutex (mutexes t ! 1) = 1 \<and>
    waiting (m_queue (mutexes t ! 1)) = [] \<and> in_state t 1 READY"
  using freeMutex_hands_over [OF demo_held_facts(2,1,3-5)]
  by (auto simp: demo_held_def demo_mutex_table free_mutex_def)

text \<open>The array has 20 places: the state of a full one.\<close>

lemma lockMutex_full_example:
  "lockMutex 1 (demo_mutex\<lparr>mutexes := (mutexes demo_mutex)[1 := free_mutex\<lparr>m_used := True, m_mutex := 1,
     m_queue := replicate 20 7, m_cardinalBlocked := 20\<rparr>]\<rparr>) = Undef Uninitialised"
proof -
  let ?s = "demo_mutex\<lparr>mutexes := (mutexes demo_mutex)[1 := free_mutex\<lparr>m_used := True, m_mutex := 1,
     m_queue := replicate 20 7, m_cardinalBlocked := 20\<rparr>]\<rparr>"
  have "lockMutex (int 1) ?s = Undef Uninitialised"
  proof (rule lockMutex_full)
    show "table_ok ?s"
      by (rule table_ok_update [OF demo_mutex_ok(1)]) (simp add: mutex_wf_def free_mutex_def waiting_def)
    show "live ?s 1" "MAX_BLOCKED_QUEUE_SIZE \<le> length (waiting (m_queue (mutexes ?s ! 1)))"
      by (simp_all add: live_def demo_mutex_table waiting_def)
  qed
  then show ?thesis by simp
qed

text \<open>A waiter that was killed: its pid stays in the array, \<open>freeMutex\<close> hands the mutex to a process that
  does not exist, and nobody is left to release it.\<close>

lemma freeMutex_dead_waiter:
  assumes "live s i" and "table_ok s" and "pids_ok s" and "waiting (m_queue (mutexes s ! i)) = [w]"
    and "m_mutex (mutexes s ! i) = 1" and "\<forall>st. \<not> in_state s w st"
  shows "\<exists>t. freeMutex (int i) s = Inr ((), t) \<and> m_mutex (mutexes t ! i) = 1 \<and>
    waiting (m_queue (mutexes t ! i)) = [] \<and> (\<forall>p x. p \<noteq> w \<longrightarrow> in_state t p x = in_state s p x)"
  by (rule freeMutex_handoff [OF assms(1-4)]) (use assms(5) in auto)

text \<open>Three callers of a taken mutex in the places 0, 1 and 2; the first is woken, a fourth caller takes its
  place, and is woken before the second.\<close>

lemma unblock_not_fifo:
  "let q = [5, 6, 7] @ replicate 17 (-1);
       q' = q[0 := -1];
       i = getFreeSpotInBlockedQueue q' MAX_BLOCKED_QUEUE_SIZE
   in waiting q = [5, 6, 7] \<and> waiting (q'[nat i := 8]) = [8, 6, 7]"
proof -
  have "scan 20 (\<lambda>i. (-1 # [6, 7] @ replicate 17 (-1)) ! i = (-1::int)) = Some 0"
    by (simp add: scan_Some_iff)
  then show ?thesis by (simp add: Let_def waiting_def getFreeSpotInBlockedQueue_def)
qed

end
