(* ===== verification/Semaphores.thy ===== *)
theory Semaphores
  imports Mutex
begin

text \<open>
  The counting semaphores of Kernel/semaphores.c: a table of 50, each with a value, an array of the
  waiting pids and a mutex that \<open>wait\<close> takes around its test.  \<open>signal\<close> takes no lock; it needs
  none, since no system call is interrupted between two yields.

  The lemmas show that in every interleaving no more processes get past \<open>wait\<close> than the start
  value and the signals allow, that no unit is lost while somebody waits, and what the code does
  when the array of waiters is full and when a name is taken.
\<close>

section \<open>State\<close>

abbreviation (input) MAX_SEMAPHORES :: nat where
  "MAX_SEMAPHORES \<equiv> 50"       \<comment> \<open>\<open>MAX_MUTEXES/2\<close>, with the 100 of mutex.h\<close>

abbreviation (input) SEMAPHORE_NOT_FOUND :: int where
  "SEMAPHORE_NOT_FOUND \<equiv> -1"

record Semaphore =
  s_used :: bool
  s_name :: "string option"
  s_queue :: "int list"
  s_semaphore :: int
  s_cardinalBlocked :: int
  s_mutex :: int
  s_pidCreator :: int

record ssem = omutex +
  semaphores :: "Semaphore list"
  semaphoreMutex :: int

definition sem_at :: "int \<Rightarrow> ('a ssem_scheme, Semaphore) eprog" where
  "sem_at i s = (if 0 \<le> i \<and> i < int MAX_SEMAPHORES then Inr (semaphores s ! nat i, s) else Inl OutOfBounds)"

definition set_sem :: "int \<Rightarrow> Semaphore \<Rightarrow> ('a ssem_scheme, unit) eprog" where
  "set_sem i m s = (if 0 \<le> i \<and> i < int MAX_SEMAPHORES
     then Inr ((), s\<lparr>semaphores := (semaphores s)[nat i := m]\<rparr>) else Inl OutOfBounds)"

section \<open>The table\<close>

text \<open>The field \<open>name\<close> keeps what it had.\<close>

definition cleanSemaphore :: "int \<Rightarrow> ('a ssem_scheme, unit) eprog" where
  "cleanSemaphore i =
     ebind (sem_at i) (\<lambda>sem.
     set_sem i (sem\<lparr>s_used := False, s_semaphore := 0, s_cardinalBlocked := 0,
       s_queue := clearArray (s_queue sem) MAX_BLOCKED_QUEUE_SIZE NO_BLOCKED_QUEUE_VALUE\<rparr>))"

fun cleanSemaphores :: "nat \<Rightarrow> nat \<Rightarrow> ('a ssem_scheme, unit) eprog" where
  "cleanSemaphores 0 i = ereturn ()"
| "cleanSemaphores (Suc n) i = ebind (cleanSemaphore (int i)) (\<lambda>_. cleanSemaphores n (i + 1))"

definition initializeSemaphores :: "string \<Rightarrow> ('a ssem_scheme, unit) kprog" where
  "initializeSemaphores nul =
     kbind (kcall (cleanSemaphores MAX_SEMAPHORES 0)) (\<lambda>_.
     kbind (getMutex nul ''semaphoreMutex'') (\<lambda>m.
     kmodify (\<lambda>s. s\<lparr>semaphoreMutex := m\<rparr>)))"

definition isValidSemaphore :: "int \<Rightarrow> ('a ssem_scheme, bool) eprog" where
  "isValidSemaphore index =
     (if int MAX_SEMAPHORES \<le> index then ereturn False
      else ebind (sem_at index) (\<lambda>sem. ereturn (s_used sem)))"

text \<open>Nothing calls it.\<close>

definition isSemaphoreQueueFull :: "int \<Rightarrow> ('a ssem_scheme, bool) eprog" where
  "isSemaphoreQueueFull index =
     ebind (sem_at index) (\<lambda>sem. ereturn (int MAX_BLOCKED_QUEUE_SIZE \<le> s_cardinalBlocked sem))"

definition addToSemBlocked :: "int \<Rightarrow> int \<Rightarrow> ('a ssem_scheme, unit) eprog" where
  "addToSemBlocked i pid =
     ebind (sem_at i) (\<lambda>sem.
     let index = getFreeSpotInBlockedQueue (s_queue sem) MAX_BLOCKED_QUEUE_SIZE
     in if index = NO_SPACE_LEFT_M then ncPrint ''MUERTE3''
        else set_sem i (sem\<lparr>s_queue := (s_queue sem)[nat index := pid],
                            s_cardinalBlocked := s_cardinalBlocked sem + 1\<rparr>))"

text \<open>The same with another message; nothing calls it.\<close>

definition addToBlockedQueueSemaphore :: "int \<Rightarrow> int \<Rightarrow> ('a ssem_scheme, unit) eprog" where
  "addToBlockedQueueSemaphore sem pid =
     ebind (sem_at sem) (\<lambda>s.
     let index = getFreeSpotInBlockedQueue (s_queue s) MAX_BLOCKED_QUEUE_SIZE
     in if index = NO_SPACE_LEFT_M then ncPrint ''MUERTE2''
        else set_sem sem (s\<lparr>s_queue := (s_queue s)[nat index := pid],
                            s_cardinalBlocked := s_cardinalBlocked s + 1\<rparr>))"

definition getSemIndex :: "string \<Rightarrow> string \<Rightarrow> 'a ssem_scheme \<Rightarrow> int" where
  "getSemIndex nul mutexName s =
     (case scan MAX_SEMAPHORES (\<lambda>i. strcmp (c_name nul (s_name (semaphores s ! i))) mutexName = 0 \<and> s_used (semaphores s ! i)) of
        Some i \<Rightarrow> int i
      | None \<Rightarrow> SEMAPHORE_NOT_FOUND)"

definition semOpen :: "string \<Rightarrow> string \<Rightarrow> 'a ssem_scheme \<Rightarrow> int" where
  "semOpen nul name s =
     (let index = getSemIndex nul name s in if index = MUTEX_NOT_FOUND then ERROR else index)"

definition semClose :: "int \<Rightarrow> ('a ssem_scheme, unit) eprog" where
  "semClose index =
     ebind (isValidSemaphore index) (\<lambda>valid.
     if \<not> valid then ereturn ()
     else ebind getCurrentPid (\<lambda>pid.
          ebind (sem_at index) (\<lambda>sem.
          if pid = s_pidCreator sem then set_sem index (sem\<lparr>s_used := False\<rparr>) else ereturn ())))"

definition getFreePositionSemaphores :: "'a ssem_scheme \<Rightarrow> int" where
  "getFreePositionSemaphores s = (case scan MAX_SEMAPHORES (\<lambda>i. \<not> s_used (semaphores s ! i)) of
     Some i \<Rightarrow> int i | None \<Rightarrow> NO_SPACE_LEFT_M)"

text \<open>An assignment to fields of the semaphore \<open>i\<close>.\<close>

definition upd_sem :: "int \<Rightarrow> (Semaphore \<Rightarrow> Semaphore) \<Rightarrow> ('a ssem_scheme, unit) eprog" where
  "upd_sem i f = ebind (sem_at i) (\<lambda>sem. set_sem i (f sem))"

definition createSemaphore :: "string \<Rightarrow> string \<Rightarrow> int \<Rightarrow> ('a ssem_scheme, int) kprog" where
  "createSemaphore nul semName start =
     kbind (kcall getCurrentPid) (\<lambda>pid.
     kbind (kget getFreePositionSemaphores) (\<lambda>index.
     if index = NO_SPACE_LEFT_M then kreturn ERROR
     else kbind (kcall (upd_sem index (\<lambda>sem. sem\<lparr>s_used := True, s_name := Some semName\<rparr>))) (\<lambda>_.
          kbind (getMutex nul semName) (\<lambda>m.
          kbind (kcall (upd_sem index (\<lambda>sem. sem\<lparr>s_mutex := m, s_semaphore := start, s_pidCreator := pid\<rparr>))) (\<lambda>_.
          kreturn index)))))"

definition semCreate :: "string \<Rightarrow> string \<Rightarrow> int \<Rightarrow> ('a ssem_scheme, int) kprog" where
  "semCreate nul name start =
     kbind (kget semaphoreMutex) (\<lambda>m.
     kbind (lockMutex m) (\<lambda>_.
     kbind (kget (getSemIndex nul name)) (\<lambda>index.
     if index \<noteq> MUTEX_NOT_FOUND then kreturn ERROR
     else kbind (createSemaphore nul name start) (\<lambda>index.
          kbind (kget semaphoreMutex) (\<lambda>m.
          kbind (kcall (freeMutex m)) (\<lambda>_. kreturn index))))))"

section \<open>wait and signal\<close>

definition wait :: "int \<Rightarrow> ('a ssem_scheme, unit) kprog" where
  "wait semaphore =
     kbind (kcall (isValidSemaphore semaphore)) (\<lambda>valid.
     if \<not> valid then kreturn ()
     else kbind (kcall (sem_at semaphore)) (\<lambda>sem.
          kbind (lockMutex (s_mutex sem)) (\<lambda>_.
          kbind (kcall (upd_sem semaphore (\<lambda>sem. sem\<lparr>s_semaphore := s_semaphore sem - 1\<rparr>))) (\<lambda>_.
          kbind (kcall (sem_at semaphore)) (\<lambda>sem.
          if 0 \<le> s_semaphore sem then kcall (freeMutex (s_mutex sem))
          else kbind (kcall getCurrentPid) (\<lambda>pid.
               kbind (kcall (addToSemBlocked semaphore pid)) (\<lambda>_.
               kbind (kcall (changeProcessState pid BLOCKED)) (\<lambda>_.
               kbind (kcall (freeMutex (s_mutex sem))) (\<lambda>_. yield)))))))))"

definition unblockProcessSemaphore :: "int \<Rightarrow> ('a ssem_scheme, unit) eprog" where
  "unblockProcessSemaphore sem =
     ebind (sem_at sem) (\<lambda>s.
     case scan MAX_BLOCKED_QUEUE_SIZE (\<lambda>i. s_queue s ! i \<noteq> NO_BLOCKED_QUEUE_VALUE) of
       None \<Rightarrow> ereturn ()
     | Some i \<Rightarrow>
         ebind (changeProcessState (s_queue s ! i) READY) (\<lambda>_.
         upd_sem sem (\<lambda>s. s\<lparr>s_queue := (s_queue s)[i := NO_BLOCKED_QUEUE_VALUE]\<rparr>)))"

definition signal :: "int \<Rightarrow> ('a ssem_scheme, unit) eprog" where
  "signal semaphore =
     ebind (isValidSemaphore semaphore) (\<lambda>valid.
     if \<not> valid then ereturn ()
     else ebind (sem_at semaphore) (\<lambda>sem.
          ebind (if 0 < s_cardinalBlocked sem
                 then ebind (unblockProcessSemaphore semaphore) (\<lambda>_.
                      upd_sem semaphore (\<lambda>sem. sem\<lparr>s_cardinalBlocked := s_cardinalBlocked sem - 1\<rparr>))
                 else ereturn ()) (\<lambda>_.
          upd_sem semaphore (\<lambda>sem. sem\<lparr>s_semaphore := s_semaphore sem + 1\<rparr>))))"

section \<open>One semaphore\<close>

text \<open>The value is negative exactly when processes wait, and then it counts them.\<close>

definition sem_wf :: "Semaphore \<Rightarrow> bool" where
  "sem_wf sem \<longleftrightarrow> length (s_queue sem) = MAX_BLOCKED_QUEUE_SIZE \<and>
     s_cardinalBlocked sem = int (length (waiting (s_queue sem))) \<and>
     s_cardinalBlocked sem = max 0 (- s_semaphore sem)"

text \<open>A semaphore in use whose mutex is free, as it is whenever no call is being executed.\<close>

definition sem_ok :: "nat \<Rightarrow> 'a ssem_scheme \<Rightarrow> bool" where
  "sem_ok i s \<longleftrightarrow> i < MAX_SEMAPHORES \<and> length (semaphores s) = MAX_SEMAPHORES \<and> s_used (semaphores s ! i) \<and>
     sem_wf (semaphores s ! i) \<and> table_ok s \<and> pids_ok s \<and>
     (let j = s_mutex (semaphores s ! i) in 0 \<le> j \<and> live s (nat j) \<and> m_mutex (mutexes s ! nat j) = 0)"

lemma sem_at_nat [simp]: "i < MAX_SEMAPHORES \<Longrightarrow> sem_at (int i) s = Inr (semaphores s ! i, s)"
  by (simp add: sem_at_def)

lemma upd_sem_nat [simp]:
  "i < MAX_SEMAPHORES \<Longrightarrow>
     upd_sem (int i) f s = Inr ((), s\<lparr>semaphores := (semaphores s)[i := f (semaphores s ! i)]\<rparr>)"
  by (simp add: upd_sem_def set_sem_def ebind_def)

lemma same_sched_semaphores: "same_sched s (s\<lparr>semaphores := x\<rparr>)"
  by (simp add: same_sched_def)

lemmas sched_semaphores [simp] = same_sched_facts [OF same_sched_semaphores]

lemma mutexes_self [simp]: "(s::'a ssem_scheme)\<lparr>mutexes := mutexes s\<rparr> = s"
  by (cases s) simp

lemma mutexes_self_semaphores [simp]:
  "(s::'a ssem_scheme)\<lparr>mutexes := mutexes s, semaphores := x\<rparr> = s\<lparr>semaphores := x\<rparr>"
  by (cases s) simp

text \<open>\<open>wait\<close> up to its test, with the mutex taken.\<close>

definition wait_test :: "nat \<Rightarrow> 'a ssem_scheme \<Rightarrow> 'a ssem_scheme" where
  "wait_test i s = (let sem = semaphores s ! i; j = nat (s_mutex sem) in
     s\<lparr>mutexes := (mutexes s)[j := acquired (mutexes s ! j)],
       semaphores := (semaphores s)[i := sem\<lparr>s_semaphore := s_semaphore sem - 1\<rparr>]\<rparr>)"

lemma wait_enter:
  assumes "sem_ok i s"
  shows "wait (int i) s =
     (if 0 < s_semaphore (semaphores s ! i) then kcall (freeMutex (s_mutex (semaphores s ! i))) (wait_test i s)
      else kbind (kcall getCurrentPid) (\<lambda>pid.
           kbind (kcall (addToSemBlocked (int i) pid)) (\<lambda>_.
           kbind (kcall (changeProcessState pid BLOCKED)) (\<lambda>_.
           kbind (kcall (freeMutex (s_mutex (semaphores s ! i)))) (\<lambda>_. yield)))) (wait_test i s))"
proof -
  define sem where "sem = semaphores s ! i"
  define j where "j = nat (s_mutex sem)"
  have ok: "i < MAX_SEMAPHORES" "length (semaphores s) = MAX_SEMAPHORES" "s_used sem"
      "s_mutex sem = int j" "live s j" "m_mutex (mutexes s ! j) = 0" "mutex_wf (mutexes s ! j)"
    using assms table_ok_nth [of s j] by (auto simp: sem_ok_def sem_def j_def Let_def live_def)
  have lock: "lockMutex (s_mutex sem) s = Ret () (s\<lparr>mutexes := (mutexes s)[j := acquired (mutexes s ! j)]\<rparr>)"
    using lockMutex_free [OF ok(5,7,6)] ok(4) by simp
  have valid: "isValidSemaphore (int i) s = Inr (True, s)"
    using ok(1,3) by (simp add: isValidSemaphore_def sem_def)
  show ?thesis
    unfolding wait_def using ok(1,2) lock
    by (simp add: kbind_def [of "kcall _"] kbind_def [of "lockMutex _"] kcall_def valid wait_test_def Let_def
        flip: sem_def j_def)
qed

lemma wait_passes:
  assumes "sem_ok i s" and "0 < s_semaphore (semaphores s ! i)"
  shows "wait (int i) s = Ret () (s\<lparr>semaphores := (semaphores s)[i :=
    (semaphores s ! i)\<lparr>s_semaphore := s_semaphore (semaphores s ! i) - 1\<rparr>]\<rparr>)"
proof -
  define j where "j = nat (s_mutex (semaphores s ! i))"
  have ok: "s_mutex (semaphores s ! i) = int j" "live s j" "m_mutex (mutexes s ! j) = 0" "mutex_wf (mutexes s ! j)"
      "length (mutexes s) = MAX_MUTEXES"
    using assms(1) table_ok_nth [of s j] by (auto simp: sem_ok_def j_def Let_def live_def table_ok_def)
  have "freeMutex (int j) (wait_test i s) = Inr ((), (wait_test i s)\<lparr>mutexes := (mutexes (wait_test i s))[j := mutexes s ! j]\<rparr>)"
    by (rule freeMutex_undo) (use ok in \<open>auto simp: wait_test_def Let_def live_def j_def\<close>)
  then show ?thesis
    using wait_enter [OF assms(1)] assms(2) ok(1) by (simp add: wait_test_def Let_def)
qed

lemma addToSemBlocked_room:
  assumes "i < MAX_SEMAPHORES" and "length (s_queue (semaphores s ! i)) = MAX_BLOCKED_QUEUE_SIZE"
    and "length (waiting (s_queue (semaphores s ! i))) < MAX_BLOCKED_QUEUE_SIZE" and "pid \<noteq> -1"
  obtains k us ws where "waiting (s_queue (semaphores s ! i)) = us @ ws"
    and "waiting ((s_queue (semaphores s ! i))[k := pid]) = us @ pid # ws"
    and "addToSemBlocked (int i) pid s = Inr ((), s\<lparr>semaphores := (semaphores s)[i := (semaphores s ! i)
       \<lparr>s_queue := (s_queue (semaphores s ! i))[k := pid],
        s_cardinalBlocked := s_cardinalBlocked (semaphores s ! i) + 1\<rparr>]\<rparr>)"
proof -
  define q where "q = s_queue (semaphores s ! i)"
  obtain k where k: "scan MAX_BLOCKED_QUEUE_SIZE (\<lambda>j. q ! j = -1) = Some k"
    using waiting_room [of q] assms(2,3) by (auto simp: q_def)
  have place: "k < length q" "q ! k = -1" using scan_SomeD [OF k] assms(2) by (simp_all add: q_def)
  obtain us ws where "waiting q = us @ ws" "waiting (q[k := pid]) = us @ pid # ws"
    using waiting_fill [OF place assms(4)] by blast
  moreover have "addToSemBlocked (int i) pid s = Inr ((), s\<lparr>semaphores := (semaphores s)[i := (semaphores s ! i)
       \<lparr>s_queue := q[k := pid], s_cardinalBlocked := s_cardinalBlocked (semaphores s ! i) + 1\<rparr>]\<rparr>)"
    using assms(1) k
    by (simp add: addToSemBlocked_def getFreeSpotInBlockedQueue_def set_sem_def ebind_def flip: q_def)
  ultimately show thesis using that by (simp add: q_def)
qed

text \<open>
  Without a unit left the process leaves its pid in the array, blocks and frees the mutex before it
  gives the processor up.
\<close>

lemma wait_blocks:
  assumes "sem_ok i s" and "s_semaphore (semaphores s ! i) \<le> 0"
    and "length (waiting (s_queue (semaphores s ! i))) < MAX_BLOCKED_QUEUE_SIZE"
  obtains t us ws where "wait (int i) s = yield t" and "sem_ok i t"
    and "s_semaphore (semaphores t ! i) = s_semaphore (semaphores s ! i) - 1"
    and "waiting (s_queue (semaphores s ! i)) = us @ ws"
    and "waiting (s_queue (semaphores t ! i)) = us @ running_pid s # ws"
    and "in_state t (running_pid s) BLOCKED"
    and "\<And>p x. p \<noteq> running_pid s \<Longrightarrow> in_state t p x = in_state s p x"
    and "mutexes t = mutexes s"
proof -
  define sem where "sem = semaphores s ! i"
  define j where "j = nat (s_mutex sem)"
  define m where "m = mutexes s ! j"
  have ok: "i < MAX_SEMAPHORES" "length (semaphores s) = MAX_SEMAPHORES" "s_used sem" "sem_wf sem"
      "s_mutex sem = int j" "live s j" "m_mutex m = 0" "mutex_wf m" "table_ok s" "pids_ok s" "length (mutexes s) = MAX_MUTEXES"
    using assms(1) table_ok_nth [of s j] by (auto simp: sem_ok_def sem_def j_def m_def Let_def live_def table_ok_def)
  define u where "u = wait_test i s"
  have usem: "semaphores u ! i = sem\<lparr>s_semaphore := s_semaphore sem - 1\<rparr>" "length (semaphores u) = MAX_SEMAPHORES"
      and umut: "mutexes u = (mutexes s)[j := acquired m]"
    using ok by (simp_all add: u_def wait_test_def Let_def flip: sem_def j_def m_def)
  have usched: "same_sched s u" by (simp add: u_def wait_test_def Let_def same_sched_def)
  have pid: "getCurrentPid u = Inr (running_pid s, u)" "running_pid s \<noteq> -1"
    using ok(10) running_pid_ok [OF ok(10)] getCurrentPid_ring [of u] same_sched_facts [OF usched]
    by (auto simp: pids_ok_def)
  obtain k us ws where k: "waiting (s_queue sem) = us @ ws" "waiting ((s_queue sem)[k := running_pid s]) = us @ running_pid s # ws"
      "addToSemBlocked (int i) (running_pid s) u = Inr ((), u\<lparr>semaphores := (semaphores u)[i := (semaphores u ! i)
       \<lparr>s_queue := (s_queue sem)[k := running_pid s], s_cardinalBlocked := s_cardinalBlocked sem + 1\<rparr>]\<rparr>)"
  proof (rule addToSemBlocked_room [of i u "running_pid s"])
    show "i < MAX_SEMAPHORES" "running_pid s \<noteq> -1" by (fact ok(1) pid(2))+
    show "length (s_queue (semaphores u ! i)) = MAX_BLOCKED_QUEUE_SIZE"
        "length (waiting (s_queue (semaphores u ! i))) < MAX_BLOCKED_QUEUE_SIZE"
      using ok(4) assms(3) by (simp_all add: usem sem_wf_def flip: sem_def)
    fix k us ws
    assume "waiting (s_queue (semaphores u ! i)) = us @ ws"
      "waiting ((s_queue (semaphores u ! i))[k := running_pid s]) = us @ running_pid s # ws"
      "addToSemBlocked (int i) (running_pid s) u = Inr ((), u\<lparr>semaphores := (semaphores u)[i := (semaphores u ! i)
       \<lparr>s_queue := (s_queue (semaphores u ! i))[k := running_pid s],
        s_cardinalBlocked := s_cardinalBlocked (semaphores u ! i) + 1\<rparr>]\<rparr>)"
    moreover have "s_queue (semaphores u ! i) = s_queue sem" "s_cardinalBlocked (semaphores u ! i) = s_cardinalBlocked sem"
      by (simp_all add: usem)
    ultimately show thesis by (intro that [of us ws k]) (simp_all only:)
  qed
  define v where "v = u\<lparr>semaphores := (semaphores u)[i := (semaphores u ! i)
       \<lparr>s_queue := (s_queue sem)[k := running_pid s], s_cardinalBlocked := s_cardinalBlocked sem + 1\<rparr>]\<rparr>"
  have v: "pids_ok v" "in_state v = in_state s" using ok(10) same_sched_facts [OF usched] by (simp_all add: v_def)
  obtain w where w: "changeProcessState (running_pid s) BLOCKED v = Inr ((), w)" "w = v\<lparr>procs := procs w\<rparr>" "pids_ok w"
      "\<And>p x. p \<noteq> running_pid s \<Longrightarrow> in_state w p x = in_state s p x" "in_state w (running_pid s) BLOCKED"
    using changeProcessState_effect [OF v(1), of "running_pid s" BLOCKED] running_in_state [OF ok(10)] v(2) by metis
  have wf: "mutexes w = (mutexes s)[j := acquired m]" "semaphores w = semaphores v"
    by (subst w(2), simp add: v_def umut)+
  define t where "t = w\<lparr>mutexes := mutexes s\<rparr>"
  have "freeMutex (int j) w = Inr ((), w\<lparr>mutexes := (mutexes w)[j := m]\<rparr>)"
    by (rule freeMutex_undo) (use ok in \<open>auto simp: wf live_def m_def\<close>)
  then have free: "freeMutex (s_mutex sem) w = Inr ((), t)" using ok(5) by (simp add: wf t_def m_def)
  have run: "wait (int i) s = yield t"
    using wait_enter [OF assms(1)] assms(2) pid(1) k(3) w(1) free
    by (simp add: kbind_def kcall_def flip: u_def v_def sem_def)
  have sem_t: "semaphores t ! i = sem\<lparr>s_semaphore := s_semaphore sem - 1,
      s_queue := (s_queue sem)[k := running_pid s], s_cardinalBlocked := s_cardinalBlocked sem + 1\<rparr>"
      "length (semaphores t) = MAX_SEMAPHORES"
    using usem ok(1) by (simp_all add: t_def wf v_def)
  have "sem_wf (semaphores t ! i)"
    using ok(4) k(1,2) assms(2) unfolding sem_t by (auto simp: sem_wf_def max_def simp flip: sem_def)
  then have "sem_ok i t"
    using ok w(3) sem_t by (simp add: sem_ok_def Let_def table_ok_def live_def) (simp add: t_def m_def)
  then show thesis
    using that [OF run] sem_t k(1,2) w(4,5) by (simp add: t_def flip: sem_def)
qed

lemma isValidSemaphore_ok: "sem_ok i s \<Longrightarrow> isValidSemaphore (int i) s = Inr (True, s)"
  by (simp add: isValidSemaphore_def sem_ok_def)

lemma sem_ok_update:
  assumes "sem_ok i s" and "sem_wf sem" and "s_used sem" and "s_mutex sem = s_mutex (semaphores s ! i)"
  shows "sem_ok i (s\<lparr>semaphores := (semaphores s)[i := sem]\<rparr>)"
  using assms by (simp add: sem_ok_def Let_def table_ok_def live_def)

lemma signal_counts:
  assumes "sem_ok i s" and "waiting (s_queue (semaphores s ! i)) = []"
  shows "signal (int i) s = Inr ((), s\<lparr>semaphores := (semaphores s)[i :=
    (semaphores s ! i)\<lparr>s_semaphore := s_semaphore (semaphores s ! i) + 1\<rparr>]\<rparr>)"
  using assms isValidSemaphore_ok [OF assms(1)]
  by (simp add: signal_def ebind_def sem_ok_def sem_wf_def)

lemma signal_wakes:
  assumes "sem_ok i s" and "waiting (s_queue (semaphores s ! i)) = w # ws"
  obtains t where "signal (int i) s = Inr ((), t)" and "sem_ok i t"
    and "s_semaphore (semaphores t ! i) = s_semaphore (semaphores s ! i) + 1"
    and "waiting (s_queue (semaphores t ! i)) = ws"
    and "\<And>x. in_state s w x \<Longrightarrow> in_state t w READY"
    and "\<And>p x. p \<noteq> w \<Longrightarrow> in_state t p x = in_state s p x"
proof -
  define sem where "sem = semaphores s ! i"
  have ok: "i < MAX_SEMAPHORES" "length (semaphores s) = MAX_SEMAPHORES" "sem_wf sem" "pids_ok s" "s_used sem"
    using assms(1) by (auto simp: sem_ok_def sem_def)
  obtain k where k: "scan MAX_BLOCKED_QUEUE_SIZE (\<lambda>j. s_queue sem ! j \<noteq> -1) = Some k"
    using waiting_some [of "s_queue sem"] assms(2) ok(3) by (auto simp: sem_wf_def sem_def)
  have w: "s_queue sem ! k = w" "waiting ((s_queue sem)[k := -1]) = ws"
    using waiting_take_first [OF k] ok(3) assms(2) by (simp_all add: sem_wf_def sem_def)
  obtain u where u: "changeProcessState w READY s = Inr ((), u)" "u = s\<lparr>procs := procs u\<rparr>" "pids_ok u"
      "\<And>p x. p \<noteq> w \<Longrightarrow> in_state u p x = in_state s p x" "\<And>x y. in_state s w x \<Longrightarrow> in_state u w y \<longleftrightarrow> y = READY"
    using changeProcessState_effect [OF ok(4), of w READY] by metis
  have su: "semaphores u = semaphores s" "mutexes u = mutexes s" by (subst u(2), simp)+
  have ok_u: "sem_ok i u"
    using assms(1) u(3) by (simp add: sem_ok_def su table_ok_def live_def)
  define n where "n = sem\<lparr>s_queue := (s_queue sem)[k := -1], s_cardinalBlocked := s_cardinalBlocked sem - 1,
    s_semaphore := s_semaphore sem + 1\<rparr>"
  have card: "0 < s_cardinalBlocked sem" using ok(3) assms(2) by (simp add: sem_wf_def sem_def)
  have unb: "unblockProcessSemaphore (int i) s =
      Inr ((), u\<lparr>semaphores := (semaphores s)[i := sem\<lparr>s_queue := (s_queue sem)[k := -1]\<rparr>]\<rparr>)"
    using ok(1) k w(1) u(1) by (simp add: unblockProcessSemaphore_def ebind_def su flip: sem_def)
  have run: "signal (int i) s = Inr ((), u\<lparr>semaphores := (semaphores u)[i := n]\<rparr>)"
    using ok(1,2) card unb isValidSemaphore_ok [OF assms(1)]
    by (simp add: signal_def ebind_def su n_def flip: sem_def)
  have "sem_wf n" using ok(3) w(2) assms(2) by (auto simp: sem_wf_def n_def sem_def max_def split: if_splits)
  then have "sem_ok i (u\<lparr>semaphores := (semaphores u)[i := n]\<rparr>)"
    by (rule sem_ok_update [OF ok_u]) (simp_all add: n_def ok(5) su flip: sem_def)
  with run show thesis
    using u(4,5) w(2) ok(1,2) by (intro that [OF run]) (simp_all add: su, simp_all add: n_def flip: sem_def)
qed

section \<open>Every interleaving\<close>

text \<open>
  \<open>sem_run i n s passed v W\<close>: the kernel can reach \<open>s\<close> from a state in which the semaphore \<open>i\<close> had the
  value \<open>n\<close>; since then \<open>passed\<close> calls of \<open>wait\<close> have returned, \<open>signal\<close> was called \<open>v\<close> times, and the
  processes \<open>W\<close> are suspended inside \<open>wait\<close>.  \<open>other\<close> is every other step of the kernel, which
  leaves the semaphore and its mutex alone and wakes or kills nobody who is blocked in it.  That
  there is room in the array is a premise of \<open>block\<close>: what happens without it is the subject of
  \<open>wait_forgets_waiter\<close>.
\<close>

inductive sem_run :: "nat \<Rightarrow> int \<Rightarrow> 'a ssem_scheme \<Rightarrow> nat \<Rightarrow> nat \<Rightarrow> int set \<Rightarrow> bool" for i n where
  start: "sem_ok i s \<Longrightarrow> s_semaphore (semaphores s ! i) = n \<Longrightarrow> 0 \<le> n \<Longrightarrow> sem_run i n s 0 0 {}"
| other: "sem_run i n s passed v W \<Longrightarrow> sem_ok i t \<Longrightarrow> semaphores t ! i = semaphores s ! i \<Longrightarrow>
    (\<And>p. p \<in> W \<Longrightarrow> in_state s p BLOCKED \<Longrightarrow> in_state t p BLOCKED) \<Longrightarrow> sem_run i n t passed v W"
| pass: "sem_run i n s passed v W \<Longrightarrow> running_pid s \<notin> W \<Longrightarrow> wait (int i) s = Ret () t \<Longrightarrow>
    sem_run i n t (Suc passed) v W"
| block: "sem_run i n s passed v W \<Longrightarrow> running_pid s \<notin> W \<Longrightarrow> wait (int i) s = Yield t k \<Longrightarrow>
    length (waiting (s_queue (semaphores s ! i))) < MAX_BLOCKED_QUEUE_SIZE \<Longrightarrow>
    sem_run i n t passed v (insert (running_pid s) W)"
| resume: "sem_run i n s passed v W \<Longrightarrow> p \<in> W \<Longrightarrow> \<not> in_state s p BLOCKED \<Longrightarrow> sem_run i n s (Suc passed) v (W - {p})"
| post: "sem_run i n s passed v W \<Longrightarrow> running_pid s \<notin> W \<Longrightarrow> signal (int i) s = Inr ((), t) \<Longrightarrow>
    sem_run i n t passed (Suc v) W"

text \<open>
  Every unit is accounted for: it is still in the semaphore, or somebody took it, or it was given to
  a process that has not run since; a negative value counts the processes in the array.
\<close>

definition sem_inv :: "nat \<Rightarrow> int \<Rightarrow> 'a ssem_scheme \<Rightarrow> nat \<Rightarrow> nat \<Rightarrow> int set \<Rightarrow> bool" where
  "sem_inv i n s passed v W \<longleftrightarrow> sem_ok i s \<and> finite W \<and>
     (let sem = semaphores s ! i; ws = waiting (s_queue sem) in
        distinct ws \<and> set ws \<subseteq> W \<and> (\<forall>p\<in>set ws. in_state s p BLOCKED) \<and>
        int passed + int (card (W - set ws)) + s_semaphore sem + int (length ws) = n + int v)"

lemma sem_inv_frame:
  assumes "sem_inv i n s passed v W" and "sem_ok i t" and "semaphores t ! i = semaphores s ! i"
    and "\<And>p. p \<in> W \<Longrightarrow> in_state s p BLOCKED \<Longrightarrow> in_state t p BLOCKED"
  shows "sem_inv i n t passed v W"
  using assms by (auto simp: sem_inv_def Let_def)

lemma sem_wf_waiting: "sem_wf sem \<Longrightarrow> waiting (s_queue sem) = [] \<longleftrightarrow> 0 \<le> s_semaphore sem"
  by (cases "waiting (s_queue sem)") (auto simp: sem_wf_def max_def split: if_splits)

lemma sem_inv_pass:
  assumes "sem_inv i n s passed v W" and "0 < s_semaphore (semaphores s ! i)" and "wait (int i) s = Ret () t"
  shows "sem_inv i n t (Suc passed) v W"
proof -
  define sem where "sem = semaphores s ! i"
  have ok: "sem_ok i s" "i < length (semaphores s)" "sem_wf sem" "s_used sem" using assms(1) by (auto simp: sem_inv_def sem_ok_def sem_def)
  have t: "t = s\<lparr>semaphores := (semaphores s)[i := sem\<lparr>s_semaphore := s_semaphore sem - 1\<rparr>]\<rparr>"
    using wait_passes [OF ok(1) assms(2)] assms(3) by (simp add: sem_def)
  have "sem_wf (sem\<lparr>s_semaphore := s_semaphore sem - 1\<rparr>)"
    using ok(3) assms(2) by (auto simp: sem_wf_def sem_def)
  then have "sem_ok i t"
    unfolding t by (rule sem_ok_update [OF ok(1)]) (simp_all add: ok(4) flip: sem_def)
  then show ?thesis
    using assms(1) ok(2) by (auto simp: sem_inv_def Let_def t simp flip: sem_def)
qed

lemma sem_inv_block:
  assumes "sem_inv i n s passed v W" and "running_pid s \<notin> W" and "wait (int i) s = Yield t k"
    and "length (waiting (s_queue (semaphores s ! i))) < MAX_BLOCKED_QUEUE_SIZE"
  shows "sem_inv i n t passed v (insert (running_pid s) W)"
proof -
  have ok: "sem_ok i s" using assms(1) by (simp add: sem_inv_def)
  have le: "s_semaphore (semaphores s ! i) \<le> 0"
    using wait_passes [OF ok] assms(3) by (cases "0 < s_semaphore (semaphores s ! i)") auto
  obtain u us ws where u: "wait (int i) s = yield u" "sem_ok i u"
      "s_semaphore (semaphores u ! i) = s_semaphore (semaphores s ! i) - 1"
      "waiting (s_queue (semaphores s ! i)) = us @ ws"
      "waiting (s_queue (semaphores u ! i)) = us @ running_pid s # ws"
      "in_state u (running_pid s) BLOCKED" "\<And>p x. p \<noteq> running_pid s \<Longrightarrow> in_state u p x = in_state s p x"
    using wait_blocks [OF ok le assms(4)] by metis
  have "yield u = Yield t k" using u(1) assms(3) by simp
  moreover have "pids_ok u" using u(2) by (simp add: sem_ok_def)
  ultimately have t: "pids_ok t" "\<And>p. in_state u p BLOCKED \<Longrightarrow> in_state t p BLOCKED"
      and frame: "t = u\<lparr>procs := procs t, current := current t, threads := threads t, cpu_rsp := cpu_rsp t\<rparr>"
    using yield_effect by blast+
  have same: "semaphores t = semaphores u" "mutexes t = mutexes u" by (subst frame, simp)+
  have old: "distinct (us @ ws)" "set (us @ ws) \<subseteq> W" "finite W" "\<forall>p\<in>set (us @ ws). in_state s p BLOCKED"
      "int passed + int (card (W - set (us @ ws))) + s_semaphore (semaphores s ! i) + int (length (us @ ws)) = n + int v"
    using assms(1) u(4) by (auto simp: sem_inv_def Let_def)
  have diff: "insert (running_pid s) W - set (us @ running_pid s # ws) = W - set (us @ ws)"
    using assms(2) old(2) by auto
  have "in_state u p BLOCKED" if "p \<in> set (us @ running_pid s # ws)" for p
    using that u(6,7) old(4) by (cases "p = running_pid s") auto
  moreover have "distinct (us @ running_pid s # ws)" using old(1,2) assms(2) by auto
  moreover have "set (us @ running_pid s # ws) \<subseteq> insert (running_pid s) W" using old(2) by auto
  ultimately have "sem_inv i n u passed v (insert (running_pid s) W)"
    unfolding sem_inv_def Let_def u(5) diff using old(3,5) u(2,3) by simp
  then show ?thesis
    by (rule sem_inv_frame) (use t u(2) in \<open>simp_all add: sem_ok_def same table_ok_def live_def\<close>)
qed

lemma sem_inv_resume:
  assumes "sem_inv i n s passed v W" and "p \<in> W" and "\<not> in_state s p BLOCKED"
  shows "sem_inv i n s (Suc passed) v (W - {p})"
proof -
  define ws where "ws = waiting (s_queue (semaphores s ! i))"
  have out: "p \<notin> set ws" using assms by (auto simp: sem_inv_def Let_def ws_def)
  have "W - set ws = insert p (W - {p} - set ws)" using assms(2) out by auto
  moreover have "finite W" using assms(1) by (simp add: sem_inv_def)
  ultimately have "card (W - set ws) = Suc (card (W - {p} - set ws))"
    by (metis Diff_iff card_insert_disjoint finite_Diff insertCI)
  with assms(1) out show ?thesis by (auto simp: sem_inv_def Let_def simp flip: ws_def)
qed

lemma sem_inv_post:
  assumes "sem_inv i n s passed v W" and "signal (int i) s = Inr ((), t)"
  shows "sem_inv i n t passed (Suc v) W"
proof -
  define sem where "sem = semaphores s ! i"
  have ok: "sem_ok i s" "i < length (semaphores s)" "sem_wf sem" "s_used sem" using assms(1) by (auto simp: sem_inv_def sem_ok_def sem_def)
  show ?thesis
  proof (cases "waiting (s_queue sem)")
    case Nil
    then have t: "t = s\<lparr>semaphores := (semaphores s)[i := sem\<lparr>s_semaphore := s_semaphore sem + 1\<rparr>]\<rparr>"
      using signal_counts [OF ok(1)] assms(2) by (simp add: sem_def)
    have "sem_wf (sem\<lparr>s_semaphore := s_semaphore sem + 1\<rparr>)"
      using ok(3) Nil sem_wf_waiting [OF ok(3)] by (auto simp: sem_wf_def)
    then have "sem_ok i t"
      unfolding t by (rule sem_ok_update [OF ok(1)]) (simp_all add: ok(4) flip: sem_def)
    then show ?thesis
      using assms(1) ok(2) by (auto simp: sem_inv_def Let_def t simp flip: sem_def)
  next
    case (Cons w ws)
    obtain t' where t': "signal (int i) s = Inr ((), t')" "sem_ok i t'"
        "s_semaphore (semaphores t' ! i) = s_semaphore sem + 1" "waiting (s_queue (semaphores t' ! i)) = ws"
        "\<And>p x. p \<noteq> w \<Longrightarrow> in_state t' p x = in_state s p x"
      using signal_wakes [OF ok(1) Cons [unfolded sem_def]] unfolding sem_def by metis
    have t: "t' = t" using t'(1) assms(2) by simp
    have old: "distinct (w # ws)" "set (w # ws) \<subseteq> W" "finite W" "\<forall>p\<in>set (w # ws). in_state s p BLOCKED"
        "int passed + int (card (W - set (w # ws))) + s_semaphore sem + int (length (w # ws)) = n + int v"
      using assms(1) Cons by (auto simp: sem_inv_def Let_def simp flip: sem_def)
    have "W - set ws = insert w (W - set (w # ws))" using old(1,2) by auto
    then have "card (W - set ws) = card (insert w (W - set (w # ws)))" by (rule arg_cong)
    also have "\<dots> = Suc (card (W - set (w # ws)))"
      by (rule card_insert_disjoint) (use old(3) in simp_all)
    finally have "card (W - set ws) = Suc (card (W - set (w # ws)))" .
    then have "int passed + int (card (W - set ws)) + (s_semaphore sem + 1) + int (length ws) = n + int (Suc v)"
      using old(5) by (simp only: list.size of_nat_Suc of_nat_add)
    moreover have "\<forall>p\<in>set ws. in_state t p BLOCKED"
    proof
      fix p assume "p \<in> set ws"
      moreover from this have "p \<noteq> w" using old(1) by auto
      ultimately show "in_state t p BLOCKED" using old(4) t'(5) [of p BLOCKED] t by simp
    qed
    moreover have "distinct ws" "set ws \<subseteq> W" using old(1,2) by auto
    ultimately show ?thesis
      unfolding sem_inv_def Let_def t [symmetric] t'(3,4) using t'(2) old(3) by (simp only: simp_thms)
  qed
qed

lemma sem_run_inv: "sem_run i n s passed v W \<Longrightarrow> sem_inv i n s passed v W"
proof (induction rule: sem_run.induct)
  case (start s)
  then have "waiting (s_queue (semaphores s ! i)) = []"
    using sem_wf_waiting by (auto simp: sem_ok_def)
  with start show ?case by (simp add: sem_inv_def Let_def)
next
  case (other s passed v W t)
  show ?case by (rule sem_inv_frame [OF other.IH]) (use other in auto)
next
  case (pass s passed v W t)
  have ok: "sem_ok i s" using pass.IH by (simp add: sem_inv_def)
  have "0 < s_semaphore (semaphores s ! i)"
  proof (rule ccontr)
    assume "\<not> ?thesis"
    then have "wait (int i) s = kbind (kcall getCurrentPid) (\<lambda>pid.
           kbind (kcall (addToSemBlocked (int i) pid)) (\<lambda>_.
           kbind (kcall (changeProcessState pid BLOCKED)) (\<lambda>_.
           kbind (kcall (freeMutex (s_mutex (semaphores s ! i)))) (\<lambda>_. yield)))) (wait_test i s)"
      using wait_enter [OF ok] by simp
    then show False using pass.hyps(3) by (simp add: kbind_def kcall_def split: sum.splits prod.splits)
  qed
  with pass show ?case by (blast intro: sem_inv_pass)
next
  case (block s passed v W t k)
  then show ?case by (blast intro: sem_inv_block)
next
  case (resume s passed v W p)
  then show ?case by (blast intro: sem_inv_resume)
next
  case (post s passed v W t)
  then show ?case by (blast intro: sem_inv_post)
qed

section \<open>Properties\<close>

text \<open>Two semaphores to evaluate on, both with the mutex 1: one with one unit, one with none.\<close>

definition plain_sem :: Semaphore where
  "plain_sem = \<lparr>s_used = True, s_name = Some ''s'', s_queue = replicate 20 (-1), s_semaphore = 1,
     s_cardinalBlocked = 0, s_mutex = 1, s_pidCreator = 0\<rparr>"

definition demo_sem :: ssem where
  "demo_sem = omutex.extend demo_mutex
     \<lparr>semaphores = plain_sem # plain_sem\<lparr>s_semaphore := 0\<rparr> # replicate 48 (plain_sem\<lparr>s_used := False\<rparr>),
      semaphoreMutex = 1\<rparr>"

lemma demo_sem_fields:
  "semaphores demo_sem = plain_sem # plain_sem\<lparr>s_semaphore := 0\<rparr> # replicate 48 (plain_sem\<lparr>s_used := False\<rparr>)"
  "semaphoreMutex demo_sem = 1" "mutexes demo_sem = mutexes demo_mutex"
  by (simp_all add: demo_sem_def omutex.defs)

lemma demo_sem_sched: "same_sched demo_mutex demo_sem"
  by (simp add: same_sched_def demo_sem_def omutex.defs)

lemmas demo_sem_facts = demo_mutex_facts [folded same_sched_facts(2,4) [OF demo_sem_sched]]

lemma sem_ok_demo: "sem_ok 0 demo_sem" "sem_ok 1 demo_sem"
proof -
  have m: "table_ok demo_sem" "live demo_sem 1" "m_mutex (mutexes demo_sem ! 1) = 0"
    using demo_mutex_ok by (simp_all add: demo_sem_fields table_ok_def live_def)
      (simp add: demo_mutex_table free_mutex_def)
  have q: "sem_wf plain_sem" "sem_wf (plain_sem\<lparr>s_semaphore := 0\<rparr>)"
    by (simp_all add: plain_sem_def sem_wf_def waiting_def)
  show "sem_ok 0 demo_sem" "sem_ok 1 demo_sem"
    using m q demo_sem_facts(1) by (simp_all add: sem_ok_def demo_sem_fields Let_def) (simp_all add: plain_sem_def)
qed

text \<open>The array has 20 places.  A 21st caller takes a unit that is not there, is blocked and gives the
  processor up, but its pid is written nowhere: the code prints \<open>MUERTE3\<close>, the array stays as it
  was, and no \<open>signal\<close> of this semaphore will ever name that process.\<close>

theorem wait_forgets_waiter:
  assumes "sem_ok i s" and "length (waiting (s_queue (semaphores s ! i))) = MAX_BLOCKED_QUEUE_SIZE"
  shows "\<exists>t. wait (int i) s = yield t \<and> in_state t (running_pid s) BLOCKED \<and>
    s_queue (semaphores t ! i) = s_queue (semaphores s ! i) \<and>
    s_semaphore (semaphores t ! i) = s_semaphore (semaphores s ! i) - 1 \<and>
    console t = console s @ ''MUERTE3''"
proof -
  define sem where "sem = semaphores s ! i"
  define j where "j = nat (s_mutex sem)"
  have ok: "i < MAX_SEMAPHORES" "length (semaphores s) = MAX_SEMAPHORES" "sem_wf sem" "s_mutex sem = int j"
      "live s j" "m_mutex (mutexes s ! j) = 0" "mutex_wf (mutexes s ! j)" "pids_ok s" "length (mutexes s) = MAX_MUTEXES"
    using assms(1) table_ok_nth [of s j] by (auto simp: sem_ok_def sem_def j_def Let_def live_def table_ok_def)
  define u where "u = wait_test i s"
  have le: "\<not> 0 < s_semaphore sem" using ok(3) assms(2) by (auto simp: sem_wf_def sem_def)
  have us: "same_sched s u" by (simp add: u_def wait_test_def Let_def same_sched_def)
  have pid: "getCurrentPid u = Inr (running_pid s, u)"
    using ok(8) getCurrentPid_ring [of u] same_sched_facts [OF us] by (auto simp: pids_ok_def)
  define v where "v = u\<lparr>console := console u @ ''MUERTE3''\<rparr>"
  have no_room: "scan 20 (\<lambda>j. s_queue sem ! j = -1) = None"
    using used_count_less_iff [of "-1" "s_queue sem"] assms(2) ok(3)
    by (auto simp: scan_None_iff sem_wf_def length_waiting simp flip: sem_def)
  have usem: "semaphores u ! i = sem\<lparr>s_semaphore := s_semaphore sem - 1\<rparr>"
    using ok(1,2) by (simp add: u_def wait_test_def Let_def flip: sem_def)
  have add: "addToSemBlocked (int i) (running_pid s) u = Inr ((), v)"
    using ok(1) no_room usem
    by (simp add: addToSemBlocked_def getFreeSpotInBlockedQueue_def ebind_def ncPrint_def v_def)
  have vs: "same_sched s v" using us by (simp add: v_def same_sched_def)
  obtain w where w: "changeProcessState (running_pid s) BLOCKED v = Inr ((), w)" "w = v\<lparr>procs := procs w\<rparr>"
      "in_state w (running_pid s) BLOCKED"
    using changeProcessState_effect [of v "running_pid s" BLOCKED] running_in_state [OF ok(8)] ok(8)
      same_sched_facts [OF vs] by metis
  have wf: "mutexes w = (mutexes s)[j := acquired (mutexes s ! j)]" "semaphores w = semaphores u"
      "console w = console s @ ''MUERTE3''"
    by (subst w(2), simp add: v_def u_def wait_test_def Let_def flip: sem_def j_def)+
  have "freeMutex (int j) w = Inr ((), w\<lparr>mutexes := (mutexes w)[j := mutexes s ! j]\<rparr>)"
    by (rule freeMutex_undo) (use ok in \<open>auto simp: wf live_def\<close>)
  then have "wait (int i) s = yield (w\<lparr>mutexes := (mutexes w)[j := mutexes s ! j]\<rparr>)"
    using wait_enter [OF assms(1)] le pid add w(1) ok(4)
    by (simp add: kbind_def kcall_def flip: u_def sem_def)
  then show ?thesis using w(3) usem by (auto simp: wf simp flip: sem_def)
qed

theorem wait_forgets_waiter_witness:
  "\<exists>t. wait 1 (demo_sem\<lparr>semaphores := (semaphores demo_sem)[1 := plain_sem\<lparr>s_semaphore := -20,
       s_queue := replicate 20 7, s_cardinalBlocked := 20\<rparr>]\<rparr>) = yield t \<and> in_state t 0 BLOCKED"
proof -
  let ?s = "demo_sem\<lparr>semaphores := (semaphores demo_sem)[1 := plain_sem\<lparr>s_semaphore := -20,
       s_queue := replicate 20 7, s_cardinalBlocked := 20\<rparr>]\<rparr>"
  have "sem_ok 1 ?s"
    by (rule sem_ok_update [OF sem_ok_demo(2)]) (simp_all add: sem_wf_def waiting_def demo_sem_fields plain_sem_def)
  moreover have "length (waiting (s_queue (semaphores ?s ! 1))) = MAX_BLOCKED_QUEUE_SIZE"
    by (simp add: demo_sem_fields waiting_def)
  moreover have "running_pid ?s = 0" by (simp add: demo_sem_facts)
  ultimately show ?thesis using wait_forgets_waiter [of 1 ?s] by auto
qed

text \<open>C13. What a counting semaphore promises, in every interleaving in which no call of \<open>wait\<close> finds the array of 20 waiting
  processes full, and in which nobody kills or wakes a waiting process but \<open>signal\<close>: the calls of \<open>wait\<close> that have returned are
  at most the start value plus the calls of \<open>signal\<close>; and while a process waits in the array every unit is
  spoken for, so no wake-up is lost.  Of a caller that finds the array full the third part says what becomes: it takes a
  unit, is blocked and gives the processor up, but no place of the array names it.
\<close>

theorem semaphore_counts:
  assumes "sem_run i n s passed v W"
  shows "int passed \<le> n + int v \<and>
    (waiting (s_queue (semaphores s ! i)) \<noteq> [] \<longrightarrow>
       int passed + int (card (W - set (waiting (s_queue (semaphores s ! i))))) = n + int v) \<and>
    (length (waiting (s_queue (semaphores s ! i))) = MAX_BLOCKED_QUEUE_SIZE \<longrightarrow>
       (\<exists>t. wait (int i) s = yield t \<and> in_state t (running_pid s) BLOCKED \<and>
          s_queue (semaphores t ! i) = s_queue (semaphores s ! i) \<and>
          s_semaphore (semaphores t ! i) = s_semaphore (semaphores s ! i) - 1))"
proof -
  define sem where "sem = semaphores s ! i"
  have inv: "int passed + int (card (W - set (waiting (s_queue sem)))) + s_semaphore sem + int (length (waiting (s_queue sem))) = n + int v"
      "sem_wf sem" "sem_ok i s"
    using sem_run_inv [OF assms] by (simp_all add: sem_inv_def sem_ok_def Let_def sem_def)
  then have "int passed \<le> n + int v \<and>
      (waiting (s_queue sem) \<noteq> [] \<longrightarrow> int passed + int (card (W - set (waiting (s_queue sem)))) = n + int v)"
    using sem_wf_waiting [OF inv(2)] by (auto simp: sem_wf_def)
  then show ?thesis using wait_forgets_waiter [OF inv(3)] unfolding sem_def by blast
qed

theorem semaphore_counts_witness:
  "\<exists>t. wait 0 demo_sem = Ret () t \<and> int (Suc 0) \<le> s_semaphore (semaphores demo_sem ! 0) + int 0"
proof -
  have one: "s_semaphore (semaphores demo_sem ! 0) = 1" by (simp add: demo_sem_fields plain_sem_def)
  obtain t where t: "wait (int 0) demo_sem = Ret () t"
    using wait_passes [OF sem_ok_demo(1)] one by simp
  have "sem_run 0 1 demo_sem 0 0 {}" using sem_ok_demo(1) one by (rule sem_run.start) simp
  then have "sem_run 0 1 t (Suc 0) 0 {}" by (rule sem_run.pass) (use t in simp_all)
  from semaphore_counts [OF this] t one show ?thesis by auto
qed

text \<open>\<open>semCreate\<close> with a name that is taken returns \<open>ERROR\<close> without freeing \<open>semaphoreMutex\<close>: whoever
  creates a semaphore after that is put to sleep on it.\<close>

theorem semCreate_keeps_lock:
  assumes "semaphoreMutex s = int j" and "live s j" and "table_ok s" and "pids_ok s"
    and "m_mutex (mutexes s ! j) = 0" and "getSemIndex nul name s \<noteq> SEMAPHORE_NOT_FOUND"
  shows "\<exists>t. semCreate nul name start s = Ret ERROR t \<and> m_mutex (mutexes t ! j) = 1 \<and>
    (\<forall>n v. \<exists>u. semCreate nul n v t =
       bindr (yield u) (\<lambda>_. kbind (kget (getSemIndex nul n)) (\<lambda>index.
         if index \<noteq> MUTEX_NOT_FOUND then kreturn ERROR
         else kbind (createSemaphore nul n v) (\<lambda>index.
              kbind (kget semaphoreMutex) (\<lambda>m. kbind (kcall (freeMutex m)) (\<lambda>_. kreturn index))))) \<and>
       in_state u (running_pid t) BLOCKED)"
proof -
  define m where "m = mutexes s ! j"
  have j: "j < MAX_MUTEXES" "m_used m" "mutex_wf m" "length (mutexes s) = MAX_MUTEXES"
    using assms(2,3) table_ok_nth [of s j] by (auto simp: live_def m_def table_ok_def)
  define t where "t = s\<lparr>mutexes := (mutexes s)[j := acquired m]\<rparr>"
  have lock: "lockMutex (int j) s = Ret () t"
    using lockMutex_free [OF assms(2)] j(3) assms(5) by (simp add: t_def flip: m_def)
  have found: "getSemIndex nul name t = getSemIndex nul name s" by (simp add: getSemIndex_def t_def)
  have ret: "semCreate nul name start s = Ret ERROR t"
    using assms(1,6) found by (simp add: semCreate_def kbind_def lock)
  have mt: "mutexes t ! j = acquired m" using j by (simp add: t_def)
  have wq: "waiting (m_queue m) = []" using j(3) assms(5) by (auto simp: mutex_wf_def simp flip: m_def)
  then have tab: "table_ok t" "live t j"
    using table_ok_update [OF assms(3), of "acquired m" j] j mt
    by (auto simp: t_def mutex_wf_def acquired_def live_def)
  obtain u where u: "block_on (int j) t = Inr ((), u)" "in_state u (running_pid t) BLOCKED"
  proof (rule block_on_effect [OF tab(2,1)])
    show "m_mutex (mutexes t ! j) = 1" "length (waiting (m_queue (mutexes t ! j))) < MAX_BLOCKED_QUEUE_SIZE"
      using wq by (simp_all add: mt acquired_def)
    show "pids_ok t" using assms(4) by (simp add: t_def)
  qed (use that in blast)
  have "lockMutex (int j) t = yield u"
    using lockMutex_held [OF tab(2) _ u(1)] by (simp add: mt acquired_def)
  moreover have "semaphoreMutex t = int j" by (simp add: t_def assms(1))
  ultimately show ?thesis
    using ret u(2) mt by (intro exI [of _ t]) (auto simp: acquired_def semCreate_def kbind_def)
qed

theorem semCreate_keeps_lock_witness:
  "\<exists>t. semCreate '''' ''s'' 3 demo_sem = Ret ERROR t \<and> m_mutex (mutexes t ! 1) = 1"
proof -
  have "scan MAX_SEMAPHORES (\<lambda>i. strcmp (c_name '''' (s_name (semaphores demo_sem ! i))) ''s'' = 0 \<and>
      s_used (semaphores demo_sem ! i)) = Some 0"
    by (simp add: scan_Some_iff demo_sem_fields plain_sem_def c_name_def)
  then have found: "getSemIndex '''' ''s'' demo_sem \<noteq> SEMAPHORE_NOT_FOUND" by (simp add: getSemIndex_def)
  have "\<exists>t. semCreate '''' ''s'' 3 demo_sem = Ret ERROR t \<and> m_mutex (mutexes t ! 1) = 1 \<and>
    (\<forall>n v. \<exists>u. semCreate '''' n v t =
       bindr (yield u) (\<lambda>_. kbind (kget (getSemIndex '''' n)) (\<lambda>index.
         if index \<noteq> MUTEX_NOT_FOUND then kreturn ERROR
         else kbind (createSemaphore '''' n v) (\<lambda>index.
              kbind (kget semaphoreMutex) (\<lambda>m. kbind (kcall (freeMutex m)) (\<lambda>_. kreturn index))))) \<and>
       in_state u (running_pid t) BLOCKED)"
  proof (rule semCreate_keeps_lock)
    show "table_ok demo_sem" "live demo_sem 1"
      using demo_mutex_ok by (simp_all add: demo_sem_fields table_ok_def live_def)
    show "m_mutex (mutexes demo_sem ! 1) = 0" by (simp add: demo_sem_fields demo_mutex_table free_mutex_def)
    show "pids_ok demo_sem" by (rule demo_sem_facts(1))
    show "semaphoreMutex demo_sem = int 1" by (simp add: demo_sem_fields)
  qed (rule found)
  then show ?thesis by blast
qed

end
