(* ===== verification/IPC.thy ===== *)
theory IPC
  imports Semaphores RingBuffer
begin

text \<open>
  The pipes of Kernel/IPC.c: a pipe is a ring buffer of ten bytes in the page of the process that
  created it, with a mutex, the pids of its readers that sleep, and an entry in a table of names.
  The structures live in the map \<open>pipe_structs\<close>, the bytes and the arrays of pids in raw memory.

  The lemmas show that a pipe is a bounded first-in first-out byte queue, and name the calls for
  which it is not.
\<close>

section \<open>State\<close>

abbreviation (input) MAX_PIPES :: nat where
  "MAX_PIPES \<equiv> 50"

abbreviation (input) NO_SPACE_LEFT :: int where
  "NO_SPACE_LEFT \<equiv> -1"

abbreviation (input) PIPE_NOT_FOUND :: int where
  "PIPE_NOT_FOUND \<equiv> -2"

record Pipe =
  pi_name :: "string option"
  pi_position :: int
  pi_end :: int
  pi_creator :: int
  pi_pipePids :: addr
  pi_blocked :: addr
  pi_cardinalBlocked :: int
  pi_connected :: int
  pi_pipe :: addr
  pi_readFlag :: int
  pi_mutex :: int

record ipc = ssem +
  pipeNames :: "string option list"
  pipes :: "addr list"
  lastPipeName :: int
  ipcAdminMutex :: int
  pipe_structs :: "addr \<Rightarrow> Pipe option"

text \<open>A store into a pipe, and one of an \<open>int\<close> into raw memory.\<close>

definition put_pipe :: "addr \<Rightarrow> Pipe \<Rightarrow> ('a ipc_scheme, unit) eprog" where
  "put_pipe a p s = (if a = NULL then Inl NullDeref else Inr ((), s\<lparr>pipe_structs := (pipe_structs s)(a \<mapsto> p)\<rparr>))"

definition upd_pipe :: "addr \<Rightarrow> (Pipe \<Rightarrow> Pipe) \<Rightarrow> ('a ipc_scheme, unit) eprog" where
  "upd_pipe a f = ebind (deref pipe_structs a) (\<lambda>p. put_pipe a (f p))"

definition store_int :: "addr \<Rightarrow> int \<Rightarrow> ('a ipc_scheme, unit) eprog" where
  "store_int a v s = Inr ((), s\<lparr>ram := write_int a v (ram s)\<rparr>)"

definition pipe_at :: "int \<Rightarrow> ('a ipc_scheme, addr) eprog" where
  "pipe_at i s = (if 0 \<le> i \<and> i < int MAX_PIPES then Inr (pipes s ! nat i, s) else Inl OutOfBounds)"

section \<open>The table of names\<close>

text \<open>The mark of a free place is the two-character string \<open>/n\<close>.\<close>

definition initializePipes :: "string \<Rightarrow> ('a ipc_scheme, unit) kprog" where
  "initializePipes nul =
     kbind (kmodify (\<lambda>s. s\<lparr>pipeNames := replicate MAX_PIPES (Some ''/n''), pipes := replicate MAX_PIPES NULL\<rparr>)) (\<lambda>_.
     kbind (getMutex nul ''ipcAdminMutex'') (\<lambda>m.
     kmodify (\<lambda>s. s\<lparr>ipcAdminMutex := m\<rparr>)))"

definition getPipeNameIndex :: "string \<Rightarrow> string option \<Rightarrow> 'a ipc_scheme \<Rightarrow> int" where
  "getPipeNameIndex nul name s =
     (case scan MAX_PIPES (\<lambda>i. strcmp (c_name nul (pipeNames s ! i)) (c_name nul name) = 0) of
        Some i \<Rightarrow> int i
      | None \<Rightarrow> PIPE_NOT_FOUND)"

definition openPipe :: "string \<Rightarrow> string option \<Rightarrow> ('a ipc_scheme, addr) kprog" where
  "openPipe nul name =
     kbind (kget ipcAdminMutex) (\<lambda>m.
     kbind (lockMutex m) (\<lambda>_.
     kbind (kget (getPipeNameIndex nul name)) (\<lambda>i.
     if i = PIPE_NOT_FOUND then kreturn NULL
     else kbind (kcall (pipe_at i)) (\<lambda>a.
          kbind (kcall (deref pipe_structs a)) (\<lambda>p.
          kbind (kcall getCurrentPid) (\<lambda>pid.
          kbind (kcall (store_int (pi_pipePids p + 4 * pi_connected p) pid)) (\<lambda>_.
          kbind (kcall (upd_pipe a (\<lambda>p. p\<lparr>pi_connected := pi_connected p + 1\<rparr>))) (\<lambda>_.
          kbind (kget ipcAdminMutex) (\<lambda>m.
          kbind (kcall (freeMutex m)) (\<lambda>_. kreturn a))))))))))"

section \<open>Writing\<close>

text \<open>The source calls it \<open>next\<close>.\<close>

definition next_byte :: "addr \<Rightarrow> Pipe \<Rightarrow> addr" where
  "next_byte aux p = (let aux = aux + 1 in if aux = pi_pipe p + PIPE_LENGTH then pi_pipe p else aux)"

fun wake_blocked :: "nat \<Rightarrow> nat \<Rightarrow> addr \<Rightarrow> ('a ipc_scheme, unit) eprog" where
  "wake_blocked 0 j a = ereturn ()"
| "wake_blocked (Suc n) j a =
     ebind (deref pipe_structs a) (\<lambda>p s.
     ebind (changeProcessState (read_int (ram s) (pi_blocked p + 4 * int j)) READY) (\<lambda>_.
     wake_blocked n (j + 1) a) s)"

fun unlockProcesses_loop :: "nat \<Rightarrow> nat \<Rightarrow> string \<Rightarrow> string option \<Rightarrow> ('a ipc_scheme, unit) eprog" where
  "unlockProcesses_loop 0 i nul name = ereturn ()"
| "unlockProcesses_loop (Suc n) i nul name =
     (\<lambda>s. if MAX_PIPES \<le> i then Inl OutOfBounds
      else if strcmp (c_name nul (pipeNames s ! i)) (c_name nul name) = 0
      then ebind (pipe_at (int i)) (\<lambda>a.
           ebind (deref pipe_structs a) (\<lambda>p.
           ebind (wake_blocked (nat (pi_cardinalBlocked p)) 0 a) (\<lambda>_.
           upd_pipe a (\<lambda>p. p\<lparr>pi_cardinalBlocked := 0\<rparr>)))) s
      else unlockProcesses_loop n (i + 1) nul name s)"

definition unlockProcesses :: "string \<Rightarrow> string option \<Rightarrow> ('a ipc_scheme, unit) eprog" where
  "unlockProcesses nul name s = unlockProcesses_loop (nat (lastPipeName s)) 0 nul name s"

text \<open>The copying loop of \<open>write\<close>, on raw memory; \<open>None\<close> when it never ends.\<close>

partial_function (option) write_loop ::
  "(addr \<Rightarrow> 8 word) \<Rightarrow> Pipe \<Rightarrow> addr \<Rightarrow> addr \<Rightarrow> int \<Rightarrow> ((addr \<Rightarrow> 8 word) \<times> int) option" where
  "write_loop m p aux msg bytes =
     (if m msg \<noteq> 0 \<and> ((pi_end p + bytes) smod PIPE_LENGTH \<noteq> pi_position p \<or> bytes = 0)
      then write_loop (m(aux := m msg)) p (next_byte aux p) (msg + 1) (bytes + 1)
      else Some (m, bytes))"

text \<open>
  \<open>write\<close>: the place to write at is read before the mutex is taken.  \<open>write_body\<close> is what happens
  between the two.
\<close>

definition write_body :: "string \<Rightarrow> addr \<Rightarrow> addr \<Rightarrow> addr \<Rightarrow> ('a ipc_scheme, int) eprog" where
  "write_body nul a aux message =
     ebind (deref pipe_structs a) (\<lambda>p.
     if pi_position p = pi_end p \<and> pi_readFlag p = 1
     then ebind getCurrentPid (\<lambda>pid.
          ebind (changeProcessState pid BLOCKED) (\<lambda>_. ereturn 0))
     else (\<lambda>s. case write_loop (ram s) p aux message 0 of
          None \<Rightarrow> Inl Diverges
        | Some (m, bytes) \<Rightarrow>
            ebind (upd_pipe a (\<lambda>p. p\<lparr>pi_end := (pi_end p + bytes) smod PIPE_LENGTH\<rparr>)) (\<lambda>_.
            ebind (upd_pipe a (\<lambda>p. if pi_end p = pi_position p then p\<lparr>pi_readFlag := 1\<rparr> else p)) (\<lambda>_.
            ebind (unlockProcesses nul (pi_name p)) (\<lambda>_. ereturn bytes))) (s\<lparr>ram := m\<rparr>)))"

definition write_pipe :: "string \<Rightarrow> addr \<Rightarrow> addr \<Rightarrow> ('a ipc_scheme, int) kprog" where
  "write_pipe nul a message =
     kbind (kcall (deref pipe_structs a)) (\<lambda>p.
     kbind (lockMutex (pi_mutex p)) (\<lambda>_.
     kbind (kcall (write_body nul a (pi_pipe p + pi_end p) message)) (\<lambda>bytes.
     kbind (kcall (deref pipe_structs a)) (\<lambda>p.
     kbind (kcall (freeMutex (pi_mutex p))) (\<lambda>_. kreturn bytes)))))"

section \<open>Reading\<close>

function read_loop :: "(addr \<Rightarrow> 8 word) \<Rightarrow> Pipe \<Rightarrow> addr \<Rightarrow> addr \<Rightarrow> int \<Rightarrow> int \<Rightarrow> (addr \<Rightarrow> 8 word) \<times> int" where
  "read_loop m p aux result bytes i =
     (if i < bytes \<and> ((i + pi_position p) smod PIPE_LENGTH \<noteq> pi_end p \<or> i = 0)
      then read_loop (m(result + i := m aux)) p (next_byte aux p) result bytes (i + 1)
      else (m, i))"
  by pat_completeness auto

termination
  by (relation "measure (\<lambda>(m, p, aux, result, bytes, i). nat (bytes - i))") auto

declare read_loop.simps [simp del]

definition read_bytes :: "addr \<Rightarrow> addr \<Rightarrow> addr \<Rightarrow> int \<Rightarrow> ('a ipc_scheme, int) eprog" where
  "read_bytes a aux result bytes =
     ebind (deref pipe_structs a) (\<lambda>p s.
     let (m, i) = read_loop (ram s) p aux result (if bytes = -1 then PIPE_LENGTH else bytes) 0
     in ebind (upd_pipe a (\<lambda>p. p\<lparr>pi_position := (pi_position p + i) smod PIPE_LENGTH, pi_readFlag := 0\<rparr>)) (\<lambda>_.
        ereturn i) (s\<lparr>ram := m\<rparr>))"

text \<open>A reader that finds the pipe empty puts its pid behind those that wait already.\<close>

definition read_block :: "addr \<Rightarrow> ('a ipc_scheme, unit) eprog" where
  "read_block a =
     ebind getCurrentPid (\<lambda>pid.
     ebind (changeProcessState pid BLOCKED) (\<lambda>_.
     ebind (deref pipe_structs a) (\<lambda>p.
     ebind (store_int (pi_blocked p + 4 * pi_cardinalBlocked p) pid) (\<lambda>_.
     upd_pipe a (\<lambda>p. p\<lparr>pi_cardinalBlocked := pi_cardinalBlocked p + 1\<rparr>)))))"

definition read_pipe :: "addr \<Rightarrow> addr \<Rightarrow> int \<Rightarrow> ('a ipc_scheme, int) kprog" where
  "read_pipe a result bytes =
     kbind (kcall (deref pipe_structs a)) (\<lambda>p0.
     kbind (lockMutex (pi_mutex p0)) (\<lambda>_.
     kbind (kcall (deref pipe_structs a)) (\<lambda>p.
     if pi_position p = pi_end p \<and> pi_readFlag p = 0
     then kbind (kcall (read_block a)) (\<lambda>_.
          kbind (kcall (freeMutex (pi_mutex p))) (\<lambda>_.
          kbind yield (\<lambda>_. kreturn 0)))
     else kbind (kcall (read_bytes a (pi_pipe p0 + pi_position p0) result bytes)) (\<lambda>i.
          kbind (kcall (freeMutex (pi_mutex p))) (\<lambda>_. kreturn i)))))"

section \<open>Creating and closing\<close>

definition getMiddleSpace :: "'a ipc_scheme \<Rightarrow> int" where
  "getMiddleSpace s = (case scan MAX_PIPES (\<lambda>i. pipeNames s ! i = None) of
     Some i \<Rightarrow> int i | None \<Rightarrow> NO_SPACE_LEFT)"

text \<open>The search of \<open>freeSpace\<close> has no bound of its own; the array has three entries.\<close>

fun freeSpace_loop :: "nat \<Rightarrow> nat \<Rightarrow> string \<Rightarrow> string option \<Rightarrow> addr \<Rightarrow> ('a ipc_scheme, nat) eprog" where
  "freeSpace_loop 0 i nul name struct = efail OutOfBounds"
| "freeSpace_loop (Suc n) i nul name struct =
     ebind (deref pipe_structs (struct + sizeof_Pipe * int i)) (\<lambda>p.
     if strcmp (c_name nul (pi_name p)) (c_name nul name) \<noteq> 0 then freeSpace_loop n (i + 1) nul name struct
     else ereturn i)"

definition freeSpace :: "string \<Rightarrow> string option \<Rightarrow> addr \<Rightarrow> ('a ipc_scheme, unit) eprog" where
  "freeSpace nul name pro =
     ebind (deref procs pro) (\<lambda>p.
     ebind (freeSpace_loop (nat MAX_PROCESS_PIPES) 0 nul name (p_pipesStruct p)) (\<lambda>i.
     store_int (p_occupiedPosition p + 4 * int i) 0))"

definition closePipe :: "string \<Rightarrow> addr \<Rightarrow> ('a ipc_scheme, unit) eprog" where
  "closePipe nul pipe =
     ebind getCurrentPid (\<lambda>currentPid.
     ebind (deref pipe_structs pipe) (\<lambda>p s.
     let i = getPipeNameIndex nul (pi_name p) s in
     if i = PIPE_NOT_FOUND then Inr ((), s)
     else ebind (getProcessById (pi_creator p)) (\<lambda>pro.
          ebind (deref procs pro) (\<lambda>pr.
          if p_pid pr = currentPid
          then ebind (pipe_at i) (\<lambda>a.
               ebind (deref pipe_structs a) (\<lambda>q s.
               ebind (freeSpace nul (pi_name q) pro) ereturn (s\<lparr>pipes := (pipes s)[nat i := NULL]\<rparr>)))
          else ereturn ())) s))"

text \<open>The test of \<open>current\<close> lets the index 3 through, one behind the array.\<close>

fun free_position :: "nat \<Rightarrow> nat \<Rightarrow> (addr \<Rightarrow> 8 word) \<Rightarrow> addr \<Rightarrow> nat option" where
  "free_position 0 i m spots = None"
| "free_position (Suc n) i m spots =
     (if read_int m (spots + 4 * int i) = 0 then Some i else free_position n (i + 1) m spots)"

definition getIndexForPipeStructure :: "addr \<Rightarrow> ('a ipc_scheme, int) eprog" where
  "getIndexForPipeStructure pro =
     ebind (deref procs pro) (\<lambda>p s.
     let cur = p_pipesOpened p in
     if MAX_PROCESS_PIPES < cur \<or> read_int (ram s) (p_occupiedPosition p + 4 * cur) = 1
     then case free_position (nat MAX_PROCESS_PIPES) 0 (ram s) (p_occupiedPosition p) of
            Some i \<Rightarrow> ebind (put_proc pro (p\<lparr>p_pipesOpened := int i + 1\<rparr>)) (\<lambda>_. ereturn (int i)) s
          | None \<Rightarrow> Inr (NO_SPACE_LEFT, s)
     else ebind (put_proc pro (p\<lparr>p_pipesOpened := cur + 1\<rparr>)) (\<lambda>_. ereturn cur) s)"

text \<open>
  The arrays \<open>pipePids\<close> and \<open>blocked\<close> of the pipes of a process start \<open>index * 3\<close> bytes, not
  \<open>int\<close>s, into the area.  The fields \<open>mutex\<close> (of a new structure) is set by \<open>createPipe\<close>.
\<close>

definition page_pipe :: "addr \<Rightarrow> 'a ipc_scheme \<Rightarrow> Pipe" where
  "page_pipe a s = (case pipe_structs s a of Some p \<Rightarrow> p
     | None \<Rightarrow> \<lparr>pi_name = None, pi_position = 0, pi_end = 0, pi_creator = 0, pi_pipePids = NULL, pi_blocked = NULL,
         pi_cardinalBlocked = 0, pi_connected = 0, pi_pipe = NULL, pi_readFlag = 0, pi_mutex = 0\<rparr>)"

definition createPipeStruct :: "addr \<Rightarrow> string option \<Rightarrow> ('a ipc_scheme, addr) eprog" where
  "createPipeStruct pro name =
     ebind (getIndexForPipeStructure pro) (\<lambda>index.
     if index = NO_SPACE_LEFT then ereturn NULL
     else ebind (deref procs pro) (\<lambda>pr.
          ebind (store_int (p_occupiedPosition pr + 4 * index) 1) (\<lambda>_ s.
          let a = p_pipesStruct pr + sizeof_Pipe * index;
              pids = p_pipePids pr + index * MAX_PROCESS_PIPES
          in ebind (put_pipe a ((page_pipe a s)\<lparr>pi_name := name, pi_end := 0, pi_readFlag := 0, pi_connected := 1,
                 pi_creator := p_pid pr, pi_pipePids := pids, pi_blocked := p_blocked pr + index * MAX_PROCESS_PIPES,
                 pi_position := 0, pi_cardinalBlocked := 0, pi_pipe := p_pipes pr + index * PIPE_LENGTH\<rparr>)) (\<lambda>_.
             ebind (store_int pids (p_pid pr)) (\<lambda>_.
             ebind (put_proc pro (pr\<lparr>p_pipesOpened := 0\<rparr>)) (\<lambda>_.
             ereturn a))) s)))"

text \<open>\<open>createPipe\<close> up to the choice of a place in the table: \<open>False\<close> when there is none.\<close>

definition createPipe_place :: "('a ipc_scheme, bool) eprog" where
  "createPipe_place s =
     (if lastPipeName s < int MAX_PIPES \<and> lastPipeName s < 0 then Inl OutOfBounds
      else if int MAX_PIPES \<le> lastPipeName s \<or> pipeNames s ! nat (lastPipeName s) \<noteq> None
      then let i = getMiddleSpace s in Inr (i \<noteq> NO_SPACE_LEFT, s\<lparr>lastPipeName := i\<rparr>)
      else Inr (True, s))"

definition createPipe :: "string \<Rightarrow> string option \<Rightarrow> ('a ipc_scheme, addr) kprog" where
  "createPipe nul name =
     kbind (kget ipcAdminMutex) (\<lambda>m.
     kbind (lockMutex m) (\<lambda>_.
     kbind (kcall getCurrentPid) (\<lambda>pid.
     kbind (kcall createPipe_place) (\<lambda>place.
     if \<not> place then kreturn NULL
     else case name of
       None \<Rightarrow> kreturn NULL
     | Some n \<Rightarrow>
         kbind (kcall (getProcessById pid)) (\<lambda>p.
         if p = NULL then kreturn NULL
         else kbind (kcall (createPipeStruct p name)) (\<lambda>pipe.
              kbind (getMutex nul n) (\<lambda>m.
              kbind (kcall (upd_pipe pipe (\<lambda>p. p\<lparr>pi_mutex := m\<rparr>))) (\<lambda>_.
              kbind (kget lastPipeName) (\<lambda>i.
              if \<not> (0 \<le> i \<and> i < int MAX_PIPES) then kcall (efail OutOfBounds)
              else kbind (kmodify (\<lambda>s. s\<lparr>pipeNames := (pipeNames s)[nat i := name],
                     pipes := (pipes s)[nat i := pipe], lastPipeName := i + 1\<rparr>)) (\<lambda>_.
                   kbind (kget ipcAdminMutex) (\<lambda>m.
                   kbind (kcall (freeMutex m)) (\<lambda>_. kreturn pipe))))))))))))"

section \<open>A pipe as a byte sequence\<close>

lemma smod_nonneg: "0 \<le> a \<Longrightarrow> 0 < b \<Longrightarrow> a smod b = a mod (b::int)"
  by (cases "a = 0") (simp_all add: signed_modulo_int_def signed_divide_int_def minus_div_mult_eq_mod)

definition pipe_wf :: "Pipe \<Rightarrow> bool" where
  "pipe_wf p \<longleftrightarrow> 0 \<le> pi_position p \<and> pi_position p < PIPE_LENGTH \<and> 0 \<le> pi_end p \<and> pi_end p < PIPE_LENGTH \<and>
     (pi_readFlag p = 0 \<or> pi_readFlag p = 1 \<and> pi_end p = pi_position p)"

abbreviation pipe_length :: "Pipe \<Rightarrow> int" where
  "pipe_length p \<equiv> ring_length PIPE_LENGTH (pi_position p) (pi_end p) (pi_readFlag p = 1)"

definition contents :: "(addr \<Rightarrow> 8 word) \<Rightarrow> Pipe \<Rightarrow> 8 word list" where
  "contents m p = ringseq m (pi_pipe p) PIPE_LENGTH (pi_position p) (nat (pipe_length p))"

lemma length_contents: "int (length (contents m p)) = pipe_length p"
  using ring_length_range [of PIPE_LENGTH "pi_position p" "pi_end p" "pi_readFlag p = 1"]
  by (simp add: contents_def)

lemma next_byte_cell:
  "next_byte (cell (pi_pipe p) PIPE_LENGTH i) p = cell (pi_pipe p) PIPE_LENGTH (i + 1)"
  by (simp add: next_byte_def cell_next Let_def)

text \<open>A string in memory, apart from the bytes of the pipe.\<close>

definition string_at :: "(addr \<Rightarrow> 8 word) \<Rightarrow> addr \<Rightarrow> 8 word list \<Rightarrow> bool" where
  "string_at m a xs \<longleftrightarrow> (\<forall>k<length xs. m (a + int k) = xs ! k \<and> xs ! k \<noteq> 0) \<and> m (a + int (length xs)) = 0"

definition apart :: "addr \<Rightarrow> nat \<Rightarrow> Pipe \<Rightarrow> bool" where
  "apart a n p \<longleftrightarrow> (\<forall>k\<le>n. \<not> (pi_pipe p \<le> a + int k \<and> a + int k < pi_pipe p + PIPE_LENGTH))"

lemma string_at_Cons:
  "string_at m a (x # xs) \<longleftrightarrow> m a = x \<and> x \<noteq> 0 \<and> string_at m (a + 1) xs"
proof -
  have "(\<forall>k<Suc (length xs). m (a + int k) = (x # xs) ! k \<and> (x # xs) ! k \<noteq> 0) \<longleftrightarrow>
      m a = x \<and> x \<noteq> 0 \<and> (\<forall>k<length xs. m (a + 1 + int k) = xs ! k \<and> xs ! k \<noteq> 0)"
    unfolding All_less_Suc2 by (simp add: add.assoc [of a 1])
  moreover have "a + int (length (x # xs)) = a + 1 + int (length xs)" by simp
  ultimately show ?thesis unfolding string_at_def by (simp only: list.size(4)) auto
qed

lemma apart_Suc: "apart a (Suc n) p \<Longrightarrow> apart (a + 1) n p"
  unfolding apart_def by (metis (no_types, opaque_lifting) Suc_le_mono add.assoc add.commute of_nat_Suc)

lemma string_at_store:
  assumes "string_at m a xs" and "apart a (length xs) p"
  shows "string_at (m(cell (pi_pipe p) PIPE_LENGTH i := v)) a xs"
proof -
  have "a + int k \<noteq> cell (pi_pipe p) PIPE_LENGTH i" if "k \<le> length xs" for k
    using assms(2) that cell_range [of PIPE_LENGTH "pi_pipe p" i] by (auto simp: apart_def)
  with assms(1) show ?thesis by (auto simp: string_at_def)
qed

lemma write_loop_fills:
  assumes "pipe_wf p" and "string_at m msg xs" and "apart msg (length xs) p"
    and "pipe_length p + int b \<le> PIPE_LENGTH" and "b = 0 \<longrightarrow> pipe_length p < PIPE_LENGTH"
  shows "\<exists>m'. write_loop m p (cell (pi_pipe p) PIPE_LENGTH (pi_position p + pipe_length p + int b)) msg (int b) =
      Some (m', int (b + min (length xs) (nat (PIPE_LENGTH - pipe_length p - int b)))) \<and>
    ringseq m' (pi_pipe p) PIPE_LENGTH (pi_position p) (nat (pipe_length p) + b + min (length xs) (nat (PIPE_LENGTH - pipe_length p - int b))) =
      ringseq m (pi_pipe p) PIPE_LENGTH (pi_position p) (nat (pipe_length p) + b) @ take (nat (PIPE_LENGTH - pipe_length p - int b)) xs"
  using assms(2-)
proof (induction xs arbitrary: m msg b)
  case Nil
  then show ?case by (subst write_loop.simps) (simp add: string_at_def)
next
  case (Cons x xs)
  let ?l = "pipe_length p"
  have wf: "0 \<le> pi_position p" "pi_position p < PIPE_LENGTH" "0 \<le> pi_end p" "pi_end p < PIPE_LENGTH"
    using assms(1) by (auto simp: pipe_wf_def)
  have l: "0 \<le> ?l" using ring_length_range [of PIPE_LENGTH] by simp
  have x: "m msg = x" "x \<noteq> 0" "string_at m (msg + 1) xs" using Cons.prems(1) by (auto simp: string_at_Cons)
  have stop: "(pi_end p + int b) smod PIPE_LENGTH \<noteq> pi_position p \<or> int b = 0 \<longleftrightarrow> ?l + int b < PIPE_LENGTH"
  proof (cases "b = 0")
    case True
    with Cons.prems(4) show ?thesis by simp
  next
    case False
    have "(pi_end p + int b) mod PIPE_LENGTH = (?l + int b + pi_position p) mod PIPE_LENGTH"
      using ring_length_stop [OF wf(3,4), of "pi_position p" "pi_readFlag p = 1"]
      by (metis (no_types, opaque_lifting) add.assoc add.commute mod_add_left_eq)
    moreover have "(?l + int b + pi_position p) mod PIPE_LENGTH = pi_position p \<longleftrightarrow>
        ?l + int b = ring_length PIPE_LENGTH (pi_position p) (pi_position p) True"
      by (rule ring_reached) (use False l Cons.prems(3) wf in \<open>auto simp: ring_length_def [of _ "pi_position p" "pi_position p"]\<close>)
    ultimately show ?thesis
      using False Cons.prems(3) wf(3) by (auto simp: smod_nonneg ring_length_def [of _ "pi_position p" "pi_position p"])
  qed
  let ?c = "cell (pi_pipe p) PIPE_LENGTH (pi_position p + ?l + int b)"
  show ?case
  proof (cases "?l + int b < PIPE_LENGTH")
    case False
    then show ?thesis
      using Cons.prems(3) stop by (subst write_loop.simps) (simp add: nat_add_distrib)
  next
    case True
    let ?m = "m(?c := x)"
    have "\<exists>m'. write_loop ?m p (cell (pi_pipe p) PIPE_LENGTH (pi_position p + ?l + int (Suc b))) (msg + 1) (int (Suc b)) =
        Some (m', int (Suc b + min (length xs) (nat (PIPE_LENGTH - ?l - int (Suc b))))) \<and>
      ringseq m' (pi_pipe p) PIPE_LENGTH (pi_position p) (nat ?l + Suc b + min (length xs) (nat (PIPE_LENGTH - ?l - int (Suc b)))) =
        ringseq ?m (pi_pipe p) PIPE_LENGTH (pi_position p) (nat ?l + Suc b) @ take (nat (PIPE_LENGTH - ?l - int (Suc b))) xs"
      using True apart_Suc [of msg "length xs" p] Cons.prems(2)
      by (intro Cons.IH string_at_store [OF x(3)]) auto
    then obtain m' where m': "write_loop ?m p (cell (pi_pipe p) PIPE_LENGTH (pi_position p + ?l + int (Suc b))) (msg + 1) (int (Suc b)) =
        Some (m', int (Suc b + min (length xs) (nat (PIPE_LENGTH - ?l - int (Suc b)))))"
      "ringseq m' (pi_pipe p) PIPE_LENGTH (pi_position p) (nat ?l + Suc b + min (length xs) (nat (PIPE_LENGTH - ?l - int (Suc b)))) =
        ringseq ?m (pi_pipe p) PIPE_LENGTH (pi_position p) (nat ?l + Suc b) @ take (nat (PIPE_LENGTH - ?l - int (Suc b))) xs"
      by blast
    have room: "nat (PIPE_LENGTH - ?l - int b) = Suc (nat (PIPE_LENGTH - ?l - int (Suc b)))" using True by simp
    have step: "write_loop m p ?c msg (int b) =
        write_loop ?m p (cell (pi_pipe p) PIPE_LENGTH (pi_position p + ?l + int (Suc b))) (msg + 1) (int (Suc b))"
      using True stop x(1,2) next_byte_cell [of p "pi_position p + ?l + int b"] wf(1) l
      by (subst write_loop.simps) (simp add: algebra_simps)
    have "ringseq ?m (pi_pipe p) PIPE_LENGTH (pi_position p) (nat ?l + Suc b) =
        ringseq m (pi_pipe p) PIPE_LENGTH (pi_position p) (nat ?l + b) @ [x]"
      using ringseq_push [of "nat ?l + b" PIPE_LENGTH m "pi_pipe p" "pi_position p" x] True l by (simp add: add.assoc)
    then show ?thesis using m' step room by (intro exI [of _ m']) simp
  qed
qed

text \<open>The copying loop of \<open>read\<close>, into a buffer apart from the pipe.\<close>

lemma read_loop_takes:
  assumes "pipe_wf p" and "apart result (nat bytes) p" and "0 \<le> i" and "i \<le> pipe_length p"
    and "0 < pipe_length p" and "i \<le> bytes"
  shows "\<exists>m'. read_loop m p (cell (pi_pipe p) PIPE_LENGTH (pi_position p + i)) result bytes i = (m', min bytes (pipe_length p)) \<and>
    (\<forall>a. pi_pipe p \<le> a \<longrightarrow> a < pi_pipe p + PIPE_LENGTH \<longrightarrow> m' a = m a) \<and>
    (\<forall>k. i \<le> k \<longrightarrow> k < min bytes (pipe_length p) \<longrightarrow>
       m' (result + k) = m (cell (pi_pipe p) PIPE_LENGTH (pi_position p + k))) \<and>
    (\<forall>k. 0 \<le> k \<longrightarrow> k < i \<longrightarrow> m' (result + k) = m (result + k))"
  using assms(3,4,6)
proof (induction "nat (bytes - i)" arbitrary: m i)
  case 0
  then have "i = bytes" by simp
  then show ?case using "0.prems" by (intro exI [of _ m]) (auto simp: read_loop.simps [of m])
next
  case (Suc n)
  let ?l = "pipe_length p"
  let ?c = "cell (pi_pipe p) PIPE_LENGTH (pi_position p + i)"
  have wf: "0 \<le> pi_position p" "pi_position p < PIPE_LENGTH" "0 \<le> pi_end p" "pi_end p < PIPE_LENGTH"
    using assms(1) by (auto simp: pipe_wf_def)
  have l: "?l \<le> PIPE_LENGTH" using ring_length_range [of PIPE_LENGTH] by simp
  have go: "(i + pi_position p) smod PIPE_LENGTH \<noteq> pi_end p \<or> i = 0 \<longleftrightarrow> i < ?l"
  proof (cases "i = 0")
    case True
    with assms(5) show ?thesis by simp
  next
    case False
    then have "(i + pi_position p) mod PIPE_LENGTH = pi_end p \<longleftrightarrow> i = ?l"
      using Suc.prems wf l by (intro ring_reached) auto
    then show ?thesis using False Suc.prems wf(1) by (auto simp: smod_nonneg)
  qed
  have lt: "i < bytes" using Suc.hyps(2) by simp
  show ?case
  proof (cases "i < ?l")
    case False
    then have "read_loop m p ?c result bytes i = (m, i)" "i = ?l" using go Suc.prems by (simp add: read_loop.simps [of m], simp)
    then show ?thesis using lt by (intro exI [of _ m]) auto
  next
    case True
    let ?m = "m(result + i := m ?c)"
    have outside: "result + i \<noteq> a" if "pi_pipe p \<le> a" "a < pi_pipe p + PIPE_LENGTH" for a
    proof -
      have "\<not> (pi_pipe p \<le> result + int (nat i) \<and> result + int (nat i) < pi_pipe p + PIPE_LENGTH)"
        using assms(2) lt Suc.prems(1) unfolding apart_def by (metis nat_mono less_le)
      then show ?thesis using that Suc.prems(1) by auto
    qed
    have pipe: "cell (pi_pipe p) PIPE_LENGTH j \<noteq> result + i" for j
      using outside cell_range [of PIPE_LENGTH "pi_pipe p" j] by (metis zero_less_numeral)
    have "\<exists>m'. read_loop ?m p (cell (pi_pipe p) PIPE_LENGTH (pi_position p + (i + 1))) result bytes (i + 1) = (m', min bytes ?l) \<and>
      (\<forall>a. pi_pipe p \<le> a \<longrightarrow> a < pi_pipe p + PIPE_LENGTH \<longrightarrow> m' a = ?m a) \<and>
      (\<forall>k. i + 1 \<le> k \<longrightarrow> k < min bytes ?l \<longrightarrow> m' (result + k) = ?m (cell (pi_pipe p) PIPE_LENGTH (pi_position p + k))) \<and>
      (\<forall>k. 0 \<le> k \<longrightarrow> k < i + 1 \<longrightarrow> m' (result + k) = ?m (result + k))"
      by (rule Suc.hyps(1)) (use Suc.hyps(2) Suc.prems True in auto)
    then obtain m' where m': "read_loop ?m p (cell (pi_pipe p) PIPE_LENGTH (pi_position p + (i + 1))) result bytes (i + 1) = (m', min bytes ?l)"
      "\<forall>a. pi_pipe p \<le> a \<longrightarrow> a < pi_pipe p + PIPE_LENGTH \<longrightarrow> m' a = ?m a"
      "\<forall>k. i + 1 \<le> k \<longrightarrow> k < min bytes ?l \<longrightarrow> m' (result + k) = ?m (cell (pi_pipe p) PIPE_LENGTH (pi_position p + k))"
      "\<forall>k. 0 \<le> k \<longrightarrow> k < i + 1 \<longrightarrow> m' (result + k) = ?m (result + k)"
      by blast
    have "read_loop m p ?c result bytes i =
        read_loop ?m p (cell (pi_pipe p) PIPE_LENGTH (pi_position p + (i + 1))) result bytes (i + 1)"
      using lt True go next_byte_cell [of p "pi_position p + i"] by (subst read_loop.simps) (simp add: add.assoc)
    moreover have "\<forall>a. pi_pipe p \<le> a \<longrightarrow> a < pi_pipe p + PIPE_LENGTH \<longrightarrow> m' a = m a"
      using m'(2) outside by (metis fun_upd_other)
    moreover have "m' (result + k) = m (cell (pi_pipe p) PIPE_LENGTH (pi_position p + k))"
      if "i \<le> k" "k < min bytes ?l" for k
    proof (cases "k = i")
      case True
      then show ?thesis using m'(4) Suc.prems(1) by simp
    next
      case False
      then show ?thesis using m'(3) that pipe by simp
    qed
    moreover have "\<forall>k. 0 \<le> k \<longrightarrow> k < i \<longrightarrow> m' (result + k) = m (result + k)"
      using m'(4) by simp
    ultimately show ?thesis using m'(1) by (intro exI [of _ m']) simp
  qed
qed

section \<open>The operations under their lock\<close>

lemma same_sched_ram: "same_sched s (s\<lparr>ram := m\<rparr>)"
  by (simp add: same_sched_def)

lemma same_sched_pipe_structs: "same_sched s (s\<lparr>pipe_structs := x\<rparr>)"
  by (simp add: same_sched_def)

lemmas sched_pipes [simp] = same_sched_facts [OF same_sched_ram] same_sched_facts [OF same_sched_pipe_structs]

text \<open>What changes neither the bytes of a pipe nor what is in it.\<close>

definition pipe_frame :: "'a ipc_scheme \<Rightarrow> 'a ipc_scheme \<Rightarrow> bool" where
  "pipe_frame s t \<longleftrightarrow> t = s\<lparr>procs := procs t, pipe_structs := pipe_structs t\<rparr> \<and>
     (\<forall>a. (pipe_structs s a = None \<longrightarrow> pipe_structs t a = None) \<and>
       (\<forall>p. pipe_structs s a = Some p \<longrightarrow> (\<exists>c. pipe_structs t a = Some (p\<lparr>pi_cardinalBlocked := c\<rparr>))))"

lemma pipe_frame_fields:
  assumes "pipe_frame s t"
  shows "ram t = ram s" "pipeNames t = pipeNames s" "pipes t = pipes s" "lastPipeName t = lastPipeName s"
    "mutexes t = mutexes s" "ipcAdminMutex t = ipcAdminMutex s"
proof -
  obtain P Q where "t = s\<lparr>procs := P, pipe_structs := Q\<rparr>" using assms unfolding pipe_frame_def by (elim conjE) (rule that)
  then show "ram t = ram s" "pipeNames t = pipeNames s" "pipes t = pipes s" "lastPipeName t = lastPipeName s"
    "mutexes t = mutexes s" "ipcAdminMutex t = ipcAdminMutex s" by simp_all
qed

lemma pipe_frame_Some:
  assumes "pipe_frame s t" and "pipe_structs s a = Some p"
  shows "\<exists>c. pipe_structs t a = Some (p\<lparr>pi_cardinalBlocked := c\<rparr>)"
  using conjunct2 [OF assms(1) [unfolded pipe_frame_def]] assms(2) by blast

lemma pipe_frame_procs:
  assumes "t = s\<lparr>procs := procs t\<rparr>"
  shows "pipe_frame s t"
proof -
  obtain P where t: "t = s\<lparr>procs := P\<rparr>" using assms by (rule that)
  have "\<exists>c. p = p\<lparr>pi_cardinalBlocked := c\<rparr>" for p :: Pipe
    by (rule exI [of _ "pi_cardinalBlocked p"]) simp
  then show ?thesis unfolding pipe_frame_def by (auto simp: t)
qed

lemma pipe_frame_trans:
  assumes "pipe_frame s t" and "pipe_frame t u"
  shows "pipe_frame s u"
proof -
  obtain P Q where t: "t = s\<lparr>procs := P, pipe_structs := Q\<rparr>" using assms(1) unfolding pipe_frame_def by (elim conjE) (rule that)
  obtain P' Q' where u: "u = t\<lparr>procs := P', pipe_structs := Q'\<rparr>" using assms(2) unfolding pipe_frame_def by (elim conjE) (rule that)
  have "u = s\<lparr>procs := procs u, pipe_structs := pipe_structs u\<rparr>" by (simp add: t u)
  moreover have "\<exists>c. pipe_structs u a = Some (p\<lparr>pi_cardinalBlocked := c\<rparr>)" if some: "pipe_structs s a = Some p" for a p
  proof -
    obtain c where "pipe_structs t a = Some (p\<lparr>pi_cardinalBlocked := c\<rparr>)"
      using pipe_frame_Some [OF assms(1) some] by blast
    then show ?thesis using pipe_frame_Some [OF assms(2)] by force
  qed
  ultimately show ?thesis using assms by (simp add: pipe_frame_def)
qed

text \<open>The sleeping readers of the pipe with the name all become ready.\<close>

lemma wake_blocked_effect:
  assumes "pids_ok s" and "pipe_structs s a = Some p"
  shows "\<exists>t. wake_blocked n j a s = Inr ((), t) \<and> t = s\<lparr>procs := procs t\<rparr> \<and> pids_ok t \<and>
    (\<forall>q. in_state s q READY \<longrightarrow> in_state t q READY) \<and>
    (\<forall>k x. j \<le> k \<longrightarrow> k < j + n \<longrightarrow> in_state s (read_int (ram s) (pi_blocked p + 4 * int k)) x \<longrightarrow>
       in_state t (read_int (ram s) (pi_blocked p + 4 * int k)) READY)"
  using assms
proof (induction n arbitrary: j s)
  case 0
  then show ?case by simp
next
  case (Suc n)
  define pid where "pid k = read_int (ram s) (pi_blocked p + 4 * int k)" for k
  obtain u where u: "changeProcessState (pid j) READY s = Inr ((), u)" "u = s\<lparr>procs := procs u\<rparr>" "pids_ok u"
      "\<And>p x. p \<noteq> pid j \<Longrightarrow> in_state u p x = in_state s p x"
      "\<And>x y. in_state s (pid j) x \<Longrightarrow> in_state u (pid j) y \<longleftrightarrow> y = READY"
    using changeProcessState_effect [OF Suc.prems(1), of "pid j" READY] by metis
  have ready: "in_state u q READY" if "in_state s q READY" for q
    using that u(4,5) by (cases "q = pid j") auto
  obtain P where P: "u = s\<lparr>procs := P\<rparr>" using u(2) by (rule that)
  have ru: "ram u = ram s" "pipe_structs u a = Some p" using Suc.prems(2) by (simp_all add: P)
  obtain t where t: "wake_blocked n (j + 1) a u = Inr ((), t)" "t = u\<lparr>procs := procs t\<rparr>" "pids_ok t"
      "\<forall>q. in_state u q READY \<longrightarrow> in_state t q READY"
      "\<forall>k x. j + 1 \<le> k \<longrightarrow> k < j + 1 + n \<longrightarrow> in_state u (pid k) x \<longrightarrow> in_state t (pid k) READY"
    using Suc.IH [OF u(3) ru(2), of "j + 1"] unfolding ru(1) pid_def by blast
  obtain Q where Q: "t = u\<lparr>procs := Q\<rparr>" using t(2) by (rule that)
  have woken: "in_state t (pid k) READY" if k: "j \<le> k" "k < j + Suc n" "in_state s (pid k) x" for k x
  proof (cases "k = j")
    case True
    then show ?thesis using u(5) k(3) t(4) by blast
  next
    case False
    have "\<exists>y. in_state u (pid k) y" using u(4,5) k(3) by (cases "pid k = pid j") auto
    then show ?thesis using t(5) k(1,2) False by auto
  qed
  have run: "wake_blocked (Suc n) j a s = Inr ((), t)"
    using Suc.prems(2) u(1) t(1) by (simp add: ebind_def flip: pid_def)
  have frame: "t = s\<lparr>procs := procs t\<rparr>" by (simp add: P Q)
  have keep: "\<forall>q. in_state s q READY \<longrightarrow> in_state t q READY" using t(4) ready by blast
  have all: "\<forall>k x. j \<le> k \<longrightarrow> k < j + Suc n \<longrightarrow> in_state s (pid k) x \<longrightarrow> in_state t (pid k) READY"
    using woken by (intro allI impI)
  show ?case
    by (rule exI [of _ t], intro conjI, fact run, fact frame, fact t(3), fact keep, fact all [unfolded pid_def])
qed

text \<open>The names in the table belong to pipes.\<close>

definition names_ok :: "'a ipc_scheme \<Rightarrow> bool" where
  "names_ok s \<longleftrightarrow> lastPipeName s \<le> int MAX_PIPES \<and> length (pipeNames s) = MAX_PIPES \<and> length (pipes s) = MAX_PIPES \<and>
     (\<forall>i<nat (lastPipeName s). pipes s ! i \<noteq> NULL \<and> pipe_structs s (pipes s ! i) \<noteq> None)"

lemma unlockProcesses_loop_frame:
  assumes "names_ok s" and "pids_ok s" and "i + n \<le> nat (lastPipeName s)"
  shows "\<exists>t. unlockProcesses_loop n i nul name s = Inr ((), t) \<and> pipe_frame s t \<and> pids_ok t"
  using assms(3)
proof (induction n arbitrary: i)
  case 0
  have "pipe_frame s s" by (rule pipe_frame_procs) simp
  then show ?case using assms(2) by simp
next
  case (Suc n)
  have i: "i < nat (lastPipeName s)" "\<not> MAX_PIPES \<le> i" using Suc.prems assms(1) by (auto simp: names_ok_def)
  show ?case
  proof (cases "strcmp (c_name nul (pipeNames s ! i)) (c_name nul name) = 0")
    case False
    then show ?thesis using Suc.IH [of "i + 1"] Suc.prems i by simp
  next
    case True
    define a where "a = pipes s ! i"
    obtain p where p: "a \<noteq> NULL" "pipe_structs s a = Some p" using assms(1) i(1) by (auto simp: names_ok_def a_def)
    obtain u where u: "wake_blocked (nat (pi_cardinalBlocked p)) 0 a s = Inr ((), u)" "u = s\<lparr>procs := procs u\<rparr>" "pids_ok u"
      using wake_blocked_effect [OF assms(2) p(2), of "nat (pi_cardinalBlocked p)" 0]
      by (elim exE conjE) (rule that, assumption+)
    obtain P where P: "u = s\<lparr>procs := P\<rparr>" using u(2) by (rule that)
    define t where "t = u\<lparr>pipe_structs := (pipe_structs s)(a \<mapsto> p\<lparr>pi_cardinalBlocked := 0\<rparr>)\<rparr>"
    have "unlockProcesses_loop (Suc n) i nul name s = Inr ((), t)"
      using True i(2) p u(1) by (simp add: ebind_def pipe_at_def upd_pipe_def put_pipe_def t_def P flip: a_def)
    moreover have "pipe_frame s t"
    proof -
      have "\<exists>c. q = q\<lparr>pi_cardinalBlocked := c\<rparr>" for q :: Pipe
        by (rule exI [of _ "pi_cardinalBlocked q"]) simp
      then show ?thesis unfolding pipe_frame_def using p(2) by (auto simp: t_def P)
    qed
    moreover have "pids_ok t" using u(3) by (simp add: t_def)
    ultimately show ?thesis by blast
  qed
qed

lemma unlockProcesses_frame:
  "names_ok s \<Longrightarrow> pids_ok s \<Longrightarrow> \<exists>t. unlockProcesses nul name s = Inr ((), t) \<and> pipe_frame s t \<and> pids_ok t"
  using unlockProcesses_loop_frame [of s 0 "nat (lastPipeName s)" nul name] by (simp add: unlockProcesses_def)

text \<open>A pipe whose mutex is free.\<close>

definition pipe_ok :: "addr \<Rightarrow> Pipe \<Rightarrow> 'a ipc_scheme \<Rightarrow> bool" where
  "pipe_ok a p s \<longleftrightarrow> a \<noteq> NULL \<and> pipe_structs s a = Some p \<and> pipe_wf p \<and> table_ok s \<and> pids_ok s \<and>
     0 \<le> pi_mutex p \<and> live s (nat (pi_mutex p)) \<and> m_mutex (mutexes s ! nat (pi_mutex p)) = 0"

definition locked :: "Pipe \<Rightarrow> 'a ipc_scheme \<Rightarrow> 'a ipc_scheme" where
  "locked p s = s\<lparr>mutexes := (mutexes s)[nat (pi_mutex p) := acquired (mutexes s ! nat (pi_mutex p))]\<rparr>"

lemma lock_pipe:
  assumes "pipe_ok a p s"
  shows "lockMutex (pi_mutex p) s = Ret () (locked p s)"
proof -
  have "live s (nat (pi_mutex p))" "mutex_wf (mutexes s ! nat (pi_mutex p))" "m_mutex (mutexes s ! nat (pi_mutex p)) = 0"
    using assms table_ok_nth [of s "nat (pi_mutex p)"] by (auto simp: pipe_ok_def live_def)
  then have "lockMutex (int (nat (pi_mutex p))) s = Ret () (locked p s)"
    unfolding locked_def by (rule lockMutex_free)
  then show ?thesis using assms by (simp add: pipe_ok_def)
qed

lemma unlock_pipe:
  assumes "pipe_ok a p s" and "mutexes t = mutexes (locked p s)"
  shows "freeMutex (pi_mutex p) t = Inr ((), t\<lparr>mutexes := mutexes s\<rparr>)"
proof -
  define j where "j = nat (pi_mutex p)"
  have j: "j < MAX_MUTEXES" "mutex_wf (mutexes s ! j)" "m_used (mutexes s ! j)" "m_mutex (mutexes s ! j) = 0"
      "length (mutexes s) = MAX_MUTEXES" "pi_mutex p = int j"
    using assms table_ok_nth [of s j] by (auto simp: pipe_ok_def live_def j_def table_ok_def)
  have "mutexes t ! j = acquired (mutexes s ! j)" using assms(2) j(1,5) by (simp add: locked_def flip: j_def)
  then have "freeMutex (int j) t = Inr ((), t\<lparr>mutexes := (mutexes t)[j := mutexes s ! j]\<rparr>)"
    using j by (intro freeMutex_undo) auto
  then show ?thesis using assms(2) j(6) by (simp add: locked_def flip: j_def)
qed

lemma same_sched_locked: "same_sched s (locked p s)"
  by (simp add: same_sched_def locked_def)

lemma locked_fields [simp]:
  "pipe_structs (locked p s) = pipe_structs s" "ram (locked p s) = ram s" "pipeNames (locked p s) = pipeNames s"
  "pipes (locked p s) = pipes s" "lastPipeName (locked p s) = lastPipeName s"
  by (simp_all add: locked_def)

lemma contents_cardinal [simp]:
  "contents m (p\<lparr>pi_cardinalBlocked := c\<rparr>) = contents m p" "pipe_wf (p\<lparr>pi_cardinalBlocked := c\<rparr>) = pipe_wf p"
  by (simp_all add: contents_def pipe_wf_def)

lemma ring_length_flag: "stop \<noteq> start \<Longrightarrow> ring_length N start stop f = ring_length N start stop g"
  by (simp add: ring_length_def)

text \<open>The pipe after \<open>n\<close> bytes went in.\<close>

definition pushed :: "nat \<Rightarrow> Pipe \<Rightarrow> Pipe" where
  "pushed n p = (let e = (pi_end p + int n) mod PIPE_LENGTH in
     p\<lparr>pi_end := e, pi_readFlag := (if e = pi_position p then 1 else pi_readFlag p)\<rparr>)"

lemma pushed_length:
  assumes "pipe_wf p" and "0 < n" and "pipe_length p + int n \<le> PIPE_LENGTH"
  shows "pipe_length (pushed n p) = pipe_length p + int n" and "pipe_wf (pushed n p)"
proof -
  let ?e = "(pi_end p + int n) mod PIPE_LENGTH"
  have flag: "pi_readFlag p = 0"
    using assms ring_length_range [of PIPE_LENGTH] by (auto simp: pipe_wf_def ring_length_def)
  have "ring_length PIPE_LENGTH (pi_position p) ?e True = pipe_length p + int n"
    by (rule ring_length_advance) (use assms in \<open>auto simp: pipe_wf_def\<close>)
  then show "pipe_length (pushed n p) = pipe_length p + int n"
    by (cases "?e = pi_position p") (simp_all add: pushed_def Let_def flag ring_length_flag [of ?e _ _ False True])
  show "pipe_wf (pushed n p)" using assms(1) flag by (simp add: pipe_wf_def pushed_def Let_def)
qed

lemma write_body_appends:
  assumes "a \<noteq> NULL" and "pipe_structs s a = Some p" and "pipe_wf p" and "names_ok s" and "pids_ok s"
    and "string_at (ram s) msg xs" and "apart msg (length xs) p" and "xs \<noteq> []" and "pipe_length p < PIPE_LENGTH"
    and "n = min (length xs) (nat (PIPE_LENGTH - pipe_length p))"
  shows "\<exists>t v. write_body nul a (pi_pipe p + pi_end p) msg s = Inr (int n, t) \<and> pipe_frame v t \<and> pids_ok t \<and>
    pipe_structs v a = Some (pushed n p) \<and> contents (ram v) (pushed n p) = contents (ram s) p @ take n xs \<and>
    mutexes v = mutexes s"
proof -
  have l: "0 \<le> pipe_length p" using ring_length_range [of PIPE_LENGTH] by simp
  have n: "0 < n" "pipe_length p + int n \<le> PIPE_LENGTH" using assms(8-10) by (simp, simp)
  have wf: "0 \<le> pi_end p" "pi_end p < PIPE_LENGTH" using assms(3) by (auto simp: pipe_wf_def)
  have aux: "pi_pipe p + pi_end p = cell (pi_pipe p) PIPE_LENGTH (pi_position p + pipe_length p + int 0)"
    using ring_length_stop [OF wf] by (simp add: cell_def)
  have part: "take n xs = take (nat (PIPE_LENGTH - pipe_length p)) xs" by (simp add: assms(10) min_def)
  obtain m where m: "write_loop (ram s) p (pi_pipe p + pi_end p) msg 0 = Some (m, int n)"
      "ringseq m (pi_pipe p) PIPE_LENGTH (pi_position p) (nat (pipe_length p) + n) = contents (ram s) p @ take n xs"
    using write_loop_fills [OF assms(3,6,7), of 0] assms(9,10) unfolding aux part by (auto simp: contents_def)
  have not_full: "\<not> (pi_position p = pi_end p \<and> pi_readFlag p = 1)"
    using assms(9) by (auto simp: ring_length_def)
  define v where "v = s\<lparr>ram := m, pipe_structs := (pipe_structs s)(a \<mapsto> pushed n p)\<rparr>"
  have v: "names_ok v" "pids_ok v"
    using assms(4,5) by (auto simp: v_def names_ok_def)
  obtain t where t: "unlockProcesses nul (pi_name p) v = Inr ((), t)" "pipe_frame v t" "pids_ok t"
    using unlockProcesses_frame [OF v, of nul "pi_name p"] by blast
  have "write_body nul a (pi_pipe p + pi_end p) msg s = Inr (int n, t)"
    using assms(1,2) not_full m(1) t(1) wf(1)
    by (auto simp: write_body_def ebind_def upd_pipe_def put_pipe_def smod_nonneg v_def pushed_def Let_def)
  moreover have "contents (ram v) (pushed n p) = contents (ram s) p @ take n xs"
  proof -
    have "contents (ram v) (pushed n p) = ringseq m (pi_pipe p) PIPE_LENGTH (pi_position p) (nat (pipe_length p) + n)"
      unfolding contents_def pushed_length(1) [OF assms(3) n] using l
      by (simp add: v_def nat_add_distrib) (simp add: pushed_def Let_def)
    then show ?thesis using m(2) by simp
  qed
  moreover have "pipe_structs v a = Some (pushed n p)" "mutexes v = mutexes s" by (simp_all add: v_def)
  ultimately show ?thesis using t(2,3) by blast
qed

lemma pipe_ok_same:
  assumes "pipe_ok a p s"
  shows "pids_ok (locked p s)" and "pipe_structs (locked p s) a = Some p"
  using assms same_sched_facts [OF same_sched_locked, of p s] by (simp_all add: pipe_ok_def)

lemma ram_self [simp]: "(s::'a ipc_scheme)\<lparr>ram := ram s\<rparr> = s"
  by (cases s) simp

lemma locked_ram_self [simp]: "(locked p s)\<lparr>ram := ram s, pipe_structs := x\<rparr> = (locked p s)\<lparr>pipe_structs := x\<rparr>"
  using ram_self [of "locked p s"] by simp

lemma names_ok_locked [simp]: "names_ok (locked p s) = names_ok s"
  by (simp add: names_ok_def)

section \<open>Properties\<close>

text \<open>A state to evaluate on: a pipe that holds the bytes 97, 98, 99 around the end of its buffer, and a
  string of two bytes at the address 0x100.\<close>

definition demo_pipe :: Pipe where
  "demo_pipe = \<lparr>pi_name = Some ''p'', pi_position = 8, pi_end = 1, pi_creator = 0, pi_pipePids = 0x2100,
     pi_blocked = 0x2120, pi_cardinalBlocked = 0, pi_connected = 1, pi_pipe = 0x2000, pi_readFlag = 0, pi_mutex = 1\<rparr>"

definition demo_ipc :: ipc where
  "demo_ipc = ssem.extend (demo_sem\<lparr>ram := (\<lambda>_. 0)(0x2008 := 97, 0x2009 := 98, 0x2000 := 99, 0x100 := 120, 0x101 := 121)\<rparr>)
     \<lparr>pipeNames = Some ''p'' # replicate 49 None, pipes = 0x3000 # replicate 49 NULL, lastPipeName = 1,
      ipcAdminMutex = 0, pipe_structs = [0x3000 \<mapsto> demo_pipe]\<rparr>"

lemma demo_ipc_fields:
  "pipeNames demo_ipc = Some ''p'' # replicate 49 None" "pipes demo_ipc = 0x3000 # replicate 49 NULL"
  "lastPipeName demo_ipc = 1" "ipcAdminMutex demo_ipc = 0" "pipe_structs demo_ipc = [0x3000 \<mapsto> demo_pipe]"
  "ram demo_ipc = (\<lambda>_. 0)(0x2008 := 97, 0x2009 := 98, 0x2000 := 99, 0x100 := 120, 0x101 := 121)"
  "mutexes demo_ipc = mutexes demo_mutex" "adminMutex demo_ipc = 0"
  by (simp_all add: demo_ipc_def ssem.defs demo_sem_def omutex.defs demo_mutex_def qmem.defs)

lemma demo_ipc_sched: "same_sched demo_sem demo_ipc"
  by (simp add: same_sched_def demo_ipc_def ssem.defs)

lemmas demo_ipc_facts = demo_sem_facts [folded same_sched_facts(2,4) [OF demo_ipc_sched]]

lemma demo_ipc_ok: "table_ok demo_ipc" "live demo_ipc 0" "live demo_ipc 1" "names_ok demo_ipc"
  using demo_mutex_ok by (simp_all add: table_ok_def live_def demo_ipc_fields names_ok_def)

lemma pipe_ok_demo:
  assumes "pipe_wf p" and "pi_mutex p = 1"
  shows "pipe_ok 0x3000 p (demo_ipc\<lparr>pipe_structs := [0x3000 \<mapsto> p]\<rparr>)"
proof -
  have "m_mutex (mutexes demo_ipc ! Suc 0) = 0" by (simp add: demo_ipc_fields demo_mutex_table free_mutex_def)
  then show ?thesis
    using demo_ipc_ok demo_ipc_facts assms by (simp add: pipe_ok_def table_ok_def live_def)
qed

lemma demo_pipe_self: "demo_ipc\<lparr>pipe_structs := [0x3000 \<mapsto> demo_pipe]\<rparr> = demo_ipc"
  by (simp add: demo_ipc_def ssem.defs)

lemma demo_pipe_bytes: "pipe_wf demo_pipe" "pi_mutex demo_pipe = 1" "pipe_length demo_pipe = 3"
    "contents (ram demo_ipc) demo_pipe = [97, 98, 99]"
  by (simp_all add: demo_pipe_def pipe_wf_def ring_length_def contents_def ringseq_def demo_ipc_fields cell_def numeral_3_eq_3)

lemma demo_string: "string_at (ram demo_ipc) 0x100 [120, 121]" "apart 0x100 (length [120, 121 :: 8 word]) demo_pipe"
  by (auto simp: string_at_def demo_ipc_fields less_Suc_eq apart_def demo_pipe_def)



text \<open>C15. Reading from a pipe that is not empty takes the first bytes out, up to the number asked for, which is
  positive (or \<open>-1\<close> for all of them), and puts them into the buffer of the caller, which is apart from the pipe.\<close>

theorem read_takes:
  assumes "pipe_ok a p s" and "contents (ram s) p \<noteq> []" and "n = (if bytes = -1 then 10 else nat bytes)"
    and "bytes = -1 \<or> 0 < bytes" and "apart result n p"
  shows "\<exists>t q. read_pipe a result bytes s = Ret (int (min n (length (contents (ram s) p)))) t \<and>
    pipe_structs t a = Some q \<and> pipe_wf q \<and> contents (ram t) q = drop n (contents (ram s) p) \<and>
    map (\<lambda>k. ram t (result + int k)) [0..<min n (length (contents (ram s) p))] = take n (contents (ram s) p) \<and>
    mutexes t = mutexes s"
proof -
  let ?c = "contents (ram s) p" and ?l = "pipe_length p"
  define k where "k = min n (length ?c)"
  have len: "int (length ?c) = ?l" by (rule length_contents)
  have ok: "a \<noteq> NULL" "pipe_structs s a = Some p" "pipe_wf p" using assms(1) by (auto simp: pipe_ok_def)
  have l: "0 < ?l" using assms(2) len by (cases ?c) auto
  have wf: "0 \<le> pi_position p" "pi_position p < PIPE_LENGTH" "0 \<le> pi_end p" "pi_end p < PIPE_LENGTH"
    using ok(3) by (auto simp: pipe_wf_def)
  have k: "int k = min (int n) ?l" "0 < k" using len l assms(3,4) by (auto simp: k_def)
  have n: "int n = (if bytes = -1 then PIPE_LENGTH else bytes)" "0 \<le> int n" using assms(3,4) by auto
  have aux: "pi_pipe p + pi_position p = cell (pi_pipe p) PIPE_LENGTH (pi_position p + 0)"
    using wf by (simp add: cell_def)
  obtain m where m: "read_loop (ram s) p (pi_pipe p + pi_position p) result (int n) 0 = (m, int k)"
      "\<forall>x. pi_pipe p \<le> x \<longrightarrow> x < pi_pipe p + PIPE_LENGTH \<longrightarrow> m x = ram s x"
      "\<forall>j. 0 \<le> j \<longrightarrow> j < int k \<longrightarrow> m (result + j) = ram s (cell (pi_pipe p) PIPE_LENGTH (pi_position p + j))"
  proof -
    have "\<exists>m. read_loop (ram s) p (cell (pi_pipe p) PIPE_LENGTH (pi_position p + 0)) result (int n) 0 = (m, min (int n) ?l) \<and>
      (\<forall>x. pi_pipe p \<le> x \<longrightarrow> x < pi_pipe p + PIPE_LENGTH \<longrightarrow> m x = ram s x) \<and>
      (\<forall>j. 0 \<le> j \<longrightarrow> j < min (int n) ?l \<longrightarrow> m (result + j) = ram s (cell (pi_pipe p) PIPE_LENGTH (pi_position p + j))) \<and>
      (\<forall>j. 0 \<le> j \<longrightarrow> j < 0 \<longrightarrow> m (result + j) = ram s (result + j))"
      by (rule read_loop_takes [OF ok(3)]) (use l assms(5) in simp_all)
    then show thesis unfolding aux [symmetric] k(1) [symmetric]
      by (elim exE conjE) (rule that, assumption+)
  qed
  define q where "q = p\<lparr>pi_position := (pi_position p + int k) mod PIPE_LENGTH, pi_readFlag := 0\<rparr>"
  have full: "\<not> (pi_position p = pi_end p \<and> pi_readFlag p = 0)" using l by (auto simp: ring_length_def)
  define t where "t = (locked p s)\<lparr>ram := m, pipe_structs := (pipe_structs s)(a \<mapsto> q)\<rparr>"
  have body: "read_bytes a (pi_pipe p + pi_position p) result bytes (locked p s) = Inr (int k, t)"
    using ok(1,2) m(1) wf(1) unfolding read_bytes_def n(1) [symmetric]
    by (simp add: ebind_def upd_pipe_def put_pipe_def smod_nonneg t_def q_def)
  have free: "freeMutex (pi_mutex p) t = Inr ((), t\<lparr>mutexes := mutexes s\<rparr>)"
    by (rule unlock_pipe [OF assms(1)]) (simp add: t_def)
  have run: "read_pipe a result bytes s = Ret (int k) (t\<lparr>mutexes := mutexes s\<rparr>)"
    using ok(2) lock_pipe [OF assms(1)] full body free by (auto simp: read_pipe_def kbind_def kcall_def)
  have ql: "pipe_length q = ?l - int k"
    using ring_length_consume [OF wf, of "int k" "pi_readFlag p = 1"] k by (simp add: q_def)
  have "contents m q = ringseq m (pi_pipe p) PIPE_LENGTH (pi_position p + int k) (length ?c - k)"
  proof -
    have "nat (pipe_length q) = length ?c - k" unfolding ql len [symmetric] by simp
    then show ?thesis by (simp only: contents_def) (simp add: q_def)
  qed
  also have "\<dots> = ringseq (ram s) (pi_pipe p) PIPE_LENGTH (pi_position p + int k) (length ?c - k)"
    by (rule ringseq_outside) (use m(2) in auto)
  also have "\<dots> = drop k (ringseq (ram s) (pi_pipe p) PIPE_LENGTH (pi_position p) (length ?c))"
    by (rule ringseq_drop) (simp add: k_def)
  also have "ringseq (ram s) (pi_pipe p) PIPE_LENGTH (pi_position p) (length ?c) = ?c"
    using len by (simp add: contents_def)
  finally have "contents m q = drop n ?c" by (simp add: k_def min_def)
  moreover have "map (\<lambda>j. m (result + int j)) [0..<k] = take n ?c"
    by (rule nth_equalityI) (use m(3) in \<open>auto simp: k_def contents_def\<close>)
  moreover have "pipe_wf q" using wf by (simp add: pipe_wf_def q_def)
  ultimately show ?thesis
    using run unfolding k_def [symmetric] by (intro exI [of _ "t\<lparr>mutexes := mutexes s\<rparr>"] exI [of _ q]) (simp add: t_def)
qed

theorem read_takes_witness:
  "\<exists>t q. read_pipe 0x3000 0x4000 2 demo_ipc = Ret 2 t \<and> pipe_structs t 0x3000 = Some q \<and>
    contents (ram t) q = [99] \<and> map (\<lambda>k. ram t (0x4000 + int k)) [0, 1] = [97, 98]"
proof -
  have "apart 0x4000 2 demo_pipe" by (auto simp: apart_def demo_pipe_def)
  then show ?thesis
    using read_takes [OF pipe_ok_demo [OF demo_pipe_bytes(1,2), unfolded demo_pipe_self], of 2 2 "0x4000"] demo_pipe_bytes(4)
    by (force simp: numeral_2_eq_2)
qed

lemma pipe_degenerate:
  assumes "pipe_ok a p s" and "names_ok s"
  shows "contents (ram s) p = [] \<and> ram s msg = 0 \<longrightarrow>
      (\<exists>t q. write_pipe nul a msg s = Ret 0 t \<and> pipe_structs t a = Some q \<and> length (contents (ram t) q) = 10)"
    and "length (contents (ram s) p) = 10 \<longrightarrow>
      (\<exists>t q. read_pipe a result 0 s = Ret 0 t \<and> pipe_structs t a = Some q \<and> contents (ram t) q = [])"
proof -
  have ok: "a \<noteq> NULL" "pipe_structs s a = Some p" "pipe_wf p" using assms(1) by (auto simp: pipe_ok_def)
  have wf: "0 \<le> pi_position p" "pi_position p < PIPE_LENGTH" "0 \<le> pi_end p" "pi_end p < PIPE_LENGTH"
    using ok(3) by (auto simp: pipe_wf_def)
  have len: "int (length (contents (ram s) p)) = pipe_length p" by (rule length_contents)
  have mod_diff: "(pi_end p - pi_position p) mod PIPE_LENGTH \<noteq> 0" if "pi_end p \<noteq> pi_position p"
    using that wf by (metis mod_eq_dvd_iff mod_pos_pos_trivial mod_0_imp_dvd dvd_imp_mod_0)
  have lt: "(pi_end p - pi_position p) mod PIPE_LENGTH < PIPE_LENGTH" by simp
  show "contents (ram s) p = [] \<and> ram s msg = 0 \<longrightarrow>
      (\<exists>t q. write_pipe nul a msg s = Ret 0 t \<and> pipe_structs t a = Some q \<and> length (contents (ram t) q) = 10)"
  proof
    assume empty: "contents (ram s) p = [] \<and> ram s msg = 0"
    then have e: "pi_end p = pi_position p" "pi_readFlag p \<noteq> 1"
      using len mod_diff by (auto simp: ring_length_def split: if_splits)
    define q where "q = p\<lparr>pi_end := pi_position p, pi_readFlag := 1\<rparr>"
    define v where "v = (locked p s)\<lparr>pipe_structs := (pipe_structs s)(a \<mapsto> q)\<rparr>"
    have v: "names_ok v" "pids_ok v"
      using assms(2) pipe_ok_same(1) [OF assms(1)] by (auto simp: v_def names_ok_def)
    obtain t where t: "unlockProcesses nul (pi_name p) v = Inr ((), t)" "pipe_frame v t"
      using unlockProcesses_frame [OF v, of nul "pi_name p"] by blast
    have "write_loop (ram s) p x msg 0 = Some (ram s, 0)" for x
      using empty by (simp add: write_loop.simps)
    then have body: "write_body nul a (pi_pipe p + pi_end p) msg (locked p s) = Inr (0, t)"
      using ok(1,2) e t(1) wf by (simp add: write_body_def ebind_def upd_pipe_def put_pipe_def smod_nonneg v_def q_def)
    obtain c where c: "pipe_structs t a = Some (q\<lparr>pi_cardinalBlocked := c\<rparr>)"
      using pipe_frame_Some [OF t(2), of a q] by (auto simp: v_def)
    have "mutexes t = mutexes (locked p s)" using pipe_frame_fields(5) [OF t(2)] by (simp add: v_def)
    then have free: "freeMutex (pi_mutex p) t = Inr ((), t\<lparr>mutexes := mutexes s\<rparr>)"
      by (rule unlock_pipe [OF assms(1)])
    have "write_pipe nul a msg s = Ret 0 (t\<lparr>mutexes := mutexes s\<rparr>)"
      using ok(2) lock_pipe [OF assms(1)] body c free
      by (simp add: write_pipe_def kbind_def kcall_def) (simp add: q_def)
    moreover have "length (contents (ram t) (q\<lparr>pi_cardinalBlocked := c\<rparr>)) = 10"
      using e by (simp add: contents_def ring_length_def q_def)
    ultimately show "\<exists>t q. write_pipe nul a msg s = Ret 0 t \<and> pipe_structs t a = Some q \<and> length (contents (ram t) q) = 10"
      using c by (intro exI [of _ "t\<lparr>mutexes := mutexes s\<rparr>"] exI [of _ "q\<lparr>pi_cardinalBlocked := c\<rparr>"]) simp
  qed
  show "length (contents (ram s) p) = 10 \<longrightarrow>
      (\<exists>t q. read_pipe a result 0 s = Ret 0 t \<and> pipe_structs t a = Some q \<and> contents (ram t) q = [])"
  proof
    assume full: "length (contents (ram s) p) = 10"
    then have e: "pi_end p = pi_position p" "pi_readFlag p = 1"
      using len lt by (auto simp: ring_length_def split: if_splits)
    define q where "q = p\<lparr>pi_readFlag := 0\<rparr>"
    define t where "t = (locked p s)\<lparr>ram := ram s, pipe_structs := (pipe_structs s)(a \<mapsto> q)\<rparr>"
    have "read_bytes a (pi_pipe p + pi_position p) result 0 (locked p s) = Inr (0, t)"
      using ok(1,2) wf by (simp add: read_bytes_def ebind_def upd_pipe_def put_pipe_def smod_nonneg read_loop.simps t_def q_def)
    moreover have "freeMutex (pi_mutex p) t = Inr ((), t\<lparr>mutexes := mutexes s\<rparr>)"
      by (rule unlock_pipe [OF assms(1)]) (simp add: t_def)
    ultimately have "read_pipe a result 0 s = Ret 0 (t\<lparr>mutexes := mutexes s\<rparr>)"
      using ok(2) lock_pipe [OF assms(1)] e by (simp add: read_pipe_def kbind_def kcall_def)
    moreover have "contents (ram s) q = []" using e by (simp add: contents_def ring_length_def q_def)
    ultimately show "\<exists>t q. read_pipe a result 0 s = Ret 0 t \<and> pipe_structs t a = Some q \<and> contents (ram t) q = []"
      by (intro exI [of _ "t\<lparr>mutexes := mutexes s\<rparr>"] exI [of _ q]) (simp add: t_def)
  qed
qed

text \<open>Two calls break the byte queue.  Writing the empty string to an empty pipe marks it full, so that the
  next reader gets the ten bytes that happen to be in the buffer; reading zero bytes from a full
  pipe marks it empty, so that its ten bytes are lost.\<close>

theorem pipe_degenerate_calls:
  assumes "pipe_ok a p s" and "names_ok s"
  shows "(contents (ram s) p = [] \<and> ram s msg = 0 \<longrightarrow>
      (\<exists>t q. write_pipe nul a msg s = Ret 0 t \<and> pipe_structs t a = Some q \<and> length (contents (ram t) q) = 10)) \<and>
    (length (contents (ram s) p) = 10 \<longrightarrow>
      (\<exists>t q. read_pipe a result 0 s = Ret 0 t \<and> pipe_structs t a = Some q \<and> contents (ram t) q = []))"
  using pipe_degenerate [OF assms] by simp

theorem pipe_degenerate_calls_witness:
  "(\<exists>t q. write_pipe '''' 0x3000 0 (demo_ipc\<lparr>pipe_structs := [0x3000 \<mapsto> demo_pipe\<lparr>pi_end := 8\<rparr>]\<rparr>) = Ret 0 t \<and>
      pipe_structs t 0x3000 = Some q \<and> length (contents (ram t) q) = 10) \<and>
   (\<exists>t q. read_pipe 0x3000 0x4000 0 (demo_ipc\<lparr>pipe_structs := [0x3000 \<mapsto> demo_pipe\<lparr>pi_end := 8, pi_readFlag := 1\<rparr>]\<rparr>) = Ret 0 t \<and>
      pipe_structs t 0x3000 = Some q \<and> contents (ram t) q = [])"
proof
  let ?p = "demo_pipe\<lparr>pi_end := 8\<rparr>" and ?r = "demo_pipe\<lparr>pi_end := 8, pi_readFlag := 1\<rparr>"
  have p: "pipe_wf ?p" "pi_mutex ?p = 1" "contents m ?p = []" for m
    by (simp_all add: demo_pipe_def pipe_wf_def contents_def ring_length_def)
  have r: "pipe_wf ?r" "pi_mutex ?r = 1" "length (contents m ?r) = 10" for m
    by (simp_all add: demo_pipe_def pipe_wf_def contents_def ring_length_def)
  have n: "names_ok (demo_ipc\<lparr>pipe_structs := [0x3000 \<mapsto> x]\<rparr>)" for x
    using demo_ipc_ok(4) by (auto simp: names_ok_def demo_ipc_fields)
  show "\<exists>t q. write_pipe '''' 0x3000 0 (demo_ipc\<lparr>pipe_structs := [0x3000 \<mapsto> ?p]\<rparr>) = Ret 0 t \<and>
      pipe_structs t 0x3000 = Some q \<and> length (contents (ram t) q) = 10"
    using pipe_degenerate_calls [OF pipe_ok_demo [OF p(1,2)] n] p(3) by (simp add: demo_ipc_fields)
  show "\<exists>t q. read_pipe 0x3000 0x4000 0 (demo_ipc\<lparr>pipe_structs := [0x3000 \<mapsto> ?r]\<rparr>) = Ret 0 t \<and>
      pipe_structs t 0x3000 = Some q \<and> contents (ram t) q = []"
    using pipe_degenerate_calls [OF pipe_ok_demo [OF r(1,2)] n] r(3) by simp
qed

lemma createPipeStruct_first:
  assumes "procs s q = Some pr" and "q \<noteq> NULL" and "p_pipesOpened pr = 0" and "p_pipesStruct pr \<noteq> NULL"
    and "read_int (ram s) (p_occupiedPosition pr) \<noteq> 1"
  shows "\<exists>t. createPipeStruct q name s = Inr (p_pipesStruct pr, t) \<and>
    procs t = (procs s)(q \<mapsto> pr\<lparr>p_pipesOpened := 0\<rparr>) \<and> slots t = slots s \<and> current t = current s \<and>
    cardinal_processes t = cardinal_processes s \<and> mutexes t = mutexes s \<and> adminMutex t = adminMutex s"
proof -
  have "getIndexForPipeStructure q s = Inr (0, s\<lparr>procs := (procs s)(q \<mapsto> pr\<lparr>p_pipesOpened := 1\<rparr>)\<rparr>)"
    using assms by (simp add: getIndexForPipeStructure_def ebind_def Let_def)
  then show ?thesis
    using assms(2,4) by (simp add: createPipeStruct_def ebind_def store_int_def put_pipe_def Let_def)
qed

lemma getMutex_blocks:
  assumes "table_ok s" and "pids_ok s" and "live s 0" and "adminMutex s = 0" and "m_mutex (mutexes s ! 0) = 1"
    and "waiting (m_queue (mutexes s ! 0)) = []"
  shows "\<exists>u k. getMutex nul n s = bindr (yield u) k \<and> in_state u (running_pid s) BLOCKED \<and>
    m_mutex (mutexes u ! 0) = 1 \<and> waiting (m_queue (mutexes u ! 0)) = [running_pid s]"
proof -
  obtain u where u: "block_on (int 0) s = Inr ((), u)" "in_state u (running_pid s) BLOCKED"
      "m_mutex (mutexes u ! 0) = 1" "waiting (m_queue (mutexes u ! 0)) = [running_pid s]"
    by (rule block_on_effect [OF assms(3,1,5,2)]) (use assms(6) in auto)
  have "lockMutex (int 0) s = yield u" by (rule lockMutex_held [OF assms(3,5) u(1)])
  then have "getMutex nul n s = bindr (yield u) (\<lambda>_.
     kbind (kget (getIndex nul n)) (\<lambda>index.
     kbind (if index = MUTEX_NOT_FOUND then kcall (createMutex n) else kreturn index) (\<lambda>index.
     kbind (kget adminMutex) (\<lambda>admin. kbind (kcall (freeMutex admin)) (\<lambda>_. kreturn index)))))"
    by (simp add: getMutex_def kbind_Ret [OF kget_apply] assms(4)) (simp add: kbind_def)
  with u(2-4) show ?thesis by blast
qed

text \<open>C16. The boot never calls \<open>initializePipes\<close>, so \<open>ipcAdminMutex\<close> is 0, which is also the mutex
  \<open>getMutex\<close> takes.  A process that creates a pipe therefore waits for a mutex it holds: the only
  waiter of the mutex 0 is its own holder.\<close>

theorem createPipe_deadlocks:
  assumes "ring s ((x, q, pr) # es)" and "pids_ok s" and "table_ok s" and "live s 0"
    and "adminMutex s = 0" and "ipcAdminMutex s = 0" and "m_mutex (mutexes s ! 0) = 0"
    and "0 \<le> lastPipeName s" and "lastPipeName s < int MAX_PIPES" and "pipeNames s ! nat (lastPipeName s) = None"
    and "p_pipesOpened pr = 0" and "p_pipesStruct pr \<noteq> NULL" and "read_int (ram s) (p_occupiedPosition pr) \<noteq> 1"
  shows "\<exists>u k. createPipe nul (Some n) s = bindr (yield u) k \<and> in_state u (p_pid pr) BLOCKED \<and>
    m_mutex (mutexes u ! 0) = 1 \<and> waiting (m_queue (mutexes u ! 0)) = [p_pid pr]"
proof -
  define m where "m = mutexes s ! 0"
  have m: "mutex_wf m" "m_used m" "m_mutex m = 0" and len: "length (mutexes s) = MAX_MUTEXES"
    using assms(3,4,7) table_ok_nth [of s 0] by (auto simp: m_def live_def table_ok_def)
  have q: "procs s q = Some pr" "q \<noteq> NULL" using assms(1) by (auto simp: ring_def)
  define t where "t = s\<lparr>mutexes := (mutexes s)[0 := acquired m]\<rparr>"
  have lock: "lockMutex 0 s = Ret () t"
    using lockMutex_free [OF assms(4)] m by (simp add: t_def flip: m_def)
  have ring_t: "ring t ((x, q, pr) # es)" using assms(1) by (simp add: t_def)
  have pid: "getCurrentPid t = Inr (p_pid pr, t)"
    using getCurrentPid_ring [OF ring_t] running_pid_ring [OF ring_t] by simp
  have place: "createPipe_place t = Inr (True, t)"
    using assms(8-10) by (simp add: createPipe_place_def t_def)
  have proc: "getProcessById (p_pid pr) t = Inr (q, t)" by (rule getProcessById_first [OF ring_t])
  obtain v where struct: "createPipeStruct q (Some n) t = Inr (p_pipesStruct pr, v)"
      and v: "procs v = (procs t)(q \<mapsto> pr\<lparr>p_pipesOpened := 0\<rparr>)" "slots v = slots t" "current v = current t"
        "cardinal_processes v = cardinal_processes t" "mutexes v = mutexes t" "adminMutex v = 0"
    using createPipeStruct_first [of t q pr "Some n"] q assms(5,11-13) by (auto simp: t_def)
  have "ring (t\<lparr>procs := (procs t)(q \<mapsto> pr\<lparr>p_pipesOpened := 0\<rparr>)\<rparr>) ([] @ (x, q, pr\<lparr>p_pipesOpened := 0\<rparr>) # es)"
    by (rule ring_proc_update) (use ring_t in simp_all)
  moreover have "same_sched (t\<lparr>procs := (procs t)(q \<mapsto> pr\<lparr>p_pipesOpened := 0\<rparr>)\<rparr>) v"
    by (simp add: same_sched_def v)
  ultimately have ring_v: "ring v ((x, q, pr\<lparr>p_pipesOpened := 0\<rparr>) # es)"
    by (simp add: same_sched_facts(1))
  have ok_v: "pids_ok v" "running_pid v = p_pid pr"
  proof -
    obtain fs where "ring s fs" "\<forall>e\<in>set fs. 0 \<le> entry_pid e" using assms(2) by (auto simp: pids_ok_def)
    then have "\<forall>e\<in>set ((x, q, pr) # es). 0 \<le> entry_pid e" using ring_unique [OF assms(1)] by simp
    then show "pids_ok v" using ring_v unfolding pids_ok_def
      by (intro exI [of _ "(x, q, pr\<lparr>p_pipesOpened := 0\<rparr>) # es"]) simp
    show "running_pid v = p_pid pr" using running_pid_ring [OF ring_v] by simp
  qed
  have mv: "mutexes v ! 0 = acquired m" using len by (simp add: v t_def)
  have wq: "waiting (m_queue m) = []" using m by (auto simp: mutex_wf_def)
  have "table_ok t" using table_ok_update [OF assms(3), of "acquired m" 0] m(1) wq
    by (simp add: t_def) (simp add: mutex_wf_def acquired_def)
  then have tab: "table_ok v" "live v 0"
    using mv m(2) by (simp_all add: v table_ok_def live_def acquired_def)
  obtain u k where u: "getMutex nul n v = bindr (yield u) k" "in_state u (p_pid pr) BLOCKED"
      "m_mutex (mutexes u ! 0) = 1" "waiting (m_queue (mutexes u ! 0)) = [p_pid pr]"
    using getMutex_blocks [OF tab(1) ok_v(1) tab(2), of nul n] mv wq ok_v(2)
    by (auto simp: acquired_def v(6))
  have "\<exists>k. createPipe nul (Some n) s = bindr (getMutex nul n v) k"
    using lock pid place proc struct q(2) assms(6)
    by (simp add: createPipe_def kbind_Ret [OF kget_apply] kbind_def kcall_def) blast
  then obtain k' where "createPipe nul (Some n) s = bindr (yield u) (\<lambda>x s. bindr (k x s) k')"
    using u(1) by (auto simp: bindr_assoc)
  with u(2-4) show ?thesis by blast
qed

theorem createPipe_deadlocks_witness:
  "\<exists>u k. createPipe '''' (Some ''x'') (demo_ipc\<lparr>procs := (procs demo_ipc)(0x1003000 \<mapsto>
       (demo_process 0 RUNNING 0x1006000)\<lparr>p_pipesStruct := 0x1003116, p_occupiedPosition := 0x1003200\<rparr>)\<rparr>) =
     bindr (yield u) k \<and> in_state u 0 BLOCKED \<and> waiting (m_queue (mutexes u ! 0)) = [0]"
proof -
  let ?pr = "(demo_process 0 RUNNING 0x1006000)\<lparr>p_pipesStruct := 0x1003116, p_occupiedPosition := 0x1003200\<rparr>"
  let ?s = "demo_ipc\<lparr>procs := (procs demo_ipc)(0x1003000 \<mapsto> ?pr)\<rparr>"
  have "ring demo_ipc demo_entries"
    using ring_demo same_sched_facts(1) [OF demo_mutex_sched] same_sched_facts(1) [OF demo_sem_sched]
      same_sched_facts(1) [OF demo_ipc_sched] by blast
  then have ring: "ring ?s ([] @ (0x1000000, 0x1003000, ?pr) # tl demo_entries)"
    by (intro ring_proc_update [where p = "demo_process 0 RUNNING 0x1006000"])
      (simp_all only: demo_entries_def list.sel append_Nil, simp add: demo_process_def)
  have "\<exists>u k. createPipe '''' (Some ''x'') ?s = bindr (yield u) k \<and> in_state u (p_pid ?pr) BLOCKED \<and>
      m_mutex (mutexes u ! 0) = 1 \<and> waiting (m_queue (mutexes u ! 0)) = [p_pid ?pr]"
  proof (rule createPipe_deadlocks)
    show "ring ?s ((0x1000000, 0x1003000, ?pr) # tl demo_entries)" using ring by simp
    then show "pids_ok ?s" unfolding pids_ok_def
      by (intro exI [of _ "(0x1000000, 0x1003000, ?pr) # tl demo_entries"]) (simp add: demo_entries_def demo_process_def)
    show "table_ok ?s" "live ?s 0" using demo_ipc_ok by (simp_all add: table_ok_def live_def)
    show "m_mutex (mutexes ?s ! 0) = 0" by (simp add: demo_ipc_fields demo_mutex_table free_mutex_def)
    show "adminMutex ?s = 0" "ipcAdminMutex ?s = 0" "0 \<le> lastPipeName ?s" "lastPipeName ?s < int MAX_PIPES"
      "pipeNames ?s ! nat (lastPipeName ?s) = None" by (simp_all add: demo_ipc_fields)
    show "p_pipesOpened ?pr = 0" "p_pipesStruct ?pr \<noteq> NULL"
      by (simp_all add: demo_process_def zero_process_def)
    show "read_int (ram ?s) (p_occupiedPosition ?pr) \<noteq> 1"
      by (simp add: demo_ipc_fields read_int_def word_cat_eq)
  qed
  then show ?thesis by (auto simp: demo_process_def)
qed

text \<open>Writing to a full pipe: the process is marked blocked, its pid is recorded nowhere, and \<open>write\<close>
  returns 0 without giving up the processor; the next switch is the last the process sees.\<close>

lemma write_full_blocks:
  assumes "pipe_ok a p s" and "length (contents (ram s) p) = 10"
  shows "\<exists>t. write_pipe nul a msg s = Ret 0 t \<and> in_state t (running_pid s) BLOCKED \<and>
    pipe_structs t = pipe_structs s \<and> ram t = ram s \<and> mutexes t = mutexes s"
proof -
  have ok: "pipe_structs s a = Some p" "pids_ok s" using assms(1) by (auto simp: pipe_ok_def)
  have "pi_position p = pi_end p \<and> pi_readFlag p = 1"
    using assms(2) length_contents [of "ram s" p] by (auto simp: ring_length_def split: if_splits)
  moreover have lo: "pids_ok (locked p s)" "running_pid (locked p s) = running_pid s"
    using ok(2) same_sched_facts [OF same_sched_locked, of p s] by simp_all
  moreover obtain t where t: "changeProcessState (running_pid s) BLOCKED (locked p s) = Inr ((), t)"
      "t = (locked p s)\<lparr>procs := procs t\<rparr>" "in_state t (running_pid s) BLOCKED"
    using changeProcessState_effect [OF lo(1), of "running_pid s" BLOCKED] running_in_state [OF lo(1)] lo(2) by metis
  moreover have "getCurrentPid (locked p s) = Inr (running_pid s, locked p s)"
    using lo getCurrentPid_ring [of "locked p s"] by (auto simp: pids_ok_def)
  ultimately have body: "write_body nul a (pi_pipe p + pi_end p) msg (locked p s) = Inr (0, t)"
    using ok(1) by (simp add: write_body_def ebind_def)
  obtain P where P: "t = (locked p s)\<lparr>procs := P\<rparr>" using t(2) by (rule that)
  have "freeMutex (pi_mutex p) t = Inr ((), t\<lparr>mutexes := mutexes s\<rparr>)"
    by (rule unlock_pipe [OF assms(1)]) (simp add: P)
  then have "write_pipe nul a msg s = Ret 0 (t\<lparr>mutexes := mutexes s\<rparr>)"
    using ok(1) lock_pipe [OF assms(1)] body by (simp add: write_pipe_def kbind_def kcall_def P)
  then show ?thesis using t(3) by (intro exI [of _ "t\<lparr>mutexes := mutexes s\<rparr>"]) (simp add: P)
qed

end
