(* ===== verification/Malloc.thy ===== *)
theory Malloc
  imports IPC
begin

text \<open>
  The memory allocators of Kernel/malloc.c: \<open>mallock\<close> and \<open>free\<close> on the heap of the current process,
  which grows by pages of the page allocator, and \<open>kmalloc\<close> on the fixed heap of the kernel.  Both
  keep a doubly linked list of blocks, each a header of 28 bytes followed by its data.  Headers live
  in the map \<open>tblocks\<close>; \<open>size_t\<close> is a 32-bit word.

  The lemmas show that \<open>kmalloc\<close> is a first-fit allocator that hands out disjoint memory, and what
  \<open>free\<close> does to blocks it should leave alone.
\<close>

section \<open>State\<close>

record t_block =
  b_size :: "32 word"
  b_next :: addr
  b_prev :: addr
  b_free :: bool

record kmem = ipc +
  heapBase :: addr
  kernelBase :: addr
  tblocks :: "addr \<Rightarrow> t_block option"

abbreviation (input) BLOCK_STRUCT_SIZE :: int where
  "BLOCK_STRUCT_SIZE \<equiv> 28"

abbreviation (input) KERNEL_HEAP_START :: addr where
  "KERNEL_HEAP_START \<equiv> 0x4000"

abbreviation (input) KERNEL_HEAP_SIZE :: int where
  "KERNEL_HEAP_SIZE \<equiv> 69632"     \<comment> \<open>\<open>PAGE_SIZE * 17\<close>\<close>

text \<open>\<open>sizeof(t_block)\<close>, by which pointers to it advance.\<close>

abbreviation (input) sizeof_t_block :: int where
  "sizeof_t_block \<equiv> 32"

abbreviation dataStart :: "addr \<Rightarrow> addr" where
  "dataStart a \<equiv> a + BLOCK_STRUCT_SIZE"

definition align4 :: "32 word \<Rightarrow> 32 word" where
  "align4 x = push_bit 2 (drop_bit 2 (x - 1)) + 4"

text \<open>A header of fresh memory reads as zeros, one of memory used before as it was.\<close>

definition page_block :: "addr \<Rightarrow> 'a kmem_scheme \<Rightarrow> t_block" where
  "page_block a s = (case tblocks s a of Some b \<Rightarrow> b
     | None \<Rightarrow> \<lparr>b_size = 0, b_next = NULL, b_prev = NULL, b_free = False\<rparr>)"

definition put_block :: "addr \<Rightarrow> t_block \<Rightarrow> ('a kmem_scheme, unit) eprog" where
  "put_block a b s = (if a = NULL then Inl NullDeref else Inr ((), s\<lparr>tblocks := (tblocks s)(a \<mapsto> b)\<rparr>))"

definition upd_block :: "addr \<Rightarrow> (t_block \<Rightarrow> t_block) \<Rightarrow> ('a kmem_scheme, unit) eprog" where
  "upd_block a f = ebind (deref tblocks a) (\<lambda>b. put_block a (f b))"

section \<open>Finding and splitting\<close>

text \<open>The walk along the list; \<open>None\<close> when the list is circular and nothing fits.\<close>

partial_function (option) fit_walk :: "'a kmem_scheme \<Rightarrow> addr \<Rightarrow> 32 word \<Rightarrow> (fault + addr) option" where
  "fit_walk s cur sz =
     (if cur = NULL then Some (Inr NULL)
      else case tblocks s cur of
        None \<Rightarrow> Some (Inl NullDeref)
      | Some b \<Rightarrow> if b_free b \<and> sz < b_size b then Some (Inr cur) else fit_walk s (b_next b) sz)"

text \<open>A loop's outcome: what it computes, the fault it runs into, or that it never ends.\<close>

definition outcome :: "('s \<Rightarrow> (fault + 'a) option) \<Rightarrow> ('s, 'a) eprog" where
  "outcome w s = (case w s of None \<Rightarrow> Inl Diverges | Some (Inl e) \<Rightarrow> Inl e | Some (Inr x) \<Rightarrow> Inr (x, s))"

definition findFirstFreeBlock :: "addr \<Rightarrow> 32 word \<Rightarrow> ('a kmem_scheme, addr) eprog" where
  "findFirstFreeBlock block sz = outcome (\<lambda>s. fit_walk s block sz)"

definition split_block :: "addr \<Rightarrow> 32 word \<Rightarrow> ('a kmem_scheme, unit) eprog" where
  "split_block block sz =
     ebind (deref tblocks block) (\<lambda>b.
     if b_size b < sz then ereturn ()
     else let newBlock = dataStart block + uint sz in
          ebind (put_block newBlock \<lparr>b_size = b_size b - (sz + 28), b_next = b_next b, b_prev = block, b_free = True\<rparr>) (\<lambda>_.
          upd_block block (\<lambda>b. b\<lparr>b_next := newBlock, b_size := sz\<rparr>)))"

text \<open>Both allocators end in the same three statements.\<close>

definition take_block :: "addr \<Rightarrow> 32 word \<Rightarrow> ('a kmem_scheme, addr) eprog" where
  "take_block freeBlock s =
     ebind (deref tblocks freeBlock) (\<lambda>b.
     ebind (if s + 4 + 28 < b_size b then split_block freeBlock s else ereturn ()) (\<lambda>_.
     ebind (upd_block freeBlock (\<lambda>b. b\<lparr>b_free := False\<rparr>)) (\<lambda>_.
     ereturn (dataStart freeBlock))))"

section \<open>The kernel's heap\<close>

text \<open>Only the fields that are set; the flag of the first block is \<open>free\<close>.\<close>

definition initializeKernelHeap :: "('a kmem_scheme, unit) eprog" where
  "initializeKernelHeap s =
     put_block KERNEL_HEAP_START
       \<lparr>b_size = word_of_int KERNEL_HEAP_SIZE, b_next = NULL, b_prev = NULL, b_free = True\<rparr>
       (s\<lparr>kernelBase := KERNEL_HEAP_START\<rparr>)"

definition kmalloc :: "32 word \<Rightarrow> ('a kmem_scheme, addr) eprog" where
  "kmalloc sz s =
     (if kernelBase s = NULL then Inr (KERNEL_HEAP_START, s)
      else if sz = 0 then Inr (NULL, s)
      else ebind (findFirstFreeBlock (kernelBase s) (align4 sz)) (\<lambda>freeBlock.
           if freeBlock = NULL then ereturn NULL else take_block freeBlock (align4 sz)) s)"

section \<open>The heap of a process\<close>

partial_function (option) last_walk :: "'a kmem_scheme \<Rightarrow> addr \<Rightarrow> (fault + addr) option" where
  "last_walk s cur =
     (case tblocks s cur of
        None \<Rightarrow> Some (Inl NullDeref)
      | Some b \<Rightarrow> if b_next b \<noteq> NULL then last_walk s (b_next b) else Some (Inr cur))"

definition findLastInHeap :: "('a kmem_scheme, addr) eprog" where
  "findLastInHeap = outcome (\<lambda>s. last_walk s (heapBase s))"

text \<open>
  \<open>mallock\<close> calls \<open>extendHeap\<close> once with the process and once, when the heap has no fitting block,
  with the size only: the parameter \<open>p\<close> then has no value (\<open>None\<close>).
\<close>

definition extendHeap :: "32 word \<Rightarrow> addr option \<Rightarrow> ('a kmem_scheme, addr) eprog" where
  "extendHeap sz p =
     (let numberOfPages = NUMBER_OF_PAGES_TO_ALLOC (uint (sz + 28)) in
      ebind (allocPage (nat numberOfPages)) (\<lambda>newBlock s.
      ebind (put_block newBlock ((page_block newBlock s)
          \<lparr>b_size := word_of_int (numberOfPages * PAGE_SIZE - BLOCK_STRUCT_SIZE), b_free := True, b_next := NULL\<rparr>)) (\<lambda>_ s.
      ebind (if heapBase s = NULL
             then ebind (upd_block newBlock (\<lambda>b. b\<lparr>b_prev := NULL\<rparr>)) (\<lambda>_ s.
                  case p of None \<Rightarrow> Inl Uninitialised
                  | Some p \<Rightarrow> ebind (deref procs p) (\<lambda>pr. put_proc p (pr\<lparr>p_heap := newBlock\<rparr>)) (s\<lparr>heapBase := newBlock\<rparr>))
             else ebind findLastInHeap (\<lambda>last.
                  ebind (upd_block last (\<lambda>b. b\<lparr>b_next := newBlock\<rparr>)) (\<lambda>_.
                  upd_block newBlock (\<lambda>b. b\<lparr>b_prev := last\<rparr>)))) (\<lambda>_.
      case p of None \<Rightarrow> efail Uninitialised
      | Some p \<Rightarrow>
          ebind (deref procs p) (\<lambda>pr.
          ebind (addPagesToProcess newBlock (p_pid pr)) (\<lambda>_. ereturn newBlock))) s) s))"

definition mallock :: "32 word \<Rightarrow> ('a kmem_scheme, addr) eprog" where
  "mallock sz =
     ebind getCurrentProcess (\<lambda>p s.
     if p = NULL then Inr (kernelBase s, s\<lparr>kernelBase := kernelBase s + sizeof_t_block * uint sz\<rparr>)
     else ebind (deref procs p) (\<lambda>pr s.
          let s = s\<lparr>heapBase := p_heap pr\<rparr> in
          if sz = 0 then Inr (NULL, s)
          else ebind (if heapBase s = NULL then ebind (extendHeap sz (Some p)) (\<lambda>_. ereturn ()) else ereturn ()) (\<lambda>_ s.
               ebind (findFirstFreeBlock (heapBase s) (align4 sz)) (\<lambda>freeBlock.
               ebind (if freeBlock = NULL then extendHeap sz None else ereturn freeBlock) (\<lambda>freeBlock.
               take_block freeBlock (align4 sz))) s) s) s)"

section \<open>Freeing\<close>

definition isValidAddress :: "addr \<Rightarrow> 'a kmem_scheme \<Rightarrow> bool" where
  "isValidAddress p s \<longleftrightarrow> \<not> (p = NULL \<or> p < dataStart (heapBase s))"

partial_function (option) block_walk :: "'a kmem_scheme \<Rightarrow> addr \<Rightarrow> addr \<Rightarrow> (fault + addr) option" where
  "block_walk s cur p =
     (if cur = NULL then Some (Inr NULL)
      else case tblocks s cur of
        None \<Rightarrow> Some (Inl NullDeref)
      | Some b \<Rightarrow> if b_next b < p then block_walk s (b_next b) p else Some (Inr cur))"

definition getBlock :: "addr \<Rightarrow> ('a kmem_scheme, addr) eprog" where
  "getBlock p = outcome (\<lambda>s. block_walk s (heapBase s) p)"

definition mergeBlocks :: "addr \<Rightarrow> ('a kmem_scheme, unit) eprog" where
  "mergeBlocks firstBlock =
     ebind (deref tblocks firstBlock) (\<lambda>b.
     ebind (deref tblocks (b_next b)) (\<lambda>n.
     upd_block firstBlock (\<lambda>b. b\<lparr>b_size := b_size b + (b_size n + 28), b_next := b_next n\<rparr>)))"

text \<open>Whether there is a free block at an address that may be null.\<close>

definition free_there :: "addr \<Rightarrow> ('a kmem_scheme, bool) eprog" where
  "free_there a = (if a = NULL then ereturn False else ebind (deref tblocks a) (\<lambda>b. ereturn (b_free b)))"

definition free :: "addr \<Rightarrow> ('a kmem_scheme, unit) eprog" where
  "free p s =
     (if \<not> isValidAddress p s then Inr ((), s)
      else ebind (getBlock p) (\<lambda>blockForFree.
           if blockForFree = NULL then ereturn ()
           else ebind (upd_block blockForFree (\<lambda>b. b\<lparr>b_free := True\<rparr>)) (\<lambda>_.
                ebind (deref tblocks blockForFree) (\<lambda>b.
                ebind (free_there (b_next b)) (\<lambda>nextFree.
                ebind (if nextFree then mergeBlocks blockForFree else ereturn ()) (\<lambda>_.
                ebind (deref tblocks blockForFree) (\<lambda>b.
                ebind (free_there (b_prev b)) (\<lambda>prevFree.
                if prevFree then mergeBlocks (b_prev b) else ereturn ()))))))) s)"

section \<open>The list of blocks\<close>

type_synonym block = "addr \<times> t_block"

fun hchain :: "(addr \<Rightarrow> t_block option) \<Rightarrow> addr \<Rightarrow> block list \<Rightarrow> bool" where
  "hchain m a [] \<longleftrightarrow> a = NULL"
| "hchain m a ((x, b) # bs) \<longleftrightarrow> a = x \<and> x \<noteq> NULL \<and> m x = Some b \<and> hchain m (b_next b) bs"

text \<open>The blocks lie side by side from \<open>a\<close> to \<open>e\<close>.\<close>

abbreviation block_end :: "block \<Rightarrow> int" where
  "block_end xb \<equiv> dataStart (fst xb) + uint (b_size (snd xb))"

fun tiled :: "addr \<Rightarrow> block list \<Rightarrow> addr \<Rightarrow> bool" where
  "tiled a [] e \<longleftrightarrow> a = e"
| "tiled a (xb # bs) e \<longleftrightarrow> a = fst xb \<and> tiled (block_end xb) bs e"

definition fits :: "32 word \<Rightarrow> block \<Rightarrow> bool" where
  "fits n xb \<longleftrightarrow> b_free (snd xb) \<and> n < b_size (snd xb)"

lemma tiled_append: "tiled a (us @ ws) e \<longleftrightarrow> (\<exists>c. tiled a us c \<and> tiled c ws e)"
  by (induction us arbitrary: a) auto

lemma tiled_bounds: "tiled a bs e \<Longrightarrow> a \<le> e \<and> (\<forall>xb\<in>set bs. a \<le> fst xb \<and> block_end xb \<le> e)"
proof (induction bs arbitrary: a)
  case (Cons xb bs)
  have a: "a = fst xb" "a \<le> block_end xb" and rest: "tiled (block_end xb) bs e"
    using Cons.prems by simp_all
  have "a \<le> fst yc \<and> block_end yc \<le> e" if "yc \<in> set bs" for yc
    using Cons.IH [OF rest] that a(2) by (meson order_trans)
  moreover have "a \<le> e" using Cons.IH [OF rest] a(2) by (meson order_trans)
  moreover have "block_end xb \<le> e" using Cons.IH [OF rest] by simp
  ultimately show ?case using a(1) by simp
qed simp

text \<open>Two different blocks of a tiling do not overlap.\<close>

lemma tiled_disjoint:
  assumes "tiled a bs e"
  shows "\<forall>xb\<in>set bs. \<forall>yc\<in>set bs. fst xb \<noteq> fst yc \<longrightarrow> block_end xb \<le> fst yc \<or> block_end yc \<le> fst xb"
    and "distinct (map fst bs)"
  using assms
proof (induction bs arbitrary: a)
  case (Cons xb bs)
  { case 1
    then have "\<forall>yc\<in>set bs. block_end xb \<le> fst yc" using tiled_bounds [of "block_end xb" bs e] by simp
    with 1 Cons.IH(1) show ?case by auto }
  { case 2
    then have "\<forall>yc\<in>set bs. block_end xb \<le> fst yc" using tiled_bounds [of "block_end xb" bs e] by simp
    moreover have "fst xb < block_end xb" using uint_nonnegative [of "b_size (snd xb)"] by linarith
    ultimately have "fst xb \<notin> fst ` set bs" by fastforce
    with 2 Cons.IH(2) [of "block_end xb"] show ?case by simp }
qed simp_all

lemma hchain_cong: "(\<And>x. x \<in> fst ` set bs \<Longrightarrow> m' x = m x) \<Longrightarrow> hchain m' a bs \<longleftrightarrow> hchain m a bs"
  by (induction m a bs rule: hchain.induct) auto

lemma hchain_append: "hchain m a (us @ (x, b) # ws) \<Longrightarrow>
  m x = Some b \<and> x \<noteq> NULL \<and> hchain m (b_next b) ws"
  by (induction m a us rule: hchain.induct) auto

text \<open>Replacing one block, or splitting it.\<close>

lemma hchain_replace:
  assumes "hchain m a (us @ (x, b) # ws)" and "x \<notin> fst ` set us" and "hchain (m(x \<mapsto> b')) x ((x, b') # vs)"
  shows "hchain (m(x \<mapsto> b')) a (us @ (x, b') # vs)"
  using assms
proof (induction m a us rule: hchain.induct)
  case (1 m a)
  then show ?case by simp
next
  case (2 m a y c us)
  then show ?case by (auto simp: fun_upd_def)
qed

lemma fit_walk_found:
  assumes "hchain (tblocks s) a (us @ (x, b) # ws)" and "\<forall>xb\<in>set us. \<not> fits n xb" and "fits n (x, b)"
  shows "fit_walk s a n = Some (Inr x)"
  using assms
proof (induction us arbitrary: a)
  case Nil
  then show ?case by (subst fit_walk.simps) (simp add: fits_def)
next
  case (Cons yc us)
  then show ?case by (subst fit_walk.simps, cases yc) (auto simp: fits_def)
qed

lemma fit_walk_none:
  assumes "hchain (tblocks s) a bs" and "\<forall>xb\<in>set bs. \<not> fits n xb"
  shows "fit_walk s a n = Some (Inr NULL)"
  using assms
proof (induction bs arbitrary: a)
  case Nil
  then show ?case by (subst fit_walk.simps) simp
next
  case (Cons yc bs)
  then show ?case by (subst fit_walk.simps, cases yc) (auto simp: fits_def)
qed

text \<open>
  A heap of tiled blocks below 2 GiB, so that no sum of sizes wraps around; \<open>used\<close> is what has been
  handed out: where the data starts and how long it is.
\<close>

definition heap_inv :: "'a kmem_scheme \<Rightarrow> block list \<Rightarrow> addr \<Rightarrow> bool" where
  "heap_inv s bs e \<longleftrightarrow> 0 < kernelBase s \<and> e < 2 ^ 31 \<and> hchain (tblocks s) (kernelBase s) bs \<and> tiled (kernelBase s) bs e"

definition used :: "block list \<Rightarrow> (addr \<times> int) set" where
  "used bs = {(dataStart x, uint (b_size b)) | x b. (x, b) \<in> set bs \<and> \<not> b_free b}"

text \<open>The block \<open>(x, b)\<close> when \<open>n\<close> bytes of it are taken.\<close>

definition taken :: "32 word \<Rightarrow> block \<Rightarrow> block list" where
  "taken n xb = (let (x, b) = xb; y = dataStart x + uint n in
     if n + 4 + 28 < b_size b
     then [(x, b\<lparr>b_next := y, b_size := n, b_free := False\<rparr>),
           (y, \<lparr>b_size = b_size b - (n + 28), b_next = b_next b, b_prev = x, b_free = True\<rparr>)]
     else [(x, b\<lparr>b_free := False\<rparr>)])"

lemma uint_split:
  fixes n m :: "32 word"
  assumes "uint m < 2 ^ 31" and "n < m" and "n + 4 + 28 < m"
  shows "uint n + 32 < uint m" and "uint (m - (n + 28)) = uint m - uint n - 28"
proof -
  have n: "uint n < 2 ^ 31" using assms(1,2) by (simp add: word_less_def)
  have "uint (n + 4 + 28) = uint n + 32"
    using n by (simp add: uint_word_ariths)
  then show 1: "uint n + 32 < uint m" using assms(3) by (simp add: word_less_def)
  have "uint (n + 28) = uint n + 28" using n by (simp add: uint_word_ariths)
  moreover from this 1 have "n + 28 \<le> m" by (simp add: word_le_def)
  ultimately show "uint (m - (n + 28)) = uint m - uint n - 28" by (simp add: uint_sub_lem [THEN iffD1] word_le_def)
qed

lemma take_block_taken:
  assumes "heap_inv s (us @ (x, b) # ws) e" and "fits n (x, b)"
  shows "\<exists>t. take_block x n s = Inr (dataStart x, t) \<and> heap_inv t (us @ taken n (x, b) @ ws) e \<and> kernelBase t = kernelBase s"
proof -
  have inv: "hchain (tblocks s) (kernelBase s) (us @ (x, b) # ws)" "tiled (kernelBase s) (us @ (x, b) # ws) e"
      "0 < kernelBase s" "e < 2 ^ 31"
    using assms(1) by (simp_all add: heap_inv_def)
  have blk: "tblocks s x = Some b" "x \<noteq> NULL" "hchain (tblocks s) (b_next b) ws"
    using hchain_append [OF inv(1)] by auto
  have dist: "distinct (map fst (us @ (x, b) # ws))" by (rule tiled_disjoint(2) [OF inv(2)])
  obtain c where c: "tiled (kernelBase s) us x" "tiled (block_end (x, b)) ws e"
    using inv(2) by (auto simp: tiled_append)
  have x: "0 < x" "block_end (x, b) \<le> e"
    using tiled_bounds [OF c(1)] tiled_bounds [OF c(2)] inv(3) by auto
  have small: "uint (b_size b) < 2 ^ 31" using x inv(4) by simp
  show ?thesis
  proof (cases "n + 4 + 28 < b_size b")
    case False
    define t where "t = s\<lparr>tblocks := (tblocks s)(x \<mapsto> b\<lparr>b_free := False\<rparr>)\<rparr>"
    have "take_block x n s = Inr (dataStart x, t)"
      using False blk by (simp add: take_block_def ebind_def upd_block_def put_block_def t_def)
    moreover have "hchain (tblocks t) x ((x, b\<lparr>b_free := False\<rparr>) # ws)"
    proof -
      have "hchain (tblocks t) (b_next b) ws" using dist by (intro hchain_cong [THEN iffD2, OF _ blk(3)]) (auto simp: t_def)
      then show ?thesis using blk(2) by (simp add: t_def)
    qed
    then have "hchain (tblocks t) (kernelBase s) (us @ (x, b\<lparr>b_free := False\<rparr>) # ws)"
      using hchain_replace [OF inv(1)] dist by (auto simp: t_def)
    ultimately show ?thesis
      using inv c False by (intro exI [of _ t]) (auto simp: heap_inv_def taken_def tiled_append t_def)
  next
    case True
    have n: "n < b_size b" using assms(2) by (simp add: fits_def)
    note sz = uint_split [OF small n True]
    define y where "y = dataStart x + uint n"
    define d where "d = \<lparr>b_size = b_size b - (n + 28), b_next = b_next b, b_prev = x, b_free = True\<rparr>"
    define b' where "b' = b\<lparr>b_next := y, b_size := n, b_free := False\<rparr>"
    define t where "t = s\<lparr>tblocks := (tblocks s)(y \<mapsto> d, x \<mapsto> b')\<rparr>"
    have y: "0 < y" "x < y" "y < block_end (x, b)"
      unfolding y_def fst_conv snd_conv using x(1) sz(1) uint_nonnegative [of n] by linarith+
    have y_new: "y \<notin> fst ` set (us @ (x, b) # ws)"
    proof -
      have "fst zc < y" if "zc \<in> set us" for zc
      proof -
        have "block_end zc \<le> x" using tiled_bounds [OF c(1)] that by blast
        then show ?thesis using y(2) uint_nonnegative [of "b_size (snd zc)"] by linarith
      qed
      moreover have "y < fst zc" if "zc \<in> set ws" for zc
      proof -
        have "block_end (x, b) \<le> fst zc" using tiled_bounds [OF c(2)] that by blast
        then show ?thesis using y(3) by linarith
      qed
      ultimately show ?thesis using y(2) by fastforce
    qed
    have "take_block x n s = Inr (dataStart x, t)"
      using True n blk y
      by (simp add: take_block_def split_block_def ebind_def upd_block_def put_block_def Let_def t_def b'_def d_def word_less_def word_le_def
          flip: y_def)
    moreover have "hchain (tblocks t) x ((x, b') # (y, d) # ws)"
    proof -
      have "hchain (tblocks t) (b_next b) ws" using dist y_new by (intro hchain_cong [THEN iffD2, OF _ blk(3)]) (auto simp: t_def)
      then show ?thesis using blk(2) y by (simp add: t_def b'_def d_def)
    qed
    moreover have "hchain ((tblocks s)(y \<mapsto> d)) (kernelBase s) (us @ (x, b) # ws)"
      using inv(1) y_new by (subst hchain_cong [of _ _ "tblocks s"]) auto
    ultimately have "hchain (tblocks t) (kernelBase s) (us @ (x, b') # (y, d) # ws)" "take_block x n s = Inr (dataStart x, t)"
      using hchain_replace [of "(tblocks s)(y \<mapsto> d)" "kernelBase s" us x b ws b' "(y, d) # ws"] dist by (auto simp: t_def)
    moreover have "taken n (x, b) = [(x, b'), (y, d)]" using True by (simp add: taken_def b'_def d_def y_def Let_def)
    moreover have ends: "block_end (x, b') = y" "block_end (y, d) = block_end (x, b)"
      using sz(2) by (simp_all add: b'_def d_def y_def)
    have "tiled x ((x, b') # (y, d) # ws) e"
      unfolding tiled.simps ends using c(2) by simp
    then have "tiled (kernelBase s) (us @ (x, b') # (y, d) # ws) e" using c(1) tiled_append by blast
    ultimately show ?thesis
      using inv(3,4) by (intro exI [of _ t]) (simp add: heap_inv_def t_def)
  qed
qed

text \<open>A request becomes a multiple of four that covers it.\<close>

lemma align4_covers:
  assumes "sz \<noteq> 0" and "uint sz < 2 ^ 31"
  shows "uint sz \<le> uint (align4 sz)"
proof -
  have pos: "1 \<le> uint sz" using assms(1) by (metis int_one_le_iff_zero_less order_le_less uint_0_iff uint_nonnegative)
  then have m: "uint (sz - 1) = uint sz - 1" using assms(2) by (simp add: uint_word_ariths)
  have q: "uint (drop_bit 2 (sz - 1)) = (uint sz - 1) div 4"
    by (simp add: m drop_bit_eq_div uint_div)
  have "uint (push_bit 2 (drop_bit 2 (sz - 1))) = 4 * ((uint sz - 1) div 4)"
    using assms(2) pos by (simp add: push_bit_eq_mult uint_word_ariths q)
  then have "uint (align4 sz) = 4 * ((uint sz - 1) div 4) + 4"
    using assms(2) pos by (simp add: align4_def uint_word_ariths)
  moreover have "uint sz \<le> 4 * ((uint sz - 1) div 4) + 4" by presburger
  ultimately show ?thesis by simp
qed

lemma used_simps [simp]:
  "used [] = {}"
  "used ((x, b) # bs) = (if b_free b then used bs else insert (dataStart x, uint (b_size b)) (used bs))"
  "used (us @ ws) = used us \<union> used ws"
  by (auto simp: used_def)

lemma used_taken:
  assumes "fits n (x, b)"
  shows "\<exists>l\<ge>uint n. l \<le> uint (b_size b) \<and> used (us @ taken n (x, b) @ ws) = insert (dataStart x, l) (used (us @ (x, b) # ws))"
proof -
  have n: "uint n \<le> uint (b_size b)" "b_free b" using assms by (simp_all add: fits_def word_less_def)
  show ?thesis
  proof (cases "n + 4 + 28 < b_size b")
    case True
    then show ?thesis using n by (intro exI [of _ "uint n"]) (simp add: taken_def Let_def)
  next
    case False
    then show ?thesis using n by (intro exI [of _ "uint (b_size b)"]) (simp add: taken_def Let_def)
  qed
qed

text \<open>\<open>kmalloc\<close> takes the first block that fits.\<close>

lemma kmalloc_first_fit:
  assumes "heap_inv s bs e" and "sz \<noteq> 0"
  shows "case find (fits (align4 sz)) bs of
      None \<Rightarrow> kmalloc sz s = Inr (NULL, s)
    | Some (x, b) \<Rightarrow> \<exists>t us ws. kmalloc sz s = Inr (dataStart x, t) \<and> bs = us @ (x, b) # ws \<and> fits (align4 sz) (x, b) \<and>
        heap_inv t (us @ taken (align4 sz) (x, b) @ ws) e \<and> kernelBase t = kernelBase s"
proof -
  have base: "kernelBase s \<noteq> NULL" "hchain (tblocks s) (kernelBase s) bs" using assms(1) by (auto simp: heap_inv_def)
  show ?thesis
  proof (cases "find (fits (align4 sz)) bs")
    case None
    then have "\<forall>xb\<in>set bs. \<not> fits (align4 sz) xb" unfolding find_None_iff by blast
    then have "findFirstFreeBlock (kernelBase s) (align4 sz) s = Inr (NULL, s)"
      using fit_walk_none [OF base(2)] by (simp add: findFirstFreeBlock_def outcome_def)
    then show ?thesis using None base(1) assms(2) by (simp add: kmalloc_def ebind_def)
  next
    case (Some xb)
    obtain x b where xb: "xb = (x, b)" by (cases xb)
    obtain i where i: "i < length bs" "fits (align4 sz) (bs ! i)" "xb = bs ! i" "\<forall>j<i. \<not> fits (align4 sz) (bs ! j)"
      using Some by (auto simp: find_Some_iff)
    define us ws where "us = take i bs" and "ws = drop (Suc i) bs"
    have split: "bs = us @ (x, b) # ws" using i(1,3) xb by (simp add: us_def ws_def id_take_nth_drop)
    have fit: "fits (align4 sz) (x, b)" using i(2,3) xb by simp
    have none: "\<forall>xb\<in>set us. \<not> fits (align4 sz) xb" 
    proof
      fix xb assume "xb \<in> set us"
      then obtain j where "j < i" "xb = bs ! j" using i(1) by (auto simp: us_def in_set_conv_nth)
      then show "\<not> fits (align4 sz) xb" using i(4) by simp
    qed
    have "findFirstFreeBlock (kernelBase s) (align4 sz) s = Inr (x, s)"
      using fit_walk_found [OF base(2) [unfolded split] none fit] by (simp add: findFirstFreeBlock_def outcome_def)
    moreover have "x \<noteq> NULL" using hchain_append [OF base(2) [unfolded split]] by simp
    moreover obtain t where "take_block x (align4 sz) s = Inr (dataStart x, t)"
        "heap_inv t (us @ taken (align4 sz) (x, b) @ ws) e" "kernelBase t = kernelBase s"
      using take_block_taken [OF assms(1) [unfolded split] fit] by blast
    ultimately have "kmalloc sz s = Inr (dataStart x, t)" "heap_inv t (us @ taken (align4 sz) (x, b) @ ws) e"
        "kernelBase t = kernelBase s"
      using base(1) assms(2) by (simp_all add: kmalloc_def ebind_def)
    then show ?thesis using Some xb split fit by auto
  qed
qed

lemma distinct_filter_nth:
  "distinct (filter P xs) \<Longrightarrow> i < length xs \<Longrightarrow> j < length xs \<Longrightarrow> P (xs ! i) \<Longrightarrow> i \<noteq> j \<Longrightarrow> xs ! i \<noteq> xs ! j"
proof (induction xs arbitrary: i j)
  case (Cons x xs)
  show ?case
  proof (cases i; cases j)
    fix m n assume "i = Suc m" "j = Suc n"
    with Cons show ?thesis by (auto split: if_splits)
  next
    fix n assume "i = 0" "j = Suc n"
    with Cons.prems show ?thesis by (auto dest!: nth_mem)
  next
    fix m assume *: "i = Suc m" "j = 0"
    show ?thesis
    proof
      assume eq: "(x # xs) ! i = (x # xs) ! j"
      then have "P x" "x \<in> set xs" using * Cons.prems by auto
      with Cons.prems(1) show False by simp
    qed
  qed (use Cons.prems in simp)
qed simp

fun kmalloc_all :: "32 word list \<Rightarrow> ('a kmem_scheme, addr list) eprog" where
  "kmalloc_all [] = ereturn []"
| "kmalloc_all (sz # szs) = ebind (kmalloc sz) (\<lambda>p. ebind (kmalloc_all szs) (\<lambda>ps. ereturn (p # ps)))"

lemma used_in: "tiled a bs e \<Longrightarrow> (p, l) \<in> used bs \<Longrightarrow> a + 28 \<le> p \<and> p + l \<le> e"
  using tiled_bounds by (fastforce simp: used_def)

lemma used_apart:
  assumes "tiled a bs e" and "(p, l) \<in> used bs" and "(q, k) \<in> used bs" and "p \<noteq> q"
  shows "p + l \<le> q \<or> q + k \<le> p"
proof -
  obtain x b y c where "(x, b) \<in> set bs" "p = dataStart x" "l = uint (b_size b)"
      "(y, c) \<in> set bs" "q = dataStart y" "k = uint (b_size c)"
    using assms(2,3) by (auto simp: used_def)
  then show ?thesis using tiled_disjoint(1) [OF assms(1)] assms(4) by fastforce
qed

lemma kmalloc_step:
  assumes "heap_inv s bs e" and "sz \<noteq> 0" and "uint sz < 2 ^ 31"
  obtains p t cs where "kmalloc sz s = Inr (p, t)" and "heap_inv t cs e" and "used bs \<subseteq> used cs"
    and "kernelBase t = kernelBase s" and "p = NULL \<or> ((\<forall>l. (p, l) \<notin> used bs) \<and> (\<exists>l\<ge>uint sz. (p, l) \<in> used cs))"
proof (cases "find (fits (align4 sz)) bs")
  case None
  then show thesis using kmalloc_first_fit [OF assms(1,2)] assms(1) that [of NULL s bs] by simp
next
  case (Some xb)
  obtain x b where xb: "xb = (x, b)" by (cases xb)
  obtain t us ws where t: "kmalloc sz s = Inr (dataStart x, t)" "bs = us @ (x, b) # ws" "fits (align4 sz) (x, b)"
      "heap_inv t (us @ taken (align4 sz) (x, b) @ ws) e" "kernelBase t = kernelBase s"
    using kmalloc_first_fit [OF assms(1,2)] Some xb by auto
  obtain l where l: "uint (align4 sz) \<le> l" "used (us @ taken (align4 sz) (x, b) @ ws) = insert (dataStart x, l) (used bs)"
    using used_taken [OF t(3), of us ws] t(2) by blast
  have "distinct (map fst bs)" using assms(1) tiled_disjoint(2) by (auto simp: heap_inv_def)
  then have "(dataStart x, k) \<notin> used bs" for k
    using t(2,3) by (force simp: used_def fits_def)
  moreover have "uint sz \<le> l" using align4_covers [OF assms(2,3)] l(1) by simp
  ultimately show thesis
    by (intro that [OF t(1,4)]) (use l(2) t(5) in \<open>auto simp del: used_simps\<close>)
qed

lemma kmalloc_all_used:
  assumes "heap_inv s bs e" and "\<forall>sz\<in>set szs. sz \<noteq> 0 \<and> uint sz < 2 ^ 31"
  shows "\<exists>ps t cs. kmalloc_all szs s = Inr (ps, t) \<and> heap_inv t cs e \<and> used bs \<subseteq> used cs \<and> length ps = length szs \<and>
    kernelBase t = kernelBase s \<and> distinct (filter (\<lambda>p. p \<noteq> NULL) ps) \<and> (\<forall>p\<in>set ps. p \<noteq> NULL \<longrightarrow> (\<forall>l. (p, l) \<notin> used bs)) \<and>
    (\<forall>i<length szs. ps ! i \<noteq> NULL \<longrightarrow> (\<exists>l\<ge>uint (szs ! i). (ps ! i, l) \<in> used cs))"
  using assms
proof (induction szs arbitrary: s bs)
  case Nil
  then show ?case by auto
next
  case (Cons sz szs)
  have sz: "sz \<noteq> 0" "uint sz < 2 ^ 31" using Cons.prems(2) by simp_all
  obtain p u ds where u: "kmalloc sz s = Inr (p, u)" "heap_inv u ds e" "used bs \<subseteq> used ds"
      "kernelBase u = kernelBase s" "p = NULL \<or> ((\<forall>l. (p, l) \<notin> used bs) \<and> (\<exists>l\<ge>uint sz. (p, l) \<in> used ds))"
    by (rule kmalloc_step [OF Cons.prems(1) sz])
  obtain ps t cs where t: "kmalloc_all szs u = Inr (ps, t)" "heap_inv t cs e" "used ds \<subseteq> used cs" "length ps = length szs"
      "distinct (filter (\<lambda>p. p \<noteq> NULL) ps)" "\<forall>p\<in>set ps. p \<noteq> NULL \<longrightarrow> (\<forall>l. (p, l) \<notin> used ds)"
      "\<forall>i<length szs. ps ! i \<noteq> NULL \<longrightarrow> (\<exists>l\<ge>uint (szs ! i). (ps ! i, l) \<in> used cs)" "kernelBase t = kernelBase u"
    using Cons.IH [OF u(2)] Cons.prems(2) by auto
  have "kmalloc_all (sz # szs) s = Inr (p # ps, t)" using u(1) t(1) by (simp add: ebind_def)
  moreover have "p \<noteq> NULL \<Longrightarrow> p \<notin> set ps" using u(5) t(6) by blast
  then have "distinct (filter (\<lambda>p. p \<noteq> NULL) (p # ps))" using t(5) by simp
  moreover have "\<forall>q\<in>set (p # ps). q \<noteq> NULL \<longrightarrow> (\<forall>l. (q, l) \<notin> used bs)" using u(3,5) t(6) by auto
  moreover have "\<exists>l\<ge>uint ((sz # szs) ! i). ((p # ps) ! i, l) \<in> used cs"
    if "i < length (sz # szs)" "(p # ps) ! i \<noteq> NULL" for i
    using that u(5) t(3,7) by (cases i) auto
  ultimately show ?case using t(2,3,4,8) u(3,4)
    by (intro exI [of _ "p # ps"] exI [of _ t] exI [of _ cs]) auto
qed

section \<open>Properties\<close>

text \<open>A state to evaluate on: the pipes' state with the kernel heap as the boot sets it up.\<close>

definition kernel_heap :: kmem where
  "kernel_heap = ipc.extend demo_ipc \<lparr>heapBase = NULL, kernelBase = KERNEL_HEAP_START,
     tblocks = [KERNEL_HEAP_START \<mapsto> \<lparr>b_size = word_of_int KERNEL_HEAP_SIZE, b_next = NULL, b_prev = NULL, b_free = True\<rparr>]\<rparr>"

lemma initializeKernelHeap_inv:
  "\<exists>t. initializeKernelHeap s = Inr ((), t) \<and>
    heap_inv t [(KERNEL_HEAP_START, \<lparr>b_size = word_of_int KERNEL_HEAP_SIZE, b_next = NULL, b_prev = NULL, b_free = True\<rparr>)] 0x1501C"
  by (simp add: initializeKernelHeap_def put_block_def heap_inv_def)

lemma kernel_heap_inv:
  "heap_inv kernel_heap [(KERNEL_HEAP_START, \<lparr>b_size = word_of_int KERNEL_HEAP_SIZE, b_next = NULL, b_prev = NULL, b_free = True\<rparr>)] 0x1501C"
  by (simp add: kernel_heap_def ipc.defs heap_inv_def)

text \<open>C17. From any heap of tiled blocks, any sequence of \<open>kmalloc\<close> requests (not of size 0, each below
  2 GiB) runs without a fault, and every result is \<open>NULL\<close> or the start of as many bytes as asked
  for, inside the heap and apart from the bytes of every other result.\<close>

theorem kmalloc_disjoint:
  assumes "heap_inv s bs e" and "\<forall>sz\<in>set szs. sz \<noteq> 0 \<and> uint sz < 2 ^ 31"
  shows "\<exists>ps t. kmalloc_all szs s = Inr (ps, t) \<and> length ps = length szs \<and>
    (\<forall>i<length szs. ps ! i \<noteq> NULL \<longrightarrow> kernelBase s < ps ! i \<and> ps ! i + uint (szs ! i) \<le> e \<and>
      (\<forall>j<length szs. ps ! j \<noteq> NULL \<longrightarrow> i \<noteq> j \<longrightarrow>
         ps ! i + uint (szs ! i) \<le> ps ! j \<or> ps ! j + uint (szs ! j) \<le> ps ! i))"
proof -
  obtain ps t cs where t: "kmalloc_all szs s = Inr (ps, t)" "heap_inv t cs e" "length ps = length szs"
      "distinct (filter (\<lambda>p. p \<noteq> NULL) ps)"
      "\<forall>i<length szs. ps ! i \<noteq> NULL \<longrightarrow> (\<exists>l\<ge>uint (szs ! i). (ps ! i, l) \<in> used cs)"
      "kernelBase t = kernelBase s"
    using kmalloc_all_used [OF assms] by auto
  have til: "tiled (kernelBase s) cs e" using t(2,6) by (simp add: heap_inv_def)
  have diff: "ps ! i \<noteq> ps ! j" if "i < length ps" "j < length ps" "ps ! i \<noteq> NULL" "i \<noteq> j" for i j
    using distinct_filter_nth [OF t(4)] that by blast
  show ?thesis
  proof (rule exI [of _ ps], rule exI [of _ t], intro conjI allI impI)
    fix i assume i: "i < length szs" "ps ! i \<noteq> NULL"
    then obtain l where l: "uint (szs ! i) \<le> l" "(ps ! i, l) \<in> used cs" using t(5) by blast
    show "kernelBase s < ps ! i" "ps ! i + uint (szs ! i) \<le> e"
      using used_in [OF til l(2)] l(1) by auto
    fix j assume j: "j < length szs" "ps ! j \<noteq> NULL" "i \<noteq> j"
    then obtain k where k: "uint (szs ! j) \<le> k" "(ps ! j, k) \<in> used cs" using t(5) by blast
    show "ps ! i + uint (szs ! i) \<le> ps ! j \<or> ps ! j + uint (szs ! j) \<le> ps ! i"
      using used_apart [OF til l(2) k(2) diff] i j t(3) l(1) k(1) by fastforce
  qed (use t in simp_all)
qed

theorem kmalloc_disjoint_witness:
  "\<exists>p q t. kmalloc_all [10, 20] kernel_heap = Inr ([p, q], t) \<and> (p = NULL \<or> q = NULL \<or> p + 10 \<le> q \<or> q + 20 \<le> p)"
proof -
  obtain ps t where t: "kmalloc_all [10, 20] kernel_heap = Inr (ps, t)" "length ps = length [10, 20 :: 32 word]"
      "\<forall>i<length [10, 20 :: 32 word]. ps ! i \<noteq> NULL \<longrightarrow> kernelBase kernel_heap < ps ! i \<and> ps ! i + uint ([10, 20 :: 32 word] ! i) \<le> 0x1501C \<and>
        (\<forall>j<length [10, 20 :: 32 word]. ps ! j \<noteq> NULL \<longrightarrow> i \<noteq> j \<longrightarrow>
         ps ! i + uint ([10, 20 :: 32 word] ! i) \<le> ps ! j \<or> ps ! j + uint ([10, 20 :: 32 word] ! j) \<le> ps ! i)"
    using kmalloc_disjoint [OF kernel_heap_inv, of "[10, 20]"] by force
  obtain p q where "ps = [p, q]" using t(2) by (cases ps; cases "tl ps") auto
  moreover from this have "p \<noteq> NULL \<Longrightarrow> q \<noteq> NULL \<Longrightarrow> p + 10 \<le> q \<or> q + 20 \<le> p"
    using t(3) [THEN spec, of 0] by (auto dest: spec [of _ 1])
  ultimately show ?thesis using t(1) by blast
qed

lemma block_walk_all:
  assumes "hchain (tblocks s) a bs" and "\<forall>xb\<in>set bs. fst xb < p" and "0 < p"
  shows "block_walk s a p = Some (Inr NULL)"
  using assms(1,2)
proof (induction bs arbitrary: a)
  case Nil
  then show ?case by (subst block_walk.simps) simp
next
  case (Cons xb bs)
  obtain x b where xb: "xb = (x, b)" by (cases xb)
  have "b_next b < p" using Cons.prems assms(3) xb by (cases bs) auto
  with Cons xb show ?case by (subst block_walk.simps) simp
qed

text \<open>\<open>free\<close> of memory of the last block of the heap of a process does nothing: the search for the block
  walks past it, because its \<open>next\<close> is null and so smaller than every pointer.\<close>

theorem free_last_block:
  assumes "hchain (tblocks s) (heapBase s) bs" and "\<forall>xb\<in>set bs. fst xb < p" and "0 < p"
  shows "free p s = Inr ((), s)"
  using block_walk_all [OF assms] by (simp add: free_def getBlock_def outcome_def ebind_def)

text \<open>A process heap of one page, all of it one free block.\<close>

definition user_heap :: kmem where
  "user_heap = kernel_heap\<lparr>
     procs := (procs kernel_heap)(0x1003000 \<mapsto> (demo_process 0 RUNNING 0x1006000)\<lparr>p_heap := 0x1009000\<rparr>),
     tblocks := [0x1009000 \<mapsto> \<lparr>b_size = 4068, b_next = NULL, b_prev = NULL, b_free = True\<rparr>]\<rparr>"

theorem free_last_block_witness:
  "free 0x100901C (user_heap\<lparr>heapBase := 0x1009000\<rparr>) = Inr ((), user_heap\<lparr>heapBase := 0x1009000\<rparr>)"
  by (rule free_last_block [where bs = "[(0x1009000, \<lparr>b_size = 4068, b_next = NULL, b_prev = NULL, b_free = True\<rparr>)]"])
    (simp_all add: user_heap_def)

text \<open>
  A session of a process: three allocations, the first is freed, its block is used again in two
  parts, the first part is freed, then the second of the three.
\<close>

definition heap_session :: "('a kmem_scheme, addr \<times> addr) eprog" where
  "heap_session =
     ebind (mallock 100) (\<lambda>x.
     ebind (mallock 16) (\<lambda>y.
     ebind (mallock 16) (\<lambda>_.
     ebind (free x) (\<lambda>_.
     ebind (mallock 16) (\<lambda>a.
     ebind (mallock 16) (\<lambda>b.
     ebind (free a) (\<lambda>_.
     ebind (free y) (\<lambda>_.
     ebind (mallock 56) (\<lambda>c. ereturn (b, c))))))))))"

lemmas heap_session_defs = heap_session_def user_heap_def kernel_heap_def ipc.defs demo_ipc_def ssem.defs demo_sem_def
  omutex.defs demo_mutex_def qmem.defs full_queue_def sched.defs demo_sched_def mallock_def getCurrentProcess_def
  findFirstFreeBlock_def outcome_def Let_def fit_walk.simps align4_def ebind_def take_block_def split_block_def
  upd_block_def put_block_def free_def isValidAddress_def getBlock_def block_walk.simps mergeBlocks_def free_there_def

text \<open>\<open>split_block\<close> leaves the \<open>prev\<close> of the block behind the new one as it was, and \<open>mergeBlocks\<close>
  joins a block with whatever is behind it.  So freeing a block can join two others, one of them in
  use: at the end of the session the 56 bytes handed out last overlap the 16 bytes at \<open>b\<close>, which
  were never freed.\<close>

theorem free_merges_used_block:
  "\<exists>t b c. heap_session user_heap = Inr ((b, c), t) \<and> c < b \<and> b < c + 56"
proof -
  have "\<exists>t. heap_session user_heap = Inr ((0x1009048, 0x100901C), t)"
    by (simp add: heap_session_defs)
  then obtain t where "heap_session user_heap = Inr ((0x1009048, 0x100901C), t)" by blast
  then show ?thesis by (intro exI [of _ t] exI [of _ "0x1009048"] exI [of _ "0x100901C"]) simp
qed

end
