(* ===== verification/MutexApi.thy ===== *)
theory MutexApi
  imports Malloc
begin

text \<open>
  The first half of Kernel/mutex.c: the table of 128 open mutexes, each with a lock word and a queue
  (theory \<open>Queue\<close>) of the processes that wait for it, the lock of the table and the superlock; and
  \<open>_unlocked\<close> of Kernel/asm/lock.asm.  The condition variables and the page stacks build on it.

  The table is static memory, so it starts with zeros: every mutex closed.  A name is at most 63
  characters; a longer one is written past the end of the field.

  The lemmas show what a mutex promises: \<open>mutex_lock\<close> takes a free mutex or queues the caller,
  \<open>mutex_unlock\<close> hands the mutex to the process that has waited longest.
\<close>

section \<open>State\<close>

abbreviation (input) MUTEX_NAME_LEN :: nat where
  "MUTEX_NAME_LEN \<equiv> 64"

abbreviation (input) OPEN :: int where
  "OPEN \<equiv> 1"

abbreviation (input) CLOSED :: int where
  "CLOSED \<equiv> 0"

abbreviation (input) LOCKED :: int where
  "LOCKED \<equiv> 0"

abbreviation (input) UNLOCKED :: int where
  "UNLOCKED \<equiv> 1"

abbreviation (input) NOT_OPEN_ERROR :: int where
  "NOT_OPEN_ERROR \<equiv> -1"

abbreviation (input) MAX_MUTEX_OPEN_ERROR :: int where
  "MAX_MUTEX_OPEN_ERROR \<equiv> -2"

record mutex_type =
  mt_name :: string
  mt_locked :: int
  mt_state :: int
  mt_queue :: addr

record mapi = kmem +
  open_mutexes :: "mutex_type list"
  array_mutex :: int
  superlock :: int

definition open_mutex_at :: "int \<Rightarrow> ('a mapi_scheme, mutex_type) eprog" where
  "open_mutex_at k s = (if 0 \<le> k \<and> k < int MAX_MUTEXES then Inr (open_mutexes s ! nat k, s) else Inl OutOfBounds)"

definition set_open_mutex :: "int \<Rightarrow> mutex_type \<Rightarrow> ('a mapi_scheme, unit) eprog" where
  "set_open_mutex k m s = (if 0 \<le> k \<and> k < int MAX_MUTEXES
     then Inr ((), s\<lparr>open_mutexes := (open_mutexes s)[nat k := m]\<rparr>) else Inl OutOfBounds)"

section \<open>The locks of the table\<close>

text \<open>
  \<open>_unlocked\<close> exchanges the lock word with 0: it returns what the word was and leaves it locked.  The
  parameters say how the word is read and written.
\<close>

definition unlocked :: "('s \<Rightarrow> int) \<Rightarrow> (int \<Rightarrow> 's \<Rightarrow> 's) \<Rightarrow> ('s, int) eprog" where
  "unlocked get put s = (let rax = 0 in Inr (get s, put rax s))"

definition set_superlock :: "('a mapi_scheme, unit) eprog" where
  "set_superlock s = Inr ((), s\<lparr>superlock := LOCKED\<rparr>)"

definition unset_superlock :: "('a mapi_scheme, unit) eprog" where
  "unset_superlock s = Inr ((), s\<lparr>superlock := UNLOCKED\<rparr>)"

text \<open>The loop of \<open>lock_array\<close> yields in every round; the parameter bounds the number of rounds.\<close>

fun lock_array :: "nat \<Rightarrow> ('a mapi_scheme, unit) kprog" where
  "lock_array 0 = kcall (efail Diverges)"
| "lock_array (Suc tries) =
     kbind (kcall (unlocked array_mutex (\<lambda>v s. s\<lparr>array_mutex := v\<rparr>))) (\<lambda>l.
     if l \<noteq> 0 then kreturn () else kbind yield (\<lambda>_. lock_array tries))"

definition unlock_array :: "('a mapi_scheme, unit) eprog" where
  "unlock_array s = Inr ((), s\<lparr>array_mutex := UNLOCKED\<rparr>)"

section \<open>Opening and closing\<close>

text \<open>\<open>strcpy\<close> of a name into the field of an entry.\<close>

definition copy_name :: "string \<Rightarrow> ('s, string) eprog" where
  "copy_name name s =
     (case strcpy (replicate MUTEX_NAME_LEN (CHR 0x00)) name of Inl e \<Rightarrow> Inl e | Inr _ \<Rightarrow> Inr (name, s))"

definition create_new_mutex :: "string \<Rightarrow> ('a mapi_scheme, mutex_type) eprog" where
  "create_new_mutex name =
     ebind (copy_name name) (\<lambda>n.
     ebind create_queue (\<lambda>q.
     ereturn \<lparr>mt_name = n, mt_locked = UNLOCKED, mt_state = OPEN, mt_queue = q\<rparr>))"

definition queue_process :: "mutex_type \<Rightarrow> addr \<Rightarrow> ('a mapi_scheme, unit) eprog" where
  "queue_process m p = enqueue (mt_queue m) p"

definition dequeue_process :: "mutex_type \<Rightarrow> ('a mapi_scheme, addr) eprog" where
  "dequeue_process m = dequeue (mt_queue m)"

definition is_open :: "'a mapi_scheme \<Rightarrow> int \<Rightarrow> bool" where
  "is_open s key \<longleftrightarrow> 0 \<le> key \<and> key < int MAX_MUTEXES \<and> mt_state (open_mutexes s ! nat key) = OPEN"

text \<open>
  The loop of \<open>mutex_open\<close>: it stops at the first entry with the name, at the first that is not
  open, or at the end of the table.
\<close>

fun open_loop :: "nat \<Rightarrow> nat \<Rightarrow> string \<Rightarrow> 'a mapi_scheme \<Rightarrow> nat \<times> bool" where
  "open_loop 0 k name s = (k, False)"
| "open_loop (Suc n) k name s =
     (if is_open s (int k)
      then if strcmp name (mt_name (open_mutexes s ! k)) = 0 then (k, True) else open_loop n (k + 1) name s
      else (k, False))"

definition mutex_open :: "nat \<Rightarrow> string \<Rightarrow> ('a mapi_scheme, int) kprog" where
  "mutex_open tries name =
     kbind (lock_array tries) (\<lambda>_.
     kbind (kget (open_loop MAX_MUTEXES 0 name)) (\<lambda>(k, found).
     if found then kbind (kcall unlock_array) (\<lambda>_. kreturn (int k))
     else if k = MAX_MUTEXES then kbind (kcall unlock_array) (\<lambda>_. kreturn MAX_MUTEX_OPEN_ERROR)
     else kbind (kcall (create_new_mutex name)) (\<lambda>m.
          kbind (kcall (set_open_mutex (int k) m)) (\<lambda>_.
          kbind (kcall unlock_array) (\<lambda>_. kreturn (int k))))))"

text \<open>
  The body of the loop of \<open>mutex_close\<close> is the assignment alone, in spite of the indentation; the
  processes are taken out of the queue and the last of them is kept in \<open>p\<close>, which has no value
  (\<open>None\<close>) when the queue was empty.
\<close>

partial_function (option) close_loop ::
  "mutex_type \<Rightarrow> addr option \<Rightarrow> 'a mapi_scheme \<Rightarrow> (fault + addr option \<times> 'a mapi_scheme) option" where
  "close_loop m p s =
     (case is_empty (mt_queue m) s of
        Inl e \<Rightarrow> Some (Inl e)
      | Inr (e, s) \<Rightarrow>
          if e then Some (Inr (p, s))
          else case dequeue_process m s of Inl e \<Rightarrow> Some (Inl e) | Inr (p, s) \<Rightarrow> close_loop m (Some p) s)"

text \<open>What a loop computes, the fault it runs into, or that it never ends.\<close>

definition loop_outcome :: "('s \<Rightarrow> (fault + 'b \<times> 's) option) \<Rightarrow> ('s, 'b) eprog" where
  "loop_outcome l s = (case l s of None \<Rightarrow> Inl Diverges | Some r \<Rightarrow> r)"

definition mutex_close :: "nat \<Rightarrow> int \<Rightarrow> ('a mapi_scheme, int) kprog" where
  "mutex_close tries key =
     kbind (lock_array tries) (\<lambda>_.
     kbind (kget (\<lambda>s. is_open s key)) (\<lambda>op.
     if op then
       kbind (kcall (open_mutex_at key)) (\<lambda>m.
       kbind (kcall (loop_outcome (close_loop m None))) (\<lambda>p.
       kbind (kcall (case p of None \<Rightarrow> efail Uninitialised
                | Some p \<Rightarrow> ebind (deref procs p) (\<lambda>pr. changeProcessState (p_pid pr) READY))) (\<lambda>_.
       kbind (kcall (set_open_mutex key (m\<lparr>mt_state := CLOSED\<rparr>))) (\<lambda>_.
       kbind (kcall (destroy_queue (mt_queue m))) (\<lambda>_.
       kbind (kcall unlock_array) (\<lambda>_. kreturn 1))))))
     else kbind (kcall unlock_array) (\<lambda>_. kreturn NOT_OPEN_ERROR)))"

section \<open>Locking and unlocking\<close>

definition mutex_lock :: "int \<Rightarrow> ('a mapi_scheme, int) kprog" where
  "mutex_lock key =
     kbind (kget (\<lambda>s. is_open s key)) (\<lambda>op.
     if \<not> op then kreturn NOT_OPEN_ERROR
     else
       kbind (kcall set_superlock) (\<lambda>_.
       kbind (kcall (open_mutex_at key)) (\<lambda>m.
       kbind (kcall getCurrentProcess) (\<lambda>p.
       kbind (kcall (unlocked (\<lambda>s. mt_locked (open_mutexes s ! nat key))
         (\<lambda>v s. s\<lparr>open_mutexes := (open_mutexes s)[nat key := (open_mutexes s ! nat key)\<lparr>mt_locked := v\<rparr>]\<rparr>))) (\<lambda>l.
       kbind (if l = 0
              then kbind (kcall (queue_process m p)) (\<lambda>_.
                   kbind (kcall (ebind (deref procs p) (\<lambda>pr. changeProcessState (p_pid pr) BLOCKED))) (\<lambda>_.
                   kbind (kcall unset_superlock) (\<lambda>_. yield)))
              else kcall unset_superlock) (\<lambda>_. kreturn 1))))))"

text \<open>
  \<open>mutex_unlock\<close> tests the state of the process it took from the queue before it tests whether there
  was one: through the null pointer it reads the memory at the offset of \<open>state\<close>.  The parameter
  \<open>nul\<close> is whether the 3 of a dead process is there.
\<close>

definition is_dead :: "bool \<Rightarrow> addr \<Rightarrow> ('a mapi_scheme, bool) eprog" where
  "is_dead nul p = (if p = NULL then ereturn nul else ebind (deref procs p) (\<lambda>pr. ereturn (p_state pr = DEAD)))"

partial_function (option) skip_dead ::
  "bool \<Rightarrow> mutex_type \<Rightarrow> addr \<Rightarrow> 'a mapi_scheme \<Rightarrow> (fault + addr \<times> 'a mapi_scheme) option" where
  "skip_dead nul m p s =
     (case is_dead nul p s of
        Inl e \<Rightarrow> Some (Inl e)
      | Inr (d, s) \<Rightarrow>
          if \<not> d then Some (Inr (p, s))
          else case dequeue_process m s of Inl e \<Rightarrow> Some (Inl e) | Inr (p, s) \<Rightarrow> skip_dead nul m p s)"

definition set_locked :: "int \<Rightarrow> int \<Rightarrow> ('a mapi_scheme, unit) eprog" where
  "set_locked key v = ebind (open_mutex_at key) (\<lambda>m. set_open_mutex key (m\<lparr>mt_locked := v\<rparr>))"

definition mutex_unlock :: "bool \<Rightarrow> int \<Rightarrow> ('a mapi_scheme, int) eprog" where
  "mutex_unlock nul key s =
     (if \<not> is_open s key then Inr (NOT_OPEN_ERROR, s)
      else ebind set_superlock (\<lambda>_.
           ebind (open_mutex_at key) (\<lambda>m.
           ebind (dequeue_process m) (\<lambda>p.
           ebind (loop_outcome (skip_dead nul m p)) (\<lambda>p.
           ebind (set_locked key UNLOCKED) (\<lambda>_.
           ebind (if p \<noteq> NULL
                  then ebind (deref procs p) (\<lambda>pr.
                       ebind (changeProcessState (p_pid pr) READY) (\<lambda>_.
                       set_locked key LOCKED))
                  else ereturn ()) (\<lambda>_.
           ebind unset_superlock (\<lambda>_. ereturn 1))))))) s)"

section \<open>One mutex\<close>

text \<open>What a mutex stands for: whether it is taken, and the processes that wait for it, in order.\<close>

definition mutex_is :: "'a mapi_scheme \<Rightarrow> int \<Rightarrow> bool \<Rightarrow> addr list \<Rightarrow> bool" where
  "mutex_is s key busy xs \<longleftrightarrow> is_open s key \<and> length (open_mutexes s) = MAX_MUTEXES \<and>
     mt_locked (open_mutexes s ! nat key) = (if busy then LOCKED else UNLOCKED) \<and>
     is_queue s (mt_queue (open_mutexes s ! nat key)) xs"

text \<open>A change of the whole state that keeps what the queues are made of.\<close>

lemma is_queue_cong:
  "queues t = queues s \<Longrightarrow> nodes t = nodes s \<Longrightarrow> baseMemory t = baseMemory s \<Longrightarrow> is_queue t q xs \<longleftrightarrow> is_queue s q xs"
  by (simp add: is_queue_def queue_of_def)

lemma is_queue_frames [simp]:
  "is_queue (s\<lparr>procs := P\<rparr>) q xs \<longleftrightarrow> is_queue s q xs"
  "is_queue (s'\<lparr>open_mutexes := ms\<rparr>) q xs \<longleftrightarrow> is_queue s' q xs"
  "is_queue (s'\<lparr>superlock := l\<rparr>) q xs \<longleftrightarrow> is_queue s' q xs"
  "is_queue (s'\<lparr>array_mutex := l\<rparr>) q xs \<longleftrightarrow> is_queue s' q xs"
  by (rule is_queue_cong; simp)+

lemma enqueue_on:
  assumes "is_queue s q xs" and "queue_space q s"
  obtains oc qs ns where "enqueue q x s = Inr ((), s\<lparr>occupied := oc, queues := qs, nodes := ns\<rparr>)"
    and "is_queue (s\<lparr>occupied := oc, queues := qs, nodes := ns\<rparr>) q (xs @ [x])"
proof -
  obtain ms where ms: "queue_of s q ms xs" using assms(1) by (auto simp: is_queue_def)
  then have "room s q ms" using assms(2) unfolding queue_space_def by blast
  from enqueue_queue [OF ms this, of x] obtain n t where
    t: "enqueue q x s = Inr ((), t)" "queue_of t q (ms @ [n]) (xs @ [x])" "queue_frame s t" by blast
  obtain oc qs ns where "t = s\<lparr>occupied := oc, queues := qs, nodes := ns\<rparr>"
    using t(3) unfolding queue_frame_def by (elim exE) (rule that)
  with t(1,2) show thesis using that by (auto simp: is_queue_def)
qed

lemma dequeue_on:
  assumes "is_queue s q (x # xs)"
  obtains oc qs ns where "dequeue q s = Inr (x, s\<lparr>occupied := oc, queues := qs, nodes := ns\<rparr>)"
    and "is_queue (s\<lparr>occupied := oc, queues := qs, nodes := ns\<rparr>) q xs"
proof -
  obtain ms where ms: "queue_of s q ms (x # xs)" using assms by (auto simp: is_queue_def)
  then obtain n ms' where "ms = n # ms'" by (cases ms) (auto simp: queue_of_def)
  with ms obtain t where t: "dequeue q s = Inr (x, t)" "queue_of t q ms' xs" "queue_frame s t"
    using dequeue_queue by blast
  obtain oc qs ns where "t = s\<lparr>occupied := oc, queues := qs, nodes := ns\<rparr>"
    using t(3) unfolding queue_frame_def by (elim exE) (rule that)
  with t(1,2) show thesis using that by (auto simp: is_queue_def)
qed

text \<open>Taking an element out of a queue leaves all nodes and the other queues alone.\<close>

lemma dequeue_others:
  assumes "is_queue s q (x # xs)" and "dequeue q s = Inr (x, t)"
  shows "q' \<noteq> q \<Longrightarrow> queues t q' = queues s q'" and "nodes t = nodes s"
proof -
  obtain ns where ns: "queue_of s q ns (x # xs)" using assms(1) by (auto simp: is_queue_def)
  then obtain h where h: "queues s q = Some h" "q \<noteq> NULL" "q_first h \<in> managed" "baseMemory s = 0x1000000"
    by (cases ns) (auto simp: queue_of_def)
  have e: "is_empty q s = Inr (False, s)" using kqueue.empty_test [OF assms(1)] by simp
  obtain h' v r where v: "put_queue q h' s = Inr ((), v)" and d: "deallocPage (q_first h) v = Inr (r, t)"
    using assms(2) e h(1) by (auto simp: dequeue_def ebind_eq_Inr deref_def Let_def split: option.splits)
  have "baseMemory v = 0x1000000" using v h(2,4) by (auto simp: put_queue_def)
  then obtain w where w: "deallocPage (q_first h) v = Inr (0, w)" "same_but_occupied v w"
    using deallocPage_managed [OF _ h(3)] by blast
  obtain oc where "w = v\<lparr>occupied := oc\<rparr>" using same_but_occupied_eq [OF w(2)] by (rule that)
  with d w(1) have "t = v\<lparr>occupied := oc\<rparr>" by simp
  then show "q' \<noteq> q \<Longrightarrow> queues t q' = queues s q'" "nodes t = nodes s"
    using v h(2) by (auto simp: put_queue_def)
qed

text \<open>The facts of the ring survive everything the queues and the tables of the mutexes change.\<close>

lemma same_sched_queues:
  "same_sched s (s\<lparr>occupied := oc, queues := qs, nodes := ns\<rparr>)"
  "same_sched s' (s'\<lparr>open_mutexes := ms\<rparr>)" "same_sched s' (s'\<lparr>superlock := l\<rparr>)"
  by (simp_all add: same_sched_def)

lemmas sched_queues [simp] = same_sched_queues [THEN same_sched_facts(2)] same_sched_queues [THEN same_sched_facts(3)]
  same_sched_queues [THEN same_sched_facts(4)]

lemma current_process:
  assumes "pids_ok s"
  obtains sl pr where "slots s (current s) = Some sl" and "procs s (slot_process sl) = Some pr"
    and "p_pid pr = running_pid s" and "slot_process sl \<noteq> NULL" and "getCurrentProcess s = Inr (slot_process sl, s)"
proof -
  obtain es where es: "ring s es" using assms by (auto simp: pids_ok_def)
  show thesis
    by (rule ring_ConsE [OF es]) (use es that ring_not_NULL [OF es] in \<open>auto simp: running_pid_def getCurrentProcess_def ring_def\<close>)
qed

lemma queue_space_cong:
  assumes "queues t = queues s" and "nodes t = nodes s" and "baseMemory t = baseMemory s"
    and "occupied t = occupied s" and "base t = base s" and "heapLevel t = heapLevel s"
    and "queue_space q s"
  shows "queue_space q t"
  unfolding queue_space_def
proof (intro allI impI)
  fix ns xs assume "queue_of t q ns xs"
  then have "queue_of s q ns xs" using assms(1-3) by (simp add: queue_of_def)
  then have "room s q ns" using assms(7) unfolding queue_space_def by blast
  then obtain n u where n: "allocPage sizeof_node s = Inr (n, u)" "n \<noteq> NULL" "n \<notin> set ns" "n \<in> managed"
    unfolding room_def by blast
  with allocPage_indep [OF assms(4-6) n(1)] show "room t q ns" unfolding room_def by blast
qed

lemma mutex_lock_free:
  assumes "mutex_is s key False xs" and "pids_ok s"
  shows "mutex_lock key s = Ret 1 (s\<lparr>superlock := UNLOCKED,
    open_mutexes := (open_mutexes s)[nat key := (open_mutexes s ! nat key)\<lparr>mt_locked := LOCKED\<rparr>]\<rparr>)"
proof -
  have k: "is_open s key" "0 \<le> key" "key < 128" "mt_locked (open_mutexes s ! nat key) = 1"
    using assms(1) by (simp_all add: mutex_is_def is_open_def)
  have "pids_ok (s\<lparr>superlock := LOCKED\<rparr>)" using assms(2) by simp
  then obtain a where "getCurrentProcess (s\<lparr>superlock := LOCKED\<rparr>) = Inr (a, s\<lparr>superlock := LOCKED\<rparr>)"
    by (rule current_process)
  with k show ?thesis
    by (simp add: mutex_lock_def set_superlock_def unset_superlock_def open_mutex_at_def unlocked_def kbind_def kcall_def)
qed

lemma mutex_is_update:
  assumes "mutex_is s key l xs"
  shows "mutex_is (s\<lparr>superlock := v, open_mutexes := (open_mutexes s)[nat key := (open_mutexes s ! nat key)
      \<lparr>mt_locked := if l' then LOCKED else UNLOCKED\<rparr>]\<rparr>) key l' xs"
  using assms by (auto simp: mutex_is_def is_open_def)

text \<open>A process that finds the mutex taken goes to the end of the queue, blocks and yields.\<close>

lemma mutex_lock_busy:
  assumes "mutex_is s key True xs" and "pids_ok s" and "queue_space (mt_queue (open_mutexes s ! nat key)) s"
    and "getCurrentProcess s = Inr (a, s)"
  obtains t where "mutex_lock key s = bindr (yield t) (\<lambda>_. kreturn 1)" and "mutex_is t key True (xs @ [a])"
    and "pids_ok t" and "in_state t (running_pid s) BLOCKED" and "running_pid t = running_pid s"
    and "\<And>p x. p \<noteq> running_pid s \<Longrightarrow> in_state t p x \<longleftrightarrow> in_state s p x"
proof -
  define m where "m = open_mutexes s ! nat key"
  have k: "is_open s key" "0 \<le> key" "key < 128" "mt_locked m = 0" "is_queue s (mt_queue m) xs"
    "length (open_mutexes s) = 128" "mt_state m = 1"
    using assms(1) by (simp_all add: mutex_is_def is_open_def m_def)
  define u where "u = s\<lparr>superlock := LOCKED, open_mutexes := (open_mutexes s)[nat key := m\<lparr>mt_locked := LOCKED\<rparr>]\<rparr>"
  have pu: "pids_ok u" "running_pid u = running_pid s" "in_state u = in_state s" using assms(2) by (simp_all add: u_def)
  have qu: "is_queue u (mt_queue m) xs" using k(5) by (simp add: u_def)
  have "queue_space (mt_queue m) u" by (rule queue_space_cong [OF _ _ _ _ _ _ assms(3) [folded m_def]]) (simp_all add: u_def)
  from enqueue_on [OF qu this] obtain oc qs ns where
    enq: "enqueue (mt_queue m) a u = Inr ((), u\<lparr>occupied := oc, queues := qs, nodes := ns\<rparr>)"
      "is_queue (u\<lparr>occupied := oc, queues := qs, nodes := ns\<rparr>) (mt_queue m) (xs @ [a])" .
  define v where "v = u\<lparr>occupied := oc, queues := qs, nodes := ns\<rparr>"
  have pv: "pids_ok v" "running_pid v = running_pid s" "in_state v = in_state s" using pu by (simp_all add: v_def)
  obtain sl pr where cur: "slots s (current s) = Some sl" "procs s (slot_process sl) = Some pr" "p_pid pr = running_pid s"
      "getCurrentProcess s = Inr (slot_process sl, s)"
    using current_process [OF assms(2)] .
  then have a: "a = slot_process sl" using assms(4) by simp
  have getu: "getCurrentProcess (s\<lparr>superlock := LOCKED\<rparr>) = Inr (a, s\<lparr>superlock := LOCKED\<rparr>)"
    using cur(1) a by (simp add: getCurrentProcess_def)
  have procv: "procs v a = Some pr" using cur(2) a by (simp add: v_def u_def)
  obtain w where w: "changeProcessState (running_pid s) BLOCKED v = Inr ((), w)" "w = v\<lparr>procs := procs w\<rparr>" "pids_ok w"
      "running_pid w = running_pid s" "\<And>p x. p \<noteq> running_pid s \<Longrightarrow> in_state w p x \<longleftrightarrow> in_state s p x"
      "in_state w (running_pid s) BLOCKED"
    using changeProcessState_effect [OF pv(1), of "running_pid s" BLOCKED] running_in_state [OF assms(2)] pv(2,3)
    by metis
  obtain P where P: "w = v\<lparr>procs := P\<rparr>" using w(2) by (rule that)
  define t where "t = w\<lparr>superlock := UNLOCKED\<rparr>"
  show thesis
  proof (rule that)
    show "mutex_lock key s = bindr (yield t) (\<lambda>_. kreturn 1)"
      using k getu enq(1) procv w(1) cur(3)
      by (simp add: mutex_lock_def set_superlock_def unset_superlock_def open_mutex_at_def unlocked_def kbind_def kcall_def
          queue_process_def ebind_def t_def m_def [symmetric] u_def [symmetric] v_def [symmetric])
    show "mutex_is t key True (xs @ [a])"
    proof -
      have "is_queue t (mt_queue m) (xs @ [a])"
        by (rule is_queue_cong [THEN iffD2, OF _ _ _ enq(2)]) (simp_all add: t_def P v_def)
      moreover have "open_mutexes t = (open_mutexes s)[nat key := m\<lparr>mt_locked := LOCKED\<rparr>]"
        by (simp add: t_def P v_def u_def)
      ultimately show ?thesis using k by (simp add: mutex_is_def is_open_def)
    qed
    show "pids_ok t" "in_state t (running_pid s) BLOCKED" "running_pid t = running_pid s"
      "\<And>p x. p \<noteq> running_pid s \<Longrightarrow> in_state t p x \<longleftrightarrow> in_state s p x"
      using w(3-6) by (simp_all add: t_def)
  qed
qed

lemma skip_dead_stops: "is_dead nul p s = Inr (False, s) \<Longrightarrow> skip_dead nul m p s = Some (Inr (p, s))"
  by (subst skip_dead.simps) simp

lemma set_locked_apply:
  "0 \<le> key \<Longrightarrow> key < 128 \<Longrightarrow> set_locked key v s =
     Inr ((), s\<lparr>open_mutexes := (open_mutexes s)[nat key := (open_mutexes s ! nat key)\<lparr>mt_locked := v\<rparr>]\<rparr>)"
  by (simp add: set_locked_def open_mutex_at_def set_open_mutex_def)

text \<open>Unlocking with nobody in the queue.\<close>

lemma mutex_unlock_nobody:
  assumes "mutex_is s key l []"
  shows "mutex_unlock False key s = Inr (1, s\<lparr>superlock := UNLOCKED,
    open_mutexes := (open_mutexes s)[nat key := (open_mutexes s ! nat key)\<lparr>mt_locked := UNLOCKED\<rparr>]\<rparr>)"
proof -
  define m where "m = open_mutexes s ! nat key"
  define u where "u = s\<lparr>superlock := LOCKED\<rparr>"
  have k: "is_open s key" "0 \<le> key" "key < 128" using assms by (simp_all add: mutex_is_def is_open_def)
  have "is_queue u (mt_queue m) []" using assms by (simp add: mutex_is_def u_def m_def)
  then have deq: "dequeue (mt_queue m) u = Inr (NULL, u)" by (rule kqueue.deq_Nil)
  have "loop_outcome (skip_dead False m NULL) u = Inr (NULL, u)"
    by (simp add: loop_outcome_def skip_dead_stops is_dead_def)
  then show ?thesis
    using k deq by (simp add: mutex_unlock_def set_superlock_def unset_superlock_def open_mutex_at_def dequeue_process_def
        ebind_def set_locked_apply m_def [symmetric] u_def)
qed

text \<open>Unlocking with a queue: the first process in it gets the mutex, which stays locked.\<close>

lemma mutex_unlock_first:
  assumes "mutex_is s key True (x # xs)" and "pids_ok s" and "x \<noteq> NULL" and "procs s x = Some pr"
    and "p_state pr \<noteq> DEAD" and "in_state s (p_pid pr) st"
  obtains t where "mutex_unlock nul key s = Inr (1, t)" and "mutex_is t key True xs" and "pids_ok t"
    and "in_state t (p_pid pr) READY" and "running_pid t = running_pid s"
    and "\<And>p y. p \<noteq> p_pid pr \<Longrightarrow> in_state t p y \<longleftrightarrow> in_state s p y"
    and "\<exists>oc qs P. t = s\<lparr>superlock := UNLOCKED, occupied := oc, queues := qs, procs := P\<rparr> \<and>
      dequeue (mt_queue (open_mutexes s ! nat key)) (s\<lparr>superlock := LOCKED\<rparr>) =
        Inr (x, s\<lparr>superlock := LOCKED, occupied := oc, queues := qs\<rparr>)"
proof -
  define m where "m = open_mutexes s ! nat key"
  define u where "u = s\<lparr>superlock := LOCKED\<rparr>"
  have k: "is_open s key" "0 \<le> key" "key < 128" "mt_locked m = 0" "length (open_mutexes s) = 128" "mt_state m = 1"
    using assms(1) by (simp_all add: mutex_is_def is_open_def m_def)
  have q: "is_queue u (mt_queue m) (x # xs)" using assms(1) by (simp add: mutex_is_def u_def m_def)
  then obtain oc qs ns where
    deq: "dequeue (mt_queue m) u = Inr (x, u\<lparr>occupied := oc, queues := qs, nodes := ns\<rparr>)"
      "is_queue (u\<lparr>occupied := oc, queues := qs, nodes := ns\<rparr>) (mt_queue m) xs"
    by (rule dequeue_on)
  define v where "v = u\<lparr>occupied := oc, queues := qs, nodes := ns\<rparr>"
  have px: "procs v x = Some pr" using assms(4) by (simp add: v_def u_def)
  have skip: "loop_outcome (skip_dead nul m x) v = Inr (x, v)"
    using assms(3,5) px by (simp add: loop_outcome_def skip_dead_stops is_dead_def)
  define w where "w = v\<lparr>open_mutexes := (open_mutexes s)[nat key := m\<lparr>mt_locked := UNLOCKED\<rparr>]\<rparr>"
  have pw: "pids_ok w" "running_pid w = running_pid s" "in_state w = in_state s" "procs w x = Some pr"
    using assms(2) px by (simp_all add: w_def v_def u_def)
  obtain z where z: "changeProcessState (p_pid pr) READY w = Inr ((), z)" "z = w\<lparr>procs := procs z\<rparr>" "pids_ok z"
      "running_pid z = running_pid s" "\<And>p y. p \<noteq> p_pid pr \<Longrightarrow> in_state z p y \<longleftrightarrow> in_state s p y"
      "in_state z (p_pid pr) READY"
    using changeProcessState_effect [OF pw(1), of "p_pid pr" READY] assms(6) pw(2,3) by metis
  obtain P where P: "z = w\<lparr>procs := P\<rparr>" using z(2) by (rule that)
  define t where "t = z\<lparr>open_mutexes := open_mutexes s, superlock := UNLOCKED\<rparr>"
  have same: "m\<lparr>mt_locked := 0\<rparr> = m" using k(4) by (cases m) simp
  show thesis
  proof (rule that)
    have "set_locked key UNLOCKED v = Inr ((), w)"
      using k(2,3) by (simp add: set_locked_apply w_def v_def u_def m_def)
    moreover have "set_locked key LOCKED z = Inr ((), z\<lparr>open_mutexes := open_mutexes s\<rparr>)"
    proof -
      have "open_mutexes z = (open_mutexes s)[nat key := m\<lparr>mt_locked := UNLOCKED\<rparr>]" by (simp add: P w_def)
      then have "(open_mutexes z)[nat key := (open_mutexes z ! nat key)\<lparr>mt_locked := LOCKED\<rparr>] = open_mutexes s"
        using k(2,3,5) same by (simp add: m_def)
      then show ?thesis using k(2,3) by (simp add: set_locked_apply)
    qed
    moreover have "is_open s key" "open_mutex_at key u = Inr (m, u)"
      using k by (simp_all add: open_mutex_at_def u_def m_def)
    moreover have "dequeue_process m u = Inr (x, v)" using deq(1) by (simp add: dequeue_process_def v_def)
    ultimately show "mutex_unlock nul key s = Inr (1, t)"
      using skip assms(3) pw(4) z(1)
      by (simp add: mutex_unlock_def set_superlock_def unset_superlock_def ebind_def t_def flip: u_def)
    have "is_queue t (mt_queue m) xs"
      by (rule is_queue_cong [THEN iffD2, OF _ _ _ deq(2)]) (simp_all add: t_def P w_def v_def)
    moreover have "open_mutexes t = open_mutexes s" by (simp add: t_def)
    ultimately show "mutex_is t key True xs" using k by (simp add: mutex_is_def is_open_def m_def)
    show "pids_ok t" "in_state t (p_pid pr) READY" "running_pid t = running_pid s"
      "\<And>p y. p \<noteq> p_pid pr \<Longrightarrow> in_state t p y \<longleftrightarrow> in_state s p y"
      using z(3-6) by (simp_all add: t_def)
    have "ns = nodes s" using dequeue_others(2) [OF q deq(1)] by (simp add: u_def)
    then show "\<exists>oc qs P. t = s\<lparr>superlock := UNLOCKED, occupied := oc, queues := qs, procs := P\<rparr> \<and>
      dequeue (mt_queue (open_mutexes s ! nat key)) (s\<lparr>superlock := LOCKED\<rparr>) =
        Inr (x, s\<lparr>superlock := LOCKED, occupied := oc, queues := qs\<rparr>)"
      using deq(1) by (intro exI [of _ oc] exI [of _ qs] exI [of _ P]) (simp add: t_def P w_def v_def u_def m_def)
  qed
qed

section \<open>Closing\<close>

lemma queue_frame_mapi:
  assumes "queue_frame s t"
  shows "open_mutexes t = open_mutexes s" and "array_mutex t = array_mutex s" and "superlock t = superlock s"
proof -
  obtain oc qs ns where "t = s\<lparr>occupied := oc, queues := qs, nodes := ns\<rparr>"
    using assms unfolding queue_frame_def by (elim exE) (rule that)
  then show "open_mutexes t = open_mutexes s" "array_mutex t = array_mutex s" "superlock t = superlock s" by simp_all
qed

lemma queue_frame_sched: "queue_frame s t \<Longrightarrow> same_sched s t"
  by (simp add: same_sched_def queue_frame_fields)

lemma close_loop_all:
  assumes "is_queue s (mt_queue m) xs"
  shows "\<exists>t. close_loop m p s = Some (Inr (if xs = [] then p else Some (last xs), t)) \<and>
    is_queue t (mt_queue m) [] \<and> queue_frame s t"
proof -
  have "queue_of s (mt_queue m) ns xs \<Longrightarrow> ?thesis" for ns
  proof (induction ns arbitrary: s xs p)
    case Nil
    then have "xs = []" by (auto simp: queue_of_def)
    moreover have "queue_frame s s"
      by (auto simp: queue_frame_def intro!: exI [of _ "occupied s"] exI [of _ "queues s"] exI [of _ "nodes s"])
    ultimately show ?case using Nil is_empty_queue [OF Nil] by (subst close_loop.simps) (auto simp: is_queue_def)
  next
    case (Cons n ns)
    obtain x ys where xs: "xs = x # ys" using Cons.prems by (auto simp: queue_of_def)
    obtain t where t: "dequeue (mt_queue m) s = Inr (x, t)" "queue_of t (mt_queue m) ns ys" "queue_frame s t"
      using dequeue_queue [OF Cons.prems [unfolded xs]] by blast
    from Cons.IH [OF t(2), of "Some x"] obtain u where
      "close_loop m (Some x) t = Some (Inr (if ys = [] then Some x else Some (last ys), u))"
      "is_queue u (mt_queue m) []" "queue_frame t u" by blast
    then show ?case
      using is_empty_queue [OF Cons.prems] xs t queue_frame_trans
      by (subst close_loop.simps) (auto simp: dequeue_process_def)
  qed
  then show ?thesis using assms by (auto simp: is_queue_def)
qed

lemma lock_array_free: "array_mutex s \<noteq> 0 \<Longrightarrow> lock_array (Suc n) s = Ret () (s\<lparr>array_mutex := 0\<rparr>)"
  by (simp add: unlocked_def kbind_def kcall_def)

lemma mutex_close_empty:
  assumes "mutex_is s key l []" and "array_mutex s \<noteq> 0"
  shows "mutex_close (Suc n) key s = Undef Uninitialised"
proof -
  define m where "m = open_mutexes s ! nat key"
  define u where "u = s\<lparr>array_mutex := 0\<rparr>"
  have k: "is_open u key" "0 \<le> key" "key < 128" "is_queue u (mt_queue m) []"
    using assms(1) by (simp_all add: mutex_is_def is_open_def u_def m_def)
  obtain t where "close_loop m None u = Some (Inr (None, t))" using close_loop_all [OF k(4), of None] by auto
  then have "loop_outcome (close_loop m None) u = Inr (None, t)" by (simp add: loop_outcome_def)
  then show ?thesis
    using k lock_array_free [OF assms(2)]
    by (simp add: mutex_close_def kbind_def kcall_def open_mutex_at_def u_def m_def del: lock_array.simps)
qed

lemma destroy_empty:
  assumes "is_queue s q []" and "q \<in> managed"
  obtains t where "destroy_queue q s = Inr ((), t)" and "same_but_occupied s t"
proof -
  have e: "is_empty q s = Inr (True, s)" using kqueue.empty_test [OF assms(1)] by simp
  have "drain q s = Some (Inr s)" by (subst drain.simps) (simp add: e)
  moreover have "baseMemory s = 0x1000000" using assms(1) by (auto simp: is_queue_def queue_of_def)
  then obtain t where "deallocPage q s = Inr (0, t)" "same_but_occupied s t"
    using deallocPage_managed [OF _ assms(2)] by blast
  ultimately show thesis using that by (simp add: destroy_queue_def)
qed

text \<open>Closing a mutex with waiters: all leave the queue, the last of them becomes ready.\<close>

lemma mutex_close_waiters:
  assumes "mutex_is s key l xs" and "xs \<noteq> []" and "array_mutex s \<noteq> 0" and "pids_ok s"
    and "mt_queue (open_mutexes s ! nat key) \<in> managed"
    and "procs s (last xs) = Some pr" and "in_state s (p_pid pr) st"
  obtains t where "mutex_close (Suc n) key s = Ret 1 t" and "\<not> is_open t key" and "array_mutex t = UNLOCKED"
    and "in_state t (p_pid pr) READY" and "\<And>p y. p \<noteq> p_pid pr \<Longrightarrow> in_state t p y \<longleftrightarrow> in_state s p y"
proof -
  define m where "m = open_mutexes s ! nat key"
  define u where "u = s\<lparr>array_mutex := 0\<rparr>"
  have k: "is_open u key" "0 \<le> key" "key < 128" "is_queue u (mt_queue m) xs" "length (open_mutexes s) = 128"
    using assms(1) by (simp_all add: mutex_is_def is_open_def u_def m_def)
  obtain v where v: "close_loop m None u = Some (Inr (Some (last xs), v))" "is_queue v (mt_queue m) []" "queue_frame u v"
    using close_loop_all [OF k(4), of None] assms(2) by auto
  have same: "same_sched s u" by (simp add: u_def same_sched_def)
  then have pv: "pids_ok v" "in_state v = in_state s" "procs v (last xs) = Some pr"
    using assms(4,6) same_sched_facts [OF same] same_sched_facts [OF queue_frame_sched [OF v(3)]]
      queue_frame_fields(2) [OF v(3)] by (simp_all add: u_def)
  obtain z where z: "changeProcessState (p_pid pr) READY v = Inr ((), z)" "z = v\<lparr>procs := procs z\<rparr>" "pids_ok z"
      "\<And>p y. p \<noteq> p_pid pr \<Longrightarrow> in_state z p y \<longleftrightarrow> in_state s p y" "in_state z (p_pid pr) READY"
    using changeProcessState_effect [OF pv(1), of "p_pid pr" READY] assms(7) pv(2) by metis
  obtain P where P: "z = v\<lparr>procs := P\<rparr>" using z(2) by (rule that)
  define y where "y = z\<lparr>open_mutexes := (open_mutexes s)[nat key := m\<lparr>mt_state := CLOSED\<rparr>]\<rparr>"
  have tables: "open_mutexes v = open_mutexes s" "array_mutex v = 0"
    using queue_frame_mapi [OF v(3)] by (simp_all add: u_def)
  have closed: "set_open_mutex key (m\<lparr>mt_state := CLOSED\<rparr>) z = Inr ((), y)"
    using k tables by (simp add: set_open_mutex_def y_def P)
  have "is_queue y (mt_queue m) []" using v(2) by (simp add: y_def P)
  then obtain x where x: "destroy_queue (mt_queue m) y = Inr ((), x)" "same_but_occupied y x"
    using destroy_empty assms(5) unfolding m_def by blast
  obtain oc where oc: "x = y\<lparr>occupied := oc\<rparr>" using same_but_occupied_eq [OF x(2)] by (rule that)
  define t where "t = x\<lparr>array_mutex := UNLOCKED\<rparr>"
  have "loop_outcome (close_loop m None) u = Inr (Some (last xs), v)" using v(1) by (simp add: loop_outcome_def)
  moreover have "lock_array (Suc n) s = Ret () u" using lock_array_free [OF assms(3)] by (simp add: u_def)
  moreover have "open_mutex_at key u = Inr (m, u)" using k(2,3) by (simp add: open_mutex_at_def u_def m_def)
  moreover have "unlock_array x = Inr ((), t)" by (simp add: unlock_array_def t_def)
  ultimately have run: "mutex_close (Suc n) key s = Ret 1 t"
    using k(1) pv(3) z(1) closed x(1)
    by (simp add: mutex_close_def kbind_def kcall_def ebind_def del: lock_array.simps)
  have same_t: "same_sched z t" by (simp add: same_sched_def t_def oc y_def)
  show thesis
  proof (rule that [OF run])
    show "\<not> is_open t key" using k by (simp add: is_open_def t_def oc y_def m_def)
    show "array_mutex t = UNLOCKED" by (simp add: t_def)
    show "in_state t (p_pid pr) READY" "\<And>p y. p \<noteq> p_pid pr \<Longrightarrow> in_state t p y \<longleftrightarrow> in_state s p y"
      using z(4,5) by (simp_all add: same_sched_facts(3) [OF same_t])
  qed
qed

section \<open>Opening a name twice\<close>

definition other_name :: "string \<Rightarrow> 'a mapi_scheme \<Rightarrow> nat \<Rightarrow> bool" where
  "other_name name s i \<longleftrightarrow> is_open s (int i) \<and> strcmp name (mt_name (open_mutexes s ! i)) \<noteq> 0"

lemma open_loop_result:
  "open_loop n k name s = (j, found) \<Longrightarrow> k \<le> j \<and> j \<le> k + n \<and> (\<forall>i. k \<le> i \<longrightarrow> i < j \<longrightarrow> other_name name s i) \<and>
     (if found then j < k + n \<and> is_open s (int j) \<and> strcmp name (mt_name (open_mutexes s ! j)) = 0
      else j = k + n \<or> \<not> is_open s (int j))"
proof (induction n arbitrary: k)
  case (Suc n)
  show ?case
  proof (cases "other_name name s k")
    case True
    with Suc.prems have "open_loop n (k + 1) name s = (j, found)" by (simp add: other_name_def)
    note IH = Suc.IH [OF this]
    have "other_name name s i" if "k \<le> i" "i < j" for i using that True IH by (cases "i = k") auto
    with IH show ?thesis by auto
  next
    case False
    with Suc.prems show ?thesis by (auto simp: other_name_def split: if_splits)
  qed
qed auto

lemma open_loop_found:
  "\<forall>i. k \<le> i \<longrightarrow> i < j \<longrightarrow> other_name name s i \<Longrightarrow> k \<le> j \<Longrightarrow> j < k + n \<Longrightarrow> is_open s (int j) \<Longrightarrow>
     strcmp name (mt_name (open_mutexes s ! j)) = 0 \<Longrightarrow> open_loop n k name s = (j, True)"
proof (induction n arbitrary: k)
  case (Suc n)
  show ?case
  proof (cases "k = j")
    case True
    with Suc.prems show ?thesis by simp
  next
    case False
    then have "other_name name s k" using Suc.prems(1,2) by simp
    moreover have "open_loop n (k + 1) name s = (j, True)" using Suc.prems False by (intro Suc.IH) auto
    ultimately show ?thesis by (simp add: other_name_def)
  qed
qed simp

lemma create_new_mutex_frame:
  assumes "create_new_mutex name s = Inr (m, t)"
  shows "mt_name m = name" and "mt_state m = OPEN" and "open_mutexes t = open_mutexes s" and "array_mutex t = array_mutex s"
proof -
  obtain u q where u: "create_queue s = Inr (q, t)" "m = \<lparr>mt_name = name, mt_locked = UNLOCKED, mt_state = OPEN, mt_queue = q\<rparr>"
    using assms by (auto simp: create_new_mutex_def ebind_eq_Inr copy_name_def split: sum.splits)
  then show "mt_name m = name" "mt_state m = OPEN" by simp_all
  obtain v where v: "allocPage sizeof_queue s = Inr (q, v)" "t = v \<or> t = v\<lparr>queues := (queues v)(q \<mapsto> \<lparr>q_first = NULL, q_last = NULL\<rparr>)\<rparr>"
    using u(1) by (auto simp: create_queue_def ebind_eq_Inr put_queue_def split: if_splits)
  obtain oc where "v = s\<lparr>occupied := oc\<rparr>" using allocPage_frame [OF v(1)] by (rule that)
  with v(2) show "open_mutexes t = open_mutexes s" "array_mutex t = array_mutex s" by auto
qed

text \<open>What \<open>mutex_open\<close> does when the lock of the table is free.\<close>

lemma mutex_open_run:
  assumes "array_mutex s \<noteq> 0" and "mutex_open (Suc n) name s = Ret k t"
  obtains j found where "open_loop MAX_MUTEXES 0 name s = (j, found)"
    and "found \<Longrightarrow> k = int j \<and> t = s\<lparr>array_mutex := UNLOCKED\<rparr>"
    and "\<not> found \<Longrightarrow> j = MAX_MUTEXES \<Longrightarrow> k = MAX_MUTEX_OPEN_ERROR \<and> t = s\<lparr>array_mutex := UNLOCKED\<rparr>"
    and "\<not> found \<Longrightarrow> j \<noteq> MAX_MUTEXES \<Longrightarrow> k = int j \<and> j < MAX_MUTEXES \<and>
      (\<exists>m u. create_new_mutex name (s\<lparr>array_mutex := 0\<rparr>) = Inr (m, u) \<and>
         t = u\<lparr>open_mutexes := (open_mutexes s)[j := m], array_mutex := UNLOCKED\<rparr>)"
proof -
  define u where "u = s\<lparr>array_mutex := 0\<rparr>"
  have loop: "open_loop n k name u = open_loop n k name s" for n k
    by (induction n arbitrary: k) (simp_all add: is_open_def u_def)
  obtain j found where j: "open_loop MAX_MUTEXES 0 name s = (j, found)" by (cases "open_loop MAX_MUTEXES 0 name s")
  have bound: "j \<le> 128" using open_loop_result [OF j] by simp
  have run: "(if found then Ret (int j) (u\<lparr>array_mutex := UNLOCKED\<rparr>)
      else if j = 128 then Ret (-2) (u\<lparr>array_mutex := UNLOCKED\<rparr>)
      else kbind (kcall (create_new_mutex name)) (\<lambda>m.
          kbind (kcall (set_open_mutex (int j) m)) (\<lambda>_.
          kbind (kcall unlock_array) (\<lambda>_. kreturn (int j)))) u) = Ret k t"
    using assms(2) lock_array_free [OF assms(1)] j
    by (simp add: mutex_open_def kbind_def kcall_def unlock_array_def loop u_def [symmetric] del: lock_array.simps split: if_splits)
  show thesis
  proof (rule that [OF j])
    show "k = int j \<and> t = s\<lparr>array_mutex := UNLOCKED\<rparr>" if found
      using run that by (simp add: u_def)
    show "k = MAX_MUTEX_OPEN_ERROR \<and> t = s\<lparr>array_mutex := UNLOCKED\<rparr>" if "\<not> found" "j = MAX_MUTEXES"
      using run that by (simp add: u_def)
    assume new: "\<not> found" "j \<noteq> MAX_MUTEXES"
    then obtain m v where v: "create_new_mutex name u = Inr (m, v)"
      using run by (cases "create_new_mutex name u") (auto simp: kbind_def kcall_def)
    then have "open_mutexes v = open_mutexes s" using create_new_mutex_frame(3) [OF v] by (simp add: u_def)
    then have "set_open_mutex (int j) m v = Inr ((), v\<lparr>open_mutexes := (open_mutexes s)[j := m]\<rparr>)"
      using new(2) bound by (simp add: set_open_mutex_def)
    then show "k = int j \<and> j < MAX_MUTEXES \<and>
      (\<exists>m u. create_new_mutex name (s\<lparr>array_mutex := 0\<rparr>) = Inr (m, u) \<and>
         t = u\<lparr>open_mutexes := (open_mutexes s)[j := m], array_mutex := UNLOCKED\<rparr>)"
      using run new v bound by (auto simp: kbind_def kcall_def unlock_array_def u_def)
  qed
qed

lemma mutex_open_found:
  assumes "array_mutex s \<noteq> 0" and "open_loop MAX_MUTEXES 0 name s = (j, True)"
  shows "mutex_open (Suc n) name s = Ret (int j) (s\<lparr>array_mutex := UNLOCKED\<rparr>)"
proof -
  have "open_loop n k name (s\<lparr>array_mutex := 0\<rparr>) = open_loop n k name s" for n k
    by (induction n arbitrary: k) (simp_all add: is_open_def)
  then show ?thesis
    using assms lock_array_free [OF assms(1)]
    by (simp add: mutex_open_def kbind_def kcall_def unlock_array_def del: lock_array.simps)
qed

section \<open>Properties\<close>

text \<open>A state to evaluate on: the processes of \<open>demo_sched\<close>, the heap as the boot leaves it, and the
  mutex 0 taken, with the blocked process 1 in its queue.\<close>

definition demo_entry :: mutex_type where
  "demo_entry = \<lparr>mt_name = ''m'', mt_locked = LOCKED, mt_state = OPEN, mt_queue = 0x1020000\<rparr>"

definition demo_mapi :: mapi where
  "demo_mapi = kmem.extend (kernel_heap\<lparr>occupied := occupied (createHeap bss_pagemem),
       queues := [0x1020000 \<mapsto> \<lparr>q_first = 0x1010000, q_last = 0x1010000\<rparr>],
       nodes := [0x1010000 \<mapsto> \<lparr>node_elem = 0x1004000, node_next = NULL\<rparr>]\<rparr>)
     \<lparr>open_mutexes = demo_entry # replicate 127 (demo_entry\<lparr>mt_state := CLOSED\<rparr>), array_mutex = UNLOCKED, superlock = UNLOCKED\<rparr>"

lemma demo_mapi_fields:
  "occupied demo_mapi = occupied (createHeap bss_pagemem)" "base demo_mapi = base (createHeap bss_pagemem)"
  "heapLevel demo_mapi = heapLevel (createHeap bss_pagemem)" "baseMemory demo_mapi = 0x1000000"
  "queues demo_mapi = [0x1020000 \<mapsto> \<lparr>q_first = 0x1010000, q_last = 0x1010000\<rparr>]"
  "nodes demo_mapi = [0x1010000 \<mapsto> \<lparr>node_elem = 0x1004000, node_next = NULL\<rparr>]"
  "open_mutexes demo_mapi = demo_entry # replicate 127 (demo_entry\<lparr>mt_state := CLOSED\<rparr>)"
  "array_mutex demo_mapi = UNLOCKED" "superlock demo_mapi = UNLOCKED"
  "slots demo_mapi = slots demo_sched" "procs demo_mapi = procs demo_sched" "current demo_mapi = current demo_sched"
  "cardinal_processes demo_mapi = cardinal_processes demo_sched"
  using createHeap_built [OF arrays_sized_bss]
  by (simp_all add: demo_mapi_def kmem.defs kernel_heap_def ipc.defs demo_ipc_def ssem.defs demo_sem_def omutex.defs
      demo_mutex_def qmem.defs full_queue_def sched.defs demo_sched_def heap_built_def)

lemma demo_mapi_sched: "same_sched demo_sched demo_mapi"
  by (simp add: same_sched_def demo_mapi_fields)

lemmas demo_mapi_facts = pids_ok_demo [folded same_sched_facts(2,4) [OF demo_mapi_sched]]

lemma demo_mapi_mutex: "mutex_is demo_mapi 0 True [0x1004000]"
proof -
  have "queue_of demo_mapi 0x1020000 [0x1010000] [0x1004000]"
    by (simp add: queue_of_def demo_mapi_fields managed_def)
  then have "is_queue demo_mapi 0x1020000 [0x1004000]" by (auto simp: is_queue_def)
  then show ?thesis by (simp add: mutex_is_def is_open_def demo_mapi_fields demo_entry_def)
qed

lemma demo_mapi_space: "queue_space 0x1020000 demo_mapi"
proof -
  have ns: "ns = [0x1010000]" if "queue_of demo_mapi 0x1020000 ns xs" for ns xs
    using that by (cases ns; cases "tl ns") (auto simp: queue_of_def demo_mapi_fields)
  obtain t where "allocPage 16 demo_queue = Inr (0x1000000, t)" using demo_queue_alloc by blast
  then have "allocPage 16 demo_mapi = Inr (0x1000000, demo_mapi\<lparr>occupied := occupied t\<rparr>)"
    by (rule allocPage_indep [rotated -1]) (simp_all add: demo_mapi_fields demo_queue_fields)
  then have "room demo_mapi 0x1020000 [0x1010000]" by (simp add: room_def managed_def)
  then show ?thesis using ns unfolding queue_space_def by blast
qed

lemma demo_mapi_procs:
  "procs demo_mapi 0x1004000 = Some (demo_process 1 BLOCKED 0x1007000)"
  "getCurrentProcess demo_mapi = Inr (0x1003000, demo_mapi)" "in_state demo_mapi 1 BLOCKED"
proof -
  show "procs demo_mapi 0x1004000 = Some (demo_process 1 BLOCKED 0x1007000)"
    by (simp add: demo_mapi_fields demo_sched_def)
  show "getCurrentProcess demo_mapi = Inr (0x1003000, demo_mapi)"
    by (simp add: getCurrentProcess_def demo_mapi_fields demo_sched_def)
  have "in_state demo_sched 1 BLOCKED"
    unfolding in_state_ring [OF ring_demo] by (simp add: demo_entries_def demo_process_def view_def)
  then show "in_state demo_mapi 1 BLOCKED" by (simp add: same_sched_facts(3) [OF demo_mapi_sched])
qed

lemma create_new_mutex_returns:
  assumes "allocPage sizeof_queue s = Inr r" and "length name < MUTEX_NAME_LEN"
  shows "\<exists>m t. create_new_mutex name s = Inr (m, t)"
proof -
  obtain q u where r: "allocPage sizeof_queue s = Inr (q, u)" using assms(1) by (cases r) auto
  have "\<exists>t. create_queue s = Inr (q, t)" using r by (simp add: create_queue_def put_queue_def)
  then show ?thesis
    using strcpy_loop_ok [of 0 name "replicate 64 (CHR 0x00)"] assms(2)
    by (auto simp: create_new_mutex_def copy_name_def strcpy_def)
qed

text \<open>\<open>mutex_open\<close> with the lock of the table free, a name that fits the field and an allocator that
  answers always returns.  Either the table is full and nothing changes, or it returns a key under
  which the name is open; opening the name again gives the same key and changes nothing, and the
  other entries are as before.\<close>

theorem mutex_open_key:
  assumes "array_mutex s = UNLOCKED" and "length (open_mutexes s) = MAX_MUTEXES"
    and "allocPage sizeof_queue s = Inr r" and "length name < MUTEX_NAME_LEN"
  shows "\<exists>k t. mutex_open (Suc n) name s = Ret k t \<and>
    (k = MAX_MUTEX_OPEN_ERROR \<and> t = s \<or>
     is_open t k \<and> mt_name (open_mutexes t ! nat k) = name \<and> array_mutex t = UNLOCKED \<and>
     (\<forall>i. i \<noteq> nat k \<longrightarrow> open_mutexes t ! i = open_mutexes s ! i) \<and> mutex_open (Suc n) name t = Ret k t)"
proof -
  define u where "u = s\<lparr>array_mutex := 0\<rparr>"
  have self: "s\<lparr>array_mutex := UNLOCKED\<rparr> = s" using assms(1) by simp
  obtain j found where j: "open_loop MAX_MUTEXES 0 name s = (j, found)" by (cases "open_loop MAX_MUTEXES 0 name s")
  note loop = open_loop_result [OF j]
  show ?thesis
  proof (cases found)
    case True
    with mutex_open_found [of s name j n] assms(1) j self loop show ?thesis
      by (intro exI [of _ "int j"] exI [of _ s]) (auto simp: strcmp_zero_iff)
  next
    case new: False
    have loop_u: "open_loop n k name u = open_loop n k name s" for n k
      by (induction n arbitrary: k) (simp_all add: is_open_def u_def)
    have lock: "lock_array (Suc n) s = Ret () u" using lock_array_free [of s n] assms(1) by (simp add: u_def del: lock_array.simps)
    show ?thesis
    proof (cases "j = 128")
      case True
      then have "mutex_open (Suc n) name s = Ret (-2) s"
        using new j lock loop_u assms(1)
        by (simp add: mutex_open_def kbind_def kcall_def unlock_array_def u_def del: lock_array.simps)
      then show ?thesis by blast
    next
      case False
      have "allocPage sizeof_queue u = Inr (fst r, u\<lparr>occupied := occupied (snd r)\<rparr>)"
        by (rule allocPage_indep [where s = s]) (use assms(3) in \<open>simp_all add: u_def\<close>)
      then obtain m v where v: "create_new_mutex name u = Inr (m, v)"
        using create_new_mutex_returns assms(4) by blast
      note frame = create_new_mutex_frame [OF v]
      define t where "t = v\<lparr>open_mutexes := (open_mutexes s)[j := m], array_mutex := UNLOCKED\<rparr>"
      have jb: "j < 128" using loop False by simp
      have "open_mutexes v = open_mutexes s" using frame(3) by (simp add: u_def)
      then have run: "mutex_open (Suc n) name s = Ret (int j) t"
        using new j lock loop_u v jb
        by (simp add: mutex_open_def kbind_def kcall_def unlock_array_def set_open_mutex_def t_def del: lock_array.simps)
      have entry: "open_mutexes t ! i = (if i = j then m else open_mutexes s ! i)" for i
        using jb assms(2) by (simp add: t_def nth_list_update_if)
      have "is_open t (int i) \<longleftrightarrow> is_open s (int i)" if "i \<noteq> j" for i using that by (simp add: is_open_def entry)
      then have "\<forall>i. 0 \<le> i \<longrightarrow> i < j \<longrightarrow> other_name name t i"
        using loop new by (auto simp: other_name_def entry)
      moreover have op: "is_open t (int j)" using jb frame(2) by (simp add: is_open_def entry)
      ultimately have "open_loop MAX_MUTEXES 0 name t = (j, True)"
        using jb frame(1) by (intro open_loop_found) (simp_all add: entry strcmp_zero_iff)
      then have "mutex_open (Suc n) name t = Ret (int j) t"
        using mutex_open_found [of t name j n] by (simp add: t_def)
      then show ?thesis
        using run op entry frame(1) by (intro exI [of _ "int j"] exI [of _ t]) (simp add: t_def)
    qed
  qed
qed

theorem mutex_open_key_witness:
  "\<exists>k t. mutex_open 1 ''n'' demo_mapi = Ret k t \<and>
    (k = MAX_MUTEX_OPEN_ERROR \<and> t = demo_mapi \<or>
     is_open t k \<and> mt_name (open_mutexes t ! nat k) = ''n'' \<and> array_mutex t = UNLOCKED \<and>
     (\<forall>i. i \<noteq> nat k \<longrightarrow> open_mutexes t ! i = open_mutexes demo_mapi ! i) \<and> mutex_open 1 ''n'' t = Ret k t)"
proof -
  obtain r where "allocPage 16 demo_mapi = Inr r"
    using demo_mapi_space demo_mapi_mutex
    by (auto simp: queue_space_def room_def mutex_is_def is_queue_def demo_mapi_fields demo_entry_def)
  then show ?thesis using mutex_open_key [of demo_mapi r "''n''" 0] by (simp add: demo_mapi_fields)
qed

text \<open>C19. \<open>mutex_lock\<close> of a mutex nobody has takes it and returns 1; of a mutex that is taken it puts the
  caller at the end of its queue, blocks it and yields, and no other process changes its state.\<close>

theorem mutex_lock_takes_or_queues:
  assumes "mutex_is s key busy xs" and "pids_ok s" and "queue_space (mt_queue (open_mutexes s ! nat key)) s"
    and "getCurrentProcess s = Inr (a, s)"
  shows "if busy
    then \<exists>t. mutex_lock key s = bindr (yield t) (\<lambda>_. kreturn 1) \<and> mutex_is t key True (xs @ [a]) \<and>
      in_state t (running_pid s) BLOCKED \<and> (\<forall>p x. p \<noteq> running_pid s \<longrightarrow> in_state t p x = in_state s p x)
    else \<exists>t. mutex_lock key s = Ret 1 t \<and> mutex_is t key True xs \<and> in_state t = in_state s"
proof (cases busy)
  case True
  with assms(1) have "mutex_is s key True xs" by simp
  from mutex_lock_busy [OF this assms(2-4)] show ?thesis using True by (metis (full_types))
next
  case False
  with assms(1) have m: "mutex_is s key False xs" by simp
  show ?thesis
    using False mutex_lock_free [OF m assms(2)] mutex_is_update [OF m, where v = UNLOCKED and l' = True] by simp
qed

theorem mutex_lock_takes_or_queues_witness:
  "\<exists>t. mutex_lock 0 demo_mapi = bindr (yield t) (\<lambda>_. kreturn 1) \<and> mutex_is t 0 True [0x1004000, 0x1003000] \<and>
     in_state t 0 BLOCKED"
  using mutex_lock_takes_or_queues [OF demo_mapi_mutex demo_mapi_facts(1) _ demo_mapi_procs(2)] demo_mapi_space
    demo_mapi_facts(2) by (auto simp: demo_mapi_fields demo_entry_def)

text \<open>C18. \<open>mutex_unlock\<close> hands a mutex over in the order of the calls of \<open>mutex_lock\<close>: the first process of
  the queue leaves it and becomes ready, the mutex stays taken on its behalf, and no other process
  changes its state.  With an empty queue the mutex becomes free.\<close>

theorem mutex_unlock_fifo:
  assumes "mutex_is s key True xs" and "pids_ok s"
    and "xs \<noteq> [] \<Longrightarrow> hd xs \<noteq> NULL \<and> procs s (hd xs) = Some pr \<and> p_state pr \<noteq> DEAD \<and> in_state s (p_pid pr) st"
  shows "\<exists>t. mutex_unlock False key s = Inr (1, t) \<and> mutex_is t key (xs \<noteq> []) (tl xs) \<and>
    (if xs = [] then in_state t = in_state s
     else in_state t (p_pid pr) READY \<and> (\<forall>p x. p \<noteq> p_pid pr \<longrightarrow> in_state t p x = in_state s p x))"
proof (cases xs)
  case Nil
  with assms(1) have m: "mutex_is s key True []" by simp
  show ?thesis
    using Nil mutex_unlock_nobody [OF m] mutex_is_update [OF m, where v = UNLOCKED and l' = False] by simp
next
  case (Cons x ys)
  then have x: "x \<noteq> NULL" "procs s x = Some pr" "p_state pr \<noteq> DEAD" "in_state s (p_pid pr) st"
    using assms(3) by simp_all
  have m: "mutex_is s key True (x # ys)" using assms(1) Cons by simp
  show ?thesis
    by (rule mutex_unlock_first [OF m assms(2) x, of False]) (use Cons in auto)
qed

theorem mutex_unlock_fifo_witness:
  "\<exists>t. mutex_unlock False 0 demo_mapi = Inr (1, t) \<and> mutex_is t 0 True [] \<and> in_state t 1 READY"
  using mutex_unlock_fifo [OF demo_mapi_mutex demo_mapi_facts(1), of "demo_process 1 BLOCKED 0x1007000" BLOCKED]
    demo_mapi_procs by (auto simp: demo_process_def)

text \<open>
  The test \<open>p->state == 3\<close> reads through a null pointer when nobody waits: with a 3 there, the loop
  takes \<open>NULL\<close> out of the empty queue for ever.
\<close>

lemma mutex_unlock_spins:
  assumes "mutex_is s key l []"
  shows "mutex_unlock True key s = Inl Diverges"
proof -
  define m where "m = open_mutexes s ! nat key"
  define u where "u = s\<lparr>superlock := LOCKED\<rparr>"
  have k: "is_open s key" "0 \<le> key" "key < 128" using assms by (simp_all add: mutex_is_def is_open_def)
  have "is_queue u (mt_queue m) []" using assms by (simp add: mutex_is_def u_def m_def)
  then have deq: "dequeue (mt_queue m) u = Inr (NULL, u)" by (rule kqueue.deq_Nil)
  have "nul \<longrightarrow> m' = m \<longrightarrow> p = NULL \<longrightarrow> t \<noteq> u" if "skip_dead nul m' p t = Some r" for nul m' p t r
    by (rule skip_dead.raw_induct [where P = "\<lambda>nul m' p t r. nul \<longrightarrow> m' = m \<longrightarrow> p = NULL \<longrightarrow> t \<noteq> u", OF _ that])
      (intro impI notI, clarsimp simp: is_dead_def dequeue_process_def deq, blast)
  from this [of True m NULL u] have "skip_dead True m NULL u = None" by (cases "skip_dead True m NULL u") simp_all
  then have "loop_outcome (skip_dead True m NULL) u = Inl Diverges" by (simp add: loop_outcome_def)
  then show ?thesis
    using k deq by (simp add: mutex_unlock_def set_superlock_def open_mutex_at_def dequeue_process_def
        ebind_def m_def [symmetric] u_def)
qed

text \<open>\<open>mutex_close\<close> takes every process out of the queue of the mutex and wakes the last of them only:
  the others stay blocked, in no queue.  Closing a mutex nobody waits for uses the variable \<open>p\<close>
  without having assigned it.\<close>

theorem mutex_close_wakes_last:
  assumes "mutex_is s key l xs" and "array_mutex s = UNLOCKED" and "pids_ok s"
    and "mt_queue (open_mutexes s ! nat key) \<in> managed"
    and "xs \<noteq> [] \<Longrightarrow> procs s (last xs) = Some pr \<and> in_state s (p_pid pr) st"
  shows "if xs = [] then mutex_close (Suc n) key s = Undef Uninitialised
    else \<exists>t. mutex_close (Suc n) key s = Ret 1 t \<and> \<not> is_open t key \<and> in_state t (p_pid pr) READY \<and>
      (\<forall>p y. p \<noteq> p_pid pr \<longrightarrow> in_state t p y = in_state s p y)"
proof (cases "xs = []")
  case True
  then show ?thesis using mutex_close_empty [of s key l n] assms(1,2) by simp
next
  case False
  have "array_mutex s \<noteq> 0" using assms(2) by simp
  then show ?thesis
    using mutex_close_waiters [OF assms(1) False _ assms(3,4), of pr st n] assms(5) False by (metis (full_types))
qed

theorem mutex_close_wakes_last_witness:
  "\<exists>t. mutex_close 1 0 demo_mapi = Ret 1 t \<and> \<not> is_open t 0 \<and> in_state t 1 READY"
  using mutex_close_wakes_last [OF demo_mapi_mutex, of "demo_process 1 BLOCKED 0x1007000" BLOCKED 0]
    demo_mapi_procs demo_mapi_facts(1) by (auto simp: demo_mapi_fields demo_process_def demo_entry_def managed_def)

end
