(* ===== verification/CondVariable.thy ===== *)
theory CondVariable
  imports MutexApi
begin

text \<open>
  The condition variables of Kernel/condVariable.c: a table of 128, each with a queue of the
  processes that wait and a mutex of theory \<open>MutexApi\<close> that guards the queue, and one mutex for the
  table.

  A key of a mutex goes through a \<open>uint64_t\<close> field and back to \<open>int\<close> unchanged.  \<open>tries\<close> and \<open>nul\<close>
  are the parameters of \<open>mutex_open\<close> and \<open>mutex_unlock\<close>.

  The lemmas show that waiting is atomic, signals go to the longest waiting process, and
  broadcasts wake everybody.
\<close>

section \<open>State\<close>

abbreviation (input) MAX_COND_VAR :: nat where
  "MAX_COND_VAR \<equiv> 128"

abbreviation (input) MAX_COND_OPEN_ERROR :: int where
  "MAX_COND_OPEN_ERROR \<equiv> -2"

abbreviation (input) COND_LOCK_IDENTIFIER :: string where
  "COND_LOCK_IDENTIFIER \<equiv> ''__COND_ARRAY_LOCK__''"

record cond_variable =
  cv_name :: string
  cv_state :: int
  cv_lock_queue :: int
  cv_queue :: addr

record conds = mapi +
  open_conds :: "cond_variable list"
  array_lock :: int

definition cond_at :: "int \<Rightarrow> ('a conds_scheme, cond_variable) eprog" where
  "cond_at k s = (if 0 \<le> k \<and> k < int MAX_COND_VAR then Inr (open_conds s ! nat k, s) else Inl OutOfBounds)"

definition set_cond :: "int \<Rightarrow> cond_variable \<Rightarrow> ('a conds_scheme, unit) eprog" where
  "set_cond k v s = (if 0 \<le> k \<and> k < int MAX_COND_VAR
     then Inr ((), s\<lparr>open_conds := (open_conds s)[nat k := v]\<rparr>) else Inl OutOfBounds)"

definition cond_is_open :: "'a conds_scheme \<Rightarrow> int \<Rightarrow> bool" where
  "cond_is_open s key \<longleftrightarrow> 0 \<le> key \<and> key < int MAX_COND_VAR \<and> cv_state (open_conds s ! nat key) = OPEN"

section \<open>Opening\<close>

definition initialize_conditional_variable :: "nat \<Rightarrow> ('a conds_scheme, int) kprog" where
  "initialize_conditional_variable tries =
     kbind (mutex_open tries COND_LOCK_IDENTIFIER) (\<lambda>k.
     kbind (kmodify (\<lambda>s. s\<lparr>array_lock := k\<rparr>)) (\<lambda>_. kreturn 1))"

text \<open>\<open>itoa\<close> into the buffer \<open>aux\<close>, the identifier behind its digits.\<close>

definition lock_name :: "int \<Rightarrow> fault + string" where
  "lock_name key = (case itoa key 10 of Inl e \<Rightarrow> Inl e
     | Inr (aux, digits) \<Rightarrow> Inr (take (nat digits) aux @ COND_LOCK_IDENTIFIER))"

definition create_new_cond :: "nat \<Rightarrow> int \<Rightarrow> string \<Rightarrow> ('a conds_scheme, unit) kprog" where
  "create_new_cond tries key name =
     kbind (kcall (\<lambda>s. case lock_name key of Inl e \<Rightarrow> Inl e | Inr aux \<Rightarrow> Inr (aux, s))) (\<lambda>aux.
     kbind (mutex_open tries aux) (\<lambda>k.
     kbind (kcall (ebind (cond_at key) (\<lambda>v. set_cond key (v\<lparr>cv_lock_queue := k\<rparr>)))) (\<lambda>_.
     kbind (kcall (copy_name name)) (\<lambda>n.
     kbind (kcall (ebind (cond_at key) (\<lambda>v. set_cond key (v\<lparr>cv_name := n, cv_state := OPEN\<rparr>)))) (\<lambda>_.
     kbind (kcall create_queue) (\<lambda>q.
     kcall (ebind (cond_at key) (\<lambda>v. set_cond key (v\<lparr>cv_queue := q\<rparr>)))))))))"

fun cond_loop :: "nat \<Rightarrow> nat \<Rightarrow> string \<Rightarrow> 'a conds_scheme \<Rightarrow> nat \<times> bool" where
  "cond_loop 0 i name s = (i, False)"
| "cond_loop (Suc n) i name s =
     (if cv_state (open_conds s ! i) = OPEN
      then if strcmp (cv_name (open_conds s ! i)) name = 0 then (i, True) else cond_loop n (i + 1) name s
      else (i, False))"

definition cond_open :: "nat \<Rightarrow> bool \<Rightarrow> string \<Rightarrow> ('a conds_scheme, int) kprog" where
  "cond_open tries nul name =
     kbind (kget array_lock) (\<lambda>l.
     kbind (mutex_lock l) (\<lambda>_.
     kbind (kget (cond_loop MAX_COND_VAR 0 name)) (\<lambda>(i, found).
     let unlock = kbind (kget array_lock) (\<lambda>l. kcall (mutex_unlock nul l)) in
     if found then kbind unlock (\<lambda>_. kreturn (int i))
     else if i = MAX_COND_VAR then kbind unlock (\<lambda>_. kreturn MAX_COND_OPEN_ERROR)
     else kbind (create_new_cond tries (int i) name) (\<lambda>_. kbind unlock (\<lambda>_. kreturn (int i))))))"

section \<open>Waiting and signalling\<close>

definition sync_enqueue :: "bool \<Rightarrow> cond_variable \<Rightarrow> addr \<Rightarrow> ('a conds_scheme, unit) kprog" where
  "sync_enqueue nul v p =
     kbind (mutex_lock (cv_lock_queue v)) (\<lambda>_.
     kbind (kcall (enqueue (cv_queue v) p)) (\<lambda>_.
     kbind (kcall (mutex_unlock nul (cv_lock_queue v))) (\<lambda>_. kreturn ())))"

definition sync_dequeue :: "bool \<Rightarrow> cond_variable \<Rightarrow> ('a conds_scheme, addr) kprog" where
  "sync_dequeue nul v =
     kbind (mutex_lock (cv_lock_queue v)) (\<lambda>_.
     kbind (kcall (is_empty (cv_queue v))) (\<lambda>e.
     kbind (if e then kreturn NULL else kcall (dequeue (cv_queue v))) (\<lambda>p.
     kbind (kcall (mutex_unlock nul (cv_lock_queue v))) (\<lambda>_. kreturn p))))"

definition wake_process :: "addr \<Rightarrow> ('a conds_scheme, unit) eprog" where
  "wake_process p = ebind (deref procs p) (\<lambda>pr. changeProcessState (p_pid pr) READY)"

definition cond_wait :: "bool \<Rightarrow> int \<Rightarrow> int \<Rightarrow> ('a conds_scheme, int) kprog" where
  "cond_wait nul cond_key lock_key =
     kbind (kget (\<lambda>s. cond_is_open s cond_key)) (\<lambda>op.
     if \<not> op then kreturn NOT_OPEN_ERROR
     else
       kbind (kcall (cond_at cond_key)) (\<lambda>v.
       kbind (kcall getCurrentProcess) (\<lambda>p.
       kbind (kcall (mutex_unlock nul lock_key)) (\<lambda>_.
       kbind (sync_enqueue nul v p) (\<lambda>_.
       kbind (kcall (ebind (deref procs p) (\<lambda>pr. changeProcessState (p_pid pr) BLOCKED))) (\<lambda>_.
       kbind yield (\<lambda>_.
       kbind (mutex_lock lock_key) (\<lambda>_. kreturn 1))))))))"

definition cond_signal :: "bool \<Rightarrow> int \<Rightarrow> ('a conds_scheme, int) kprog" where
  "cond_signal nul key =
     kbind (kget (\<lambda>s. cond_is_open s key)) (\<lambda>op.
     if \<not> op then kreturn NOT_OPEN_ERROR
     else
       kbind (kcall (cond_at key)) (\<lambda>v.
       kbind (sync_dequeue nul v) (\<lambda>p.
       kbind (if p \<noteq> NULL then kcall (wake_process p) else kreturn ()) (\<lambda>_. kreturn 1))))"

partial_function (option) broadcast_loop :: "addr \<Rightarrow> 'a conds_scheme \<Rightarrow> (fault + unit \<times> 'a conds_scheme) option" where
  "broadcast_loop q s =
     (case is_empty q s of
        Inl e \<Rightarrow> Some (Inl e)
      | Inr (e, s) \<Rightarrow>
          if e then Some (Inr ((), s))
          else case ebind (dequeue q) wake_process s of Inl e \<Rightarrow> Some (Inl e) | Inr (_, s) \<Rightarrow> broadcast_loop q s)"

definition cond_broadcast :: "bool \<Rightarrow> int \<Rightarrow> ('a conds_scheme, int) kprog" where
  "cond_broadcast nul key =
     kbind (kget (\<lambda>s. cond_is_open s key)) (\<lambda>op.
     if \<not> op then kreturn NOT_OPEN_ERROR
     else
       kbind (kcall (cond_at key)) (\<lambda>v.
       kbind (mutex_lock (cv_lock_queue v)) (\<lambda>_.
       kbind (kcall (loop_outcome (broadcast_loop (cv_queue v)))) (\<lambda>_.
       kbind (kcall (mutex_unlock nul (cv_lock_queue v))) (\<lambda>_. kreturn 1)))))"

definition cond_close :: "nat \<Rightarrow> bool \<Rightarrow> int \<Rightarrow> ('a conds_scheme, int) kprog" where
  "cond_close tries nul key =
     kbind (kget (\<lambda>s. cond_is_open s key)) (\<lambda>op.
     if \<not> op then kreturn NOT_OPEN_ERROR
     else
       kbind (cond_broadcast nul key) (\<lambda>_.
       kbind (kcall (cond_at key)) (\<lambda>v.
       kbind (kcall (destroy_queue (cv_queue v))) (\<lambda>_.
       kbind (mutex_close tries (cv_lock_queue v)) (\<lambda>_.
       kbind (kcall (ebind (cond_at key) (\<lambda>v. set_cond key (v\<lparr>cv_state := CLOSED\<rparr>)))) (\<lambda>_. kreturn 1))))))"

section \<open>The critical sections\<close>

text \<open>What a condition variable stands for: the processes that wait, in order; its lock is free.\<close>

definition cond_is :: "'a conds_scheme \<Rightarrow> int \<Rightarrow> addr list \<Rightarrow> bool" where
  "cond_is s key xs \<longleftrightarrow> cond_is_open s key \<and> length (open_conds s) = MAX_COND_VAR \<and>
     (let v = open_conds s ! nat key in
        is_queue s (cv_queue v) xs \<and> mutex_is s (cv_lock_queue v) False [] \<and>
        cv_queue v \<noteq> mt_queue (open_mutexes s ! nat (cv_lock_queue v)))"

lemma is_queue_Nil_iff:
  "is_queue s q [] \<longleftrightarrow> q \<noteq> NULL \<and> baseMemory s = 0x1000000 \<and> queues s q = Some \<lparr>q_first = NULL, q_last = NULL\<rparr>"
proof -
  have "is_queue s q [] \<longleftrightarrow> queue_of s q [] []"
    using chain_length by (fastforce simp: is_queue_def queue_of_def)
  moreover have "q_first h = NULL \<and> q_last h = NULL \<longleftrightarrow> h = \<lparr>q_first = NULL, q_last = NULL\<rparr>" for h
    by (cases h) simp
  ultimately show ?thesis by (auto simp: queue_of_def)
qed

lemma put_queues:
  "put_node a n s = Inr ((), t) \<Longrightarrow> queues t = queues s"
  "put_queue a h s = Inr ((), t) \<Longrightarrow> q' \<noteq> a \<Longrightarrow> queues t q' = queues s q'"
  "allocPage p s = Inr (r, t) \<Longrightarrow> queues t = queues s"
  "deref f a s = Inr (v, t) \<Longrightarrow> t = s"
proof -
  assume alloc: "allocPage p s = Inr (r, t)"
  obtain oc where "t = s\<lparr>occupied := oc\<rparr>" using allocPage_frame [OF alloc] by (rule that)
  then show "queues t = queues s" by simp
qed (auto simp: put_node_def put_queue_def deref_def split: if_splits option.splits)

lemma enqueue_other:
  assumes "enqueue q x s = Inr ((), t)" and "q' \<noteq> q"
  shows "queues t q' = queues s q'"
proof (cases "q = NULL")
  case True
  with assms(1) show ?thesis by (simp add: enqueue_def)
next
  case False
  obtain n u v h w where steps: "allocPage sizeof_node s = Inr (n, u)" "put_node n \<lparr>node_elem = x, node_next = NULL\<rparr> u = Inr ((), v)"
      "deref queues q v = Inr (h, w)"
    and rest: "(if q_first h = NULL then put_queue q (h\<lparr>q_first := n, q_last := n\<rparr>)
       else ebind (deref nodes (q_last h)) (\<lambda>l. ebind (put_node (q_last h) (l\<lparr>node_next := n\<rparr>)) (\<lambda>_.
            put_queue q (h\<lparr>q_last := n\<rparr>)))) w = Inr ((), t)"
    using assms(1) False by (auto simp: enqueue_def ebind_eq_Inr)
  have "queues w = queues s"
    using put_queues(3) [OF steps(1)] put_queues(1) [OF steps(2)] put_queues(4) [OF steps(3)] by simp
  moreover have "queues t q' = queues w q'"
    using rest assms(2)
    by (auto simp: ebind_eq_Inr put_node_def put_queue_def deref_def split: if_splits option.splits)
  ultimately show ?thesis by simp
qed

text \<open>
  Between \<open>mutex_lock\<close> and \<open>mutex_unlock\<close> of a free mutex: afterwards the table of the mutexes is as
  before.
\<close>

definition entered :: "int \<Rightarrow> 'a mapi_scheme \<Rightarrow> 'a mapi_scheme" where
  "entered lk s = s\<lparr>superlock := UNLOCKED,
     open_mutexes := (open_mutexes s)[nat lk := (open_mutexes s ! nat lk)\<lparr>mt_locked := LOCKED\<rparr>]\<rparr>"

lemma entered_sched: "same_sched s (entered lk s)"
  by (simp add: same_sched_def entered_def)

lemma is_queue_entered [simp]: "is_queue (entered lk s) q xs \<longleftrightarrow> is_queue s q xs"
  by (simp add: entered_def)

lemma leave_section:
  assumes "mutex_is s lk False []" and "u = entered lk s"
    and "t = u\<lparr>occupied := oc, queues := qs, nodes := ns\<rparr>"
    and "qs (mt_queue (open_mutexes s ! nat lk)) = queues s (mt_queue (open_mutexes s ! nat lk))"
  shows "mutex_unlock False lk t = Inr (1, s\<lparr>superlock := UNLOCKED, occupied := oc, queues := qs, nodes := ns\<rparr>)"
    and "mutex_is (s\<lparr>superlock := UNLOCKED, occupied := oc, queues := qs, nodes := ns\<rparr>) lk False []"
proof -
  let ?q = "mt_queue (open_mutexes s ! nat lk)"
  have k: "0 \<le> lk" "lk < 128" "is_open s lk" "length (open_mutexes s) = 128" "mt_locked (open_mutexes s ! nat lk) = 1"
      "is_queue s ?q []"
    using assms(1) by (simp_all add: mutex_is_def is_open_def)
  have t: "t = s\<lparr>superlock := UNLOCKED,
      open_mutexes := (open_mutexes s)[nat lk := (open_mutexes s ! nat lk)\<lparr>mt_locked := LOCKED\<rparr>],
      occupied := oc, queues := qs, nodes := ns\<rparr>"
    by (simp add: assms(2,3) entered_def)
  have q: "is_queue t ?q []" using k(6) assms(4) by (simp add: is_queue_Nil_iff t)
  have "mutex_is t lk True []" using k q by (simp add: mutex_is_def is_open_def t)
  from mutex_unlock_nobody [OF this]
  have "mutex_unlock False lk t = Inr (1, t\<lparr>superlock := UNLOCKED,
      open_mutexes := (open_mutexes t)[nat lk := (open_mutexes t ! nat lk)\<lparr>mt_locked := UNLOCKED\<rparr>]\<rparr>)" .
  moreover have "(open_mutexes t)[nat lk := (open_mutexes t ! nat lk)\<lparr>mt_locked := UNLOCKED\<rparr>] = open_mutexes s"
  proof -
    have "(open_mutexes s ! nat lk)\<lparr>mt_locked := UNLOCKED\<rparr> = open_mutexes s ! nat lk"
      using k(5) by (cases "open_mutexes s ! nat lk") simp
    then show ?thesis using k(2,4) by (simp add: t list_update_same_conv)
  qed
  ultimately show "mutex_unlock False lk t = Inr (1, s\<lparr>superlock := UNLOCKED, occupied := oc, queues := qs, nodes := ns\<rparr>)"
    by (simp add: t)
  show "mutex_is (s\<lparr>superlock := UNLOCKED, occupied := oc, queues := qs, nodes := ns\<rparr>) lk False []"
    using k assms(4) by (simp add: mutex_is_def is_open_def is_queue_Nil_iff)
qed

lemma cond_isD:
  assumes "cond_is s key xs" and "v = open_conds s ! nat key"
  shows "cond_is_open s key" and "cond_at key s = Inr (v, s)" and "is_queue s (cv_queue v) xs"
    and "mutex_is s (cv_lock_queue v) False []" and "mt_queue (open_mutexes s ! nat (cv_lock_queue v)) \<noteq> cv_queue v"
  using assms by (auto simp: cond_is_def cond_is_open_def cond_at_def Let_def)

text \<open>\<open>cond_is\<close> in a state that keeps the tables.\<close>

lemma cond_is_later:
  assumes "cond_is s key xs" and "v = open_conds s ! nat key"
    and "open_conds t = open_conds s" and "open_mutexes t = open_mutexes s"
    and "is_queue t (cv_queue v) ys" and "mutex_is t (cv_lock_queue v) False []"
  shows "cond_is t key ys"
  using assms by (auto simp: cond_is_def cond_is_open_def Let_def)

lemma sync_dequeue_first:
  assumes "cond_is s key (x # xs)" and "pids_ok s" and "v = open_conds s ! nat key"
  obtains t oc qs ns where "sync_dequeue False v s = Ret x t" and "cond_is t key xs"
    and "t = s\<lparr>superlock := UNLOCKED, occupied := oc, queues := qs, nodes := ns\<rparr>"
proof -
  note c = cond_isD [OF assms(1,3)]
  define u where "u = entered (cv_lock_queue v) s"
  have lock: "mutex_lock (cv_lock_queue v) s = Ret 1 u"
    using mutex_lock_free [OF c(4) assms(2)] by (simp add: u_def entered_def)
  have q: "is_queue u (cv_queue v) (x # xs)" using c(3) by (simp add: u_def)
  then obtain oc qs ns where
    deq: "dequeue (cv_queue v) u = Inr (x, u\<lparr>occupied := oc, queues := qs, nodes := ns\<rparr>)"
      "is_queue (u\<lparr>occupied := oc, queues := qs, nodes := ns\<rparr>) (cv_queue v) xs"
    by (rule dequeue_on)
  have "qs (mt_queue (open_mutexes s ! nat (cv_lock_queue v))) = queues s (mt_queue (open_mutexes s ! nat (cv_lock_queue v)))"
    using dequeue_others(1) [OF q deq(1) c(5)] by (simp add: u_def entered_def)
  note leave = leave_section [where qs = qs and oc = oc and ns = ns, OF c(4) u_def refl this]
  define t where "t = s\<lparr>superlock := UNLOCKED, occupied := oc, queues := qs, nodes := ns\<rparr>"
  have "sync_dequeue False v s = Ret x t"
    using lock kqueue.empty_test [OF q] deq(1) leave(1) by (simp add: sync_dequeue_def kbind_def kcall_def t_def)
  moreover have "is_queue t (cv_queue v) xs"
    by (rule is_queue_cong [THEN iffD2, OF _ _ _ deq(2)]) (simp_all add: t_def u_def entered_def)
  then have "cond_is t key xs"
    using leave(2) by (intro cond_is_later [OF assms(1,3)]) (simp_all add: t_def)
  ultimately show thesis using that t_def by blast
qed

lemma sync_dequeue_none:
  assumes "cond_is s key []" and "pids_ok s" and "v = open_conds s ! nat key"
  shows "sync_dequeue False v s = Ret NULL (s\<lparr>superlock := UNLOCKED\<rparr>)" and "cond_is (s\<lparr>superlock := UNLOCKED\<rparr>) key []"
proof -
  note c = cond_isD [OF assms(1,3)]
  define u where "u = entered (cv_lock_queue v) s"
  have lock: "mutex_lock (cv_lock_queue v) s = Ret 1 u"
    using mutex_lock_free [OF c(4) assms(2)] by (simp add: u_def entered_def)
  have e: "is_empty (cv_queue v) u = Inr (True, u)"
    using kqueue.empty_test [of u "cv_queue v" "[]"] c(3) by (simp add: u_def)
  have u: "u = u\<lparr>occupied := occupied u, queues := queues u, nodes := nodes u\<rparr>" by simp
  have "queues u (mt_queue (open_mutexes s ! nat (cv_lock_queue v))) = queues s (mt_queue (open_mutexes s ! nat (cv_lock_queue v)))"
    by (simp add: u_def entered_def)
  note leave = leave_section [OF c(4) u_def u this]
  have "mutex_unlock False (cv_lock_queue v) u = Inr (1, s\<lparr>superlock := UNLOCKED\<rparr>)"
    using leave(1) by (simp add: u_def entered_def)
  then show "sync_dequeue False v s = Ret NULL (s\<lparr>superlock := UNLOCKED\<rparr>)"
    using lock e by (simp add: sync_dequeue_def kbind_def kcall_def)
  show "cond_is (s\<lparr>superlock := UNLOCKED\<rparr>) key []"
    using leave(2) c(3) by (intro cond_is_later [OF assms(1,3)]) (simp_all add: u_def entered_def)
qed

lemma cond_is_procs [simp]: "cond_is (s\<lparr>procs := P\<rparr>) key xs \<longleftrightarrow> cond_is s key xs"
  by (simp add: cond_is_def cond_is_open_def Let_def mutex_is_def is_open_def)

lemma wake_process_effect:
  assumes "pids_ok s" and "procs s x = Some pr" and "in_state s (p_pid pr) st"
  obtains P where "wake_process x s = Inr ((), s\<lparr>procs := P\<rparr>)" and "pids_ok (s\<lparr>procs := P\<rparr>)"
    and "in_state (s\<lparr>procs := P\<rparr>) (p_pid pr) READY" and "running_pid (s\<lparr>procs := P\<rparr>) = running_pid s"
    and "\<And>p y. p \<noteq> p_pid pr \<Longrightarrow> in_state (s\<lparr>procs := P\<rparr>) p y \<longleftrightarrow> in_state s p y"
proof -
  obtain z where z: "changeProcessState (p_pid pr) READY s = Inr ((), z)" "z = s\<lparr>procs := procs z\<rparr>" "pids_ok z"
      "running_pid z = running_pid s" "\<And>p y. p \<noteq> p_pid pr \<Longrightarrow> in_state z p y \<longleftrightarrow> in_state s p y"
      "in_state z (p_pid pr) READY"
    using changeProcessState_effect [OF assms(1), of "p_pid pr" READY] assms(3) by metis
  obtain P where P: "z = s\<lparr>procs := P\<rparr>" using z(2) by (rule that)
  show thesis by (rule that [of P]) (use z assms(2) P in \<open>simp_all add: wake_process_def\<close>)
qed

lemma sync_enqueue_last:
  assumes "cond_is s key xs" and "pids_ok s" and "v = open_conds s ! nat key" and "queue_space (cv_queue v) s"
  obtains t oc qs ns where "sync_enqueue False v a s = Ret () t" and "cond_is t key (xs @ [a])"
    and "t = s\<lparr>superlock := UNLOCKED, occupied := oc, queues := qs, nodes := ns\<rparr>"
    and "\<And>q'. q' \<noteq> cv_queue v \<Longrightarrow> qs q' = queues s q'"
proof -
  note c = cond_isD [OF assms(1,3)]
  define u where "u = entered (cv_lock_queue v) s"
  have lock: "mutex_lock (cv_lock_queue v) s = Ret 1 u"
    using mutex_lock_free [OF c(4) assms(2)] by (simp add: u_def entered_def)
  have q: "is_queue u (cv_queue v) xs" using c(3) by (simp add: u_def)
  have "queue_space (cv_queue v) u" by (rule queue_space_cong [OF _ _ _ _ _ _ assms(4)]) (simp_all add: u_def entered_def)
  from enqueue_on [OF q this] obtain oc qs ns where
    enq: "enqueue (cv_queue v) a u = Inr ((), u\<lparr>occupied := oc, queues := qs, nodes := ns\<rparr>)"
      "is_queue (u\<lparr>occupied := oc, queues := qs, nodes := ns\<rparr>) (cv_queue v) (xs @ [a])" .
  have others: "qs q' = queues s q'" if "q' \<noteq> cv_queue v" for q'
    using enqueue_other [OF enq(1) that] by (simp add: u_def entered_def)
  note leave = leave_section [where qs = qs and oc = oc and ns = ns, OF c(4) u_def refl others [OF c(5)]]
  define t where "t = s\<lparr>superlock := UNLOCKED, occupied := oc, queues := qs, nodes := ns\<rparr>"
  have "sync_enqueue False v a s = Ret () t"
    using lock enq(1) leave(1) by (simp add: sync_enqueue_def kbind_def kcall_def t_def)
  moreover have "is_queue t (cv_queue v) (xs @ [a])"
    by (rule is_queue_cong [THEN iffD2, OF _ _ _ enq(2)]) (simp_all add: t_def u_def entered_def)
  then have "cond_is t key (xs @ [a])"
    using leave(2) by (intro cond_is_later [OF assms(1,3)]) (simp_all add: t_def)
  ultimately show thesis using that t_def others by blast
qed

lemma same_sched_sections:
  "same_sched s (s\<lparr>superlock := l, occupied := oc, queues := qs, nodes := ns\<rparr>)"
  by (simp add: same_sched_def)

lemmas sched_sections = same_sched_facts [OF same_sched_sections]

section \<open>Properties\<close>

definition demo_conds :: conds where
  "demo_conds = mapi.extend (demo_mapi\<lparr>queues := (queues demo_mapi)(0x1030000 \<mapsto> \<lparr>q_first = NULL, q_last = NULL\<rparr>,
         0x1040000 \<mapsto> \<lparr>q_first = NULL, q_last = NULL\<rparr>),
       open_mutexes := [\<lparr>mt_name = ''0__COND_ARRAY_LOCK__'', mt_locked = UNLOCKED, mt_state = OPEN, mt_queue = 0x1030000\<rparr>,
         \<lparr>mt_name = ''m'', mt_locked = LOCKED, mt_state = OPEN, mt_queue = 0x1040000\<rparr>]
         @ replicate 126 (demo_entry\<lparr>mt_state := CLOSED\<rparr>)\<rparr>)
     \<lparr>open_conds = \<lparr>cv_name = ''c'', cv_state = OPEN, cv_lock_queue = 0, cv_queue = 0x1020000\<rparr>
        # replicate 127 \<lparr>cv_name = [], cv_state = CLOSED, cv_lock_queue = 0, cv_queue = NULL\<rparr>, array_lock = 0\<rparr>"

lemma demo_conds_fields:
  "occupied demo_conds = occupied demo_mapi" "base demo_conds = base demo_mapi" "heapLevel demo_conds = heapLevel demo_mapi"
  "baseMemory demo_conds = 0x1000000" "nodes demo_conds = nodes demo_mapi"
  "queues demo_conds = (queues demo_mapi)(0x1030000 \<mapsto> \<lparr>q_first = NULL, q_last = NULL\<rparr>,
     0x1040000 \<mapsto> \<lparr>q_first = NULL, q_last = NULL\<rparr>)"
  "open_mutexes demo_conds = [\<lparr>mt_name = ''0__COND_ARRAY_LOCK__'', mt_locked = UNLOCKED, mt_state = OPEN, mt_queue = 0x1030000\<rparr>,
     \<lparr>mt_name = ''m'', mt_locked = LOCKED, mt_state = OPEN, mt_queue = 0x1040000\<rparr>] @ replicate 126 (demo_entry\<lparr>mt_state := CLOSED\<rparr>)"
  "open_conds demo_conds = \<lparr>cv_name = ''c'', cv_state = OPEN, cv_lock_queue = 0, cv_queue = 0x1020000\<rparr>
     # replicate 127 \<lparr>cv_name = [], cv_state = CLOSED, cv_lock_queue = 0, cv_queue = NULL\<rparr>"
  "array_mutex demo_conds = UNLOCKED"
  "slots demo_conds = slots demo_sched" "procs demo_conds = procs demo_sched" "current demo_conds = current demo_sched"
  "cardinal_processes demo_conds = cardinal_processes demo_sched"
  using demo_mapi_fields by (simp_all add: demo_conds_def mapi.defs)

lemma demo_conds_sched: "same_sched demo_sched demo_conds"
  by (simp add: same_sched_def demo_conds_fields)

lemmas demo_conds_facts = pids_ok_demo [folded same_sched_facts(2,4) [OF demo_conds_sched]]

lemma demo_conds_cond: "cond_is demo_conds 0 [0x1004000]"
proof -
  have "queue_of demo_conds 0x1020000 [0x1010000] [0x1004000]"
    by (simp add: queue_of_def demo_conds_fields demo_mapi_fields managed_def)
  then have "is_queue demo_conds 0x1020000 [0x1004000]" by (auto simp: is_queue_def)
  moreover have "is_queue demo_conds 0x1030000 []"
    by (simp add: is_queue_Nil_iff demo_conds_fields)
  ultimately show ?thesis by (simp add: cond_is_def cond_is_open_def mutex_is_def is_open_def demo_conds_fields)
qed

lemma demo_conds_procs:
  "procs demo_conds 0x1004000 = Some (demo_process 1 BLOCKED 0x1007000)"
  "getCurrentProcess demo_conds = Inr (0x1003000, demo_conds)" "in_state demo_conds 1 BLOCKED"
proof -
  show "procs demo_conds 0x1004000 = Some (demo_process 1 BLOCKED 0x1007000)"
    by (simp add: demo_conds_fields demo_sched_def)
  show "getCurrentProcess demo_conds = Inr (0x1003000, demo_conds)"
    by (simp add: getCurrentProcess_def demo_conds_fields demo_sched_def)
  have "in_state demo_sched 1 BLOCKED"
    unfolding in_state_ring [OF ring_demo] by (simp add: demo_entries_def demo_process_def view_def)
  then show "in_state demo_conds 1 BLOCKED" by (simp add: same_sched_facts(3) [OF demo_conds_sched])
qed

text \<open>C21. \<open>cond_signal\<close> wakes the process that has waited longest and no other; with nobody waiting it
  changes no process.  It returns without a context switch, and the lock of the queue is free again.\<close>

theorem cond_signal_wakes_first:
  assumes "cond_is s key xs" and "pids_ok s"
    and "xs \<noteq> [] \<Longrightarrow> hd xs \<noteq> NULL \<and> procs s (hd xs) = Some pr \<and> in_state s (p_pid pr) st"
  shows "\<exists>t. cond_signal False key s = Ret 1 t \<and> cond_is t key (tl xs) \<and>
    (if xs = [] then in_state t = in_state s
     else in_state t (p_pid pr) READY \<and> (\<forall>p y. p \<noteq> p_pid pr \<longrightarrow> in_state t p y = in_state s p y))"
proof (cases xs)
  case Nil
  then have c: "cond_is s key []" using assms(1) by simp
  note d = sync_dequeue_none [OF c assms(2) refl]
  have "cond_signal False key s = Ret 1 (s\<lparr>superlock := UNLOCKED\<rparr>)"
    using cond_isD(1,2) [OF c refl] d(1) by (simp add: cond_signal_def kbind_def kcall_def)
  then show ?thesis using d(2) Nil by simp
next
  case (Cons x ys)
  then have x: "x \<noteq> NULL" "procs s x = Some pr" "in_state s (p_pid pr) st" using assms(3) by simp_all
  have c: "cond_is s key (x # ys)" using assms(1) Cons by simp
  obtain t oc qs ns where t: "sync_dequeue False (open_conds s ! nat key) s = Ret x t" "cond_is t key ys"
      and tf: "t = s\<lparr>superlock := UNLOCKED, occupied := oc, queues := qs, nodes := ns\<rparr>"
    using sync_dequeue_first [OF c assms(2) refl] by metis
  have pt: "pids_ok t" "procs t x = Some pr" "in_state t = in_state s"
    using assms(2) x(2) by (simp_all add: tf sched_sections)
  obtain P where P: "wake_process x t = Inr ((), t\<lparr>procs := P\<rparr>)" "in_state (t\<lparr>procs := P\<rparr>) (p_pid pr) READY"
      "\<And>p y. p \<noteq> p_pid pr \<Longrightarrow> in_state (t\<lparr>procs := P\<rparr>) p y \<longleftrightarrow> in_state s p y"
    using wake_process_effect [OF pt(1,2), of st] x(3) pt(3) by metis
  have "cond_signal False key s = Ret 1 (t\<lparr>procs := P\<rparr>)"
    using cond_isD(1,2) [OF c refl] t(1) P(1) x(1) by (simp add: cond_signal_def kbind_def kcall_def)
  then show ?thesis using t(2) P(2,3) Cons by (intro exI [of _ "t\<lparr>procs := P\<rparr>"]) simp
qed

theorem cond_signal_wakes_first_witness:
  "\<exists>t. cond_signal False 0 demo_conds = Ret 1 t \<and> cond_is t 0 [] \<and> in_state t 1 READY"
  using cond_signal_wakes_first [OF demo_conds_cond demo_conds_facts(1), of "demo_process 1 BLOCKED 0x1007000" BLOCKED]
    demo_conds_procs by (auto simp: demo_process_def)

text \<open>\<open>cond_wait\<close> after it has released the user's mutex, which left the state \<open>u\<close>.\<close>

lemma cond_wait_rest:
  assumes "cond_is s ck xs" and "v = open_conds s ! nat ck" and "getCurrentProcess s = Inr (a, s)"
    and "mutex_unlock False mk s = Inr (1, u)" and "cond_is u ck xs" and "pids_ok u" and "queue_space (cv_queue v) u"
    and "slots u = slots s" "current u = current s" "open_conds u = open_conds s" "running_pid u = running_pid s"
  obtains z where "cond_wait False ck mk s = bindr (yield z) (\<lambda>_. kbind (mutex_lock mk) (\<lambda>_. kreturn 1))"
    and "cond_is z ck (xs @ [a])" and "in_state z (running_pid s) BLOCKED" and "open_mutexes z = open_mutexes u"
    and "baseMemory z = baseMemory u" and "\<And>q'. q' \<noteq> cv_queue v \<Longrightarrow> queues z q' = queues u q'"
    and "\<And>p y. p \<noteq> running_pid s \<Longrightarrow> in_state z p y = in_state u p y"
proof -
  note c = cond_isD [OF assms(1,2)]
  have vu: "v = open_conds u ! nat ck" using assms(2,10) by simp
  from sync_enqueue_last [OF assms(5,6) vu assms(7), of a] obtain w oc qs ns where
    enq: "sync_enqueue False v a u = Ret () w" "cond_is w ck (xs @ [a])"
      and w: "w = u\<lparr>superlock := UNLOCKED, occupied := oc, queues := qs, nodes := ns\<rparr>"
      and others: "\<And>q'. q' \<noteq> cv_queue v \<Longrightarrow> qs q' = queues u q'"
    by metis
  have pw: "pids_ok w" "running_pid w = running_pid s" "in_state w = in_state u"
    using assms(6,11) by (simp_all add: w sched_sections)
  obtain sl pr where cur: "slots u (current u) = Some sl" "procs u (slot_process sl) = Some pr" "p_pid pr = running_pid s"
    using current_process [OF assms(6)] assms(11) by metis
  have "slot_process sl = a" using assms(3,8,9) cur(1) by (simp add: getCurrentProcess_def)
  then have pr: "procs w a = Some pr" using cur(2) by (simp add: w)
  obtain z where z: "changeProcessState (running_pid s) BLOCKED w = Inr ((), z)" "z = w\<lparr>procs := procs z\<rparr>"
      "\<And>p x. p \<noteq> running_pid s \<Longrightarrow> in_state z p x \<longleftrightarrow> in_state u p x" "in_state z (running_pid s) BLOCKED"
    using changeProcessState_effect [OF pw(1), of "running_pid s" BLOCKED] running_in_state [OF assms(6)] assms(11) pw(3)
    by metis
  obtain P where P: "z = w\<lparr>procs := P\<rparr>" using z(2) by (rule that)
  show thesis
  proof (rule that)
    show "cond_wait False ck mk s = bindr (yield z) (\<lambda>_. kbind (mutex_lock mk) (\<lambda>_. kreturn 1))"
      using c(1,2) assms(3,4) enq(1) pr cur(3) z(1) by (simp add: cond_wait_def kbind_def kcall_def)
    show "cond_is z ck (xs @ [a])" using enq(2) by (simp add: P cond_is_def cond_is_open_def mutex_is_def is_open_def Let_def)
  qed (use z(3,4) others in \<open>simp_all add: P w\<close>)
qed

text \<open>The condition variable after the user's mutex has been released.\<close>

lemma cond_is_released:
  assumes "cond_is s ck xs" and "v = open_conds s ! nat ck" and "mk \<noteq> cv_lock_queue v" and "is_open s mk"
    and "open_conds u = open_conds s" "nodes u = nodes s" "baseMemory u = baseMemory s"
    and "queues u (cv_queue v) = queues s (cv_queue v)"
    and "queues u (mt_queue (open_mutexes s ! nat (cv_lock_queue v))) = queues s (mt_queue (open_mutexes s ! nat (cv_lock_queue v)))"
    and "open_mutexes u = open_mutexes s \<or> open_mutexes u = (open_mutexes s)[nat mk := m]"
  shows "cond_is u ck xs"
proof -
  note c = cond_isD [OF assms(1,2)]
  have same: "open_mutexes u ! nat (cv_lock_queue v) = open_mutexes s ! nat (cv_lock_queue v)"
      "length (open_mutexes u) = length (open_mutexes s)"
    using assms(3,4,10) c(4) by (auto simp: mutex_is_def is_open_def)
  have "is_queue u (cv_queue v) xs" using c(3) assms(6-8) by (simp add: is_queue_def queue_of_def)
  moreover have "mutex_is u (cv_lock_queue v) False []"
    using c(4) same assms(7,9) by (simp add: mutex_is_def is_open_def is_queue_Nil_iff)
  moreover have "cond_is_open u ck" "length (open_conds u) = MAX_COND_VAR"
    using assms(1,5) by (simp_all add: cond_is_def cond_is_open_def)
  ultimately show ?thesis using c(5) same(1) assms(2,5) by (auto simp: cond_is_def Let_def)
qed

text \<open>C20. \<open>cond_wait\<close> is atomic, whether other processes wait for the user's mutex or not: when it
  gives up the processor for the first time the caller is at the end of the queue of the condition
  variable and blocked, so that no signal can fall between, and the user's mutex is released: free
  when nobody waited for it, and otherwise still taken, on behalf of the first waiting process, which
  is ready.  Nobody else changes its state.  When the caller is scheduled again it locks the mutex
  before it returns.  Assumed: the user's mutex is taken, it is not the mutex of the condition
  variable, the three queues are different, the first process that waits for the mutex is another one
  than the caller and not DEAD, and the allocator has a page for the node of the queue.\<close>

theorem cond_wait_atomic:
  assumes "cond_is s ck xs" and "pids_ok s" and "mutex_is s mk True ys" and "getCurrentProcess s = Inr (a, s)"
    and "ys \<noteq> [] \<Longrightarrow> hd ys \<noteq> NULL \<and> procs s (hd ys) = Some pr \<and> p_state pr \<noteq> DEAD \<and>
      p_pid pr \<noteq> running_pid s \<and> in_state s (p_pid pr) st"
    and "v = open_conds s ! nat ck" and "\<And>u. mutex_unlock False mk s = Inr (1, u) \<Longrightarrow> queue_space (cv_queue v) u"
    and "mk \<noteq> cv_lock_queue v" and "mt_queue (open_mutexes s ! nat mk) \<noteq> cv_queue v"
    and "mt_queue (open_mutexes s ! nat mk) \<noteq> mt_queue (open_mutexes s ! nat (cv_lock_queue v))"
  shows "\<exists>t. cond_wait False ck mk s = bindr (yield t) (\<lambda>_. kbind (mutex_lock mk) (\<lambda>_. kreturn 1)) \<and>
    cond_is t ck (xs @ [a]) \<and> in_state t (running_pid s) BLOCKED \<and>
    (if ys = []
     then mutex_is t mk False [] \<and> (\<forall>p y. p \<noteq> running_pid s \<longrightarrow> in_state t p y = in_state s p y)
     else mt_locked (open_mutexes t ! nat mk) = LOCKED \<and> in_state t (p_pid pr) READY \<and>
       (\<forall>p y. p \<noteq> running_pid s \<and> p \<noteq> p_pid pr \<longrightarrow> in_state t p y = in_state s p y))"
proof (cases ys)
  case Nil
  define u where "u = s\<lparr>superlock := UNLOCKED,
    open_mutexes := (open_mutexes s)[nat mk := (open_mutexes s ! nat mk)\<lparr>mt_locked := UNLOCKED\<rparr>]\<rparr>"
  have m: "mutex_is s mk True []" using assms(3) Nil by simp
  have unlock: "mutex_unlock False mk s = Inr (1, u)" using mutex_unlock_nobody [OF m] by (simp add: u_def)
  have mu: "mutex_is u mk False []" using mutex_is_update [OF m, where v = UNLOCKED and l' = False] by (simp add: u_def)
  have "is_open s mk" using assms(3) by (simp add: mutex_is_def)
  then have cu: "cond_is u ck xs"
    by (rule cond_is_released [OF assms(1,6,8), where m = "(open_mutexes s ! nat mk)\<lparr>mt_locked := UNLOCKED\<rparr>"])
      (simp_all add: u_def)
  have pu: "pids_ok u" "running_pid u = running_pid s" "in_state u = in_state s" using assms(2) by (simp_all add: u_def)
  obtain z where z: "cond_wait False ck mk s = bindr (yield z) (\<lambda>_. kbind (mutex_lock mk) (\<lambda>_. kreturn 1))"
      "cond_is z ck (xs @ [a])" "in_state z (running_pid s) BLOCKED" "open_mutexes z = open_mutexes u"
      "baseMemory z = baseMemory u" "\<And>q'. q' \<noteq> cv_queue v \<Longrightarrow> queues z q' = queues u q'"
      "\<And>p y. p \<noteq> running_pid s \<Longrightarrow> in_state z p y = in_state u p y"
    by (rule cond_wait_rest [OF assms(1,6,4) unlock cu pu(1) assms(7) [OF unlock]]) (simp_all add: pu(2), simp_all add: u_def)
  have "mt_queue (open_mutexes u ! nat mk) \<noteq> cv_queue v"
    using m assms(9) by (auto simp: mutex_is_def is_open_def u_def)
  from z(6) [OF this] mu have "mutex_is z mk False []"
    by (simp add: mutex_is_def is_open_def is_queue_Nil_iff z(4,5))
  then show ?thesis using z(1-3,7) pu(3) Nil by auto
next
  case (Cons x ys')
  then have x: "x \<noteq> NULL" "procs s x = Some pr" "p_state pr \<noteq> DEAD" "in_state s (p_pid pr) st"
      and other: "p_pid pr \<noteq> running_pid s"
    using assms(5) by simp_all
  have m: "mutex_is s mk True (x # ys')" using assms(3) Cons by simp
  obtain u where unlock: "mutex_unlock False mk s = Inr (1, u)" and mu: "mutex_is u mk True ys'"
      and pu: "pids_ok u" "in_state u (p_pid pr) READY" "running_pid u = running_pid s"
      and iu: "\<And>p y. p \<noteq> p_pid pr \<Longrightarrow> in_state u p y \<longleftrightarrow> in_state s p y"
      and fu: "\<exists>oc qs P. u = s\<lparr>superlock := UNLOCKED, occupied := oc, queues := qs, procs := P\<rparr> \<and>
        dequeue (mt_queue (open_mutexes s ! nat mk)) (s\<lparr>superlock := LOCKED\<rparr>) =
          Inr (x, s\<lparr>superlock := LOCKED, occupied := oc, queues := qs\<rparr>)"
    using mutex_unlock_first [OF m assms(2) x, of False] by metis
  obtain oc qs P where u: "u = s\<lparr>superlock := UNLOCKED, occupied := oc, queues := qs, procs := P\<rparr>"
      and deq: "dequeue (mt_queue (open_mutexes s ! nat mk)) (s\<lparr>superlock := LOCKED\<rparr>) =
        Inr (x, s\<lparr>superlock := LOCKED, occupied := oc, queues := qs\<rparr>)"
    using fu by blast
  have "is_queue (s\<lparr>superlock := LOCKED\<rparr>) (mt_queue (open_mutexes s ! nat mk)) (x # ys')"
    using m by (simp add: mutex_is_def)
  note qs = dequeue_others(1) [OF this deq, simplified]
  have "is_open s mk" using assms(3) by (simp add: mutex_is_def)
  then have cu: "cond_is u ck xs"
    by (rule cond_is_released [OF assms(1,6,8)]) (use qs assms(9,10) in \<open>simp_all add: u\<close>)
  obtain z where z: "cond_wait False ck mk s = bindr (yield z) (\<lambda>_. kbind (mutex_lock mk) (\<lambda>_. kreturn 1))"
      "cond_is z ck (xs @ [a])" "in_state z (running_pid s) BLOCKED" "open_mutexes z = open_mutexes u"
      "\<And>p y. p \<noteq> running_pid s \<Longrightarrow> in_state z p y = in_state u p y"
    by (rule cond_wait_rest [OF assms(1,6,4) unlock cu pu(1) assms(7) [OF unlock]]) (simp_all add: pu(3), simp_all add: u)
  have "mt_locked (open_mutexes z ! nat mk) = LOCKED" using mu by (simp add: z(4) mutex_is_def)
  moreover have "in_state z (p_pid pr) READY" using z(5) other pu(2) by simp
  moreover have "in_state z p y = in_state s p y" if "p \<noteq> running_pid s \<and> p \<noteq> p_pid pr" for p y
    using z(5) iu that by simp
  ultimately show ?thesis using z(1-3) Cons by (intro exI [of _ z]) simp
qed

text \<open>A state in which process 1 waits for the user's mutex and nobody for the condition variable.\<close>

definition demo_waited :: conds where
  "demo_waited = demo_conds
     \<lparr>open_mutexes := (open_mutexes demo_conds)[1 := (open_mutexes demo_conds ! 1)\<lparr>mt_queue := 0x1020000\<rparr>],
      open_conds := (open_conds demo_conds)[0 := (open_conds demo_conds ! 0)\<lparr>cv_queue := 0x1040000\<rparr>]\<rparr>"

lemma demo_waited_cond: "cond_is demo_waited 0 []"
proof -
  have "is_queue demo_waited 0x1030000 []" "is_queue demo_waited 0x1040000 []"
    by (simp_all add: is_queue_Nil_iff demo_waited_def demo_conds_fields)
  then show ?thesis
    by (simp add: cond_is_def cond_is_open_def mutex_is_def is_open_def demo_waited_def demo_conds_fields)
qed

lemma demo_waited_user: "mutex_is demo_waited 1 True [0x1004000]"
proof -
  have "queue_of demo_waited 0x1020000 [0x1010000] [0x1004000]"
    by (simp add: queue_of_def demo_waited_def demo_conds_fields demo_mapi_fields managed_def)
  then have "is_queue demo_waited 0x1020000 [0x1004000]" by (auto simp: is_queue_def)
  then show ?thesis by (simp add: mutex_is_def is_open_def demo_waited_def demo_conds_fields)
qed

lemma demo_waited_sched: "same_sched demo_conds demo_waited"
  by (simp add: same_sched_def demo_waited_def)

lemmas demo_waited_facts = demo_conds_facts [folded same_sched_facts(2,4) [OF demo_waited_sched]]

text \<open>All the pages of that state are free, and stay so when the node of the queue is given back.\<close>

lemma freeUp_empty:
  assumes "\<forall>m. 1 \<le> m \<longrightarrow> m \<le> HEAPSIZE \<longrightarrow> occ s m = EMPTY" and "1 \<le> i" and "i \<le> HEAPSIZE"
  shows "freeUpRecursive i s = Inr s"
  using assms(2,3)
proof (induction i rule: less_induct)
  case (less i)
  show ?case
  proof (cases "i = 1")
    case False
    then have i: "2 \<le> i" using less.prems by simp
    then have "occ s (PARENT i) = EMPTY" using assms(1) less.prems by simp
    then have "freeUp_node i s = s" by (simp add: freeUp_node_def)
    then show ?thesis using less.IH [of "i div 2"] i less.prems by (simp add: freeUpRecursive_step)
  qed simp
qed

lemma demo_waited_empty:
  assumes "occupied s = occupied demo_waited" and "baseMemory s = 0x1000000"
  shows "deallocPage 0x1010000 s = Inr (0, s)"
proof -
  have occ: "occ s m = EMPTY" if "1 \<le> m" "m \<le> HEAPSIZE" for m
    using occ_createHeap [OF arrays_sized_bss that] assms(1)
    by (simp add: occ_def demo_waited_def demo_conds_fields demo_mapi_fields)
  have "(occupied s)[1039 := EMPTY] = occupied s"
    using occ [of 1040] list_update_id [of "occupied s" 1039] by (simp add: occ_def)
  then have "set_occ 1040 EMPTY s = s" by (simp add: set_occ_def)
  then show ?thesis using freeUp_empty [of s 1040] occ assms(2) by (simp add: deallocPage_def isValid_def)
qed

lemma demo_waited_dequeue:
  "dequeue 0x1020000 (demo_waited\<lparr>superlock := LOCKED\<rparr>) = Inr (0x1004000, demo_waited\<lparr>superlock := LOCKED,
     queues := (queues demo_waited)(0x1020000 \<mapsto> \<lparr>q_first = NULL, q_last = NULL\<rparr>)\<rparr>)"
proof -
  let ?s = "demo_waited\<lparr>superlock := LOCKED, queues := (queues demo_waited)(0x1020000 \<mapsto> \<lparr>q_first = NULL, q_last = NULL\<rparr>)\<rparr>"
  have "deallocPage 0x1010000 ?s = Inr (0, ?s)"
    by (rule demo_waited_empty) (simp_all add: demo_waited_def demo_conds_fields)
  then show ?thesis
    by (simp add: dequeue_def ebind_def is_empty_def deref_def demo_waited_def demo_conds_fields demo_mapi_fields put_queue_def)
qed

lemma demo_waited_procs:
  "procs demo_waited 0x1004000 = Some (demo_process 1 BLOCKED 0x1007000)"
  "getCurrentProcess demo_waited = Inr (0x1003000, demo_waited)" "in_state demo_waited 1 BLOCKED"
  using demo_conds_procs(3) same_sched_facts(3) [OF demo_waited_sched]
  by (simp_all add: demo_waited_def demo_conds_fields demo_sched_def getCurrentProcess_def)

lemma demo_waited_space:
  assumes "mutex_unlock False 1 demo_waited = Inr (1, u)"
  shows "queue_space 0x1040000 u"
proof -
  obtain w where w: "mutex_unlock False 1 demo_waited = Inr (1, w)" and
    f: "\<exists>oc qs P. w = demo_waited\<lparr>superlock := UNLOCKED, occupied := oc, queues := qs, procs := P\<rparr> \<and>
      dequeue (mt_queue (open_mutexes demo_waited ! nat 1)) (demo_waited\<lparr>superlock := LOCKED\<rparr>) =
        Inr (0x1004000, demo_waited\<lparr>superlock := LOCKED, occupied := oc, queues := qs\<rparr>)"
    by (rule mutex_unlock_first [OF demo_waited_user demo_waited_facts(1) _ demo_waited_procs(1), of BLOCKED False])
      (use demo_waited_procs(3) in \<open>simp_all add: demo_process_def\<close>)
  have "mt_queue (open_mutexes demo_waited ! nat 1) = 0x1020000"
    by (simp add: demo_waited_def demo_conds_fields)
  then obtain oc qs P where e: "w = demo_waited\<lparr>superlock := UNLOCKED, occupied := oc, queues := qs, procs := P\<rparr>"
      and d: "dequeue 0x1020000 (demo_waited\<lparr>superlock := LOCKED\<rparr>) =
        Inr (0x1004000, demo_waited\<lparr>superlock := LOCKED, occupied := oc, queues := qs\<rparr>)"
    using f by auto
  let ?t = "demo_waited\<lparr>superlock := LOCKED, queues := (queues demo_waited)(0x1020000 \<mapsto> \<lparr>q_first = NULL, q_last = NULL\<rparr>)\<rparr>"
  have "demo_waited\<lparr>superlock := LOCKED, occupied := oc, queues := qs\<rparr> = ?t"
    using d demo_waited_dequeue by simp
  from arg_cong [OF this, of occupied] arg_cong [OF this, of queues]
  have o: "occupied w = occupied demo_waited" "base w = base demo_waited" "heapLevel w = heapLevel demo_waited"
    and q: "queues w 0x1040000 = queues demo_waited 0x1040000"
    by (simp_all add: e)
  have wu: "u = w" using assms w by simp
  have ns: "ns = []" if "queue_of u 0x1040000 ns xs" for ns xs
    using that q by (cases ns) (auto simp: queue_of_def wu demo_waited_def demo_conds_fields)
  obtain t where "allocPage 16 demo_queue = Inr (0x1000000, t)" using demo_queue_alloc by blast
  then have "allocPage 16 u = Inr (0x1000000, u\<lparr>occupied := occupied t\<rparr>)"
    by (rule allocPage_indep [rotated -1])
      (simp_all add: wu o demo_waited_def demo_conds_fields demo_mapi_fields demo_queue_fields)
  then have "room u 0x1040000 []" by (simp add: room_def managed_def)
  then show ?thesis using ns unfolding queue_space_def by blast
qed

text \<open>The witness has a process in the queue of the mutex, so that the mutex is handed over.\<close>

theorem cond_wait_atomic_witness:
  "\<exists>t. cond_wait False 0 1 demo_waited = bindr (yield t) (\<lambda>_. kbind (mutex_lock 1) (\<lambda>_. kreturn 1)) \<and>
    cond_is t 0 [0x1003000] \<and> in_state t 0 BLOCKED \<and> in_state t 1 READY \<and> mt_locked (open_mutexes t ! 1) = LOCKED"
proof -
  have running: "running_pid demo_waited = 0" using demo_waited_facts(2) by simp
  have fields: "cv_queue (open_conds demo_waited ! nat 0) = 0x1040000" "cv_lock_queue (open_conds demo_waited ! nat 0) = 0"
      "mt_queue (open_mutexes demo_waited ! nat 1) = 0x1020000" "mt_queue (open_mutexes demo_waited ! nat 0) = 0x1030000"
    by (simp_all add: demo_waited_def demo_conds_fields)
  have "\<exists>t. cond_wait False 0 1 demo_waited = bindr (yield t) (\<lambda>_. kbind (mutex_lock 1) (\<lambda>_. kreturn 1)) \<and>
    cond_is t 0 ([] @ [0x1003000]) \<and> in_state t (running_pid demo_waited) BLOCKED \<and>
    (if [0x1004000 :: addr] = []
     then mutex_is t 1 False [] \<and> (\<forall>p y. p \<noteq> running_pid demo_waited \<longrightarrow> in_state t p y = in_state demo_waited p y)
     else mt_locked (open_mutexes t ! nat 1) = LOCKED \<and> in_state t (p_pid (demo_process 1 BLOCKED 0x1007000)) READY \<and>
       (\<forall>p y. p \<noteq> running_pid demo_waited \<and> p \<noteq> p_pid (demo_process 1 BLOCKED 0x1007000) \<longrightarrow>
         in_state t p y = in_state demo_waited p y))"
    by (rule cond_wait_atomic [OF demo_waited_cond demo_waited_facts(1) demo_waited_user demo_waited_procs(2) _ refl, where st = BLOCKED])
      (unfold fields running, use demo_waited_procs(1,3) demo_waited_space in \<open>simp_all add: demo_process_def\<close>)
  then show ?thesis unfolding running by (auto simp: demo_process_def)
qed

lemma broadcast_nobody: "is_queue s q [] \<Longrightarrow> loop_outcome (broadcast_loop q) s = Inr ((), s)"
  using kqueue.empty_test [of s q "[]"] by (subst loop_outcome_def, subst broadcast_loop.simps) simp

text \<open>\<open>cond_close\<close> cannot close a condition variable properly even when nobody waits: it closes the
  mutex of the queue, which nobody waits for either, and \<open>mutex_close\<close> then uses \<open>p\<close> without a value.\<close>

theorem cond_close_undefined:
  assumes "cond_is s key []" and "pids_ok s" and "array_mutex s = UNLOCKED" and "cv_queue (open_conds s ! nat key) \<in> managed"
  shows "cond_close (Suc n) False key s = Undef Uninitialised"
proof -
  define v where "v = open_conds s ! nat key"
  note c = cond_isD [OF assms(1) v_def]
  define u where "u = entered (cv_lock_queue v) s"
  have lock: "mutex_lock (cv_lock_queue v) s = Ret 1 u"
    using mutex_lock_free [OF c(4) assms(2)] by (simp add: u_def entered_def)
  have "is_queue u (cv_queue v) []" using c(3) by (simp add: u_def)
  note loop = broadcast_nobody [OF this]
  have u: "u = u\<lparr>occupied := occupied u, queues := queues u, nodes := nodes u\<rparr>" by simp
  have "queues u (mt_queue (open_mutexes s ! nat (cv_lock_queue v))) = queues s (mt_queue (open_mutexes s ! nat (cv_lock_queue v)))"
    by (simp add: u_def entered_def)
  note leave = leave_section [OF c(4) u_def u this]
  define w where "w = s\<lparr>superlock := UNLOCKED\<rparr>"
  have "mutex_unlock False (cv_lock_queue v) u = Inr (1, w)"
    using leave(1) by (simp add: u_def entered_def w_def)
  then have bc: "cond_broadcast False key s = Ret 1 w"
    using c(1,2) lock loop by (simp add: cond_broadcast_def kbind_def kcall_def)
  have "is_queue w (cv_queue v) []" using c(3) by (simp add: w_def)
  then obtain x where x: "destroy_queue (cv_queue v) w = Inr ((), x)" "same_but_occupied w x"
    using destroy_empty assms(4) unfolding v_def by blast
  obtain oc where oc: "x = w\<lparr>occupied := oc\<rparr>" using same_but_occupied_eq [OF x(2)] by (rule that)
  have "mutex_is x (cv_lock_queue v) False []"
    using c(4) by (simp add: mutex_is_def is_open_def is_queue_Nil_iff oc w_def)
  then have "mutex_close (Suc n) (cv_lock_queue v) x = Undef Uninitialised"
    by (rule mutex_close_empty) (simp add: oc w_def assms(3))
  moreover have "cond_at key w = Inr (v, w)" using c(2) by (simp add: cond_at_def w_def v_def split: if_splits)
  ultimately show ?thesis
    using c(1) bc x(1) by (simp add: cond_close_def kbind_def kcall_def)
qed

lemma demo_conds_signalled:
  "\<exists>t :: conds. cond_is t 0 [] \<and> pids_ok t \<and> array_mutex t = UNLOCKED \<and> cv_queue (open_conds t ! nat 0) \<in> managed"
proof -
  obtain t oc qs ns where t: "cond_is t 0 []"
      "t = demo_conds\<lparr>superlock := UNLOCKED, occupied := oc, queues := qs, nodes := ns\<rparr>"
    by (rule sync_dequeue_first [OF demo_conds_cond demo_conds_facts(1) refl])
  then show ?thesis
    using demo_conds_facts(1) by (intro exI [of _ t]) (simp add: sched_sections demo_conds_fields managed_def)
qed

theorem cond_close_undefined_witness: "\<exists>s. cond_is (s :: conds) 0 [] \<and> cond_close 1 False 0 s = Undef Uninitialised"
proof -
  obtain t :: conds where "cond_is t 0 []" "pids_ok t" "array_mutex t = UNLOCKED" "cv_queue (open_conds t ! nat 0) \<in> managed"
    using demo_conds_signalled by blast
  from cond_close_undefined [OF this, of 0] this(1) show ?thesis by (intro exI [of _ t]) simp
qed

end
