(* ===== verification/PageStacks.thy ===== *)
theory PageStacks
  imports CondVariable
begin

text \<open>
  The two page allocators of Kernel/memoryAllocator.c, one of 255 pages of 4 KiB for data, one of 128
  stacks of 1 MiB: arrays used as stacks, each guarded by a mutex of theory \<open>MutexApi\<close>.  The indices
  are machine words of 8 and 16 bits.  A key is -1 until its mutex is opened; locking -1 does nothing.

  The lemmas show that pages are handed out once each, that a page given back is the next one handed
  out, and what the allocator does when it has none left.
\<close>

section \<open>State\<close>

abbreviation (input) DATA_PAGE_SIZE :: int where
  "DATA_PAGE_SIZE \<equiv> 0x1000"

abbreviation (input) STACK_PAGE_SIZE :: int where
  "STACK_PAGE_SIZE \<equiv> 0x100000"

abbreviation (input) DATA_ADDRESS :: int where
  "DATA_ADDRESS \<equiv> 0x500000"

abbreviation (input) STACK_ADDRESS :: int where
  "STACK_ADDRESS \<equiv> 0x601000"        \<comment> \<open>\<open>MEMORY_PAGES_END + PAGE_SIZE\<close>\<close>

abbreviation (input) STACK_SIZE :: nat where
  "STACK_SIZE \<equiv> 255"                 \<comment> \<open>the largest \<open>page_index_t\<close>\<close>

abbreviation (input) MAX_PROCESSES :: nat where
  "MAX_PROCESSES \<equiv> 128"

record pstacks = conds +
  pages_stack :: "8 word list"
  current_index :: "8 word"
  memory_mutex_key :: int
  stack_memory_mutex_key :: int
  stack_pages_stack :: "64 word list"
  current_stack_index :: "16 word"

section \<open>Data pages\<close>

definition initialize_memory_allocator :: "('a pstacks_scheme, unit) eprog" where
  "initialize_memory_allocator s =
     Inr ((), s\<lparr>pages_stack := map (\<lambda>i. if i < STACK_SIZE - 1 then word_of_nat (i + 1) else pages_stack s ! i)
                 [0..<length (pages_stack s)]\<rparr>)"

definition initialize_memory_allocator_mutex :: "nat \<Rightarrow> ('a pstacks_scheme, unit) kprog" where
  "initialize_memory_allocator_mutex tries =
     kbind (mutex_open tries ''__MEMORY_MUTEX__'') (\<lambda>k. kmodify (\<lambda>s. s\<lparr>memory_mutex_key := k\<rparr>))"

definition lock_key :: "('a pstacks_scheme \<Rightarrow> int) \<Rightarrow> ('a pstacks_scheme, unit) kprog" where
  "lock_key key = kbind (kget key) (\<lambda>k. kbind (mutex_lock k) (\<lambda>_. kreturn ()))"

definition unlock_key :: "bool \<Rightarrow> ('a pstacks_scheme \<Rightarrow> int) \<Rightarrow> ('a pstacks_scheme, unit) kprog" where
  "unlock_key nul key = kbind (kget key) (\<lambda>k. kbind (kcall (mutex_unlock nul k)) (\<lambda>_. kreturn ()))"

text \<open>The parameter of \<open>get_page\<close>, a size, is ignored.\<close>

definition get_page :: "bool \<Rightarrow> ('a pstacks_scheme, 64 word) kprog" where
  "get_page nul =
     kbind (lock_key memory_mutex_key) (\<lambda>_.
     kbind (kget current_index) (\<lambda>i.
     if unat i < STACK_SIZE then
       kbind (kget (\<lambda>s. word_of_int (uint (pages_stack s ! unat i) * DATA_PAGE_SIZE + DATA_ADDRESS))) (\<lambda>page.
       kbind (kmodify (\<lambda>s. s\<lparr>current_index := i + 1\<rparr>)) (\<lambda>_.
       kbind (unlock_key nul memory_mutex_key) (\<lambda>_. kreturn page)))
     else kbind (lock_key memory_mutex_key) (\<lambda>_. kreturn 0)))"

definition store_page :: "bool \<Rightarrow> 64 word \<Rightarrow> ('a pstacks_scheme, 64 word) kprog" where
  "store_page nul address =
     kbind (lock_key memory_mutex_key) (\<lambda>_.
     kbind (kget current_index) (\<lambda>i.
     if 0 < i then
       kbind (kmodify (\<lambda>s. s\<lparr>current_index := i - 1,
         pages_stack := (pages_stack s)[unat (i - 1) := ucast ((address - word_of_int DATA_ADDRESS) div word_of_int DATA_PAGE_SIZE)]\<rparr>)) (\<lambda>_.
       kbind (unlock_key nul memory_mutex_key) (\<lambda>_. kreturn 1))
     else kbind (unlock_key nul memory_mutex_key) (\<lambda>_. kreturn 0)))"

section \<open>Stack pages\<close>

text \<open>A stack grows downwards, so the address is the end of its page.\<close>

definition initialize_stack_memory_allocator :: "('a pstacks_scheme, unit) eprog" where
  "initialize_stack_memory_allocator s =
     Inr ((), s\<lparr>stack_pages_stack := map (\<lambda>i. if i < MAX_PROCESSES
                  then word_of_int (int (i + 1) * STACK_PAGE_SIZE + STACK_ADDRESS) else stack_pages_stack s ! i)
                [0..<length (stack_pages_stack s)]\<rparr>)"

definition initialize_stack_memory_allocator_mutex :: "nat \<Rightarrow> ('a pstacks_scheme, unit) kprog" where
  "initialize_stack_memory_allocator_mutex tries =
     kbind (mutex_open tries ''__STACK_MEMORY_MUTEX__'') (\<lambda>k. kmodify (\<lambda>s. s\<lparr>stack_memory_mutex_key := k\<rparr>))"

definition get_stack_page :: "bool \<Rightarrow> ('a pstacks_scheme, 64 word) kprog" where
  "get_stack_page nul =
     kbind (lock_key stack_memory_mutex_key) (\<lambda>_.
     kbind (kget current_stack_index) (\<lambda>i.
     if unat i < MAX_PROCESSES then
       kbind (kget (\<lambda>s. stack_pages_stack s ! unat i)) (\<lambda>page.
       kbind (kmodify (\<lambda>s. s\<lparr>current_stack_index := i + 1\<rparr>)) (\<lambda>_.
       kbind (unlock_key nul stack_memory_mutex_key) (\<lambda>_. kreturn page)))
     else kbind (unlock_key nul stack_memory_mutex_key) (\<lambda>_. kreturn 0)))"

definition store_stack_page :: "bool \<Rightarrow> 64 word \<Rightarrow> ('a pstacks_scheme, 64 word) kprog" where
  "store_stack_page nul address =
     kbind (lock_key stack_memory_mutex_key) (\<lambda>_.
     kbind (kget current_stack_index) (\<lambda>i.
     if 0 < i then
       kbind (kmodify (\<lambda>s. s\<lparr>current_stack_index := i - 1,
         stack_pages_stack := (stack_pages_stack s)[unat (i - 1) := address]\<rparr>)) (\<lambda>_.
       kbind (unlock_key nul stack_memory_mutex_key) (\<lambda>_. kreturn 1))
     else kbind (unlock_key nul stack_memory_mutex_key) (\<lambda>_. kreturn 0)))"

section \<open>The data pages in order\<close>

lemma lock_key_free:
  assumes "mutex_is s (key s) False []" and "pids_ok s"
  shows "lock_key key s = Ret () (entered (key s) s)"
  using mutex_lock_free [OF assms] by (simp add: lock_key_def entered_def kbind_def)

text \<open>Leaving the section when the table of the mutexes is as on entering it.\<close>

lemma unlock_key_free:
  assumes "mutex_is s k False []" and "key t = k" and "open_mutexes t = open_mutexes (entered k s)"
    and "queues t = queues s" and "nodes t = nodes s" and "baseMemory t = baseMemory s"
  shows "unlock_key False key t = Ret () (t\<lparr>superlock := UNLOCKED, open_mutexes := open_mutexes s\<rparr>)"
    and "mutex_is (t\<lparr>superlock := UNLOCKED, open_mutexes := open_mutexes s\<rparr>) k False []"
proof -
  have k: "0 \<le> k" "k < 128" "is_open s k" "length (open_mutexes s) = 128" "mt_locked (open_mutexes s ! nat k) = 1"
      "is_queue s (mt_queue (open_mutexes s ! nat k)) []"
    using assms(1) by (simp_all add: mutex_is_def is_open_def)
  have q: "is_queue t (mt_queue (open_mutexes s ! nat k)) []"
    using k(6) by (simp add: is_queue_Nil_iff assms(4,6))
  have "mutex_is t k True []"
    using k q by (simp add: mutex_is_def is_open_def assms(3) entered_def)
  note unlock = mutex_unlock_nobody [OF this]
  have "(open_mutexes s ! nat k)\<lparr>mt_locked := UNLOCKED\<rparr> = open_mutexes s ! nat k"
    using k(5) by (cases "open_mutexes s ! nat k") simp
  then have "(open_mutexes t)[nat k := (open_mutexes t ! nat k)\<lparr>mt_locked := UNLOCKED\<rparr>] = open_mutexes s"
    using k(2,4) by (simp add: assms(3) entered_def list_update_same_conv)
  with unlock show "unlock_key False key t = Ret () (t\<lparr>superlock := UNLOCKED, open_mutexes := open_mutexes s\<rparr>)"
    by (simp add: unlock_key_def assms(2) kbind_def kcall_def)
  show "mutex_is (t\<lparr>superlock := UNLOCKED, open_mutexes := open_mutexes s\<rparr>) k False []"
    using k q by (simp add: mutex_is_def is_open_def)
qed

lemma get_page_next:
  assumes "mutex_is s (memory_mutex_key s) False []" and "pids_ok s" and "unat (current_index s) < STACK_SIZE"
  defines "t \<equiv> s\<lparr>superlock := UNLOCKED, current_index := current_index s + 1\<rparr>"
  shows "get_page False s = Ret (word_of_int (uint (pages_stack s ! unat (current_index s)) * DATA_PAGE_SIZE + DATA_ADDRESS)) t"
    and "mutex_is t (memory_mutex_key t) False []" and "pids_ok t"
proof -
  define k where "k = memory_mutex_key s"
  define u where "u = (entered k s)\<lparr>current_index := current_index s + 1\<rparr>"
  have "memory_mutex_key u = k" by (simp add: u_def k_def entered_def)
  moreover have "u\<lparr>superlock := UNLOCKED, open_mutexes := open_mutexes s\<rparr> = t" by (simp add: u_def t_def entered_def)
  ultimately have leave: "unlock_key False memory_mutex_key u = Ret () t" "mutex_is t k False []"
    using unlock_key_free [OF assms(1) [folded k_def], of memory_mutex_key u] by (simp_all add: u_def entered_def)
  have "current_index (entered k s) = current_index s" "pages_stack (entered k s) = pages_stack s"
    by (simp_all add: entered_def)
  then show "get_page False s = Ret (word_of_int (uint (pages_stack s ! unat (current_index s)) * DATA_PAGE_SIZE + DATA_ADDRESS)) t"
    using assms(3) lock_key_free [where key = memory_mutex_key, OF assms(1,2)] leave(1) by (simp add: get_page_def kbind_def u_def flip: k_def)
  show "mutex_is t (memory_mutex_key t) False []" using leave(2) by (simp add: t_def k_def)
  have "same_sched s t" by (simp add: same_sched_def t_def)
  then show "pids_ok t" using same_sched_facts(2) assms(2) by blast
qed

text \<open>A number of calls of \<open>get_page\<close> in a row, and the pages they return.\<close>

fun get_pages :: "nat \<Rightarrow> ('a pstacks_scheme, 64 word list) kprog" where
  "get_pages 0 = kreturn []"
| "get_pages (Suc n) = kbind (get_page False) (\<lambda>p. kbind (get_pages n) (\<lambda>ps. kreturn (p # ps)))"

definition page_address :: "8 word \<Rightarrow> 64 word" where
  "page_address i = word_of_int (uint i * DATA_PAGE_SIZE + DATA_ADDRESS)"

lemma unat_Suc_index: "unat i < 255 \<Longrightarrow> unat (i + 1) = Suc (unat i)" for i :: "8 word"
  by (simp add: unat_word_ariths)

lemma get_pages_run:
  assumes "mutex_is s (memory_mutex_key s) False []" and "pids_ok s" and "unat (current_index s) + n \<le> STACK_SIZE"
    and "length (pages_stack s) = STACK_SIZE"
  shows "\<exists>t. get_pages n s = Ret (map page_address (take n (drop (unat (current_index s)) (pages_stack s)))) t \<and>
    mutex_is t (memory_mutex_key t) False [] \<and> pids_ok t \<and> unat (current_index t) = unat (current_index s) + n \<and>
    pages_stack t = pages_stack s"
  using assms
proof (induction n arbitrary: s)
  case (Suc n)
  define t where "t = s\<lparr>superlock := UNLOCKED, current_index := current_index s + 1\<rparr>"
  have i: "unat (current_index s) < 255" using Suc.prems(3) by simp
  note step = get_page_next [OF Suc.prems(1,2) i, folded t_def]
  have t: "unat (current_index t) = Suc (unat (current_index s))" "pages_stack t = pages_stack s"
    using unat_Suc_index [OF i] by (simp_all add: t_def)
  from Suc.IH [OF step(2,3)] obtain u where u:
      "get_pages n t = Ret (map page_address (take n (drop (Suc (unat (current_index s))) (pages_stack s)))) u"
      "mutex_is u (memory_mutex_key u) False []" "pids_ok u" "unat (current_index u) = unat (current_index s) + Suc n"
      "pages_stack u = pages_stack s"
    using Suc.prems(3,4) t by auto
  have "drop (unat (current_index s)) (pages_stack s) =
      pages_stack s ! unat (current_index s) # drop (Suc (unat (current_index s))) (pages_stack s)"
    using i Suc.prems(4) by (simp add: Cons_nth_drop_Suc)
  then show ?case using step(1) u by (simp add: kbind_def page_address_def)
qed simp

lemma uint_page_address: "uint (page_address i) = uint i * 4096 + 0x500000"
proof -
  have "uint i < 256" "0 \<le> uint i" using uint_bounded [of i] by simp_all
  then show ?thesis unfolding page_address_def by (subst uint_word_of_int) simp
qed

lemma page_address_inj: "inj page_address"
proof (rule injI)
  fix i j assume "page_address i = page_address j"
  then have "uint i * 4096 + 0x500000 = uint j * 4096 + 0x500000" by (metis uint_page_address)
  then show "i = j" by (simp add: word_uint_eq_iff)
qed

text \<open>What the boot leaves: the pages 1 to 254 in order, and the page 0, which nobody stored, last.\<close>

definition fresh_pages :: "8 word list" where
  "fresh_pages = map (\<lambda>i. if i < 254 then word_of_nat (i + 1) else 0) [0..<255]"

lemma initialize_memory_allocator_pages:
  assumes "pages_stack s = replicate STACK_SIZE 0"
  shows "\<exists>t. initialize_memory_allocator s = Inr ((), t) \<and> pages_stack t = fresh_pages \<and> t = s\<lparr>pages_stack := fresh_pages\<rparr>"
  using assms by (simp add: initialize_memory_allocator_def fresh_pages_def cong: map_cong)

lemma unat_fresh: "unat (if i < 254 then word_of_nat (i + 1) else 0 :: 8 word) = (if i < 254 then i + 1 else 0)"
proof (cases "i < 254")
  case True
  then have "unat (word_of_nat (i + 1) :: 8 word) = i + 1" by (subst unat_of_nat) simp
  with True show ?thesis by simp
qed simp

lemma fresh_pages_distinct: "distinct fresh_pages" and fresh_pages_length: "length fresh_pages = 255"
proof -
  have "inj_on (\<lambda>i. (if i < 254 then word_of_nat (i + 1) else 0 :: 8 word)) {0..<255}"
  proof (rule inj_onI)
    fix i j :: nat
    assume b: "i \<in> {0..<255}" "j \<in> {0..<255}"
      and eq: "(if i < 254 then word_of_nat (i + 1) else 0 :: 8 word) = (if j < 254 then word_of_nat (j + 1) else 0)"
    from arg_cong [OF eq, of unat] have "(if i < 254 then i + 1 else 0) = (if j < 254 then j + 1 else 0)"
      unfolding unat_fresh .
    with b show "i = j" by (auto split: if_splits)
  qed
  then show "distinct fresh_pages" by (simp add: fresh_pages_def distinct_map)
qed (simp add: fresh_pages_def)

section \<open>Giving back and running out\<close>

lemma store_page_full:
  fixes address :: "64 word"
  assumes "mutex_is s (memory_mutex_key s) False []" and "pids_ok s" and "0 < current_index s"
  defines "t \<equiv> s\<lparr>superlock := UNLOCKED, current_index := current_index s - 1,
    pages_stack := (pages_stack s)[unat (current_index s - 1) :=
      ucast ((address - word_of_int DATA_ADDRESS) div word_of_int DATA_PAGE_SIZE)]\<rparr>"
  shows "store_page False address s = Ret 1 t" and "mutex_is t (memory_mutex_key t) False []" and "pids_ok t"
proof -
  define k where "k = memory_mutex_key s"
  define u where "u = (entered k s)\<lparr>current_index := current_index s - 1,
    pages_stack := (pages_stack s)[unat (current_index s - 1) :=
      ucast ((address - word_of_int DATA_ADDRESS) div word_of_int DATA_PAGE_SIZE)]\<rparr>"
  have "memory_mutex_key u = k" by (simp add: u_def k_def entered_def)
  moreover have "u\<lparr>superlock := UNLOCKED, open_mutexes := open_mutexes s\<rparr> = t" by (simp add: u_def t_def entered_def)
  ultimately have leave: "unlock_key False memory_mutex_key u = Ret () t" "mutex_is t k False []"
    using unlock_key_free [OF assms(1) [folded k_def], of memory_mutex_key u] by (simp_all add: u_def entered_def)
  have "current_index (entered k s) = current_index s" "pages_stack (entered k s) = pages_stack s"
    by (simp_all add: entered_def)
  then show "store_page False address s = Ret 1 t"
    using assms(3) lock_key_free [where key = memory_mutex_key, OF assms(1,2)] leave(1)
    by (simp add: store_page_def kbind_def u_def flip: k_def)
  show "mutex_is t (memory_mutex_key t) False []" using leave(2) by (simp add: t_def k_def)
  have "same_sched s t" by (simp add: same_sched_def t_def)
  then show "pids_ok t" using same_sched_facts(2) assms(2) by blast
qed

lemma page_index: "ucast ((page_address i - word_of_int DATA_ADDRESS) div word_of_int DATA_PAGE_SIZE) = i"
proof -
  have i: "uint i < 256" "0 \<le> uint i" using uint_bounded [of i] by simp_all
  have "uint (page_address i - 0x500000) = uint i * 4096"
    using i by (simp add: uint_word_ariths uint_page_address)
  then have "uint ((page_address i - 0x500000) div 0x1000) = uint i"
    by (simp add: uint_div_distrib)
  then show ?thesis using i by (intro word_uint_eqI) (simp add: unsigned_ucast_eq take_bit_int_eq_self)
qed

text \<open>A caller that finds no page left locks the mutex it already has, and waits for itself.\<close>

lemma get_page_exhausted:
  assumes "mutex_is s (memory_mutex_key s) False []" and "pids_ok s" and "current_index s = 255"
    and "queue_space (mt_queue (open_mutexes s ! nat (memory_mutex_key s))) s" and "getCurrentProcess s = Inr (a, s)"
  obtains t where "get_page False s = bindr (yield t) (\<lambda>_. kreturn 0)" and "mutex_is t (memory_mutex_key s) True [a]"
    and "in_state t (running_pid s) BLOCKED"
proof -
  define k where "k = memory_mutex_key s"
  define u where "u = entered k s"
  have k: "0 \<le> k" "k < 128" "is_open s k" "length (open_mutexes s) = 128" "is_queue s (mt_queue (open_mutexes s ! nat k)) []"
    using assms(1) by (simp_all add: mutex_is_def is_open_def k_def)
  have mu: "mutex_is u k True []" using k by (simp add: mutex_is_def is_open_def u_def entered_def)
  have pu: "pids_ok u" "running_pid u = running_pid s"
    using assms(2) same_sched_facts [OF entered_sched [of s k]] by (simp_all add: u_def)
  have q: "mt_queue (open_mutexes u ! nat k) = mt_queue (open_mutexes s ! nat k)"
    using k by (simp add: u_def entered_def)
  have space: "queue_space (mt_queue (open_mutexes u ! nat k)) u"
    unfolding q by (rule queue_space_cong [OF _ _ _ _ _ _ assms(4) [folded k_def]]) (simp_all add: u_def entered_def)
  have cur: "getCurrentProcess u = Inr (a, u)"
    using assms(5) by (auto simp: getCurrentProcess_def deref_def u_def entered_def ebind_eq_Inr split: option.splits)
  obtain t where t: "mutex_lock k u = bindr (yield t) (\<lambda>_. kreturn 1)" "mutex_is t k True ([] @ [a])"
      "in_state t (running_pid u) BLOCKED"
    by (rule mutex_lock_busy [OF mu pu(1) space cur])
  have u': "current_index u = 255" "memory_mutex_key u = k" using assms(3) by (simp_all add: u_def entered_def k_def)
  have "get_page False s = bindr (bindr (mutex_lock k u) (\<lambda>_. kreturn ())) (\<lambda>_. kreturn 0)"
    using lock_key_free [where key = memory_mutex_key, OF assms(1,2)] u'
    by (simp add: get_page_def kbind_def lock_key_def [of memory_mutex_key] flip: k_def u_def)
  also have "\<dots> = bindr (yield t) (\<lambda>_. kreturn 0)" by (simp add: t(1) bindr_assoc kreturn_def [abs_def])
  finally show thesis using that t(2,3) pu(2) by (simp add: k_def)
qed

section \<open>Properties\<close>

definition demo_pages :: pstacks where
  "demo_pages = conds.extend demo_conds \<lparr>pages_stack = fresh_pages, current_index = 0, memory_mutex_key = 0,
     stack_memory_mutex_key = -1, stack_pages_stack = replicate 128 0, current_stack_index = 0\<rparr>"

lemma demo_pages_fields:
  "pages_stack demo_pages = fresh_pages" "current_index demo_pages = 0" "memory_mutex_key demo_pages = 0"
  "open_mutexes demo_pages = open_mutexes demo_conds" "queues demo_pages = queues demo_conds"
  "nodes demo_pages = nodes demo_conds" "baseMemory demo_pages = 0x1000000"
  "occupied demo_pages = occupied demo_conds" "base demo_pages = base demo_conds" "heapLevel demo_pages = heapLevel demo_conds"
  "slots demo_pages = slots demo_sched" "procs demo_pages = procs demo_sched" "current demo_pages = current demo_sched"
  "cardinal_processes demo_pages = cardinal_processes demo_sched"
  using demo_conds_fields by (simp_all add: demo_pages_def conds.defs)

lemma demo_pages_sched: "same_sched demo_sched demo_pages"
  by (simp add: same_sched_def demo_pages_fields)

lemmas demo_pages_facts = pids_ok_demo [folded same_sched_facts(2,4) [OF demo_pages_sched]]

lemma demo_pages_mutex: "mutex_is demo_pages (memory_mutex_key demo_pages) False []"
proof -
  have "is_queue demo_pages 0x1030000 []"
    by (simp add: is_queue_Nil_iff demo_pages_fields demo_conds_fields)
  then show ?thesis by (simp add: mutex_is_def is_open_def demo_pages_fields demo_conds_fields)
qed

lemma fresh_pages_once:
  assumes "mutex_is s (memory_mutex_key s) False []" and "pids_ok s" and "pages_stack s = fresh_pages"
    and "current_index s = 0" and "n \<le> STACK_SIZE"
  shows "\<exists>ps t. get_pages n s = Ret ps t \<and> length ps = n \<and> distinct ps \<and>
    (\<forall>p\<in>set ps. DATA_ADDRESS \<le> uint p \<and> uint p < 0x5FF000 \<and> DATA_PAGE_SIZE dvd uint p) \<and>
    (word_of_int DATA_ADDRESS \<in> set ps \<longleftrightarrow> n = STACK_SIZE)"
proof -
  obtain t where t: "get_pages n s = Ret (map page_address (take n fresh_pages)) t"
    using get_pages_run [OF assms(1,2), of n] assms(3-5) fresh_pages_length by auto
  let ?ps = "map page_address (take n fresh_pages)"
  have entry: "fresh_pages ! i = (if i < 254 then word_of_nat (i + 1) else 0)" if "i < 255" for i
    using that by (simp add: fresh_pages_def)
  have small: "uint (fresh_pages ! i) < 255" if "i < 255" for i
  proof -
    have "unat (fresh_pages ! i) < 255" using that by (simp only: entry [OF that] unat_fresh) simp
    then show ?thesis by (metis uint_nat of_nat_less_numeral_iff)
  qed
  have "length ?ps = n" using assms(5) by (simp add: fresh_pages_length)
  moreover have "distinct ?ps"
    using fresh_pages_distinct page_address_inj by (auto simp: distinct_map intro: inj_on_subset)
  moreover have "DATA_ADDRESS \<le> uint p \<and> uint p < 0x5FF000 \<and> DATA_PAGE_SIZE dvd uint p" if p: "p \<in> set ?ps" for p
  proof -
    obtain i where i: "i < n" "p = page_address (fresh_pages ! i)"
      using p assms(5) by (auto simp: in_set_conv_nth fresh_pages_length)
    then have "i < 255" using assms(5) by simp
    then have "uint (fresh_pages ! i) < 255" by (rule small)
    moreover have "0 \<le> uint (fresh_pages ! i)" by simp
    ultimately show ?thesis unfolding i(2) uint_page_address by (auto intro: dvd_add)
  qed
  moreover have "word_of_int DATA_ADDRESS \<in> set ?ps \<longleftrightarrow> n = STACK_SIZE"
  proof -
    have zero: "page_address 0 = word_of_int DATA_ADDRESS" by (simp add: page_address_def)
    have "word_of_int DATA_ADDRESS \<in> set ?ps \<longleftrightarrow> 0 \<in> set (take n fresh_pages)"
      unfolding zero [symmetric] using page_address_inj by (auto dest: injD)
    also have "\<dots> \<longleftrightarrow> (\<exists>i<n. fresh_pages ! i = 0)"
      using assms(5) by (auto simp: in_set_conv_nth fresh_pages_length)
    also have "\<dots> \<longleftrightarrow> (\<exists>i<n. i = 254)"
    proof (intro ex_cong1 conj_cong refl)
      fix i assume "i < n"
      then have i: "i < 255" using assms(5) by simp
      have "unat (fresh_pages ! i) = (if i < 254 then i + 1 else 0)" by (simp only: entry [OF i] unat_fresh)
      then have "fresh_pages ! i = 0 \<longleftrightarrow> \<not> i < 254" by (metis add_is_0 unat_eq_zero zero_neq_one)
      then show "fresh_pages ! i = 0 \<longleftrightarrow> i = 254" using i by auto
    qed
    also have "\<dots> \<longleftrightarrow> n = STACK_SIZE" using assms(5) by auto
    finally show ?thesis .
  qed
  ultimately show ?thesis using t by blast
qed

text \<open>The array is not part of the process table or of a mutex.\<close>

lemma pages_stack_update:
  assumes "mutex_is s k False []" and "pids_ok s"
  shows "mutex_is (s\<lparr>pages_stack := ps\<rparr>) k False []" and "pids_ok (s\<lparr>pages_stack := ps\<rparr>)"
proof -
  have "same_sched s (s\<lparr>pages_stack := ps\<rparr>)" by (simp add: same_sched_def)
  then show "pids_ok (s\<lparr>pages_stack := ps\<rparr>)" using assms(2) same_sched_facts by blast
  show "mutex_is (s\<lparr>pages_stack := ps\<rparr>) k False []" using assms(1) by (simp add: mutex_is_def is_open_def is_queue_Nil_iff)
qed

text \<open>C22. \<open>initialize_memory_allocator\<close> and \<open>get_page\<close>.  On the array as the linker leaves it, all zeros, and with the
  allocator's mutex open and free, the calls of \<open>get_page\<close> that follow the initialisation hand out each of the 255 pages
  once, aligned and inside the region that starts at \<open>DATA_ADDRESS\<close>.  The page at \<open>DATA_ADDRESS\<close> itself,
  which the code means to keep free, is the last of them: the initialisation leaves the last entry at 0.
\<close>

theorem get_page_each_once:
  assumes "mutex_is s (memory_mutex_key s) False []" and "pids_ok s" and "pages_stack s = replicate STACK_SIZE 0"
    and "current_index s = 0" and "n \<le> STACK_SIZE"
  shows "\<exists>ps u t. initialize_memory_allocator s = Inr ((), u) \<and> get_pages n u = Ret ps t \<and> length ps = n \<and> distinct ps \<and>
    (\<forall>p\<in>set ps. DATA_ADDRESS \<le> uint p \<and> uint p < 0x5FF000 \<and> DATA_PAGE_SIZE dvd uint p) \<and>
    (word_of_int DATA_ADDRESS \<in> set ps \<longleftrightarrow> n = STACK_SIZE)"
proof -
  define u where "u = s\<lparr>pages_stack := fresh_pages\<rparr>"
  have "initialize_memory_allocator s = Inr ((), u)"
    using initialize_memory_allocator_pages [of s] assms(3) by (simp add: u_def)
  moreover have "mutex_is u (memory_mutex_key u) False []" "pids_ok u"
    using pages_stack_update [OF assms(1,2)] by (simp_all add: u_def)
  moreover have "pages_stack u = fresh_pages" "current_index u = 0" using assms(4) by (simp_all add: u_def)
  ultimately show ?thesis using fresh_pages_once [of u n] assms(5) by blast
qed

theorem get_page_each_once_witness:
  "\<exists>ps u t. initialize_memory_allocator (demo_pages\<lparr>pages_stack := replicate STACK_SIZE 0\<rparr>) = Inr ((), u) \<and>
    get_pages 255 u = Ret ps t \<and> length ps = 255 \<and> distinct ps \<and> word_of_int DATA_ADDRESS \<in> set ps"
proof -
  define s where "s = demo_pages\<lparr>pages_stack := replicate STACK_SIZE 0\<rparr>"
  have "mutex_is s (memory_mutex_key s) False []" "pids_ok s"
    using pages_stack_update [OF demo_pages_mutex demo_pages_facts(1)] by (simp_all add: s_def)
  moreover have "pages_stack s = replicate STACK_SIZE 0" "current_index s = 0" by (simp_all add: s_def demo_pages_fields)
  ultimately show ?thesis using get_page_each_once [of s 255] unfolding s_def by auto
qed

text \<open>C23. With its 255 pages handed out \<open>get_page\<close> locks \<open>memory_mutex\<close> a second time instead of unlocking
  it: the caller queues and blocks on the mutex it has itself, and no other process can get past
  the lock.\<close>

theorem get_page_deadlocks:
  assumes "mutex_is s (memory_mutex_key s) False []" and "pids_ok s" and "current_index s = 255"
    and "queue_space (mt_queue (open_mutexes s ! nat (memory_mutex_key s))) s" and "getCurrentProcess s = Inr (a, s)"
  shows "\<exists>t. get_page False s = bindr (yield t) (\<lambda>_. kreturn 0) \<and> mutex_is t (memory_mutex_key s) True [a] \<and>
    in_state t (running_pid s) BLOCKED"
  by (rule get_page_exhausted [OF assms]) blast

lemma demo_pages_space: "queue_space 0x1030000 demo_pages"
proof -
  have ns: "ns = []" if "queue_of demo_pages 0x1030000 ns xs" for ns xs
    using that by (cases ns) (auto simp: queue_of_def demo_pages_fields demo_conds_fields)
  obtain t where "allocPage 16 demo_queue = Inr (0x1000000, t)" using demo_queue_alloc by blast
  then have "allocPage 16 demo_pages = Inr (0x1000000, demo_pages\<lparr>occupied := occupied t\<rparr>)"
    by (rule allocPage_indep [rotated -1]) (simp_all add: demo_pages_fields demo_conds_fields demo_mapi_fields demo_queue_fields)
  then have "room demo_pages 0x1030000 []" by (simp add: room_def managed_def)
  then show ?thesis using ns unfolding queue_space_def by blast
qed

theorem get_page_deadlocks_witness:
  "\<exists>s t. current_index (s :: pstacks) = 255 \<and> get_page False s = bindr (yield t) (\<lambda>_. kreturn 0) \<and>
    mutex_is t 0 True [0x1003000]"
proof -
  define s where "s = demo_pages\<lparr>current_index := 255\<rparr>"
  have "memory_mutex_key s = 0" "mt_queue (open_mutexes s ! nat 0) = 0x1030000" "current_index s = 255"
    by (simp_all add: s_def demo_pages_fields demo_conds_fields)
  moreover have "same_sched demo_pages s" by (simp add: same_sched_def s_def)
  then have "pids_ok s" using demo_pages_facts(1) same_sched_facts(2) by blast
  moreover have "mutex_is s 0 False []"
    using demo_pages_mutex by (simp add: mutex_is_def is_open_def s_def is_queue_Nil_iff demo_pages_fields)
  moreover have "queue_space 0x1030000 s"
    by (rule queue_space_cong [OF _ _ _ _ _ _ demo_pages_space]) (simp_all add: s_def)
  moreover have "getCurrentProcess s = Inr (0x1003000, s)"
    by (simp add: getCurrentProcess_def s_def demo_pages_fields demo_sched_def)
  ultimately show ?thesis using get_page_deadlocks [of s "0x1003000"] by auto
qed

text \<open>A page that is given back is the one handed out next: \<open>store_page\<close> of what \<open>get_page\<close> returned
  restores the stack and its index.\<close>

theorem page_roundtrip:
  assumes "mutex_is s (memory_mutex_key s) False []" and "pids_ok s" and "unat (current_index s) < STACK_SIZE"
    and "length (pages_stack s) = STACK_SIZE"
  shows "\<exists>p t. get_page False s = Ret p t \<and> store_page False p t = Ret 1 (s\<lparr>superlock := UNLOCKED\<rparr>)"
proof -
  define i where "i = current_index s"
  define p where "p = page_address (pages_stack s ! unat i)"
  define t where "t = s\<lparr>superlock := UNLOCKED, current_index := i + 1\<rparr>"
  note get = get_page_next [OF assms(1-3), folded i_def, folded page_address_def, folded p_def t_def]
  have "unat (i + 1) = Suc (unat i)" using unat_Suc_index assms(3) by (simp add: i_def)
  then have "0 < current_index t" by (simp add: t_def word_less_nat_alt)
  note store = store_page_full(1) [OF get(2,3) this, of p]
  have "(pages_stack s)[unat i := ucast ((p - word_of_int DATA_ADDRESS) div word_of_int DATA_PAGE_SIZE)] = pages_stack s"
    unfolding p_def page_index by simp
  then have "store_page False p t = Ret 1 (s\<lparr>superlock := UNLOCKED\<rparr>)"
    using store by (simp add: t_def i_def)
  with get(1) show ?thesis by blast
qed

theorem page_roundtrip_witness:
  "\<exists>p t. get_page False demo_pages = Ret p t \<and> store_page False p t = Ret 1 (demo_pages\<lparr>superlock := UNLOCKED\<rparr>)"
  by (rule page_roundtrip [OF demo_pages_mutex demo_pages_facts(1)]) (simp_all add: demo_pages_fields fresh_pages_length)

end
