(* ===== verification/Video.thy ===== *)
theory Video
  imports PageStacks
begin

text \<open>
  The text screen of Kernel/video.c: 25 rows of 80 characters with an attribute each, a cursor (\<open>i\<close> is
  its column, \<open>j\<close> its row), the window below the first rows in which it moves, and the selection of
  the mouse.  \<open>updateScreen\<close> copies everything to the video memory at 0xB8000.

  The lemmas show that the cursor stays on the screen, what a printed text looks like, and that a
  window that starts at column 80, which \<open>changeStartModule\<close> accepts, loses the cursor.
\<close>

section \<open>State\<close>

abbreviation (input) SCREEN :: addr where
  "SCREEN \<equiv> 0xB8000"

abbreviation (input) WIDTH :: int where
  "WIDTH \<equiv> 80"

abbreviation (input) HEIGHT :: int where
  "HEIGHT \<equiv> 25"

abbreviation (input) DEFAULT :: char where
  "DEFAULT \<equiv> CHR 0x0F"

text \<open>The arrays are functions of the row and the column; only valid positions are ever used.\<close>

record vid = pstacks +
  video :: "int \<times> int \<Rightarrow> char"
  attributes :: "int \<times> int \<Rightarrow> char"
  cur_i :: int
  cur_j :: int
  mouseSelect :: "char list"
  sel_size :: int
  iStartModule :: int
  jStartModule :: int
  stopBackWards :: int

definition emodify :: "('s \<Rightarrow> 's) \<Rightarrow> ('s, unit) eprog" where
  "emodify f s = Inr ((), f s)"

lemma emodify_apply [simp]: "emodify f s = Inr ((), f s)"
  by (simp add: emodify_def)

definition columns :: "int list" where
  "columns = map int [0..<80]"

definition rows :: "int list" where
  "rows = map int [0..<25]"

lemma in_columns: "k \<in> set (map int [0..<n]) \<longleftrightarrow> 0 \<le> k \<and> k < int n"
  by (auto intro: image_eqI [of _ _ "nat k"])

section \<open>Cells\<close>

definition validPosition :: "int \<Rightarrow> int \<Rightarrow> bool" where
  "validPosition f c \<longleftrightarrow> \<not> (HEIGHT \<le> f \<or> WIDTH \<le> c \<or> f < 0 \<or> c < 0)"

definition byte_of :: "char \<Rightarrow> 8 word" where
  "byte_of a = word_of_nat (of_char a)"

definition show_cell :: "int \<Rightarrow> int \<Rightarrow> 'a vid_scheme \<Rightarrow> 'a vid_scheme" where
  "show_cell f c s = s\<lparr>ram := (ram s)
     (SCREEN + f * WIDTH * 2 + c * 2 := byte_of (video s (f, c)),
      SCREEN + f * WIDTH * 2 + c * 2 + 1 := byte_of (attributes s (f, c)))\<rparr>"

definition updateScreen :: "'a vid_scheme \<Rightarrow> 'a vid_scheme" where
  "updateScreen = fold (\<lambda>c. fold (\<lambda>f. show_cell f c) rows) columns"

text \<open>The parameter \<open>color\<close> is not used.\<close>

definition printChar :: "int \<Rightarrow> int \<Rightarrow> char \<Rightarrow> char \<Rightarrow> 'a vid_scheme \<Rightarrow> 'a vid_scheme" where
  "printChar f c a color s =
     (if \<not> validPosition f c then s else updateScreen (s\<lparr>video := (video s)((f, c) := a)\<rparr>))"

definition clearPosition :: "int \<Rightarrow> int \<Rightarrow> 'a vid_scheme \<Rightarrow> 'a vid_scheme" where
  "clearPosition f c s = (if \<not> validPosition f c then s else s\<lparr>video := (video s)((f, c) := CHR '' '')\<rparr>)"

definition clearRow :: "int \<Rightarrow> 'a vid_scheme \<Rightarrow> 'a vid_scheme" where
  "clearRow f = fold (clearPosition f) columns"

definition copyRow :: "int \<Rightarrow> int \<Rightarrow> ('a vid_scheme, unit) eprog" where
  "copyRow from to =
     (if validPosition from 0 \<and> validPosition to 0
      then emodify (fold (\<lambda>k s. clearPosition from k (s\<lparr>video := (video s)((to, k) := video s (from, k))\<rparr>)) columns)
      else efail OutOfBounds)"

definition getScreen :: "int \<Rightarrow> int \<Rightarrow> 'a vid_scheme \<Rightarrow> int" where
  "getScreen f c s = (if \<not> validPosition f c then -1 else schar (video s (f, c)))"

definition changeColor :: "int \<Rightarrow> int \<Rightarrow> char \<Rightarrow> 'a vid_scheme \<Rightarrow> 'a vid_scheme" where
  "changeColor f c color s = s\<lparr>ram := (ram s)(SCREEN + f * WIDTH * 2 + c * 2 + 1 := byte_of color)\<rparr>"

definition clear :: "'a vid_scheme \<Rightarrow> 'a vid_scheme" where
  "clear s = updateScreen (fold (\<lambda>f. fold (\<lambda>c s. s\<lparr>video := (video s)((f, c) := CHR '' ''),
     attributes := (attributes s)((f, c) := DEFAULT)\<rparr>) columns) rows s)"

section \<open>The cursor\<close>

definition changeStartModule :: "int \<Rightarrow> int \<Rightarrow> 'a vid_scheme \<Rightarrow> 'a vid_scheme" where
  "changeStartModule f c s =
     (if f < 0 \<or> WIDTH < f \<or> c < 3 \<or> HEIGHT < c then s
      else s\<lparr>jStartModule := c, iStartModule := f, cur_i := f\<rparr>)"

definition changeStopBackwards :: "int \<Rightarrow> 'a vid_scheme \<Rightarrow> 'a vid_scheme" where
  "changeStopBackwards from s = s\<lparr>stopBackWards := from\<rparr>"

definition isBackwardsOn :: "'a vid_scheme \<Rightarrow> bool" where
  "isBackwardsOn s \<longleftrightarrow> stopBackWards s = -1 \<or> stopBackWards s \<le> cur_i s"

definition setCursor :: "int \<Rightarrow> int \<Rightarrow> 'a vid_scheme \<Rightarrow> 'a vid_scheme" where
  "setCursor f c s = (if \<not> validPosition f c then s else s\<lparr>cur_i := c, cur_j := f\<rparr>)"

text \<open>The loop over the rows \<open>auxf\<close> below the first of the window.\<close>

fun scroll_loop :: "nat \<Rightarrow> int \<Rightarrow> ('a vid_scheme, unit) eprog" where
  "scroll_loop 0 auxf = ereturn ()"
| "scroll_loop (Suc n) auxf = ebind (copyRow auxf (auxf - 1)) (\<lambda>_. scroll_loop n (auxf + 1))"

definition scroll :: "('a vid_scheme, unit) eprog" where
  "scroll s =
     ebind (scroll_loop (nat (HEIGHT - (jStartModule s + 1))) (jStartModule s + 1)) (\<lambda>_.
     emodify (\<lambda>s. (clearRow (HEIGHT - 1) s)\<lparr>cur_j := HEIGHT - 1, cur_i := iStartModule s\<rparr>)) s"

definition forwardCursor :: "('a vid_scheme, unit) eprog" where
  "forwardCursor s =
     (if cur_i s = WIDTH - 1
      then if cur_j s = HEIGHT - 1 then ebind scroll (\<lambda>_. emodify updateScreen) s
           else Inr ((), s\<lparr>cur_j := cur_j s + 1, cur_i := iStartModule s\<rparr>)
      else Inr ((), s\<lparr>cur_i := cur_i s + 1\<rparr>))"

partial_function (option) jump_loop :: "int \<Rightarrow> 'a vid_scheme \<Rightarrow> (fault + unit \<times> 'a vid_scheme) option" where
  "jump_loop aux s =
     (if cur_j s = aux then Some (Inr ((), s))
      else case forwardCursor s of Inl e \<Rightarrow> Some (Inl e) | Inr (_, s) \<Rightarrow> jump_loop aux s)"

definition lineJump :: "('a vid_scheme, unit) eprog" where
  "lineJump s = (if cur_j s = HEIGHT - 1 then scroll s else loop_outcome (jump_loop (cur_j s + 1)) s)"

definition backwardCursor :: "'a vid_scheme \<Rightarrow> 'a vid_scheme" where
  "backwardCursor s =
     (if cur_i s = iStartModule s
      then if cur_j s \<noteq> jStartModule s then s\<lparr>cur_j := cur_j s - 1, cur_i := WIDTH - 1\<rparr> else s
      else s\<lparr>cur_i := cur_i s - 1\<rparr>)"

definition backInLine :: "'a vid_scheme \<Rightarrow> 'a vid_scheme" where
  "backInLine s = (if cur_i s = iStartModule s then s else s\<lparr>cur_i := cur_i s - 1\<rparr>)"

section \<open>Text\<close>

definition putChar :: "char \<Rightarrow> ('a vid_scheme, unit) eprog" where
  "putChar a s = forwardCursor (printChar (cur_j s) (cur_i s) a DEFAULT s)"

fun printMsg_loop :: "int \<Rightarrow> string \<Rightarrow> 'a vid_scheme \<Rightarrow> 'a vid_scheme" where
  "printMsg_loop k [] s = s"
| "printMsg_loop k (a # msg) s =
     (if \<not> validPosition (k sdiv WIDTH) (k smod WIDTH) then s
      else printMsg_loop (k + 1) msg (printChar (k sdiv WIDTH) (k smod WIDTH) a (CHR 0x20) s))"

definition printMsg :: "int \<Rightarrow> int \<Rightarrow> string \<Rightarrow> char \<Rightarrow> 'a vid_scheme \<Rightarrow> 'a vid_scheme" where
  "printMsg f c msg color s =
     (if \<not> validPosition f c then s else printMsg_loop (f * WIDTH + c) msg s)"

fun printMsgCursor :: "string \<Rightarrow> ('a vid_scheme, unit) eprog" where
  "printMsgCursor [] = ereturn ()"
| "printMsgCursor (a # msg) = ebind (putChar a) (\<lambda>_. printMsgCursor msg)"

section \<open>The mouse on the screen\<close>

definition drawMouse :: "int \<Rightarrow> int \<Rightarrow> 'a vid_scheme \<Rightarrow> 'a vid_scheme" where
  "drawMouse f c s = (if \<not> validPosition f c then s else s\<lparr>attributes := (attributes s)((f, c) := CHR 0x30)\<rparr>)"

definition udrawMouse :: "int \<Rightarrow> int \<Rightarrow> 'a vid_scheme \<Rightarrow> 'a vid_scheme" where
  "udrawMouse f c s = (if \<not> validPosition f c then s else s\<lparr>attributes := (attributes s)((f, c) := DEFAULT)\<rparr>)"

text \<open>The loop of \<open>selection\<close> and \<open>undoSelection\<close>, with \<open>drawMouse\<close> or \<open>udrawMouse\<close>.\<close>

function mark_loop :: "(int \<Rightarrow> int \<Rightarrow> 's \<Rightarrow> 's) \<Rightarrow> int \<Rightarrow> int \<Rightarrow> 's \<Rightarrow> 's" where
  "mark_loop mark k fin s =
     (if validPosition (k sdiv WIDTH) (k smod WIDTH) \<and> k \<le> fin
      then mark_loop mark (k + 1) fin (mark (k sdiv WIDTH) (k smod WIDTH) s) else s)"
  by pat_completeness auto
termination by (relation "measure (\<lambda>(_, k, fin, _). nat (fin + 1 - k))") auto

declare mark_loop.simps [simp del]

fun copyMouse_loop :: "nat \<Rightarrow> int \<Rightarrow> int \<Rightarrow> ('a vid_scheme, unit) eprog" where
  "copyMouse_loop 0 h initial = ereturn ()"
| "copyMouse_loop (Suc n) h initial =
     ebind (\<lambda>s. let v = getScreen ((h + initial) sdiv WIDTH) ((h + initial) smod WIDTH) s;
                    c = (if v = 0 then CHR '' '' else char_of (nat (v mod 256)))
                in if h < HEIGHT * WIDTH then Inr ((), s\<lparr>mouseSelect := (mouseSelect s)[nat h := c]\<rparr>)
                   else Inl OutOfBounds)
       (\<lambda>_. copyMouse_loop n (h + 1) initial)"

definition copyMouse :: "int \<Rightarrow> int \<Rightarrow> ('a vid_scheme, unit) eprog" where
  "copyMouse initial end_pos s =
     copyMouse_loop (nat (end_pos - initial + 1)) 0 initial (s\<lparr>sel_size := end_pos - initial + 1\<rparr>)"

definition selection :: "int \<Rightarrow> int \<Rightarrow> int \<Rightarrow> int \<Rightarrow> ('a vid_scheme, unit) eprog" where
  "selection finit cinit ffin cfin =
     (let k = finit * WIDTH + cinit; fin = ffin * WIDTH + cfin
      in ebind (copyMouse k fin) (\<lambda>_. emodify (mark_loop drawMouse k fin)))"

definition undoSelection :: "int \<Rightarrow> int \<Rightarrow> int \<Rightarrow> int \<Rightarrow> 'a vid_scheme \<Rightarrow> 'a vid_scheme" where
  "undoSelection finit cinit ffin cfin = mark_loop udrawMouse (finit * WIDTH + cinit) (ffin * WIDTH + cfin)"

section \<open>What the loops over rows and columns do\<close>

lemma fold_video: "fold (\<lambda>k s. s\<lparr>video := g k (video s)\<rparr>) ks s = s\<lparr>video := fold g ks (video s)\<rparr>"
  by (induction ks arbitrary: s) simp_all

lemma fold_ram:
  "fold (\<lambda>k s. s\<lparr>ram := g k (video s) (attributes s) (ram s)\<rparr>) ks s =
     s\<lparr>ram := fold (\<lambda>k. g k (video s) (attributes s)) ks (ram s)\<rparr>"
  by (induction ks arbitrary: s) simp_all

text \<open>\<open>updateScreen\<close> changes the memory only.\<close>

definition cell_bytes :: "int \<Rightarrow> int \<Rightarrow> (int \<times> int \<Rightarrow> char) \<Rightarrow> (int \<times> int \<Rightarrow> char) \<Rightarrow> (addr \<Rightarrow> 8 word) \<Rightarrow> (addr \<Rightarrow> 8 word)" where
  "cell_bytes f c v a m = m(SCREEN + f * WIDTH * 2 + c * 2 := byte_of (v (f, c)),
      SCREEN + f * WIDTH * 2 + c * 2 + 1 := byte_of (a (f, c)))"

definition screen_bytes :: "(int \<times> int \<Rightarrow> char) \<Rightarrow> (int \<times> int \<Rightarrow> char) \<Rightarrow> (addr \<Rightarrow> 8 word) \<Rightarrow> (addr \<Rightarrow> 8 word)" where
  "screen_bytes v a = fold (\<lambda>c. fold (\<lambda>f. cell_bytes f c v a) rows) columns"

lemma updateScreen_ram: "updateScreen s = s\<lparr>ram := screen_bytes (video s) (attributes s) (ram s)\<rparr>"
proof -
  have step: "fold (\<lambda>f. show_cell f c) rows = (\<lambda>s. s\<lparr>ram := fold (\<lambda>f. cell_bytes f c (video s) (attributes s)) rows (ram s)\<rparr>)"
    for c :: int
    unfolding show_cell_def cell_bytes_def
    by (rule ext) (rule fold_ram [where g = "\<lambda>f v a m. m(SCREEN + f * WIDTH * 2 + c * 2 := byte_of (v (f, c)),
      SCREEN + f * WIDTH * 2 + c * 2 + 1 := byte_of (a (f, c)))"])
  show ?thesis
    unfolding updateScreen_def screen_bytes_def step
    by (rule fold_ram [where g = "\<lambda>c v a. fold (\<lambda>f. cell_bytes f c v a) rows"])
qed

lemma updateScreen_fields [simp]:
  "video (updateScreen s) = video s" "attributes (updateScreen s) = attributes s"
  "cur_i (updateScreen s) = cur_i s" "cur_j (updateScreen s) = cur_j s"
  "iStartModule (updateScreen s) = iStartModule s" "jStartModule (updateScreen s) = jStartModule s"
  "stopBackWards (updateScreen s) = stopBackWards s" "mouseSelect (updateScreen s) = mouseSelect s"
  "sel_size (updateScreen s) = sel_size s"
  by (simp_all add: updateScreen_ram)

definition blank_row :: "int \<Rightarrow> (int \<times> int \<Rightarrow> char) \<Rightarrow> int \<times> int \<Rightarrow> char" where
  "blank_row f v = (\<lambda>(a, b). if a = f \<and> 0 \<le> b \<and> b < 80 then CHR '' '' else v (a, b))"

lemma fold_clear:
  "fold (\<lambda>k v. v((f, k) := x)) (map int [0..<n]) v = (\<lambda>(a, b). if a = f \<and> 0 \<le> b \<and> b < int n then x else v (a, b))"
  by (induction n) (auto simp: fun_eq_iff)

lemma clearRow_video:
  assumes "0 \<le> f" and "f < 25"
  shows "clearRow f s = s\<lparr>video := blank_row f (video s)\<rparr>"
proof -
  have "clearPosition f k = (\<lambda>s. s\<lparr>video := (video s)((f, k) := CHR '' '')\<rparr>)" if "k \<in> set columns" for k
    using assms that unfolding columns_def in_columns
    by (intro ext) (simp add: clearPosition_def validPosition_def)
  then have "clearRow f s = fold (\<lambda>k s. s\<lparr>video := (video s)((f, k) := CHR '' '')\<rparr>) columns s"
    unfolding clearRow_def by (intro fold_cong refl)
  also have "\<dots> = s\<lparr>video := fold (\<lambda>k v. v((f, k) := CHR '' '')) columns (video s)\<rparr>"
    by (rule fold_video)
  finally show ?thesis by (simp add: fold_clear [where n = 80, folded columns_def] blank_row_def)
qed

lemma clearRow_outside: "f < 0 \<or> 25 \<le> f \<Longrightarrow> clearRow f s = s"
proof -
  assume f: "f < 0 \<or> 25 \<le> f"
  have "fold (clearPosition f) ks s = s" for ks
    by (induction ks) (use f in \<open>auto simp: clearPosition_def validPosition_def\<close>)
  then show ?thesis by (simp add: clearRow_def)
qed

lemma fold_copy:
  "from \<noteq> to \<Longrightarrow> fold (\<lambda>k v. v((to, k) := v (from, k), (from, k) := x)) (map int [0..<n]) v =
    (\<lambda>(a, b). if 0 \<le> b \<and> b < int n then if a = from then x else if a = to then v (from, b) else v (a, b) else v (a, b))"
  by (induction n) (auto simp: fun_eq_iff)

lemma copyRow_video:
  assumes "0 \<le> from" and "from < 25" and "0 \<le> to" and "to < 25" and "from \<noteq> to"
  shows "copyRow from to s = Inr ((), s\<lparr>video := \<lambda>(a, b). if 0 \<le> b \<and> b < 80
    then if a = from then CHR '' '' else if a = to then video s (from, b) else video s (a, b) else video s (a, b)\<rparr>)"
proof -
  let ?step = "\<lambda>k s :: 'a vid_scheme. clearPosition from k (s\<lparr>video := (video s)((to, k) := video s (from, k))\<rparr>)"
  have "?step k = (\<lambda>s. s\<lparr>video := (video s)((to, k) := video s (from, k), (from, k) := CHR '' '')\<rparr>)"
    if "k \<in> set columns" for k
    using assms that unfolding columns_def in_columns
    by (intro ext) (simp add: clearPosition_def validPosition_def)
  then have "fold ?step columns s =
      fold (\<lambda>k s. s\<lparr>video := (video s)((to, k) := video s (from, k), (from, k) := CHR '' '')\<rparr>) columns s"
    by (intro fold_cong refl)
  also have "\<dots> = s\<lparr>video := fold (\<lambda>k v. v((to, k) := v (from, k), (from, k) := CHR '' '')) columns (video s)\<rparr>"
    by (rule fold_video)
  finally show ?thesis
    using assms by (simp add: copyRow_def validPosition_def fold_copy [where n = 80, folded columns_def])
qed

text \<open>The memory afterwards: a character at every even byte of the screen, its attribute behind it.\<close>

lemma cell_bytes_at:
  assumes "0 \<le> f'" and "f' < 25" and "0 \<le> c'" and "c' < 80" and "0 \<le> f" and "f < 25" and "0 \<le> c" and "c < 80"
  shows "cell_bytes f c v a m (SCREEN + f' * WIDTH * 2 + c' * 2) =
      (if f = f' \<and> c = c' then byte_of (v (f', c')) else m (SCREEN + f' * WIDTH * 2 + c' * 2))"
    and "cell_bytes f c v a m (SCREEN + f' * WIDTH * 2 + c' * 2 + 1) =
      (if f = f' \<and> c = c' then byte_of (a (f', c')) else m (SCREEN + f' * WIDTH * 2 + c' * 2 + 1))"
proof -
  have inj: "f * 80 + c = f' * 80 + c' \<longleftrightarrow> f = f' \<and> c = c'"
  proof
    assume e: "f * 80 + c = f' * 80 + c'"
    have "f = (f * 80 + c) div 80" "f' = (f' * 80 + c') div 80" using assms by simp_all
    then have "f = f'" using e by simp
    with e show "f = f' \<and> c = c'" by simp
  qed simp
  have twice: "SCREEN + r * WIDTH * 2 + k * 2 = 2 * (376832 + (r * 80 + k))" for r k :: int by simp
  have odd: "2 * x \<noteq> 2 * y + 1" for x y :: int by presburger
  have half: "2 * (376832 + x) = 2 * (376832 + y) \<longleftrightarrow> x = y" for x y :: int by simp
  show "cell_bytes f c v a m (SCREEN + f' * WIDTH * 2 + c' * 2) =
      (if f = f' \<and> c = c' then byte_of (v (f', c')) else m (SCREEN + f' * WIDTH * 2 + c' * 2))"
    unfolding cell_bytes_def twice using odd inj by (auto simp: half dest: sym)
  show "cell_bytes f c v a m (SCREEN + f' * WIDTH * 2 + c' * 2 + 1) =
      (if f = f' \<and> c = c' then byte_of (a (f', c')) else m (SCREEN + f' * WIDTH * 2 + c' * 2 + 1))"
    unfolding cell_bytes_def twice using odd inj by (auto simp: half dest: sym)
qed

definition shows_cell :: "(int \<times> int \<Rightarrow> char) \<Rightarrow> (int \<times> int \<Rightarrow> char) \<Rightarrow> (addr \<Rightarrow> 8 word) \<Rightarrow> int \<Rightarrow> int \<Rightarrow> bool" where
  "shows_cell v a m f c \<longleftrightarrow> m (SCREEN + f * WIDTH * 2 + c * 2) = byte_of (v (f, c)) \<and>
     m (SCREEN + f * WIDTH * 2 + c * 2 + 1) = byte_of (a (f, c))"

lemma cell_bytes_shows:
  assumes "validPosition f c" and "validPosition f' c'"
  shows "shows_cell v a (cell_bytes f c v a m) f' c' \<longleftrightarrow> (f = f' \<and> c = c') \<or> shows_cell v a m f' c'"
  using assms cell_bytes_at [of f' c' f c v a m] by (auto simp: shows_cell_def validPosition_def)

lemma column_bytes_shows:
  assumes "0 \<le> c" and "c < 80" and "validPosition f' c'" and "n \<le> 25"
  shows "shows_cell v a (fold (\<lambda>f. cell_bytes f c v a) (map int [0..<n]) m) f' c' \<longleftrightarrow>
    (c = c' \<and> f' < int n) \<or> shows_cell v a m f' c'"
  using assms(4)
proof (induction n)
  case 0
  then show ?case using assms(3) by (simp add: validPosition_def)
next
  case (Suc n)
  have "validPosition (int n) c" using Suc.prems assms by (simp add: validPosition_def)
  then show ?case using Suc assms(3) by (auto simp: cell_bytes_shows)
qed

lemma screen_bytes_shows:
  assumes "validPosition f' c'"
  shows "shows_cell v a (screen_bytes v a m) f' c'"
proof -
  have f': "f' < 25" "0 \<le> c'" "c' < 80" using assms by (simp_all add: validPosition_def)
  have column: "shows_cell v a (fold (\<lambda>f. cell_bytes f (int n) v a) rows k) f' c' \<longleftrightarrow> int n = c' \<or> shows_cell v a k f' c'"
    if "n < 80" for n k
    unfolding rows_def using column_bytes_shows [of "int n" f' c' 25 v a k] that assms f'(1) by linarith
  have "n \<le> 80 \<Longrightarrow> shows_cell v a (fold (\<lambda>c. fold (\<lambda>f. cell_bytes f c v a) rows) (map int [0..<n]) m) f' c' \<longleftrightarrow>
      c' < int n \<or> shows_cell v a m f' c'" for n
  proof (induction n)
    case 0
    then show ?case using f' by simp
  next
    case (Suc n)
    let ?m = "fold (\<lambda>c. fold (\<lambda>f. cell_bytes f c v a) rows) (map int [0..<n]) m"
    have "shows_cell v a (fold (\<lambda>f. cell_bytes f (int n) v a) rows ?m) f' c' \<longleftrightarrow>
        int n = c' \<or> c' < int n \<or> shows_cell v a m f' c'"
      using column [of n ?m] Suc by simp
    moreover have "int n = c' \<or> c' < int n \<longleftrightarrow> c' < int (Suc n)" by linarith
    ultimately show ?case by simp blast
  qed
  from this [OF order_refl] show ?thesis
    unfolding screen_bytes_def columns_def by (rule iffD2) (use f'(3) in simp)
qed

text \<open>\<open>copyRow\<close> in a loop from the row \<open>auxf\<close> on, \<open>n\<close> times.\<close>

definition rows_up :: "int \<Rightarrow> nat \<Rightarrow> (int \<times> int \<Rightarrow> char) \<Rightarrow> int \<times> int \<Rightarrow> char" where
  "rows_up auxf n v = (\<lambda>(a, b). if 0 \<le> b \<and> b < 80
    then if auxf - 1 \<le> a \<and> a < auxf - 1 + int n then v (a + 1, b)
         else if 0 < n \<and> a = auxf - 1 + int n then CHR '' '' else v (a, b)
    else v (a, b))"

lemma rows_up_Suc:
  "rows_up (auxf + 1) n (\<lambda>(a, b). if 0 \<le> b \<and> b < 80
    then if a = auxf then CHR '' '' else if a = auxf - 1 then v (auxf, b) else v (a, b) else v (a, b)) = rows_up auxf (Suc n) v"
  by (rule ext) (auto simp: rows_up_def)

lemma scroll_loop_video:
  assumes "1 \<le> auxf" and "auxf + int n \<le> 25"
  shows "scroll_loop n auxf s = Inr ((), s\<lparr>video := rows_up auxf n (video s)\<rparr>)"
  using assms
proof (induction n arbitrary: auxf s)
  case 0
  have "rows_up auxf 0 (video s) = video s" by (rule ext) (auto simp: rows_up_def)
  then show ?case by simp
next
  case (Suc n)
  let ?v = "\<lambda>(a, b). if 0 \<le> b \<and> b < 80
    then if a = auxf then CHR '' '' else if a = auxf - 1 then video s (auxf, b) else video s (a, b) else video s (a, b)"
  have "copyRow auxf (auxf - 1) s = Inr ((), s\<lparr>video := ?v\<rparr>)"
    using Suc.prems by (intro copyRow_video) auto
  then have "scroll_loop (Suc n) auxf s = scroll_loop n (auxf + 1) (s\<lparr>video := ?v\<rparr>)" by simp
  also have "\<dots> = Inr ((), s\<lparr>video := rows_up (auxf + 1) n ?v\<rparr>)"
    using Suc.IH [of "auxf + 1" "s\<lparr>video := ?v\<rparr>"] Suc.prems by simp
  also have "rows_up (auxf + 1) n ?v = rows_up auxf (Suc n) (video s)" by (rule rows_up_Suc)
  finally show ?case .
qed

text \<open>\<open>scroll\<close> moves the rows of the window up by one and clears the last.\<close>

definition scrolled :: "int \<Rightarrow> (int \<times> int \<Rightarrow> char) \<Rightarrow> int \<times> int \<Rightarrow> char" where
  "scrolled jst v = (\<lambda>(a, b). if 0 \<le> b \<and> b < 80
    then if a = 24 then CHR '' '' else if jst \<le> a \<and> a < 24 then v (a + 1, b) else v (a, b)
    else v (a, b))"

lemma scroll_video:
  assumes "0 \<le> jStartModule s" and "jStartModule s \<le> 25"
  shows "scroll s = Inr ((), s\<lparr>video := scrolled (jStartModule s) (video s), cur_j := 24, cur_i := iStartModule s\<rparr>)"
proof -
  define k where "k = jStartModule s + 1"
  define n where "n = nat (25 - k)"
  have loop: "scroll_loop n k s = Inr ((), s\<lparr>video := rows_up k n (video s)\<rparr>)"
  proof (cases "jStartModule s \<le> 24")
    case True
    then show ?thesis using assms(1) by (intro scroll_loop_video) (simp_all add: n_def k_def)
  next
    case False
    then have "n = 0" by (simp add: n_def k_def)
    moreover have "rows_up k 0 (video s) = video s" by (rule ext) (auto simp: rows_up_def)
    ultimately show ?thesis by simp
  qed
  have end_row: "blank_row 24 (rows_up k n (video s)) = scrolled (jStartModule s) (video s)"
    using assms by (intro ext) (auto simp: blank_row_def rows_up_def scrolled_def n_def k_def)
  have "scroll s = emodify (\<lambda>s. (clearRow (HEIGHT - 1) s)\<lparr>cur_j := HEIGHT - 1, cur_i := iStartModule s\<rparr>)
      (s\<lparr>video := rows_up k n (video s)\<rparr>)"
    unfolding scroll_def k_def [symmetric] n_def [symmetric] by (rule ebind_Inr) (rule loop)
  then show ?thesis by (simp add: clearRow_video end_row)
qed

section \<open>The cursor\<close>

text \<open>
  The cursor is on the screen, in a column of the window.  Its row may lie above the first row of the window
  (\<open>jStartModule\<close>), since \<open>changeStartModule\<close> sets the column only.
\<close>

definition cursor_ok :: "'a vid_scheme \<Rightarrow> bool" where
  "cursor_ok s \<longleftrightarrow> 0 \<le> iStartModule s \<and> iStartModule s \<le> cur_i s \<and> cur_i s < WIDTH \<and> 0 \<le> cur_j s \<and> cur_j s < HEIGHT \<and>
     0 \<le> jStartModule s \<and> jStartModule s \<le> HEIGHT"

text \<open>Whatever the code does is a function of these fields: the frame of the operations on the screen.\<close>

definition screen_frame :: "'a vid_scheme \<Rightarrow> 'a vid_scheme \<Rightarrow> bool" where
  "screen_frame s t \<longleftrightarrow> (\<exists>R v i j. t = s\<lparr>ram := R, video := v, cur_i := i, cur_j := j\<rparr>)"

lemma screen_frame_intro [intro]: "screen_frame s (s\<lparr>ram := R, video := v, cur_i := i, cur_j := j\<rparr>)"
  unfolding screen_frame_def by blast

lemma screen_frame_fields:
  assumes "screen_frame s t"
  shows "attributes t = attributes s" "iStartModule t = iStartModule s" "jStartModule t = jStartModule s"
    "mouseSelect t = mouseSelect s" "sel_size t = sel_size s" "stopBackWards t = stopBackWards s"
    "procs t = procs s" "slots t = slots s" "current t = current s" "vid.more t = vid.more s"
proof -
  obtain R v i j where "t = s\<lparr>ram := R, video := v, cur_i := i, cur_j := j\<rparr>"
    using assms unfolding screen_frame_def by (elim exE) (rule that)
  then show "attributes t = attributes s" "iStartModule t = iStartModule s" "jStartModule t = jStartModule s"
    "mouseSelect t = mouseSelect s" "sel_size t = sel_size s" "stopBackWards t = stopBackWards s"
    "procs t = procs s" "slots t = slots s" "current t = current s" "vid.more t = vid.more s" by simp_all
qed

lemma screen_frame_trans: "screen_frame s t \<Longrightarrow> screen_frame t u \<Longrightarrow> screen_frame s u"
proof -
  assume "screen_frame s t" "screen_frame t u"
  then obtain R v i j R' v' i' j' where
    t: "t = s\<lparr>ram := R, video := v, cur_i := i, cur_j := j\<rparr>" and u: "u = t\<lparr>ram := R', video := v', cur_i := i', cur_j := j'\<rparr>"
    unfolding screen_frame_def by (elim exE) (rule that)
  have "u = s\<lparr>ram := R', video := v', cur_i := i', cur_j := j'\<rparr>" by (simp add: t u)
  then show ?thesis unfolding screen_frame_def by blast
qed

lemma forwardCursor_cases:
  assumes "cursor_ok s"
  shows "forwardCursor s =
    (if cur_i s = 79
     then if cur_j s = 24
          then Inr ((), updateScreen (s\<lparr>video := scrolled (jStartModule s) (video s), cur_j := 24, cur_i := iStartModule s\<rparr>))
          else Inr ((), s\<lparr>cur_j := cur_j s + 1, cur_i := iStartModule s\<rparr>)
     else Inr ((), s\<lparr>cur_i := cur_i s + 1\<rparr>))"
  using assms by (simp add: forwardCursor_def scroll_video cursor_ok_def)

lemma forwardCursor_ok:
  assumes "cursor_ok s"
  obtains t where "forwardCursor s = Inr ((), t)" and "cursor_ok t" and "screen_frame s t"
proof (cases "cur_i s = 79 \<and> cur_j s = 24")
  case True
  define u where "u = s\<lparr>video := scrolled (jStartModule s) (video s), cur_j := 24, cur_i := iStartModule s\<rparr>"
  have "updateScreen u = s\<lparr>ram := screen_bytes (video u) (attributes u) (ram u), video := scrolled (jStartModule s) (video s),
      cur_i := iStartModule s, cur_j := 24\<rparr>"
    unfolding updateScreen_ram by (simp add: u_def)
  then have "screen_frame s (updateScreen u)" by (simp only: screen_frame_intro)
  moreover have "cursor_ok (updateScreen u)" using assms True by (simp add: cursor_ok_def u_def)
  ultimately show thesis using that forwardCursor_cases [OF assms] True by (simp add: u_def)
next
  case False
  define i where "i = (if cur_i s = 79 then iStartModule s else cur_i s + 1)"
  define j where "j = (if cur_i s = 79 then cur_j s + 1 else cur_j s)"
  have run: "forwardCursor s = Inr ((), s\<lparr>ram := ram s, video := video s, cur_i := i, cur_j := j\<rparr>)"
    using forwardCursor_cases [OF assms] False by (auto simp: i_def j_def)
  have ok: "cursor_ok (s\<lparr>ram := ram s, video := video s, cur_i := i, cur_j := j\<rparr>)"
    using assms False by (auto simp: cursor_ok_def i_def j_def)
  show thesis by (rule that [OF run ok screen_frame_intro])
qed

text \<open>The arrays and the video memory agree.\<close>

definition on_screen :: "'a vid_scheme \<Rightarrow> bool" where
  "on_screen s \<longleftrightarrow> (\<forall>f c. validPosition f c \<longrightarrow> shows_cell (video s) (attributes s) (ram s) f c)"

lemma on_screen_update: "on_screen (updateScreen s)"
  by (simp add: on_screen_def updateScreen_ram screen_bytes_shows)

lemma printChar_at:
  assumes "cursor_ok s"
  shows "printChar (cur_j s) (cur_i s) a DEFAULT s = updateScreen (s\<lparr>video := (video s)((cur_j s, cur_i s) := a)\<rparr>)"
    and "cursor_ok (updateScreen (s\<lparr>video := v\<rparr>))" and "screen_frame s (updateScreen (s\<lparr>video := v\<rparr>))"
proof -
  show "printChar (cur_j s) (cur_i s) a DEFAULT s = updateScreen (s\<lparr>video := (video s)((cur_j s, cur_i s) := a)\<rparr>)"
    using assms by (simp add: printChar_def validPosition_def cursor_ok_def)
  show "cursor_ok (updateScreen (s\<lparr>video := v\<rparr>))" using assms by (simp add: cursor_ok_def)
  have "updateScreen (s\<lparr>video := v\<rparr>) = s\<lparr>ram := screen_bytes v (attributes s) (ram s), video := v, cur_i := cur_i s, cur_j := cur_j s\<rparr>"
    by (simp add: updateScreen_ram)
  then show "screen_frame s (updateScreen (s\<lparr>video := v\<rparr>))" by (simp only: screen_frame_intro)
qed

lemma putChar_ok:
  assumes "cursor_ok s"
  obtains t where "putChar a s = Inr ((), t)" and "cursor_ok t" and "screen_frame s t"
proof -
  define u where "u = updateScreen (s\<lparr>video := (video s)((cur_j s, cur_i s) := a)\<rparr>)"
  have u: "cursor_ok u" "screen_frame s u" using printChar_at(2,3) [OF assms] by (simp_all add: u_def)
  obtain t where t: "forwardCursor u = Inr ((), t)" "cursor_ok t" "screen_frame u t"
    using u(1) by (rule forwardCursor_ok)
  have "putChar a s = Inr ((), t)" using t(1) by (simp add: putChar_def printChar_at(1) [OF assms] u_def)
  with t(2) screen_frame_trans [OF u(2) t(3)] show thesis by (intro that)
qed

text \<open>\<open>lineJump\<close> steps forward cell by cell until the row changes.\<close>

lemma jump_loop_runs:
  assumes "cursor_ok s" and "cur_j s < 24"
  shows "jump_loop (cur_j s + 1) s = Some (Inr ((), s\<lparr>cur_j := cur_j s + 1, cur_i := iStartModule s\<rparr>))"
  using assms
proof (induction "nat (79 - cur_i s)" arbitrary: s rule: less_induct)
  case less
  show ?case
  proof (cases "cur_i s = 79")
    case True
    then show ?thesis
      using forwardCursor_cases [OF less.prems(1)] less.prems(2)
      by (subst jump_loop.simps, simp) (subst jump_loop.simps, simp)
  next
    case False
    define t where "t = s\<lparr>cur_i := cur_i s + 1\<rparr>"
    have step: "forwardCursor s = Inr ((), t)" using forwardCursor_cases [OF less.prems(1)] False by (simp add: t_def)
    have "cursor_ok t" "cur_j t < 24" "nat (79 - cur_i t) < nat (79 - cur_i s)"
      using less.prems False by (auto simp: cursor_ok_def t_def)
    from less.hyps [OF this(3,1,2)] step show ?thesis by (subst jump_loop.simps) (simp add: t_def)
  qed
qed

lemma lineJump_ok:
  assumes "cursor_ok s"
  shows "lineJump s = Inr ((), if cur_j s = 24
    then s\<lparr>video := scrolled (jStartModule s) (video s), cur_j := 24, cur_i := iStartModule s\<rparr>
    else s\<lparr>cur_j := cur_j s + 1, cur_i := iStartModule s\<rparr>)"
proof (cases "cur_j s = 24")
  case True
  then show ?thesis using assms by (simp add: lineJump_def scroll_video cursor_ok_def)
next
  case False
  then have "cur_j s < 24" using assms by (simp add: cursor_ok_def)
  from jump_loop_runs [OF assms this] False show ?thesis by (simp add: lineJump_def loop_outcome_def)
qed

lemma lineJump_keeps:
  assumes "cursor_ok s"
  shows "\<exists>t. lineJump s = Inr ((), t) \<and> cursor_ok t \<and> screen_frame s t"
proof -
  define t where "t = (if cur_j s = 24
    then s\<lparr>ram := ram s, video := scrolled (jStartModule s) (video s), cur_i := iStartModule s, cur_j := 24\<rparr>
    else s\<lparr>ram := ram s, video := video s, cur_i := iStartModule s, cur_j := cur_j s + 1\<rparr>)"
  have "lineJump s = Inr ((), t)" using lineJump_ok [OF assms] by (simp add: t_def)
  moreover have "cursor_ok t" using assms by (auto simp: t_def cursor_ok_def)
  moreover have "screen_frame s t" unfolding t_def by (simp only: screen_frame_intro split: if_split) blast
  ultimately show ?thesis by blast
qed

section \<open>The window as one line of text\<close>

text \<open>The cells from the column \<open>ist\<close> on, row after row, are numbered from 0.\<close>

definition text_cell :: "int \<Rightarrow> int \<Rightarrow> int \<times> int" where
  "text_cell ist k = (k div (80 - ist), ist + k mod (80 - ist))"

definition text_pos :: "'a vid_scheme \<Rightarrow> int" where
  "text_pos s = cur_j s * (80 - iStartModule s) + (cur_i s - iStartModule s)"

lemma text_cell_pos: "cursor_ok s \<Longrightarrow> text_cell (iStartModule s) (text_pos s) = (cur_j s, cur_i s)"
  by (simp add: text_cell_def text_pos_def cursor_ok_def)

lemma text_cell_inject:
  assumes "ist < 80" and "text_cell ist k = text_cell ist l"
  shows "k = l"
proof -
  have "k div (80 - ist) = l div (80 - ist)" "k mod (80 - ist) = l mod (80 - ist)"
    using assms(2) by (simp_all add: text_cell_def)
  then show ?thesis by (metis div_mult_mod_eq)
qed

lemma text_pos_nonneg: "cursor_ok s \<Longrightarrow> 0 \<le> text_pos s"
  by (simp add: text_pos_def cursor_ok_def)

text \<open>One character is written at the position of the cursor, which moves on by one.\<close>

lemma putChar_writes:
  assumes "cursor_ok s" and "text_pos s + 1 < 25 * (80 - iStartModule s)"
  obtains t where "putChar a s = Inr ((), t)" and "cursor_ok t" and "text_pos t = text_pos s + 1"
    and "video t = (video s)(text_cell (iStartModule s) (text_pos s) := a)" and "on_screen t" and "screen_frame s t"
proof -
  define u where "u = updateScreen (s\<lparr>video := (video s)((cur_j s, cur_i s) := a)\<rparr>)"
  have u: "cursor_ok u" "screen_frame s u" using printChar_at(2,3) [OF assms(1)] by (simp_all add: u_def)
  obtain t where t: "forwardCursor u = Inr ((), t)" "cursor_ok t" "screen_frame u t"
    using u(1) by (rule forwardCursor_ok)
  have "\<not> (cur_i u = 79 \<and> cur_j u = 24)"
    using assms(2) by (auto simp: u_def text_pos_def)
  then have cases: "t = (if cur_i u = 79 then u\<lparr>cur_j := cur_j u + 1, cur_i := iStartModule u\<rparr> else u\<lparr>cur_i := cur_i u + 1\<rparr>)"
    using t(1) forwardCursor_cases [OF u(1)] by (auto split: if_splits)
  show thesis
  proof (rule that [OF _ t(2) _ _ _ screen_frame_trans [OF u(2) t(3)]])
    show "putChar a s = Inr ((), t)" using t(1) by (simp add: putChar_def printChar_at(1) [OF assms(1)] u_def)
    show "text_pos t = text_pos s + 1"
      using cases by (auto simp: text_pos_def u_def algebra_simps)
    show "video t = (video s)(text_cell (iStartModule s) (text_pos s) := a)"
      using cases by (auto simp: text_cell_pos [OF assms(1)] u_def)
    have "on_screen u" unfolding u_def by (rule on_screen_update)
    then show "on_screen t" using cases by (auto simp: on_screen_def)
  qed
qed

text \<open>A string written from the position \<open>p\<close> on.\<close>

fun text_put :: "int \<Rightarrow> int \<Rightarrow> string \<Rightarrow> (int \<times> int \<Rightarrow> char) \<Rightarrow> int \<times> int \<Rightarrow> char" where
  "text_put ist p [] v = v"
| "text_put ist p (a # msg) v = text_put ist (p + 1) msg (v(text_cell ist p := a))"

lemma text_put_other:
  "(\<And>k. k < length msg \<Longrightarrow> x \<noteq> text_cell ist (p + int k)) \<Longrightarrow> text_put ist p msg v x = v x"
proof (induction msg arbitrary: p v)
  case (Cons a msg)
  have "x \<noteq> text_cell ist (p + 1 + int k)" if "k < length msg" for k
    using Cons.prems [of "Suc k"] that by (simp add: algebra_simps)
  from Cons.IH [OF this] Cons.prems [of 0] show ?case by simp
qed simp

lemma text_put_nth:
  assumes "ist < 80"
  shows "k < length msg \<Longrightarrow> text_put ist p msg v (text_cell ist (p + int k)) = msg ! k"
proof (induction msg arbitrary: p v k)
  case (Cons a msg)
  show ?case
  proof (cases k)
    case 0
    have "text_cell ist p \<noteq> text_cell ist (p + 1 + int l)" for l
      using text_cell_inject [OF assms, of p "p + 1 + int l"] by auto
    with 0 show ?thesis by (simp add: text_put_other)
  next
    case (Suc l)
    then show ?thesis using Cons.IH [of l "p + 1"] Cons.prems by (simp add: algebra_simps)
  qed
qed simp

lemma printMsgCursor_puts:
  assumes "cursor_ok s" and "text_pos s + int (length msg) < 25 * (80 - iStartModule s)"
  shows "\<exists>t. printMsgCursor msg s = Inr ((), t) \<and> cursor_ok t \<and> text_pos t = text_pos s + int (length msg) \<and>
    video t = text_put (iStartModule s) (text_pos s) msg (video s) \<and> (on_screen s \<or> msg \<noteq> [] \<longrightarrow> on_screen t)"
  using assms
proof (induction msg arbitrary: s)
  case (Cons a msg)
  have "text_pos s + 1 < 25 * (80 - iStartModule s)" using Cons.prems(2) by simp
  from putChar_writes [OF Cons.prems(1) this, of a] obtain t where t: "putChar a s = Inr ((), t)" "cursor_ok t"
      "text_pos t = text_pos s + 1" "video t = (video s)(text_cell (iStartModule s) (text_pos s) := a)" "on_screen t"
      "screen_frame s t" .
  have ist: "iStartModule t = iStartModule s" using screen_frame_fields(2) [OF t(6)] .
  from Cons.IH [OF t(2)] Cons.prems(2) obtain u where "printMsgCursor msg t = Inr ((), u)" "cursor_ok u"
      "text_pos u = text_pos t + int (length msg)"
      "video u = text_put (iStartModule t) (text_pos t) msg (video t)" "on_screen u"
    using t(3,5) ist by auto
  with t ist show ?case by (intro exI [of _ u]) simp
qed simp

section \<open>Properties\<close>

text \<open>A screen with the text of the boot, the window of the shell below row 3.\<close>

definition demo_vid :: vid where
  "demo_vid = pstacks.extend demo_pages \<lparr>video = (\<lambda>_. CHR '' ''), attributes = (\<lambda>_. DEFAULT), cur_i = 78, cur_j = 3,
     mouseSelect = replicate 2000 (CHR 0x00), sel_size = 0, iStartModule = 0, jStartModule = 3, stopBackWards = -1\<rparr>"

lemma demo_vid_cursor: "cursor_ok demo_vid" "text_pos demo_vid = 318" "iStartModule demo_vid = 0" "jStartModule demo_vid = 3"
  by (simp_all add: demo_vid_def cursor_ok_def text_pos_def pstacks.defs)

text \<open>What the screen shows and where the cursor stands one cell further, and one row further.\<close>

definition cell_after :: "'a vid_scheme \<Rightarrow> (int \<times> int \<Rightarrow> char) \<Rightarrow> (int \<times> int \<Rightarrow> char) \<times> int \<times> int" where
  "cell_after s v =
     (if cur_i s < 79 then (v, cur_j s, cur_i s + 1)
      else if cur_j s < 24 then (v, cur_j s + 1, iStartModule s)
      else (scrolled (jStartModule s) v, 24, iStartModule s))"

definition row_after :: "'a vid_scheme \<Rightarrow> (int \<times> int \<Rightarrow> char) \<times> int \<times> int" where
  "row_after s =
     (if cur_j s < 24 then (video s, cur_j s + 1, iStartModule s)
      else (scrolled (jStartModule s) (video s), 24, iStartModule s))"

definition screen_text_at :: "'a vid_scheme \<Rightarrow> (int \<times> int \<Rightarrow> char) \<times> int \<times> int" where
  "screen_text_at s = (video s, cur_j s, cur_i s)"

lemma forwardCursor_shown:
  assumes "cursor_ok s" and "forwardCursor s = Inr ((), t)"
  shows "screen_text_at t = cell_after s (video s)" and "on_screen s \<Longrightarrow> on_screen t"
proof -
  have c: "cur_i s < 79 \<or> cur_i s = 79" "cur_j s < 24 \<or> cur_j s = 24" using assms(1) by (auto simp: cursor_ok_def)
  then show "screen_text_at t = cell_after s (video s)"
    using assms(2) unfolding forwardCursor_cases [OF assms(1)] by (auto simp: cell_after_def screen_text_at_def split: if_splits)
  show "on_screen t" if "on_screen s"
  proof (cases "cur_i s = 79 \<and> cur_j s = 24")
    case True
    then show ?thesis using assms(2) on_screen_update unfolding forwardCursor_cases [OF assms(1)] by auto
  next
    case False
    then show ?thesis using assms(2) that unfolding forwardCursor_cases [OF assms(1)]
      by (auto simp: on_screen_def split: if_splits)
  qed
qed

lemma putChar_shown:
  assumes "cursor_ok s" and "putChar a s = Inr ((), t)"
  shows "screen_text_at t = cell_after s ((video s)((cur_j s, cur_i s) := a))" and "on_screen t"
proof -
  define u where "u = updateScreen (s\<lparr>video := (video s)((cur_j s, cur_i s) := a)\<rparr>)"
  have u: "cursor_ok u" "on_screen u" using printChar_at(2) [OF assms(1)] by (simp_all add: u_def on_screen_update)
  have t: "forwardCursor u = Inr ((), t)" using assms(2) by (simp add: putChar_def printChar_at(1) [OF assms(1)] u_def)
  have "cell_after u (video u) = cell_after s ((video s)((cur_j s, cur_i s) := a))" by (simp add: cell_after_def u_def)
  then show "screen_text_at t = cell_after s ((video s)((cur_j s, cur_i s) := a))" using forwardCursor_shown(1) [OF u(1) t] by simp
  show "on_screen t" by (rule forwardCursor_shown(2) [OF u(1) t u(2)])
qed

lemma lineJump_shown: "cursor_ok s \<Longrightarrow> lineJump s = Inr ((), t) \<Longrightarrow> screen_text_at t = row_after s"
  unfolding lineJump_ok by (auto simp: row_after_def screen_text_at_def cursor_ok_def split: if_splits)

text \<open>The first row of the window is not left upwards.\<close>

lemma next_below:
  assumes "cursor_ok s" and "screen_frame s t" and "jStartModule s \<le> cur_j s" and "screen_text_at t = cell_after s v \<or> screen_text_at t = row_after s"
  shows "jStartModule t \<le> cur_j t"
  using assms(1,3,4) screen_frame_fields(3) [OF assms(2)]
  by (auto simp: cell_after_def row_after_def screen_text_at_def cursor_ok_def split: if_splits)

text \<open>C24. The cursor and scrolling.  From every state with the cursor on the screen and in the columns of the window, \<open>putChar\<close>
  writes the cell under the cursor and goes one cell on, \<open>forwardCursor\<close> goes one cell on and \<open>lineJump\<close> to the next row.
  Behind the last cell, and below the last row, the rows of the window move up by one, the last is blank, the rows above the
  window stay, and the cursor is at the start of the last row.  The cursor stays in the columns of the window and on the
  screen, and below the first row of the window if it was; nothing but the text, the video memory and the cursor
  changes; and after \<open>putChar\<close> the video memory shows the text.
\<close>

theorem cursor_stays:
  assumes "cursor_ok s"
  shows "(\<exists>t. putChar a s = Inr ((), t) \<and> cursor_ok t \<and> screen_frame s t \<and> on_screen t \<and>
      screen_text_at t = cell_after s ((video s)((cur_j s, cur_i s) := a)) \<and> (jStartModule s \<le> cur_j s \<longrightarrow> jStartModule t \<le> cur_j t)) \<and>
    (\<exists>t. lineJump s = Inr ((), t) \<and> cursor_ok t \<and> screen_frame s t \<and>
      screen_text_at t = row_after s \<and> (jStartModule s \<le> cur_j s \<longrightarrow> jStartModule t \<le> cur_j t)) \<and>
    (\<exists>t. forwardCursor s = Inr ((), t) \<and> cursor_ok t \<and> screen_frame s t \<and>
      screen_text_at t = cell_after s (video s) \<and> (jStartModule s \<le> cur_j s \<longrightarrow> jStartModule t \<le> cur_j t)) \<and>
    cursor_ok (backInLine s) \<and> cur_j (backInLine s) = cur_j s"
proof (intro conjI)
  obtain t where t: "putChar a s = Inr ((), t)" "cursor_ok t" "screen_frame s t" by (rule putChar_ok [OF assms, of a])
  then show "\<exists>t. putChar a s = Inr ((), t) \<and> cursor_ok t \<and> screen_frame s t \<and> on_screen t \<and>
      screen_text_at t = cell_after s ((video s)((cur_j s, cur_i s) := a)) \<and> (jStartModule s \<le> cur_j s \<longrightarrow> jStartModule t \<le> cur_j t)"
    using putChar_shown [OF assms t(1)] next_below [OF assms t(3)] by metis
  obtain u where u: "forwardCursor s = Inr ((), u)" "cursor_ok u" "screen_frame s u" by (rule forwardCursor_ok [OF assms])
  then show "\<exists>t. forwardCursor s = Inr ((), t) \<and> cursor_ok t \<and> screen_frame s t \<and>
      screen_text_at t = cell_after s (video s) \<and> (jStartModule s \<le> cur_j s \<longrightarrow> jStartModule t \<le> cur_j t)"
    using forwardCursor_shown(1) [OF assms u(1)] next_below [OF assms u(3)] by metis
  obtain w where w: "lineJump s = Inr ((), w)" "cursor_ok w" "screen_frame s w" using lineJump_keeps [OF assms] by blast
  then show "\<exists>t. lineJump s = Inr ((), t) \<and> cursor_ok t \<and> screen_frame s t \<and>
      screen_text_at t = row_after s \<and> (jStartModule s \<le> cur_j s \<longrightarrow> jStartModule t \<le> cur_j t)"
    using lineJump_shown [OF assms w(1)] next_below [OF assms w(3)] by metis
  show "cursor_ok (backInLine s)" "cur_j (backInLine s) = cur_j s" using assms by (auto simp: backInLine_def cursor_ok_def)
qed

theorem cursor_stays_witness:
  "\<exists>t. putChar (CHR ''a'') (demo_vid\<lparr>cur_i := 79, cur_j := 24\<rparr>) = Inr ((), t) \<and> cursor_ok t \<and> jStartModule t \<le> cur_j t \<and>
    video t (24, 0) = CHR '' ''"
proof -
  have "cursor_ok (demo_vid\<lparr>cur_i := 79, cur_j := 24\<rparr>)"
    using demo_vid_cursor by (simp add: cursor_ok_def)
  from cursor_stays [OF this, of "CHR ''a''"] show ?thesis
    by (auto simp: screen_text_at_def cell_after_def scrolled_def demo_vid_cursor)
qed

text \<open>C25. As long as a text ends before the last cell of the window, \<open>printMsgCursor\<close> writes it into the
  cells from the cursor on, over the ends of the rows, changes no other cell, leaves the cursor
  behind it, and the video memory shows the result.\<close>

theorem printMsgCursor_writes:
  assumes "cursor_ok s" and "text_pos s + int (length msg) < 25 * (80 - iStartModule s)" and "msg \<noteq> []"
  shows "\<exists>t. printMsgCursor msg s = Inr ((), t) \<and> cursor_ok t \<and> text_pos t = text_pos s + int (length msg) \<and>
    (\<forall>k<length msg. video t (text_cell (iStartModule s) (text_pos s + int k)) = msg ! k) \<and>
    (\<forall>x. (\<forall>k<length msg. x \<noteq> text_cell (iStartModule s) (text_pos s + int k)) \<longrightarrow> video t x = video s x) \<and>
    on_screen t"
proof -
  obtain t where t: "printMsgCursor msg s = Inr ((), t)" "cursor_ok t" "text_pos t = text_pos s + int (length msg)"
      "video t = text_put (iStartModule s) (text_pos s) msg (video s)" "on_screen t"
    using printMsgCursor_puts [OF assms(1,2)] assms(3) by blast
  have "iStartModule s < 80" using assms(1) by (simp add: cursor_ok_def)
  then show ?thesis using t text_put_nth text_put_other by (intro exI [of _ t]) simp
qed

theorem printMsgCursor_writes_witness:
  "\<exists>t. printMsgCursor ''hello'' demo_vid = Inr ((), t) \<and> text_pos t = 323 \<and>
    video t (3, 78) = CHR ''h'' \<and> video t (4, 0) = CHR ''l''"
proof -
  obtain t where t: "printMsgCursor ''hello'' demo_vid = Inr ((), t)" "text_pos t = 318 + 5"
      "\<forall>k<5. video t (text_cell 0 (318 + int k)) = ''hello'' ! k"
    using printMsgCursor_writes [of demo_vid "''hello''"] demo_vid_cursor by auto
  have "video t (text_cell 0 (318 + int 0)) = ''hello'' ! 0" "video t (text_cell 0 (318 + int 2)) = ''hello'' ! 2"
    using t(3) [rule_format, of 0] t(3) [rule_format, of 2] by simp_all
  with t(1,2) show ?thesis by (simp add: text_cell_def)
qed

text \<open>\<open>changeStartModule\<close> accepts the column 80, behind the last one: then \<open>lineJump\<close> never ends, except
  in the last row, and every character is lost.\<close>

theorem changeStartModule_loses_cursor:
  assumes "3 \<le> c" and "c \<le> HEIGHT" and "cur_j s \<noteq> HEIGHT - 1"
  shows "lineJump (changeStartModule 80 c s) = Inl Diverges \<and>
    video (printChar (cur_j s) (cur_i (changeStartModule 80 c s)) a DEFAULT (changeStartModule 80 c s)) = video s"
proof -
  have "80 \<le> cur_i u \<longrightarrow> cur_j u = aux" if "jump_loop aux u = Some r" for aux r and u :: "'a vid_scheme"
  proof (rule jump_loop.raw_induct [where P = "\<lambda>aux u r. 80 \<le> cur_i u \<longrightarrow> cur_j u = aux", OF _ that], intro impI)
    fix f aux r and u :: "'a vid_scheme"
    assume IH: "\<And>aux u r. f aux u = Some r \<Longrightarrow> 80 \<le> cur_i u \<longrightarrow> cur_j u = aux"
      and body: "(if cur_j u = aux then Some (Inr ((), u))
        else case forwardCursor u of Inl e \<Rightarrow> Some (Inl e) | Inr (_, s) \<Rightarrow> f aux s) = Some r" and i: "80 \<le> cur_i u"
    show "cur_j u = aux"
    proof (rule ccontr)
      assume "cur_j u \<noteq> aux"
      then have "f aux (u\<lparr>cur_i := cur_i u + 1\<rparr>) = Some r" using body i by (simp add: forwardCursor_def)
      from IH [OF this] i \<open>cur_j u \<noteq> aux\<close> show False by simp
    qed
  qed
  from this [of "cur_j s + 1" "changeStartModule 80 c s"]
  have "jump_loop (cur_j s + 1) (changeStartModule 80 c s) = None"
    using assms by (cases "jump_loop (cur_j s + 1) (changeStartModule 80 c s)") (simp_all add: changeStartModule_def)
  then show ?thesis
    using assms by (simp add: lineJump_def loop_outcome_def changeStartModule_def printChar_def validPosition_def)
qed

theorem changeStartModule_loses_cursor_witness:
  "lineJump (changeStartModule 80 3 demo_vid) = Inl Diverges"
  using changeStartModule_loses_cursor [of 3 demo_vid] by (simp add: demo_vid_def pstacks.defs)

end
