(* ===== verification/Terminal.thy ===== *)
theory Terminal
  imports Video RingBuffer
begin

text \<open>
  The input buffer of Kernel/terminal.c: a ring of 2500 characters the keyboard writes and the system
  call \<open>read\<close> empties, with the echo on the screen; and \<open>paste\<close> of Kernel/video.c, which types the
  selection of the mouse.  The pointers into the array are offsets from its start.  \<open>intr\<close> is the
  interrupt flag that \<open>cli\<close> and \<open>sti\<close> set.

  The lemmas show that the buffer is a first-in first-out queue of at most 2499 characters, and what
  the 2500th does.
\<close>

section \<open>State\<close>

abbreviation (input) BUFFERSIZE :: int where
  "BUFFERSIZE \<equiv> 2500"

record tty = vid +
  Buffer :: "int \<Rightarrow> char"
  bufferConsume :: int
  bufferPosition :: int
  bufferStart :: int
  bufferSize :: int
  isEcho :: bool
  intr :: bool

definition cli :: "'a tty_scheme \<Rightarrow> 'a tty_scheme" where
  "cli s = s\<lparr>intr := False\<rparr>"

definition sti :: "'a tty_scheme \<Rightarrow> 'a tty_scheme" where
  "sti s = s\<lparr>intr := True\<rparr>"

text \<open>Reads and writes through a pointer into the array.\<close>

definition buffer_at :: "int \<Rightarrow> ('a tty_scheme, char) eprog" where
  "buffer_at p s = (if 0 \<le> p \<and> p < BUFFERSIZE then Inr (Buffer s p, s) else Inl OutOfBounds)"

definition set_buffer :: "int \<Rightarrow> char \<Rightarrow> ('a tty_scheme, unit) eprog" where
  "set_buffer p c s = (if 0 \<le> p \<and> p < BUFFERSIZE then Inr ((), s\<lparr>Buffer := (Buffer s)(p := c)\<rparr>) else Inl OutOfBounds)"

section \<open>Operations\<close>

text \<open>Both tests disable the interrupts and return before they could enable them again.\<close>

definition isBufferFull :: "('a tty_scheme, bool) eprog" where
  "isBufferFull s =
     (let t = cli s in
      Inr (bufferConsume t = bufferPosition t + 1 \<or>
           bufferConsume t = bufferStart t + bufferSize t \<and> bufferPosition t = bufferStart t, t))"

definition isBufferEmpty :: "('a tty_scheme, bool) eprog" where
  "isBufferEmpty s = (let t = cli s in Inr (bufferConsume t = bufferPosition t, t))"

definition echoON :: "'a tty_scheme \<Rightarrow> 'a tty_scheme" where
  "echoON s = s\<lparr>isEcho := True\<rparr>"

definition echoOF :: "'a tty_scheme \<Rightarrow> 'a tty_scheme" where
  "echoOF s = s\<lparr>isEcho := False\<rparr>"

definition terminalInitializeC :: "'a tty_scheme \<Rightarrow> 'a tty_scheme" where
  "terminalInitializeC s = s\<lparr>bufferConsume := 0, bufferStart := 0, bufferPosition := 0, bufferSize := BUFFERSIZE, isEcho := True\<rparr>"

text \<open>What a character does on the screen.\<close>

definition echo_char :: "char \<Rightarrow> ('a tty_scheme, unit) eprog" where
  "echo_char c s =
     (if c = CHR 0x08
      then ebind (emodify backInLine) (\<lambda>_. ebind (putChar (CHR '' '')) (\<lambda>_. emodify backInLine)) s
      else if c = CHR 0x0A then lineJump s
      else if isEcho s then ebind (buffer_at (bufferPosition s)) putChar s
      else Inr ((), s))"

definition putTerminalBuffer :: "char \<Rightarrow> ('a tty_scheme, unit) eprog" where
  "putTerminalBuffer c =
     ebind isBufferFull (\<lambda>full.
     if full then emodify sti
     else ebind (emodify cli) (\<lambda>_ s.
          ebind (set_buffer (bufferPosition s) c) (\<lambda>_.
          ebind (echo_char c) (\<lambda>_.
          ebind (emodify (\<lambda>s. s\<lparr>bufferPosition := bufferPosition s + 1\<rparr>)) (\<lambda>_.
          ebind (emodify (\<lambda>s. if bufferPosition s = bufferStart s + bufferSize s
                               then s\<lparr>bufferPosition := bufferStart s\<rparr> else s)) (\<lambda>_.
          emodify sti)))) s))"

text \<open>The loop of \<open>getTerminalBuffer\<close>: at most \<open>n\<close> characters, and how many they were.\<close>

fun get_loop :: "nat \<Rightarrow> addr \<Rightarrow> ('a tty_scheme, int) eprog" where
  "get_loop 0 buffer = ereturn 0"
| "get_loop (Suc n) buffer =
     ebind isBufferEmpty (\<lambda>e.
     if e then ereturn 0
     else ebind (\<lambda>s. buffer_at (bufferConsume s) s) (\<lambda>c.
          ebind (emodify (\<lambda>s. s\<lparr>ram := (ram s)(buffer := byte_of c), bufferConsume := bufferConsume s + 1\<rparr>)) (\<lambda>_.
          ebind (emodify (\<lambda>s. if bufferConsume s = bufferStart s + bufferSize s
                               then s\<lparr>bufferConsume := bufferStart s\<rparr> else s)) (\<lambda>_.
          ebind (get_loop n (buffer + 1)) (\<lambda>k. ereturn (k + 1))))))"

definition getTerminalBuffer :: "addr \<Rightarrow> 32 word \<Rightarrow> ('a tty_scheme, int) eprog" where
  "getTerminalBuffer buffer len =
     ebind (emodify cli) (\<lambda>_.
     ebind (get_loop (unat len) buffer) (\<lambda>charsConsume.
     ebind (emodify sti) (\<lambda>_. ereturn charsConsume)))"

definition resetBuffer :: "'a tty_scheme \<Rightarrow> 'a tty_scheme" where
  "resetBuffer s = s\<lparr>bufferPosition := bufferStart s, bufferConsume := bufferStart s\<rparr>"

text \<open>\<open>paste\<close> of Kernel/video.c.\<close>

fun paste_loop :: "nat \<Rightarrow> nat \<Rightarrow> ('a tty_scheme, unit) eprog" where
  "paste_loop 0 h = ereturn ()"
| "paste_loop (Suc n) h =
     ebind (\<lambda>s. if h < length (mouseSelect s) then Inr (mouseSelect s ! h, s) else Inl OutOfBounds) (\<lambda>c.
     ebind (putTerminalBuffer c) (\<lambda>_. paste_loop n (h + 1)))"

definition paste :: "('a tty_scheme, unit) eprog" where
  "paste s = paste_loop (nat (sel_size s)) 0 s"

section \<open>The buffer as a queue\<close>

definition tty_is :: "'a tty_scheme \<Rightarrow> string \<Rightarrow> bool" where
  "tty_is s xs \<longleftrightarrow> bufferStart s = 0 \<and> bufferSize s = BUFFERSIZE \<and>
     0 \<le> bufferConsume s \<and> bufferConsume s < BUFFERSIZE \<and> 0 \<le> bufferPosition s \<and> bufferPosition s < BUFFERSIZE \<and>
     int (length xs) = (bufferPosition s - bufferConsume s) mod BUFFERSIZE \<and>
     xs = ringseq (Buffer s) 0 BUFFERSIZE (bufferConsume s) (length xs)"

lemma screen_frame_tty:
  assumes "screen_frame s t"
  shows "Buffer t = Buffer s" "bufferConsume t = bufferConsume s" "bufferPosition t = bufferPosition s"
    "bufferStart t = bufferStart s" "bufferSize t = bufferSize s" "isEcho t = isEcho s"
proof -
  obtain R v i j where "t = s\<lparr>ram := R, video := v, cur_i := i, cur_j := j\<rparr>"
    using assms unfolding screen_frame_def by (elim exE) (rule that)
  then show "Buffer t = Buffer s" "bufferConsume t = bufferConsume s" "bufferPosition t = bufferPosition s"
    "bufferStart t = bufferStart s" "bufferSize t = bufferSize s" "isEcho t = isEcho s" by simp_all
qed

lemma screen_frame_refl: "screen_frame s s"
proof -
  have "s = s\<lparr>ram := ram s, video := video s, cur_i := cur_i s, cur_j := cur_j s\<rparr>" by simp
  then show ?thesis unfolding screen_frame_def by blast
qed

lemma backInLine_frame: "screen_frame s (backInLine s)"
proof -
  define i where "i = (if cur_i s = iStartModule s then cur_i s else cur_i s - 1)"
  have "backInLine s = s\<lparr>ram := ram s, video := video s, cur_i := i, cur_j := cur_j s\<rparr>"
    by (simp add: backInLine_def i_def)
  then show ?thesis unfolding screen_frame_def by blast
qed

lemma echo_char_ok:
  assumes "cursor_ok s" and "0 \<le> bufferPosition s" and "bufferPosition s < BUFFERSIZE"
  obtains t where "echo_char c s = Inr ((), t)" and "cursor_ok t" and "screen_frame s t"
proof -
  consider "c = CHR 0x08" | "c = CHR 0x0A" | "c \<noteq> CHR 0x08" "c \<noteq> CHR 0x0A" "isEcho s"
    | "c \<noteq> CHR 0x08" "c \<noteq> CHR 0x0A" "\<not> isEcho s" by blast
  then show thesis
  proof cases
    case 1
    have b: "cursor_ok (backInLine s)" using assms(1) by (auto simp: backInLine_def cursor_ok_def)
    obtain t where t: "putChar (CHR '' '') (backInLine s) = Inr ((), t)" "cursor_ok t" "screen_frame (backInLine s) t"
      using putChar_ok [OF b] .
    have "echo_char c s = Inr ((), backInLine t)" using 1 t(1) by (simp add: echo_char_def)
    moreover have "cursor_ok (backInLine t)" using t(2) by (auto simp: backInLine_def cursor_ok_def)
    moreover have "screen_frame s (backInLine t)"
      using backInLine_frame t(3) screen_frame_trans by metis
    ultimately show thesis by (rule that)
  next
    case 2
    then have "echo_char c s = lineJump s" by (simp add: echo_char_def)
    then show thesis using lineJump_keeps [OF assms(1)] that by metis
  next
    case 3
    then have "echo_char c s = putChar (Buffer s (bufferPosition s)) s"
      using assms(2,3) by (simp add: echo_char_def buffer_at_def)
    then show thesis using putChar_ok [OF assms(1)] that by metis
  next
    case 4
    then have "echo_char c s = Inr ((), s)" by (simp add: echo_char_def)
    then show thesis using assms(1) screen_frame_refl by (rule that)
  qed
qed

text \<open>The position is the cell behind the last character.\<close>

lemma tty_position:
  assumes "tty_is s xs"
  shows "bufferPosition s = (bufferConsume s + int (length xs)) mod BUFFERSIZE" and "length xs < 2500"
proof -
  have p: "0 \<le> bufferPosition s" "bufferPosition s < 2500"
    "int (length xs) = (bufferPosition s - bufferConsume s) mod 2500" using assms by (simp_all add: tty_is_def)
  show "bufferPosition s = (bufferConsume s + int (length xs)) mod BUFFERSIZE"
    unfolding p(3) using p(1,2) by (simp add: mod_add_right_eq)
  have "int (length xs) < 2500" unfolding p(3) by simp
  then show "length xs < 2500" by simp
qed

text \<open>The full test misses one case: the reader at the first cell, the writer at the last.\<close>

lemma isBufferFull_iff:
  assumes "tty_is s xs"
  shows "isBufferFull s = Inr (length xs = 2499 \<and> bufferConsume s \<noteq> 0, cli s)"
proof -
  have s: "0 \<le> bufferConsume s" "bufferConsume s < 2500" "bufferStart s = 0" "bufferSize s = 2500"
      "0 \<le> bufferPosition s" "bufferPosition s < 2500" "int (length xs) = (bufferPosition s - bufferConsume s) mod 2500"
    using assms by (simp_all add: tty_is_def)
  have "bufferConsume s = bufferPosition s + 1 \<longleftrightarrow> length xs = 2499 \<and> bufferConsume s \<noteq> 0"
  proof
    assume c: "bufferConsume s = bufferPosition s + 1"
    then have "int (length xs) = 2499" unfolding s(7) by simp
    then show "length xs = 2499 \<and> bufferConsume s \<noteq> 0" using c s(5) by simp
  next
    assume c: "length xs = 2499 \<and> bufferConsume s \<noteq> 0"
    then have "bufferPosition s = (bufferConsume s + 2499) mod 2500" using tty_position(1) [OF assms] by simp
    also have "\<dots> = bufferConsume s - 1"
    proof -
      have "bufferConsume s + 2499 = bufferConsume s - 1 + 2500" by simp
      then have "(bufferConsume s + 2499) mod 2500 = (bufferConsume s - 1) mod 2500" by (metis mod_add_self2)
      then show ?thesis using c s(1,2) by simp
    qed
    finally show "bufferConsume s = bufferPosition s + 1" by simp
  qed
  then show ?thesis using s by (auto simp: isBufferFull_def Let_def cli_def)
qed

text \<open>What \<open>putTerminalBuffer\<close> does when the test lets it pass.\<close>

lemma put_passes:
  assumes "cursor_ok s" and "tty_is s xs" and "\<not> (length xs = 2499 \<and> bufferConsume s \<noteq> 0)"
  obtains t where "putTerminalBuffer c s = Inr ((), t)" and "cursor_ok t" and "intr t"
    and "Buffer t = (Buffer s)(bufferPosition s := c)" and "bufferPosition t = (bufferPosition s + 1) mod 2500"
    and "bufferConsume t = bufferConsume s" and "bufferStart t = 0" and "bufferSize t = 2500"
proof -
  have s: "bufferStart s = 0" "bufferSize s = 2500" "0 \<le> bufferPosition s" "bufferPosition s < 2500"
    using assms(2) by (simp_all add: tty_is_def)
  define u where "u = s\<lparr>intr := False, Buffer := (Buffer s)(bufferPosition s := c)\<rparr>"
  have "cursor_ok u" using assms(1) by (simp add: u_def cursor_ok_def)
  moreover have "0 \<le> bufferPosition u" "bufferPosition u < BUFFERSIZE" using s by (simp_all add: u_def)
  ultimately obtain v where v: "echo_char c u = Inr ((), v)" "cursor_ok v" "screen_frame u v"
    by (rule echo_char_ok)
  note same = screen_frame_tty [OF v(3)]
  define p where "p = (bufferPosition s + 1) mod 2500"
  define t where "t = v\<lparr>bufferPosition := p, intr := True\<rparr>"
  have full: "isBufferFull s = Inr (False, cli s)"
    using isBufferFull_iff [OF assms(2)] assms(3) by simp
  have set: "set_buffer (bufferPosition (cli s)) c (cli s) = Inr ((), u)"
    using s by (simp add: set_buffer_def cli_def u_def)
  have p: "p = (if bufferPosition s + 1 = 2500 then 0 else bufferPosition s + 1)"
    using s by (simp add: p_def)
  have "putTerminalBuffer c s = Inr ((), t)"
    using full set v(1) same s
    by (simp add: putTerminalBuffer_def ebind_def cli_def sti_def t_def p u_def)
  moreover have "cursor_ok t" using v(2) by (simp add: t_def cursor_ok_def)
  ultimately show thesis
    by (rule that) (use same s in \<open>simp_all add: t_def p_def u_def\<close>)
qed

lemma put_room:
  assumes "cursor_ok s" and "tty_is s xs" and "length xs < 2499"
  obtains t where "putTerminalBuffer c s = Inr ((), t)" and "cursor_ok t" and "tty_is t (xs @ [c])" and "intr t"
proof -
  have "\<not> (length xs = 2499 \<and> bufferConsume s \<noteq> 0)" using assms(3) by simp
  from put_passes [OF assms(1,2) this, of c] obtain t where t: "putTerminalBuffer c s = Inr ((), t)" "cursor_ok t" "intr t"
    "Buffer t = (Buffer s)(bufferPosition s := c)" "bufferPosition t = (bufferPosition s + 1) mod 2500"
    "bufferConsume t = bufferConsume s" "bufferStart t = 0" "bufferSize t = 2500" .
  have s: "0 \<le> bufferConsume s" "bufferConsume s < 2500" "xs = ringseq (Buffer s) 0 2500 (bufferConsume s) (length xs)"
    using assms(2) by (simp_all add: tty_is_def)
  have pos: "bufferPosition s = cell 0 2500 (bufferConsume s + int (length xs))"
    using tty_position(1) [OF assms(2)] by (simp add: cell_def)
  have "ringseq (Buffer t) 0 2500 (bufferConsume t) (Suc (length xs)) = xs @ [c]"
    unfolding t(4,6) pos using ringseq_push [of "length xs" 2500 "Buffer s" 0 "bufferConsume s" c] s(3) assms(3) by simp
  moreover have "(bufferPosition t - bufferConsume t) mod 2500 = int (length xs) + 1"
  proof -
    have "(bufferPosition t - bufferConsume t) mod 2500 = (bufferConsume s + int (length xs) + 1 - bufferConsume s) mod 2500"
      unfolding t(5,6) tty_position(1) [OF assms(2)] by (simp add: mod_simps)
    then show ?thesis using assms(3) by simp
  qed
  ultimately have "tty_is t (xs @ [c])" using t s by (simp add: tty_is_def)
  with t(1-3) show thesis by (intro that)
qed

text \<open>Reading takes from the front and stores in the memory of the caller.\<close>

definition stored :: "addr \<Rightarrow> string \<Rightarrow> (addr \<Rightarrow> 8 word) \<Rightarrow> (addr \<Rightarrow> 8 word) \<Rightarrow> bool" where
  "stored a cs m m' \<longleftrightarrow> (\<forall>k<length cs. m' (a + int k) = byte_of (cs ! k)) \<and>
     (\<forall>b. b < a \<or> a + int (length cs) \<le> b \<longrightarrow> m' b = m b)"

lemma stored_Cons: "stored (a + 1) cs (m(a := byte_of c)) m' \<Longrightarrow> stored a (c # cs) m m'"
  unfolding stored_def by (auto simp: nth_Cons' less_Suc_eq_0_disj algebra_simps)

lemma tty_take_first:
  assumes "tty_is s (c # cs)"
  defines "t \<equiv> s\<lparr>bufferConsume := (bufferConsume s + 1) mod 2500\<rparr>"
  shows "Buffer s (bufferConsume s) = c" and "tty_is t cs"
proof -
  have s: "0 \<le> bufferConsume s" "bufferConsume s < 2500"
      "c # cs = ringseq (Buffer s) 0 2500 (bufferConsume s) (Suc (length cs))"
      "int (Suc (length cs)) = (bufferPosition s - bufferConsume s) mod 2500"
    using assms(1) by (simp_all add: tty_is_def)
  have "(c # cs) ! 0 = Buffer s (cell 0 2500 (bufferConsume s + int 0))"
    unfolding s(3) by (rule ringseq_nth) simp
  then show "Buffer s (bufferConsume s) = c" using s(1,2) by (simp add: cell_def)
  have "cs = ringseq (Buffer s) 0 2500 (bufferConsume s + 1) (length cs)"
    using ringseq_drop [of 1 "Suc (length cs)" "Buffer s" 0 2500 "bufferConsume s"] s(3) by (metis One_nat_def
      diff_Suc_1 drop0 drop_Suc_Cons le_add1 of_nat_1 plus_1_eq_Suc)
  moreover have "(bufferPosition s - (bufferConsume s + 1) mod 2500) mod 2500 = int (length cs)"
  proof -
    have "(bufferPosition s - (bufferConsume s + 1) mod 2500) mod 2500 = ((bufferPosition s - bufferConsume s) mod 2500 - 1) mod 2500"
      by (simp add: mod_simps algebra_simps)
    also have "\<dots> = int (length cs) mod 2500" unfolding s(4) [symmetric] by simp
    also have "\<dots> = int (length cs)" using tty_position(2) [OF assms(1)] by simp
    finally show ?thesis .
  qed
  ultimately show "tty_is t cs" using assms(1) unfolding tty_is_def t_def by simp
qed

lemma get_loop_takes:
  assumes "tty_is s xs"
  shows "\<exists>t. get_loop n a s = Inr (int (length (take n xs)), t) \<and> tty_is t (drop n xs) \<and>
    stored a (take n xs) (ram s) (ram t) \<and> cursor_ok t = cursor_ok s"
  using assms
proof (induction n arbitrary: s a xs)
  case 0
  then show ?case by (simp add: stored_def)
next
  case (Suc n)
  show ?case
  proof (cases xs)
    case Nil
    then have "bufferConsume s = bufferPosition s"
      using tty_position(1) [OF Suc.prems] Suc.prems by (simp add: tty_is_def)
    then have "get_loop (Suc n) a s = Inr (0, cli s)"
      by (simp add: isBufferEmpty_def Let_def cli_def ebind_def)
    moreover have "tty_is (cli s) []" using Suc.prems Nil by (simp add: tty_is_def cli_def)
    ultimately show ?thesis using Nil by (simp add: stored_def cli_def cursor_ok_def)
  next
    case (Cons c cs)
    then have first: "Buffer s (bufferConsume s) = c"
        "tty_is (s\<lparr>bufferConsume := (bufferConsume s + 1) mod 2500\<rparr>) cs"
      using tty_take_first Suc.prems by auto
    have s: "0 \<le> bufferConsume s" "bufferConsume s < 2500" "bufferStart s = 0" "bufferSize s = 2500"
        "bufferConsume s \<noteq> bufferPosition s"
      using Suc.prems Cons by (auto simp: tty_is_def)
    define t where "t = s\<lparr>intr := False, ram := (ram s)(a := byte_of c), bufferConsume := (bufferConsume s + 1) mod 2500\<rparr>"
    have next_cell: "(bufferConsume s + 1) mod 2500 = (if bufferConsume s + 1 = 2500 then 0 else bufferConsume s + 1)"
      using s by simp
    have "tty_is t cs" using first(2) by (simp add: tty_is_def t_def)
    from Suc.IH [OF this, of "a + 1"] obtain u where
      u: "get_loop n (a + 1) t = Inr (int (length (take n cs)), u)" "tty_is u (drop n cs)"
        "stored (a + 1) (take n cs) (ram t) (ram u)" "cursor_ok u = cursor_ok t" by blast
    have "get_loop (Suc n) a s = Inr (int (length (take n cs)) + 1, u)"
      using u(1) s first(1) unfolding t_def next_cell
      by (cases "bufferConsume s + 1 = 2500")
        (simp_all add: isBufferEmpty_def Let_def cli_def ebind_def buffer_at_def)
    moreover have "stored a (take (Suc n) xs) (ram s) (ram u)"
      using u(3) Cons by (simp add: t_def stored_Cons)
    moreover have "cursor_ok t = cursor_ok s" by (simp add: t_def cursor_ok_def)
    ultimately show ?thesis using u(2,4) Cons by (intro exI [of _ u]) simp
  qed
qed

text \<open>Characters that arrive one after the other.\<close>

fun type_all :: "string \<Rightarrow> ('a tty_scheme, unit) eprog" where
  "type_all [] = ereturn ()"
| "type_all (c # cs) = ebind (putTerminalBuffer c) (\<lambda>_. type_all cs)"

lemma type_all_room:
  assumes "cursor_ok s" and "tty_is s xs" and "length xs + length cs \<le> 2499"
  shows "\<exists>t. type_all cs s = Inr ((), t) \<and> cursor_ok t \<and> tty_is t (xs @ cs)"
  using assms
proof (induction cs arbitrary: s xs)
  case (Cons c cs)
  have "length xs < 2499" using Cons.prems(3) by simp
  from put_room [OF Cons.prems(1,2) this, of c] obtain t where
    t: "putTerminalBuffer c s = Inr ((), t)" "cursor_ok t" "tty_is t (xs @ [c])" by blast
  from Cons.IH [OF t(2,3)] Cons.prems(3) t(1) show ?case by simp
qed auto

section \<open>Properties\<close>

definition demo_tty :: tty where
  "demo_tty = vid.extend demo_vid \<lparr>Buffer = (\<lambda>_. CHR 0x00), bufferConsume = 2498, bufferPosition = 2498,
     bufferStart = 0, bufferSize = 2500, isEcho = True, intr = True\<rparr>"

lemma demo_tty_ok: "cursor_ok demo_tty" "tty_is demo_tty []"
  using demo_vid_cursor(1) by (simp_all add: demo_tty_def cursor_ok_def tty_is_def vid.defs ringseq_def)

text \<open>C26. The terminal is a first-in first-out buffer: what was waiting and what is typed, up to 2499
  characters in all, is what \<open>getTerminalBuffer\<close> stores in the caller's memory, as much of it as the
  caller asked for; it returns how many that were and leaves the rest, and interrupts are on again.\<close>

theorem typed_then_read:
  assumes "cursor_ok s" and "tty_is s xs" and "length xs + length cs \<le> 2499"
  shows "\<exists>t u. type_all cs s = Inr ((), t) \<and>
    getTerminalBuffer a n t = Inr (int (length (take (unat n) (xs @ cs))), u) \<and>
    tty_is u (drop (unat n) (xs @ cs)) \<and> stored a (take (unat n) (xs @ cs)) (ram t) (ram u) \<and> intr u"
proof -
  obtain t where t: "type_all cs s = Inr ((), t)" "tty_is t (xs @ cs)"
    using type_all_room [OF assms] by blast
  then have "tty_is (cli t) (xs @ cs)" by (simp add: tty_is_def cli_def)
  from get_loop_takes [OF this, of "unat n" a] obtain u where
    u: "get_loop (unat n) a (cli t) = Inr (int (length (take (unat n) (xs @ cs))), u)" "tty_is u (drop (unat n) (xs @ cs))"
      "stored a (take (unat n) (xs @ cs)) (ram (cli t)) (ram u)" by blast
  have "getTerminalBuffer a n t = Inr (int (length (take (unat n) (xs @ cs))), sti u)"
    using u(1) by (simp add: getTerminalBuffer_def ebind_def)
  moreover have "tty_is (sti u) (drop (unat n) (xs @ cs))" using u(2) by (simp add: tty_is_def sti_def)
  ultimately show ?thesis using t(1) u(3) by (intro exI [of _ t] exI [of _ "sti u"]) (simp add: cli_def sti_def)
qed

theorem typed_then_read_witness:
  "\<exists>t u. type_all ''ls-l'' demo_tty = Inr ((), t) \<and> getTerminalBuffer 0x900 3 t = Inr (3, u) \<and>
    tty_is u ''l'' \<and> stored 0x900 ''ls-'' (ram t) (ram u)"
  using typed_then_read [OF demo_tty_ok, where cs = "''ls-l''" and a = "0x900" and n = 3] by auto

text \<open>With 2499 characters waiting the buffer is full and the next character is dropped, except when
  the reader is at the first cell: then \<open>isBufferFull\<close> misses it, the writer catches up with the
  reader, and all 2500 characters are lost.\<close>

theorem full_buffer:
  assumes "cursor_ok s" and "tty_is s xs" and "length xs = 2499"
  shows "\<exists>t. putTerminalBuffer c s = Inr ((), t) \<and> intr t \<and>
    tty_is t (if bufferConsume s = 0 then [] else xs)"
proof (cases "bufferConsume s = 0")
  case True
  then have "\<not> (length xs = 2499 \<and> bufferConsume s \<noteq> 0)" by simp
  from put_passes [OF assms(1,2) this, of c] obtain t where t: "putTerminalBuffer c s = Inr ((), t)" "intr t"
    "bufferPosition t = (bufferPosition s + 1) mod 2500" "bufferConsume t = bufferConsume s" "bufferStart t = 0"
    "bufferSize t = 2500" .
  have "bufferPosition s = 2499" using tty_position(1) [OF assms(2)] assms(3) True by simp
  then have "tty_is t []" using t True by (simp add: tty_is_def ringseq_def)
  then show ?thesis using t(1,2) True by auto
next
  case False
  then have "putTerminalBuffer c s = Inr ((), sti (cli s))"
    using isBufferFull_iff [OF assms(2)] assms(3) by (simp add: putTerminalBuffer_def ebind_def)
  moreover have "tty_is (sti (cli s)) xs" using assms(2) by (simp add: tty_is_def sti_def cli_def)
  ultimately show ?thesis using False by (simp add: sti_def)
qed

theorem full_buffer_witness:
  "\<exists>t. putTerminalBuffer (CHR ''x'') (demo_tty\<lparr>bufferConsume := 0, bufferPosition := 2499\<rparr>) = Inr ((), t) \<and> tty_is t []"
proof -
  define s where "s = demo_tty\<lparr>bufferConsume := 0, bufferPosition := 2499\<rparr>"
  have "cursor_ok s" using demo_tty_ok(1) by (simp add: s_def cursor_ok_def)
  moreover have "tty_is s (ringseq (Buffer s) 0 2500 0 2499)"
    using demo_tty_ok(2) by (simp add: tty_is_def s_def)
  ultimately show ?thesis using full_buffer [of s "ringseq (Buffer s) 0 2500 0 2499" "CHR ''x''"] by (auto simp: s_def)
qed

end
