(* ===== verification/Timer.thy ===== *)
theory Timer
  imports Terminal "HOL-Library.Multiset"
begin

text \<open>
  Kernel/interrupts.c and Kernel/rtc.c: the interrupt descriptor table, the clock on the screen, and
  the table of sleeping processes that the timer interrupt counts down.  The registers of the clock
  are a parameter (\<open>rtc\<close>); what is written to a port is logged in \<open>outs\<close>.

  The lemmas show that an entry of the descriptor table holds the address of its handler, that a tick
  wakes exactly the processes whose time has come, and how a process can sleep for ever.
\<close>

section \<open>State\<close>

abbreviation (input) MAX_LISTENERS :: nat where
  "MAX_LISTENERS \<equiv> 50"

record IDT_Entry =
  offset_l :: "16 word"
  selector :: "16 word"
  zero_l :: "8 word"
  attrs :: "8 word"
  offset_m :: "16 word"
  offset_h :: "32 word"
  zero_h :: "32 word"

record irq = tty +
  IDT :: "int \<Rightarrow> IDT_Entry"
  outs :: "(int \<times> 8 word) list"
  sleepListeners :: int
  auxj :: int
  sleepPIDS :: "int list"
  sleepCounter :: "int list"
  alarmSleep :: "int list"

definition outputb :: "int \<Rightarrow> 8 word \<Rightarrow> 'a irq_scheme \<Rightarrow> 'a irq_scheme" where
  "outputb port v s = s\<lparr>outs := outs s @ [(port, v)]\<rparr>"

unbundle bit_operations_syntax

section \<open>The interrupt descriptor table\<close>

text \<open>\<open>(uint16_t)(offset >> 32)\<close> keeps 16 of the 32 upper bits.\<close>

definition setIDTEntry :: "64 word \<Rightarrow> int \<Rightarrow> 'a irq_scheme \<Rightarrow> 'a irq_scheme" where
  "setIDTEntry offset entry s = s\<lparr>IDT := (IDT s)(entry := (IDT s entry)
     \<lparr>offset_l := ucast offset AND 0xFFFF,
      offset_m := ucast (drop_bit 16 offset) AND 0xFFFF,
      offset_h := ucast (ucast (drop_bit 32 offset) :: 16 word) AND 0xFFFFFFFF,
      zero_l := 0, zero_h := 0, attrs := 0x8E, selector := 0x08\<rparr>)\<rparr>"

text \<open>The handlers are symbols of the assembly files: their addresses are parameters.\<close>

record handlers =
  h_timerTickHandler :: "64 word"
  h_master :: "64 word"
  h_slave :: "64 word"
  h_generalProtectionHandler :: "64 word"
  h_pageFaultHandler :: "64 word"
  h_sys_callHandler :: "64 word"
  h_keyboardHandler :: "64 word"
  h_mouse_handler :: "64 word"

definition idt_entries :: "handlers \<Rightarrow> (64 word \<times> int) list" where
  "idt_entries h =
    [(h_timerTickHandler h, 0x20), (h_master h, 0x23), (h_master h, 0x24), (h_master h, 0x25), (h_master h, 0x26),
     (h_master h, 0x27), (h_slave h, 0x28), (h_slave h, 0x29), (h_master h, 0x2A), (h_master h, 0x2B),
     (h_master h, 0x2D), (h_master h, 0x2E), (h_generalProtectionHandler h, 0x0D), (h_pageFaultHandler h, 0x0E),
     (h_sys_callHandler h, 0x80), (h_keyboardHandler h, 0x21), (h_mouse_handler h, 0x2C)]"

definition loadIDT :: "handlers \<Rightarrow> 'a irq_scheme \<Rightarrow> 'a irq_scheme" where
  "loadIDT h = fold (\<lambda>(offset, entry). setIDTEntry offset entry) (idt_entries h)"

definition enablePIC :: "'a irq_scheme \<Rightarrow> 'a irq_scheme" where
  "enablePIC s = outputb 0xA1 0xEF (outputb 0x21 0xF8 s)"

section \<open>The clock\<close>

text \<open>A byte of the clock's registers is read into a (signed) \<open>char\<close>.\<close>

definition signed_byte :: "8 word \<Rightarrow> int" where
  "signed_byte b = sint b"

text \<open>Two's complement \<open>or\<close> and \<open>and\<close> on \<open>int\<close>; the results are stored in a \<open>char\<close> again.\<close>

definition hour_of :: "8 word \<Rightarrow> int" where
  "hour_of b = (let h = signed_byte b in
     signed_take_bit 7 ((((h AND 0x0F) + ((h AND 0x70) sdiv 16) * 10)) OR (h AND 0x80)))"

definition minute_of :: "8 word \<Rightarrow> int" where
  "minute_of b = (let m = signed_byte b in signed_take_bit 7 ((m AND 0x0F) + (m sdiv 16) * 10))"

text \<open>The buffer has nine characters; the last \<open>intToString\<close> ends it with a zero.\<close>

definition getTime :: "(int \<Rightarrow> 8 word) \<Rightarrow> ('a irq_scheme, string) eprog" where
  "getTime rtc s =
     (let h = hour_of (rtc 0x04); m = minute_of (rtc 0x02); sec = minute_of (rtc 0x00)
      in Inr (take 2 (intToString h) @ '':'' @ take 2 (intToString m) @ '':'' @ take 2 (intToString sec),
              outputb 0x70 0x00 (outputb 0x70 0x02 (outputb 0x70 0x04 s))))"

section \<open>The sleeping processes\<close>

definition int_at :: "int list \<Rightarrow> int \<Rightarrow> ('s, int) eprog" where
  "int_at xs k s = (if 0 \<le> k \<and> k < int MAX_LISTENERS then Inr (xs ! nat k, s) else Inl OutOfBounds)"

definition deleteSleep :: "int \<Rightarrow> ('a irq_scheme, unit) eprog" where
  "deleteSleep index s =
     (if sleepListeners s \<le> index then Inr ((), s)
      else if index < 0 \<or> int MAX_LISTENERS < sleepListeners s then Inl OutOfBounds
      else let i = nat index; l = nat (sleepListeners s - 1)
           in Inr ((), s\<lparr>alarmSleep := (alarmSleep s)[i := alarmSleep s ! l],
                sleepPIDS := (sleepPIDS s)[i := sleepPIDS s ! l],
                sleepCounter := (sleepCounter s)[i := sleepCounter s ! l],
                sleepListeners := sleepListeners s - 1\<rparr>))"

definition addSleep :: "int \<Rightarrow> int \<Rightarrow> ('a irq_scheme, unit) eprog" where
  "addSleep pid interval s =
     (if int MAX_LISTENERS \<le> sleepListeners s then ncPrint ''_______________'' s
      else if sleepListeners s < 0 then Inl OutOfBounds
      else let i = nat (sleepListeners s)
           in Inr ((), s\<lparr>alarmSleep := (alarmSleep s)[i := interval], sleepPIDS := (sleepPIDS s)[i := pid],
                sleepCounter := (sleepCounter s)[i := 0], sleepListeners := sleepListeners s + 1\<rparr>))"

definition doneSleeping :: "int \<Rightarrow> ('a irq_scheme, unit) eprog" where
  "doneSleeping index s =
     ebind (int_at (sleepPIDS s) index) (\<lambda>pid.
     ebind (changeProcessState pid READY) (\<lambda>_. deleteSleep index)) s"

text \<open>
  The loop over the table: an entry that is done is replaced by the last one, and \<open>auxj\<close> steps back to
  look at it.
\<close>

partial_function (option) tick_loop :: "'a irq_scheme \<Rightarrow> (fault + unit \<times> 'a irq_scheme) option" where
  "tick_loop s =
     (if \<not> auxj s < sleepListeners s then Some (Inr ((), s))
      else case
        ebind (int_at (sleepCounter s) (auxj s)) (\<lambda>c.
        ebind (emodify (\<lambda>s. s\<lparr>sleepCounter := (sleepCounter s)[nat (auxj s) := c + 1]\<rparr>)) (\<lambda>_ s.
        ebind (int_at (alarmSleep s) (auxj s)) (\<lambda>a.
        ebind (if c + 1 = a
               then ebind (doneSleeping (auxj s)) (\<lambda>_. emodify (\<lambda>s. s\<lparr>auxj := auxj s - 1\<rparr>))
               else ereturn ()) (\<lambda>_.
        emodify (\<lambda>s. s\<lparr>auxj := auxj s + 1\<rparr>))) s)) s of
          Inl e \<Rightarrow> Some (Inl e)
        | Inr (_, s) \<Rightarrow> tick_loop s)"

definition timerTickHandlerC :: "(int \<Rightarrow> 8 word) \<Rightarrow> ('a irq_scheme, unit) eprog" where
  "timerTickHandlerC rtc =
     ebind (getTime rtc) (\<lambda>time.
     ebind (emodify (printMsg 2 0 time (CHR 0x20))) (\<lambda>_.
     ebind (emodify (\<lambda>s. s\<lparr>auxj := 0\<rparr>)) (\<lambda>_. loop_outcome tick_loop)))"

definition sleep :: "int \<Rightarrow> ('a irq_scheme, unit) kprog" where
  "sleep time =
     kbind (kcall getCurrentPid) (\<lambda>myPid.
     kbind (kcall (addSleep myPid time)) (\<lambda>_.
     kbind (kcall (changeProcessState myPid SLEEPING)) (\<lambda>_. yield)))"

definition spure :: "'a irq_scheme \<Rightarrow> 'a irq_scheme" where
  "spure = printMsg 10 10 ''xxxxxxxxxx'' (CHR 0x20)"

definition generalProtectionHandlerC :: "('a irq_scheme, unit) kprog" where
  "generalProtectionHandlerC =
     kbind (kcall (ncPrint ''RECOVERING GENERAL PROTECTION FAULT'')) (\<lambda>_.
     kbind (kcall getCurrentPid) (\<lambda>pid.
     kbind (removeProcess pid) (\<lambda>_.
     kmodify (printMsg 20 0 ''General Protection'' (CHR 0x11)))))"

section \<open>The descriptor table holds the handlers\<close>

text \<open>The address the processor reads from an entry.\<close>

definition handler_of :: "IDT_Entry \<Rightarrow> 64 word" where
  "handler_of e = ucast (offset_l e) OR push_bit 16 (ucast (offset_m e)) OR push_bit 32 (ucast (offset_h e))"

lemma all_ones: "(0xFFFF :: 16 word) = -1" "(0xFFFFFFFF :: 32 word) = -1"
  by (simp_all add: word_uint_eq_iff unsigned_minus_1_eq_mask mask_eq_exp_minus_1)

lemma setIDTEntry_handler:
  "handler_of (IDT (setIDTEntry offset entry s) entry) = take_bit 48 offset"
proof (rule bit_word_eqI)
  fix n :: nat assume "n < LENGTH(64)"
  then have "n < 64" by simp
  then show "bit (handler_of (IDT (setIDTEntry offset entry s) entry)) n = bit (take_bit 48 offset) n"
    by (auto simp: handler_of_def setIDTEntry_def all_ones bit_simps)
qed

lemma setIDTEntry_other: "e \<noteq> entry \<Longrightarrow> IDT (setIDTEntry offset entry s) e = IDT s e"
  by (simp add: setIDTEntry_def)

lemma load_entries:
  assumes "distinct (map snd es)"
  shows "(offset, e) \<in> set es \<Longrightarrow>
    IDT (fold (\<lambda>(offset, entry). setIDTEntry offset entry) es s) e = IDT (setIDTEntry offset e s) e"
    and "e \<notin> snd ` set es \<Longrightarrow> IDT (fold (\<lambda>(offset, entry). setIDTEntry offset entry) es s) e = IDT s e"
  using assms
proof (induction es arbitrary: s)
  case (Cons oe es)
  obtain o' e' where oe: "oe = (o', e')" by (cases oe)
  { case 1
    show ?case
    proof (cases "(offset, e) = oe")
      case True
      then have "e \<notin> snd ` set es" using 1(2) oe by auto
      with Cons.IH(2) 1(2) True oe show ?thesis by simp
    next
      case False
      then have mem: "(offset, e) \<in> set es" using 1(1) by auto
      then have "e \<noteq> e'" using 1(2) oe by (auto simp: image_iff)
      with Cons.IH(1) [OF mem] 1(2) oe show ?thesis by (simp add: setIDTEntry_def)
    qed
  next
    case 2
    with Cons.IH(2) oe show ?case by (simp add: setIDTEntry_other)
  }
qed simp_all

section \<open>The table of the sleeping processes\<close>

type_synonym sleeper = "int \<times> int \<times> int"     \<comment> \<open>pid, ticks so far, ticks to sleep\<close>

definition table_is :: "'a irq_scheme \<Rightarrow> sleeper list \<Rightarrow> bool" where
  "table_is s L \<longleftrightarrow> length (sleepPIDS s) = MAX_LISTENERS \<and> length (sleepCounter s) = MAX_LISTENERS \<and>
     length (alarmSleep s) = MAX_LISTENERS \<and> sleepListeners s = int (length L) \<and> length L \<le> MAX_LISTENERS \<and>
     (\<forall>i<length L. L ! i = (sleepPIDS s ! i, sleepCounter s ! i, alarmSleep s ! i))"

fun later :: "sleeper \<Rightarrow> sleeper" where
  "later (p, c, a) = (p, c + 1, a)"

fun due :: "sleeper \<Rightarrow> bool" where
  "due (p, c, a) \<longleftrightarrow> c + 1 = a"

text \<open>An entry is counted, or it is replaced by the last.\<close>

lemma table_count:
  assumes "table_is s L" and "j < length L"
  shows "table_is (s\<lparr>sleepCounter := (sleepCounter s)[j := sleepCounter s ! j + 1]\<rparr>) (L[j := later (L ! j)])"
  using assms by (auto simp: table_is_def nth_list_update)

definition removed :: "nat \<Rightarrow> 'b list \<Rightarrow> 'b list" where
  "removed j L = take (length L - 1) (L[j := last L])"

lemma table_remove:
  assumes "table_is s L" and "j < length L"
  obtains t where "deleteSleep (int j) s = Inr ((), t)" and "table_is t (removed j L)"
    and "\<exists>A P C n. t = s\<lparr>alarmSleep := A, sleepPIDS := P, sleepCounter := C, sleepListeners := n\<rparr>"
proof -
  define l where "l = length L - 1"
  define t where "t = s\<lparr>alarmSleep := (alarmSleep s)[j := alarmSleep s ! l], sleepPIDS := (sleepPIDS s)[j := sleepPIDS s ! l],
    sleepCounter := (sleepCounter s)[j := sleepCounter s ! l], sleepListeners := int l\<rparr>"
  have n: "sleepListeners s = int (length L)" "length L \<le> 50" using assms(1) by (simp_all add: table_is_def)
  have l: "nat (sleepListeners s - 1) = l" "sleepListeners s - 1 = int l" using n assms(2) by (simp_all add: l_def)
  have run: "deleteSleep (int j) s = Inr ((), t)"
    using n assms(2) unfolding deleteSleep_def l Let_def by (simp add: t_def)
  have "L \<noteq> []" using assms(2) by auto
  then have "L ! l = last L" by (simp add: l_def last_conv_nth)
  then have "table_is t (removed j L)"
    using assms by (auto simp: table_is_def t_def removed_def l_def nth_list_update)
  with run show thesis by (rule that) (auto simp: t_def)
qed

lemma removed_parts:
  assumes "j < length L"
  shows "take j (removed j L) = take j L" and "mset (drop j (removed j L)) = mset (drop (Suc j) L)"
    and "set (removed j L) \<subseteq> set L" and "length (removed j L) = length L - 1"
proof -
  have "min j (length L - 1) = j" using assms by simp
  then show "take j (removed j L) = take j L" using assms by (simp add: removed_def)
  show "length (removed j L) = length L - 1" by (simp add: removed_def)
  have "last L \<in> set L" using assms by (intro last_in_set) auto
  then show "set (removed j L) \<subseteq> set L"
    unfolding removed_def by (auto dest!: in_set_takeD set_list_update_subset)
  show "mset (drop j (removed j L)) = mset (drop (Suc j) L)"
  proof (cases "Suc j = length L")
    case True
    then show ?thesis by (simp add: removed_def)
  next
    case False
    obtain K where K: "L = K @ [last L]" using assms by (metis append_butlast_last_id list.size(3) not_less_zero)
    then have j: "j < length K" using assms False by (metis length_append_singleton less_antisym)
    have "removed j L = K[j := last L]"
      using j unfolding removed_def by (subst (1 2) K) (simp add: list_update_append)
    then have "drop j (removed j L) = last L # drop (Suc j) K" using j by (simp add: drop_update_swap Cons_nth_drop_Suc [symmetric])
    moreover have "drop (Suc j) L = drop (Suc j) K @ [last L]" using j by (subst K) simp
    ultimately show ?thesis by simp
  qed
qed

section \<open>A tick\<close>

lemma table_at:
  assumes "table_is s L" and "j < length L"
  shows "int_at (sleepPIDS s) (int j) v = Inr (fst (L ! j), v)" and "int_at (sleepCounter s) (int j) v = Inr (fst (snd (L ! j)), v)"
    and "int_at (alarmSleep s) (int j) v = Inr (snd (snd (L ! j)), v)"
  using assms by (auto simp: table_is_def int_at_def)

lemma tick_loop_done: "table_is s L \<Longrightarrow> auxj s = int (length L) \<Longrightarrow> tick_loop s = Some (Inr ((), s))"
  by (subst tick_loop.simps) (simp add: table_is_def)

lemma tick_later:
  assumes "table_is s L" and "auxj s = int j" and "j < length L" and "\<not> due (L ! j)"
  obtains t where "tick_loop s = tick_loop t" and "table_is t (L[j := later (L ! j)])" and "auxj t = int j + 1"
    and "same_sched s t" and "video t = video s"
proof -
  obtain p c a where e: "L ! j = (p, c, a)" by (cases "L ! j")
  define C where "C = (sleepCounter s)[j := c + 1]"
  define t where "t = s\<lparr>sleepCounter := C, auxj := int j + 1\<rparr>"
  have c: "sleepCounter s ! j = c" using assms(1,3) e by (auto simp: table_is_def)
  have counted: "table_is (s\<lparr>sleepCounter := C\<rparr>) (L[j := later (L ! j)])"
    using table_count [OF assms(1,3)] c by (simp add: C_def)
  have "auxj s < sleepListeners s" using assms(1-3) by (simp add: table_is_def)
  then have "tick_loop s = tick_loop t"
    using assms(2,4) e
    by (subst tick_loop.simps) (simp add: table_at [OF assms(1,3)] ebind_def ereturn_def t_def C_def)
  moreover have "table_is t (L[j := later (L ! j)])" using counted by (simp add: t_def table_is_def)
  ultimately show thesis by (rule that) (simp_all add: t_def same_sched_def)
qed

lemma tick_due:
  assumes "table_is s L" and "auxj s = int j" and "j < length L" and "due (L ! j)" and "pids_ok s"
    and "in_state s (fst (L ! j)) st"
  obtains t where "tick_loop s = tick_loop t" and "table_is t (removed j (L[j := later (L ! j)]))" and "auxj t = int j"
    and "pids_ok t" and "\<And>q x. in_state t q x \<longleftrightarrow> (if q = fst (L ! j) then x = READY else in_state s q x)"
    and "running_pid t = running_pid s" and "video t = video s"
proof -
  obtain p c a where e: "L ! j = (p, c, a)" by (cases "L ! j")
  define L' where "L' = L[j := later (L ! j)]"
  define C where "C = (sleepCounter s)[j := c + 1]"
  define v where "v = s\<lparr>sleepCounter := C\<rparr>"
  have c: "sleepCounter s ! j = c" using assms(1,3) e by (auto simp: table_is_def)
  have v: "table_is v L'" using table_count [OF assms(1,3)] c by (simp add: C_def v_def L'_def)
  have sv: "same_sched s v" by (simp add: v_def same_sched_def)
  obtain u where u: "changeProcessState p READY v = Inr ((), u)" "u = v\<lparr>procs := procs u\<rparr>" "pids_ok u"
      "running_pid u = running_pid v" "\<And>q x. q \<noteq> p \<Longrightarrow> in_state u q x \<longleftrightarrow> in_state v q x"
      "\<And>x y. in_state v p x \<Longrightarrow> in_state u p y \<longleftrightarrow> y = READY"
    using changeProcessState_effect [of v p READY] assms(5) same_sched_facts(2) [OF sv] by metis
  obtain P where P: "u = v\<lparr>procs := P\<rparr>" using u(2) by (rule that)
  have tu: "table_is u L'" using v by (simp add: P table_is_def)
  have j': "j < length L'" using assms(3) by (simp add: L'_def)
  obtain w where w: "deleteSleep (int j) u = Inr ((), w)" "table_is w (removed j L')"
      "\<exists>A P C n. w = u\<lparr>alarmSleep := A, sleepPIDS := P, sleepCounter := C, sleepListeners := n\<rparr>"
    using table_remove [OF tu j'] by metis
  obtain A B D n where W: "w = u\<lparr>alarmSleep := A, sleepPIDS := B, sleepCounter := D, sleepListeners := n\<rparr>"
    using w(3) by (elim exE) (rule that)
  have finish: "doneSleeping (int j) v = Inr ((), w)"
    using u(1) w(1) e assms(3) by (simp add: table_at(1) [OF v j'] doneSleeping_def ebind_def L'_def)
  have "auxj s < sleepListeners s" using assms(1-3) by (simp add: table_is_def)
  then have "tick_loop s = tick_loop (w\<lparr>auxj := int j\<rparr>)"
    using assms(2,4) e finish
    by (subst tick_loop.simps) (simp add: table_at(2,3) [OF assms(1,3)] ebind_def W P v_def C_def)
  moreover have "table_is (w\<lparr>auxj := int j\<rparr>) (removed j L')" using w(2) by (simp add: table_is_def)
  moreover have sw: "same_sched u (w\<lparr>auxj := int j\<rparr>)" by (simp add: W same_sched_def)
  moreover have "in_state (w\<lparr>auxj := int j\<rparr>) q x \<longleftrightarrow> (if q = p then x = READY else in_state s q x)" for q x
    using u(5) [of q x] u(6) [of st x] assms(6) e same_sched_facts(3) [OF sw] same_sched_facts(3) [OF sv] by auto
  moreover have "pids_ok (w\<lparr>auxj := int j\<rparr>)" "running_pid (w\<lparr>auxj := int j\<rparr>) = running_pid s"
    using u(3,4) same_sched_facts(2,4) [OF sw] same_sched_facts(4) [OF sv] by simp_all
  ultimately show thesis
    unfolding L'_def by (intro that [of "w\<lparr>auxj := int j\<rparr>"]) (simp_all add: e W P v_def)
qed

definition wakes :: "'a irq_scheme \<Rightarrow> sleeper list \<Rightarrow> 'a irq_scheme \<Rightarrow> bool" where
  "wakes s L t \<longleftrightarrow> pids_ok t \<and> running_pid t = running_pid s \<and> video t = video s \<and>
     (\<forall>q x. in_state t q x \<longleftrightarrow> (if q \<in> fst ` set (filter due L) then x = READY else in_state s q x))"

definition surviving :: "sleeper list \<Rightarrow> sleeper multiset" where
  "surviving L = mset (map later (filter (Not \<circ> due) L))"

lemma surviving_Cons: "surviving (e # L) = (if due e then surviving L else add_mset (later e) (surviving L))"
  by (simp add: surviving_def)

lemma surviving_mset: "mset L = mset M \<Longrightarrow> surviving L = surviving M"
  by (simp add: surviving_def)

lemma wakes_step:
  assumes "wakes t M u" and "mset (e # M) = mset L" and "running_pid t = running_pid s" and "video t = video s"
    and "\<And>q x. in_state t q x \<longleftrightarrow> (if due e \<and> q = fst e then x = READY else in_state s q x)"
  shows "wakes s L u"
proof -
  have "set L = insert e (set M)" using assms(2) by (metis list.simps(15) set_mset_mset)
  then have "fst ` set (filter due L) = (if due e then insert (fst e) else id) (fst ` set (filter due M))" by auto
  then show ?thesis using assms unfolding wakes_def by auto
qed

lemma tick_loop_wakes:
  assumes "table_is s L" and "auxj s = int j" and "j \<le> length L" and "pids_ok s"
    and "\<forall>e\<in>set (drop j L). \<exists>x. in_state s (fst e) x"
  shows "\<exists>t L'. tick_loop s = Some (Inr ((), t)) \<and> table_is t L' \<and>
    mset L' = mset (take j L) + surviving (drop j L) \<and> wakes s (drop j L) t"
  using assms
proof (induction "length L - j" arbitrary: s L j)
  case 0
  then have "j = length L" by simp
  then show ?case using 0 tick_loop_done [of s L] by (auto simp: surviving_def wakes_def)
next
  case (Suc n)
  then have j: "j < length L" by simp
  have drop: "drop j L = L ! j # drop (Suc j) L" using j by (simp add: Cons_nth_drop_Suc)
  show ?case
  proof (cases "due (L ! j)")
    case False
    obtain t where t: "tick_loop s = tick_loop t" "table_is t (L[j := later (L ! j)])" "auxj t = int j + 1" "same_sched s t"
        "video t = video s"
      using tick_later [OF Suc.prems(1,2) j False] .
    define M where "M = L[j := later (L ! j)]"
    note same = same_sched_facts [OF t(4)]
    have M: "drop (Suc j) M = drop (Suc j) L" "take (Suc j) M = take j L @ [later (L ! j)]"
      using j by (simp_all add: M_def take_Suc_conv_app_nth)
    obtain u L' where u: "tick_loop t = Some (Inr ((), u))" "table_is u L'"
        "mset L' = mset (take (Suc j) M) + surviving (drop (Suc j) M)" "wakes t (drop (Suc j) M) u"
    proof -
      have "n = length M - Suc j" "Suc j \<le> length M" using Suc.hyps(2) j by (simp_all add: M_def)
      moreover have "\<forall>e\<in>set (drop (Suc j) M). \<exists>x. in_state t (fst e) x"
        using Suc.prems(5) by (simp add: M(1) same(3) drop)
      ultimately show ?thesis
        using Suc.hyps(1) [of M "Suc j" t] Suc.prems(4) t(2,3) same(2) that unfolding M_def [symmetric] by auto
    qed
    have "wakes s (drop j L) u"
      by (rule wakes_step [OF u(4), of "L ! j"]) (use False same(3,4) t(5) in \<open>simp_all add: drop M(1)\<close>)
    moreover have "mset L' = mset (take j L) + surviving (drop j L)"
      using u(3) False by (simp add: M drop surviving_Cons)
    ultimately show ?thesis using t(1) u(1,2) by metis
  next
    case True
    obtain x where x: "in_state s (fst (L ! j)) x" using Suc.prems(5) drop by auto
    define M where "M = removed j (L[j := later (L ! j)])"
    obtain t where t: "tick_loop s = tick_loop t" "table_is t M" "auxj t = int j" "pids_ok t"
        "\<And>q x. in_state t q x \<longleftrightarrow> (if q = fst (L ! j) then x = READY else in_state s q x)" "running_pid t = running_pid s"
        "video t = video s"
      using tick_due [OF Suc.prems(1,2) j True Suc.prems(4) x] unfolding M_def by metis
    have "j < length (L[j := later (L ! j)])" using j by simp
    note parts = removed_parts [OF this, folded M_def]
    have M: "take j M = take j L" "mset (drop j M) = mset (drop (Suc j) L)" "length M = length L - 1"
      using parts by simp_all
    have "set (drop j M) = set (drop (Suc j) L)" using M(2) by (metis set_mset_mset)
    then have "\<forall>e\<in>set (drop j M). \<exists>x. in_state t (fst e) x"
      using Suc.prems(5) unfolding drop t(5) by (metis list.set_intros(2))
    then obtain u L' where u: "tick_loop t = Some (Inr ((), u))" "table_is u L'"
        "mset L' = mset (take j M) + surviving (drop j M)" "wakes t (drop j M) u"
    proof -
      assume *: "\<forall>e\<in>set (drop j M). \<exists>x. in_state t (fst e) x"
      have "n = length M - j" "j \<le> length M" using Suc.hyps(2) j M(3) by simp_all
      then show ?thesis using Suc.hyps(1) [of M j t] t(2-4) * that by auto
    qed
    have "wakes s (drop j L) u"
      by (rule wakes_step [OF u(4), of "L ! j"]) (use True t(5-7) M(2) in \<open>simp_all add: drop\<close>)
    moreover have "mset L' = mset (take j L) + surviving (drop j L)"
      using u(3) True surviving_mset [OF M(2)] by (simp add: M(1) drop surviving_Cons)
    ultimately show ?thesis using t(1) u(1,2) by metis
  qed
qed

section \<open>The clock\<close>

text \<open>A two-digit number as the clock stores it.\<close>

definition bcd :: "nat \<Rightarrow> 8 word" where
  "bcd n = word_of_nat (16 * (n div 10) + n mod 10)"

definition two_digits :: "nat \<Rightarrow> string" where
  "two_digits n = [char_of (48 + n div 10), char_of (48 + n mod 10)]"

lemma sint_bcd: "n < 60 \<Longrightarrow> signed_byte (bcd n) = int (n mod 10) + 16 * int (n div 10)"
  unfolding bcd_def signed_byte_def by (subst signed_of_nat) (simp add: signed_take_bit_int_eq_self)

lemma and_nibble: "(k::int) AND 0x0F = k mod 16"
  using take_bit_eq_mask [of 4 k] by (simp add: mask_eq_exp_minus_1 take_bit_eq_mod)

lemma and_tens: "(k::int) AND 0x70 = 16 * (k div 16 mod 8)"
proof -
  have "k AND push_bit 4 (mask 3) = push_bit 4 (take_bit 3 (drop_bit 4 k))"
    by (intro bit_eqI) (auto simp: bit_simps)
  moreover have "push_bit 4 (mask 3) = (112 :: int)" by (simp add: mask_eq_exp_minus_1 push_bit_eq_mult)
  ultimately have "k AND 112 = push_bit 4 (take_bit 3 (drop_bit 4 k))" by simp
  then show ?thesis by (simp add: push_bit_eq_mult take_bit_eq_mod drop_bit_eq_div)
qed

lemma and_top: "0 \<le> k \<Longrightarrow> k < 128 \<Longrightarrow> (k::int) AND 0x80 = 0"
  using and_exp_eq_0_iff_not_bit [of k 7] by (simp add: bit_iff_odd)

lemma digits_sum: "int (n mod 10) + int (n div 10) * 10 = int n"
proof -
  have "n mod 10 + n div 10 * 10 = n" by (rule mod_div_mult_eq)
  then show ?thesis by (metis of_nat_add of_nat_mult of_nat_numeral)
qed

lemma nibbles:
  assumes "n < 60"
  shows "(int (n mod 10) + 16 * int (n div 10)) mod 16 = int (n mod 10)"
    and "(int (n mod 10) + 16 * int (n div 10)) div 16 = int (n div 10)" and "int (n div 10) < 6"
proof -
  define u t where "u = n mod 10" and "t = n div 10"
  have "u < 10" by (simp add: u_def)
  then show "(int (n mod 10) + 16 * int (n div 10)) mod 16 = int (n mod 10)"
    "(int (n mod 10) + 16 * int (n div 10)) div 16 = int (n div 10)" unfolding u_def [symmetric] t_def [symmetric] by simp_all
  show "int (n div 10) < 6" using assms by simp
qed

lemma minute_of_bcd:
  assumes "n < 60"
  shows "minute_of (bcd n) = int n"
proof -
  have "signed_take_bit 7 (int n) = int n" using assms by (simp add: signed_take_bit_int_eq_self)
  then show ?thesis
    unfolding minute_of_def Let_def sint_bcd [OF assms] and_nibble
    using nibbles [OF assms] digits_sum [of n] by (simp add: signed_divide_int_def sgn_if)
qed

lemma hour_of_bcd:
  assumes "n < 24"
  shows "hour_of (bcd n) = int n"
proof -
  have n: "n < 60" using assms by simp
  have "signed_take_bit 7 (int n) = int n" using assms by (simp add: signed_take_bit_int_eq_self)
  moreover have "(int (n mod 10) + 16 * int (n div 10)) AND 0x80 = 0" by (rule and_top) (use nibbles(3) [OF n] in auto)
  moreover have "16 * (int (n div 10) mod 8) sdiv 16 = int (n div 10)"
    using nibbles(3) [OF n] by (simp add: signed_divide_int_def sgn_if)
  ultimately show ?thesis
    unfolding hour_of_def Let_def sint_bcd [OF n] and_nibble and_tens
    using nibbles [OF n] digits_sum [of n] by simp
qed

lemma intToString_digits:
  assumes "n < 60"
  shows "take 2 (intToString (int n)) = two_digits n"
proof -
  have "int n sdiv 10 smod 10 = int (n div 10)" "int n smod 10 = int (n mod 10)"
    using nibbles(3) [OF assms] by (simp_all add: signed_divide_int_def signed_modulo_int_def sgn_if zdiv_int zmod_int)
  moreover have "nat ((int d + 48) mod 256) = 48 + d" if "d < 10" for d
    using that by (simp add: nat_add_distrib)
  moreover have "n div 10 < 10" "n mod 10 < 10" using assms by simp_all
  ultimately show ?thesis unfolding intToString_def two_digits_def by simp
qed

lemma getTime_bcd:
  assumes "rtc 0x04 = bcd h" and "rtc 0x02 = bcd m" and "rtc 0x00 = bcd n" and "h < 24" and "m < 60" and "n < 60"
  shows "getTime rtc s = Inr (two_digits h @ '':'' @ two_digits m @ '':'' @ two_digits n,
    s\<lparr>outs := outs s @ [(0x70, 0x04), (0x70, 0x02), (0x70, 0x00)]\<rparr>)"
  using assms by (simp add: getTime_def Let_def hour_of_bcd minute_of_bcd intToString_digits outputb_def)

section \<open>A message on the screen\<close>

lemma printMsg_loop_shows:
  assumes "0 \<le> f" "f < 25" "0 \<le> c" "c + int (length msg) \<le> 80"
  shows "\<exists>R v. printMsg_loop (f * 80 + c) msg s = s\<lparr>ram := R, video := v\<rparr> \<and>
    (\<forall>k<length msg. v (f, c + int k) = msg ! k) \<and> (\<forall>p. (\<forall>k<length msg. p \<noteq> (f, c + int k)) \<longrightarrow> v p = video s p)"
  using assms(3,4)
proof (induction msg arbitrary: c s)
  case Nil
  show ?case by (intro exI [of _ "ram s"] exI [of _ "video s"]) simp
next
  case (Cons a msg)
  have at: "(f * 80 + c) sdiv 80 = f" "(f * 80 + c) smod 80 = c"
    using assms(1) Cons.prems by (simp_all add: signed_divide_int_def signed_modulo_int_def sgn_if)
  have ok: "validPosition f c" using assms(1,2) Cons.prems by (simp add: validPosition_def)
  define u where "u = printChar f c a (CHR 0x20) s"
  obtain R where u: "u = s\<lparr>ram := R, video := (video s)((f, c) := a)\<rparr>"
    by (rule that [of "screen_bytes ((video s)((f, c) := a)) (attributes s) (ram s)"])
      (use ok in \<open>simp add: u_def printChar_def updateScreen_ram\<close>)
  obtain R' w where w: "printMsg_loop (f * 80 + (c + 1)) msg u = u\<lparr>ram := R', video := w\<rparr>"
      "\<forall>k<length msg. w (f, c + 1 + int k) = msg ! k"
      "\<forall>p. (\<forall>k<length msg. p \<noteq> (f, c + 1 + int k)) \<longrightarrow> w p = video u p"
    using Cons.IH [of "c + 1" u] Cons.prems by auto
  have "printMsg_loop (f * 80 + c) (a # msg) s = s\<lparr>ram := R', video := w\<rparr>"
    using at ok w(1) by (simp add: u_def [symmetric] add.assoc) (simp add: u)
  moreover have "w (f, c + int k) = (a # msg) ! k" if "k < length (a # msg)" for k
  proof (cases k)
    case 0
    then show ?thesis using w(3) [rule_format, of "(f, c)"] u by simp
  next
    case (Suc i)
    then show ?thesis using w(2) [rule_format, of i] that by (simp add: algebra_simps)
  qed
  moreover have "w p = video s p" if "\<forall>k<length (a # msg). p \<noteq> (f, c + int k)" for p
  proof -
    have "p \<noteq> (f, c)" using that [rule_format, of 0] by simp
    moreover have "p \<noteq> (f, c + 1 + int k)" if "k < length msg" for k
      using \<open>\<forall>k<length (a # msg). p \<noteq> (f, c + int k)\<close> [rule_format, of "Suc k"] that by (simp add: algebra_simps)
    ultimately show ?thesis using w(3) [rule_format, of p] u by simp
  qed
  ultimately show ?case by blast
qed

lemma printMsg_shows:
  assumes "validPosition f c" and "c + int (length msg) \<le> 80"
  obtains R v where "printMsg f c msg color s = s\<lparr>ram := R, video := v\<rparr>"
    and "\<forall>k<length msg. v (f, c + int k) = msg ! k" and "\<forall>p. (\<forall>k<length msg. p \<noteq> (f, c + int k)) \<longrightarrow> v p = video s p"
  using printMsg_loop_shows [of f c msg s] assms by (auto simp: printMsg_def validPosition_def)

section \<open>Whole ticks\<close>

lemma getTime_eight:
  obtains time t where "getTime rtc s = Inr (time, t)" and "length time = 8" and "t = s\<lparr>outs := outs t\<rparr>"
proof -
  define time where "time = take 2 (intToString (hour_of (rtc 0x04))) @ '':'' @ take 2 (intToString (minute_of (rtc 0x02))) @
    '':'' @ take 2 (intToString (minute_of (rtc 0x00)))"
  define t where "t = outputb 0x70 0x00 (outputb 0x70 0x02 (outputb 0x70 0x04 s))"
  have "getTime rtc s = Inr (time, t)" by (simp add: getTime_def Let_def time_def t_def)
  then show thesis by (rule that) (simp_all add: time_def intToString_def t_def outputb_def)
qed

lemma tick_effect:
  assumes "getTime rtc s = Inr (time, s\<lparr>outs := ou\<rparr>)" and "length time = 8" and "table_is s L" and "pids_ok s"
    and "\<forall>e\<in>set L. \<exists>x. in_state s (fst e) x"
  obtains t L' where "timerTickHandlerC rtc s = Inr ((), t)" and "table_is t L'" and "mset L' = surviving L"
    and "pids_ok t" and "\<forall>q x. in_state t q x \<longleftrightarrow> (if q \<in> fst ` set (filter due L) then x = READY else in_state s q x)"
    and "running_pid t = running_pid s" and "\<forall>k<8. video t (2, int k) = time ! k"
proof -
  obtain R v where m: "printMsg 2 0 time (CHR 0x20) (s\<lparr>outs := ou\<rparr>) = s\<lparr>outs := ou, ram := R, video := v\<rparr>"
      "\<forall>k<length time. v (2, 0 + int k) = time ! k"
    by (rule printMsg_shows [of 2 0 time "CHR 0x20" "s\<lparr>outs := ou\<rparr>"]) (simp_all add: validPosition_def assms(2))
  define u where "u = s\<lparr>outs := ou, ram := R, video := v, auxj := 0\<rparr>"
  have same: "same_sched s u" by (simp add: u_def same_sched_def)
  have u: "table_is u L" "auxj u = int 0" "pids_ok u" "\<forall>e\<in>set (drop 0 L). \<exists>x. in_state u (fst e) x"
    using assms(3-5) same_sched_facts(2,3) [OF same] by (simp_all add: u_def table_is_def)
  obtain t L' where t: "tick_loop u = Some (Inr ((), t))" "table_is t L'" "mset L' = mset (take 0 L) + surviving (drop 0 L)"
      "wakes u (drop 0 L) t"
    using tick_loop_wakes [OF u(1,2) _ u(3,4)] by auto
  have "timerTickHandlerC rtc s = Inr ((), t)"
    using assms(1) m(1) t(1) by (simp add: timerTickHandlerC_def ebind_def loop_outcome_def u_def)
  moreover have "video u = v" by (simp add: u_def)
  ultimately show thesis
    using t m(2) assms(2) same_sched_facts(3,4) [OF same] by (intro that [of t L']) (simp_all add: wakes_def)
qed

text \<open>The timer interrupt, once for every reading of the clock in the list.\<close>

fun ticks :: "(int \<Rightarrow> 8 word) list \<Rightarrow> ('a irq_scheme, unit) eprog" where
  "ticks [] = ereturn ()"
| "ticks (rtc # rs) = ebind (timerTickHandlerC rtc) (\<lambda>_. ticks rs)"

lemma ticks_wake:
  assumes "table_is s L" and "pids_ok s" and "\<forall>e\<in>set L. \<exists>x. in_state s (fst e) x"
    and "(p, c, a) \<in> set L" and "distinct (map fst L)" and "c < a" and "c + int (length rs) \<le> a"
  shows "\<exists>t. ticks rs s = Inr ((), t) \<and>
    (\<forall>x. in_state t p x \<longleftrightarrow> (if c + int (length rs) < a then in_state s p x else x = READY))"
  using assms
proof (induction rs arbitrary: s L c)
  case (Cons rtc rs)
  obtain time s' where time: "getTime rtc s = Inr (time, s')" "length time = 8" "s' = s\<lparr>outs := outs s'\<rparr>" by (rule getTime_eight)
  obtain ou where "s' = s\<lparr>outs := ou\<rparr>" using time(3) by (rule that)
  with time(1) have got: "getTime rtc s = Inr (time, s\<lparr>outs := ou\<rparr>)" by simp
  obtain t L' where t: "timerTickHandlerC rtc s = Inr ((), t)" "table_is t L'" "mset L' = surviving L"
      "pids_ok t" "\<forall>q x. in_state t q x \<longleftrightarrow> (if q \<in> fst ` set (filter due L) then x = READY else in_state s q x)"
    using tick_effect [OF got time(2) Cons.prems(1-3)] by metis
  have only: "e = (p, c, a)" if "e \<in> set L" "fst e = p" for e
    using eq_key_imp_eq_value [OF Cons.prems(5), of p "snd e" "(c, a)"] that Cons.prems(4) by (metis prod.collapse)
  have later_fst: "fst (later e) = fst e" for e by (cases e) simp
  have set': "set L' = later ` {e \<in> set L. \<not> due e}"
    using arg_cong [OF t(3), of set_mset] by (simp add: surviving_def)
  have dist: "distinct (map fst L')"
  proof -
    have "mset (map fst L') = mset (map fst (filter (Not \<circ> due) L))"
      using arg_cong [OF t(3), of "image_mset fst"] by (simp add: surviving_def later_fst multiset.map_comp comp_def)
    then have "distinct (map fst L') \<longleftrightarrow> distinct (map fst (filter (Not \<circ> due) L))" by (rule mset_eq_imp_distinct_iff)
    then show ?thesis using distinct_map_filter [OF Cons.prems(5)] by simp
  qed
  show ?case
  proof (cases "c + 1 = a")
    case True
    then have "int (length (rtc # rs)) \<le> 1" using Cons.prems(7) by linarith
    then have "rs = []" by simp
    moreover have "p \<in> fst ` set (filter due L)" using Cons.prems(4) True by (force intro: image_eqI [of _ _ "(p, c, a)"])
    ultimately show ?thesis using t(1,5) True by simp
  next
    case False
    then have p: "p \<notin> fst ` set (filter due L)" using only by fastforce
    have "(p, c + 1, a) \<in> set L'" unfolding set' using Cons.prems(4) False by (intro image_eqI [of _ _ "(p, c, a)"]) auto
    moreover have "\<forall>e\<in>set L'. \<exists>x. in_state t (fst e) x"
    proof
      fix e assume "e \<in> set L'"
      then obtain d where "d \<in> set L" "fst e = fst d" unfolding set' by (auto simp: later_fst)
      then obtain x where "in_state s (fst e) x" using Cons.prems(3) by auto
      then show "\<exists>x. in_state t (fst e) x" using t(5) by (cases "fst e \<in> fst ` set (filter due L)") auto
    qed
    ultimately obtain u where "ticks rs t = Inr ((), u)"
        "\<forall>x. in_state u p x \<longleftrightarrow> (if c + 1 + int (length rs) < a then in_state t p x else x = READY)"
      using Cons.IH [of t L' "c + 1"] t(2,4) dist Cons.prems(6,7) False by auto
    then show ?thesis using t(1,5) p by (simp add: algebra_simps)
  qed
qed simp

section \<open>Properties\<close>

definition demo_irq :: irq where
  "demo_irq = tty.extend demo_tty \<lparr>IDT = (\<lambda>_. \<lparr>offset_l = 0, selector = 0, zero_l = 0, attrs = 0, offset_m = 0,
       offset_h = 0, zero_h = 0\<rparr>), outs = [], sleepListeners = 2, auxj = 0,
     sleepPIDS = (replicate 50 0)[0 := 1, 1 := 0], sleepCounter = (replicate 50 0)[0 := 4, 1 := 2],
     alarmSleep = (replicate 50 0)[0 := 5, 1 := 9]\<rparr>"

lemmas demo_irq_defs = demo_irq_def demo_tty_def demo_vid_def demo_pages_def irq.defs tty.defs vid.defs pstacks.defs conds.defs

lemma demo_irq_sched: "same_sched demo_conds demo_irq"
  by (simp add: same_sched_def demo_irq_defs)

lemma demo_irq_table:
  "table_is demo_irq [(1, 4, 5), (0, 2, 9)]" "table_is (demo_irq\<lparr>sleepListeners := 1\<rparr>) [(1, 4, 5)]"
proof -
  have t: "sleepPIDS demo_irq = (replicate 50 0)[0 := 1, 1 := 0]" "sleepCounter demo_irq = (replicate 50 0)[0 := 4, 1 := 2]"
    "alarmSleep demo_irq = (replicate 50 0)[0 := 5, 1 := 9]" "sleepListeners demo_irq = 2"
    by (simp_all add: demo_irq_defs)
  have "[(1, 4, 5), (0, 2, 9)] ! i = (sleepPIDS demo_irq ! i, sleepCounter demo_irq ! i, alarmSleep demo_irq ! i)" if "i < 2" for i
    using that by (auto simp: t less_2_cases_iff)
  then show "table_is demo_irq [(1, 4, 5), (0, 2, 9)]" by (simp add: table_is_def t)
  show "table_is (demo_irq\<lparr>sleepListeners := 1\<rparr>) [(1, 4, 5)]" by (simp add: table_is_def t)
qed

lemma demo_irq_facts:
  "pids_ok demo_irq" "running_pid demo_irq = 0" "\<forall>e\<in>set [(1, 4, 5), (0, 2, 9)]. \<exists>x. in_state demo_irq (fst e) x"
proof -
  note same = same_sched_facts [OF demo_irq_sched]
  show p: "pids_ok demo_irq" and r: "running_pid demo_irq = 0" using demo_conds_facts by (simp_all add: same)
  have "\<exists>x. in_state demo_irq 0 x" using running_in_state [OF p] unfolding r .
  moreover have "in_state demo_irq 1 BLOCKED" using demo_conds_procs(3) by (simp add: same)
  ultimately show "\<forall>e\<in>set [(1, 4, 5), (0, 2, 9)]. \<exists>x. in_state demo_irq (fst e) x" by auto
qed

text \<open>C27. The timer interrupt shows the time of the clock on the screen, makes exactly the sleeping
  processes ready whose time is over, and counts one tick for all the others: the table holds them
  still, each once, whatever the order in which entries were moved.  No other process changes its
  state, and the interrupt handler returns.\<close>

theorem timer_tick:
  assumes "rtc 0x04 = bcd h" and "rtc 0x02 = bcd m" and "rtc 0x00 = bcd n" and "h < 24" and "m < 60" and "n < 60"
    and "table_is s L" and "pids_ok s" and "\<forall>e\<in>set L. \<exists>x. in_state s (fst e) x"
  shows "\<exists>t L'. timerTickHandlerC rtc s = Inr ((), t) \<and> table_is t L' \<and>
    mset L' = mset (map later (filter (Not \<circ> due) L)) \<and>
    (\<forall>q x. in_state t q x \<longleftrightarrow> (if q \<in> fst ` set (filter due L) then x = READY else in_state s q x)) \<and>
    (\<forall>k<8. video t (2, int k) = (two_digits h @ '':'' @ two_digits m @ '':'' @ two_digits n) ! k)"
proof -
  have "length (two_digits h @ '':'' @ two_digits m @ '':'' @ two_digits n) = 8" by (simp add: two_digits_def)
  from tick_effect [OF getTime_bcd [OF assms(1-6)] this assms(7-9)]
  obtain t L' where "timerTickHandlerC rtc s = Inr ((), t)" "table_is t L'" "mset L' = surviving L"
    "\<forall>q x. in_state t q x \<longleftrightarrow> (if q \<in> fst ` set (filter due L) then x = READY else in_state s q x)"
    "\<forall>k<8. video t (2, int k) = (two_digits h @ '':'' @ two_digits m @ '':'' @ two_digits n) ! k" .
  then show ?thesis unfolding surviving_def by blast
qed

theorem timer_tick_witness:
  "\<exists>t. timerTickHandlerC (\<lambda>r. if r = 4 then bcd 23 else bcd 59) demo_irq = Inr ((), t) \<and>
    table_is t [(0, 3, 9)] \<and> in_state t 1 READY \<and> video t (2, 1) = CHR ''3''"
proof -
  obtain t L' where t: "timerTickHandlerC (\<lambda>r. if r = 4 then bcd 23 else bcd 59) demo_irq = Inr ((), t)" "table_is t L'"
      "mset L' = mset (map later (filter (Not \<circ> due) [(1, 4, 5), (0, 2, 9)]))"
      "\<forall>q x. in_state t q x \<longleftrightarrow> (if q \<in> fst ` set (filter due [(1, 4, 5), (0, 2, 9)]) then x = READY else in_state demo_irq q x)"
      "\<forall>k<8. video t (2, int k) = (two_digits 23 @ '':'' @ two_digits 59 @ '':'' @ two_digits 59) ! k"
    using timer_tick [of "\<lambda>r. if r = 4 then bcd 23 else bcd 59" 23 59 59, OF _ _ _ _ _ _ demo_irq_table(1) demo_irq_facts(1,3)]
    by auto
  have "L' = [(0, 3, 9)]" using t(3) by simp
  moreover have "in_state t 1 READY" using t(4) by simp
  moreover have "video t (2, 1) = CHR ''3''"
  proof -
    have "char_of (51 :: nat) = CHR ''3''" by code_simp
    then show ?thesis using t(5) [rule_format, of 1] by (simp add: two_digits_def)
  qed
  ultimately show ?thesis using t(1,2) by blast
qed

lemma table_add:
  assumes "table_is s L" and "length L < 50"
  obtains A P C n where "addSleep p a s = Inr ((), s\<lparr>alarmSleep := A, sleepPIDS := P, sleepCounter := C, sleepListeners := n\<rparr>)"
    and "table_is (s\<lparr>alarmSleep := A, sleepPIDS := P, sleepCounter := C, sleepListeners := n\<rparr>) (L @ [(p, 0, a)])"
proof (rule that)
  have n: "sleepListeners s = int (length L)" using assms(1) by (simp add: table_is_def)
  show "addSleep p a s = Inr ((), s\<lparr>alarmSleep := (alarmSleep s)[length L := a], sleepPIDS := (sleepPIDS s)[length L := p],
      sleepCounter := (sleepCounter s)[length L := 0], sleepListeners := int (length L) + 1\<rparr>)"
    using assms(2) n by (simp add: addSleep_def Let_def)
  show "table_is (s\<lparr>alarmSleep := (alarmSleep s)[length L := a], sleepPIDS := (sleepPIDS s)[length L := p],
      sleepCounter := (sleepCounter s)[length L := 0], sleepListeners := int (length L) + 1\<rparr>) (L @ [(p, 0, a)])"
    using assms by (auto simp: table_is_def nth_append nth_list_update less_Suc_eq)
qed

text \<open>What \<open>sleep\<close> does before it yields.\<close>

lemma sleep_runs:
  assumes "pids_ok s" and "addSleep (running_pid s) a s = Inr ((), u)" and "same_sched s u"
  obtains P where "sleep a s = yield (u\<lparr>procs := P\<rparr>)" and "pids_ok (u\<lparr>procs := P\<rparr>)"
    and "\<forall>q x. in_state (u\<lparr>procs := P\<rparr>) q x \<longleftrightarrow> (if q = running_pid s then x = SLEEPING else in_state s q x)"
proof -
  define p where "p = running_pid s"
  note same = same_sched_facts [OF assms(3)]
  obtain w where w: "changeProcessState p SLEEPING u = Inr ((), w)" "w = u\<lparr>procs := procs w\<rparr>" "pids_ok w"
      "\<And>q x. q \<noteq> p \<Longrightarrow> in_state w q x \<longleftrightarrow> in_state u q x" "\<And>x y. in_state u p x \<Longrightarrow> in_state w p y \<longleftrightarrow> y = SLEEPING"
    using changeProcessState_effect [of u p SLEEPING] assms(1) same(2) by metis
  obtain P where P: "w = u\<lparr>procs := P\<rparr>" using w(2) by (rule that)
  obtain st where "in_state s p st" using running_in_state [OF assms(1)] unfolding p_def by blast
  then have "in_state w q x \<longleftrightarrow> (if q = p then x = SLEEPING else in_state s q x)" for q x
    using w(4) [of q x] w(5) [of st x] by (simp add: same)
  moreover have "getCurrentPid s = Inr (p, s)"
    using assms(1) getCurrentPid_ring by (auto simp: pids_ok_def p_def)
  then have "sleep a s = yield w"
    using assms(2) w(1) by (cases "yield w") (simp_all add: sleep_def kbind_def kcall_def p_def)
  ultimately show thesis using w(3) P that unfolding p_def by blast
qed

text \<open>C28. \<open>sleep a\<close> with a positive \<open>a\<close> puts the running process to sleep, and the timer wakes it at the
  \<open>a\<close>-th tick: as long as fewer ticks have come it sleeps, then it is ready, whoever else is in the table.  The
  process is not in the table yet, fewer than 50 others are, and these are different processes of the ring.\<close>

theorem sleeper_wakes_in_time:
  assumes "table_is s L" and "pids_ok s" and "\<forall>e\<in>set L. \<exists>x. in_state s (fst e) x" and "length L < 50"
    and "running_pid s \<notin> fst ` set L" and "distinct (map fst L)" and "0 < a"
  shows "\<exists>u. sleep a s = yield u \<and> in_state u (running_pid s) SLEEPING \<and>
    (\<forall>rs. int (length rs) \<le> a \<longrightarrow> (\<exists>t. ticks rs u = Inr ((), t) \<and>
       in_state t (running_pid s) (if int (length rs) < a then SLEEPING else READY)))"
proof -
  define p where "p = running_pid s"
  obtain A P C n where add: "addSleep p a s = Inr ((), s\<lparr>alarmSleep := A, sleepPIDS := P, sleepCounter := C, sleepListeners := n\<rparr>)"
      "table_is (s\<lparr>alarmSleep := A, sleepPIDS := P, sleepCounter := C, sleepListeners := n\<rparr>) (L @ [(p, 0, a)])"
    using table_add [OF assms(1,4)] by metis
  define v where "v = s\<lparr>alarmSleep := A, sleepPIDS := P, sleepCounter := C, sleepListeners := n\<rparr>"
  have "same_sched s v" by (simp add: v_def same_sched_def)
  with sleep_runs [OF assms(2)] add(1) obtain Q where Q: "sleep a s = yield (v\<lparr>procs := Q\<rparr>)" "pids_ok (v\<lparr>procs := Q\<rparr>)"
      "\<forall>q x. in_state (v\<lparr>procs := Q\<rparr>) q x \<longleftrightarrow> (if q = p then x = SLEEPING else in_state s q x)"
    unfolding p_def [symmetric] v_def [symmetric] by blast
  define u where "u = v\<lparr>procs := Q\<rparr>"
  have tab: "table_is u (L @ [(p, 0, a)])" using add(2) by (simp add: u_def v_def table_is_def)
  have known: "\<forall>e\<in>set (L @ [(p, 0, a)]). \<exists>x. in_state u (fst e) x"
  proof
    fix e assume "e \<in> set (L @ [(p, 0, a)])"
    then have "(\<exists>x. in_state s (fst e) x) \<or> fst e = p" using assms(3) by auto
    then show "\<exists>x. in_state u (fst e) x" using Q(3) unfolding u_def [symmetric] by (cases "fst e = p") auto
  qed
  have p: "in_state u p x \<longleftrightarrow> x = SLEEPING" for x using Q(3) unfolding u_def [symmetric] by simp
  have "distinct (map fst (L @ [(p, 0, a)]))" using assms(5,6) by (simp add: p_def)
  then have "\<exists>t. ticks rs u = Inr ((), t) \<and> in_state t p (if int (length rs) < a then SLEEPING else READY)"
    if "int (length rs) \<le> a" for rs
    using ticks_wake [OF tab Q(2) [folded u_def] known, of p 0 a rs] assms(7) that p by auto
  then show ?thesis using Q(1) p unfolding u_def [symmetric] p_def [symmetric] by blast
qed

theorem sleeper_wakes_in_time_witness:
  "\<exists>u. sleep 2 (demo_irq\<lparr>sleepListeners := 1\<rparr>) = yield u \<and>
    (\<exists>t. ticks [\<lambda>_. bcd 7] u = Inr ((), t) \<and> in_state t 0 SLEEPING) \<and>
    (\<exists>t. ticks [\<lambda>_. bcd 7, \<lambda>_. bcd 7] u = Inr ((), t) \<and> in_state t 0 READY)"
proof -
  define s where "s = demo_irq\<lparr>sleepListeners := 1\<rparr>"
  have "same_sched demo_irq s" by (simp add: s_def same_sched_def)
  note same = same_sched_facts [OF this]
  have s: "table_is s [(1, 4, 5)]" "pids_ok s" "running_pid s = 0" "\<forall>e\<in>set [(1, 4, 5)]. \<exists>x. in_state s (fst e) x"
    using demo_irq_table(2) demo_irq_facts by (simp_all add: same s_def [symmetric])
  obtain u where u: "sleep 2 s = yield u" "\<forall>rs. int (length rs) \<le> 2 \<longrightarrow>
      (\<exists>t. ticks rs u = Inr ((), t) \<and> in_state t 0 (if int (length rs) < 2 then SLEEPING else READY))"
    using sleeper_wakes_in_time [OF s(1,2,4), of 2] s(3) by auto
  from u(2) [rule_format, of "[\<lambda>_. bcd 7]"] u(2) [rule_format, of "[\<lambda>_. bcd 7, \<lambda>_. bcd 7]"] u(1)
  show ?thesis unfolding s_def [symmetric] by auto
qed

text \<open>With 50 processes in the table \<open>sleep\<close> puts the running process to sleep without an entry: the
  table is as before, so no tick will wake it.\<close>

theorem sleep_without_entry:
  assumes "table_is s L" and "length L = 50" and "pids_ok s"
  shows "\<exists>u. sleep a s = yield u \<and> in_state u (running_pid s) SLEEPING \<and> table_is u L \<and> console u = console s @ ''_______________''"
proof -
  define v where "v = s\<lparr>console := console s @ ''_______________''\<rparr>"
  have "addSleep (running_pid s) a s = Inr ((), v)"
    using assms(1,2) by (simp add: addSleep_def table_is_def ncPrint_def v_def)
  moreover have "same_sched s v" by (simp add: v_def same_sched_def)
  ultimately obtain P where P: "sleep a s = yield (v\<lparr>procs := P\<rparr>)"
      "\<forall>q x. in_state (v\<lparr>procs := P\<rparr>) q x \<longleftrightarrow> (if q = running_pid s then x = SLEEPING else in_state s q x)"
    using sleep_runs [OF assms(3)] by metis
  have "table_is (v\<lparr>procs := P\<rparr>) L" using assms(1) by (simp add: v_def table_is_def)
  then show ?thesis using P by (intro exI [of _ "v\<lparr>procs := P\<rparr>"]) (simp add: v_def)
qed

theorem sleep_without_entry_witness:
  "\<exists>u. sleep 7 (demo_irq\<lparr>sleepListeners := 50\<rparr>) = yield u \<and> in_state u 0 SLEEPING \<and> sleepListeners u = 50"
proof -
  define s where "s = demo_irq\<lparr>sleepListeners := 50\<rparr>"
  define L where "L = map (\<lambda>i. (sleepPIDS demo_irq ! i, sleepCounter demo_irq ! i, alarmSleep demo_irq ! i)) [0..<50]"
  have "same_sched demo_irq s" by (simp add: s_def same_sched_def)
  note same = same_sched_facts [OF this]
  have s: "table_is s L" "length L = 50" "pids_ok s" "running_pid s = 0"
    using demo_irq_table(1) demo_irq_facts by (simp_all add: same) (simp_all add: table_is_def s_def L_def)
  from sleep_without_entry [OF s(1-3), of 7] s(2,4) show ?thesis
    unfolding s_def [symmetric] by (auto simp: table_is_def)
qed

text \<open>After \<open>loadIDT\<close> the processor finds at every vector the list names the handler of the list,
  as a present interrupt gate of the kernel's code segment, when the handler lies below 2 to the 48;
  and the vectors that are not in the list, those of IRQ 2 and IRQ 15 among them, are as they were.\<close>

theorem loadIDT_installs:
  assumes "(offset, entry) \<in> set (idt_entries h)" and "unat offset < 2 ^ 48"
  shows "handler_of (IDT (loadIDT h s) entry) = offset \<and> attrs (IDT (loadIDT h s) entry) = 0x8E \<and>
    selector (IDT (loadIDT h s) entry) = 8 \<and>
    IDT (loadIDT h s) 0x22 = IDT s 0x22 \<and> IDT (loadIDT h s) 0x2F = IDT s 0x2F"
proof -
  have d: "distinct (map snd (idt_entries h))" by (simp add: idt_entries_def)
  have "IDT (loadIDT h s) entry = IDT (setIDTEntry offset entry s) entry"
    unfolding loadIDT_def by (rule load_entries(1) [OF d assms(1)])
  moreover have "unat (take_bit 48 offset) = unat offset"
    using assms(2) by (simp add: unsigned_take_bit_eq take_bit_nat_eq_self)
  then have "take_bit 48 offset = offset" by (rule injD [OF inj_unsigned])
  moreover have "IDT (loadIDT h s) 0x22 = IDT s 0x22" "IDT (loadIDT h s) 0x2F = IDT s 0x2F"
    unfolding loadIDT_def by (rule load_entries(2) [OF d]; simp add: idt_entries_def)+
  ultimately show ?thesis
    using setIDTEntry_handler [of offset entry s] by (simp add: setIDTEntry_def)
qed

theorem loadIDT_installs_witness:
  "handler_of (IDT (loadIDT \<lparr>h_timerTickHandler = 0x1001A0, h_master = 1, h_slave = 2, h_generalProtectionHandler = 3,
    h_pageFaultHandler = 4, h_sys_callHandler = 5, h_keyboardHandler = 6, h_mouse_handler = 7\<rparr> demo_irq) 0x20) = 0x1001A0"
  by (rule loadIDT_installs [THEN conjunct1]) (simp_all add: idt_entries_def)

end
