(* ===== verification/Mouse.thy ===== *)
theory Mouse
  imports Timer
begin

text \<open>
  The PS/2 mouse of Kernel/mouse.c: the dialogue with the controller, the state machine that collects
  the three bytes of a packet, the position of the mouse on the screen, the selection that is dragged
  with the left button and the paste of the right one.

  What the ports answer is a parameter: \<open>dev n p\<close> is what the \<open>n\<close>-th read of the machine gets from port
  \<open>p\<close>.  The lemmas show that the handler keeps the mouse on the screen and never fails, what a packet does,
  and that a dragged text is pasted as it was on the screen.
\<close>

section \<open>State\<close>

record mouse = irq +
  mouse_cycle :: "8 word"
  mouse_byte :: "8 word list"
  flag :: bool
  mx :: int
  my :: int
  xinit :: int
  yinit :: int
  xfin :: int
  yfin :: int
  selecting :: bool
  reads :: nat

type_synonym device = "nat \<Rightarrow> int \<Rightarrow> 8 word"

definition inputb :: "device \<Rightarrow> int \<Rightarrow> ('a mouse_scheme, 8 word) eprog" where
  "inputb dev port s = Inr (dev (reads s) port, s\<lparr>reads := reads s + 1\<rparr>)"

section \<open>The controller\<close>

text \<open>\<open>while (--timeout)\<close> with 100000 reads at most 99999 times.\<close>

fun wait_loop :: "device \<Rightarrow> bool \<Rightarrow> nat \<Rightarrow> ('a mouse_scheme, unit) eprog" where
  "wait_loop dev input 0 = ereturn ()"
| "wait_loop dev input (Suc n) =
     ebind (inputb dev 0x64) (\<lambda>st.
     if (if input then st AND 0x01 = 1 else st AND 0x02 = 0) then ereturn () else wait_loop dev input n)"

definition mouse_wait :: "device \<Rightarrow> int \<Rightarrow> ('a mouse_scheme, unit) eprog" where
  "mouse_wait dev type = wait_loop dev (type = 0) 99999"

definition mouse_write :: "device \<Rightarrow> 8 word \<Rightarrow> ('a mouse_scheme, unit) eprog" where
  "mouse_write dev v =
     ebind (mouse_wait dev 1) (\<lambda>_.
     ebind (emodify (outputb 0x64 0xD4)) (\<lambda>_.
     ebind (mouse_wait dev 1) (\<lambda>_.
     emodify (outputb 0x60 v))))"

definition mouse_read :: "device \<Rightarrow> ('a mouse_scheme, 8 word) eprog" where
  "mouse_read dev = ebind (mouse_wait dev 0) (\<lambda>_. inputb dev 0x60)"

definition detect_ps2_mouse :: "device \<Rightarrow> ('a mouse_scheme, int) eprog" where
  "detect_ps2_mouse dev = ebind (mouse_read dev) (\<lambda>tmp. ereturn (if tmp \<noteq> 0xFA then 0 else 1))"

definition mouse_init :: "device \<Rightarrow> ('a mouse_scheme, unit) eprog" where
  "mouse_init dev =
     ebind (mouse_wait dev 1) (\<lambda>_.
     ebind (emodify (outputb 0x64 0xA8)) (\<lambda>_.
     ebind (mouse_wait dev 1) (\<lambda>_.
     ebind (emodify (outputb 0x64 0x20)) (\<lambda>_.
     ebind (mouse_wait dev 0) (\<lambda>_.
     ebind (inputb dev 0x60) (\<lambda>b.
     let status_byte = b OR 2 in
     ebind (mouse_wait dev 1) (\<lambda>_.
     ebind (emodify (outputb 0x64 0x60)) (\<lambda>_.
     ebind (mouse_wait dev 1) (\<lambda>_.
     ebind (emodify (outputb 0x60 status_byte)) (\<lambda>_.
     ebind (mouse_write dev 0xF6) (\<lambda>_.
     ebind (mouse_read dev) (\<lambda>_.
     ebind (mouse_write dev 0xF4) (\<lambda>_.
     ebind (mouse_read dev) (\<lambda>_. ereturn ()))))))))))))))"

section \<open>A packet\<close>

text \<open>The two ends of the selection in the order of the text.\<close>

definition in_order :: "(int \<Rightarrow> int \<Rightarrow> int \<Rightarrow> int \<Rightarrow> 'b) \<Rightarrow> 'a mouse_scheme \<Rightarrow> 'b" where
  "in_order f s =
     (if yfin s < yinit s \<or> yfin s = yinit s \<and> xfin s < xinit s
      then f (yfin s) (xfin s) (yinit s) (xinit s) else f (yinit s) (xinit s) (yfin s) (xfin s))"

definition left_button :: "('a mouse_scheme, unit) eprog" where
  "left_button =
     ebind (emodify (\<lambda>s. if selecting s then (in_order undoSelection s s)\<lparr>xfin := mx s, yfin := my s\<rparr>
              else s\<lparr>selecting := True, xinit := mx s, yinit := my s, xfin := mx s, yfin := my s\<rparr>))
       (\<lambda>_ s. in_order selection s s)"

definition left_released :: "'a mouse_scheme \<Rightarrow> 'a mouse_scheme" where
  "left_released s = (if selecting s then updateScreen ((in_order undoSelection s s)\<lparr>selecting := False\<rparr>) else s)"

definition right_button :: "bool \<Rightarrow> ('a mouse_scheme, unit) eprog" where
  "right_button down s =
     (if down then Inr ((), s\<lparr>flag := True\<rparr>)
      else if flag s then ebind paste (\<lambda>_. emodify (\<lambda>s. s\<lparr>flag := False\<rparr>)) s
      else Inr ((), s))"

text \<open>The byte is an \<open>int8_t\<close>; \<open>| 0xFFFFFF00\<close> is on 32 bits.\<close>

definition rel_of :: "bool \<Rightarrow> 8 word \<Rightarrow> int" where
  "rel_of sign b = (if sign then sint ((scast b :: 32 word) OR 0xFFFFFF00) else sint b)"

definition move_mouse :: "8 word \<Rightarrow> 8 word \<Rightarrow> 8 word \<Rightarrow> 'a mouse_scheme \<Rightarrow> 'a mouse_scheme" where
  "move_mouse d bx by' s =
     (let rel_x = rel_of (d AND 0x10 = 0x10) bx;
          rel_y = rel_of (d AND 0x20 = 0x20) by';
          s = udrawMouse (my s) (mx s) s;
          s = (if mx s + rel_x sdiv 10 < 80 \<and> 0 \<le> mx s + rel_x sdiv 10 then s\<lparr>mx := mx s + rel_x sdiv 10\<rparr> else s);
          s = (if my s - rel_y sdiv 10 < 25 \<and> 0 \<le> my s - rel_y sdiv 10 then s\<lparr>my := my s - rel_y sdiv 10\<rparr> else s)
      in updateScreen (drawMouse (my s) (mx s) s))"

definition mouse_packet :: "('a mouse_scheme, unit) eprog" where
  "mouse_packet s =
     (let d = mouse_byte s ! 0
      in if d AND 0x80 \<noteq> 0 \<or> d AND 0x40 \<noteq> 0 then Inr ((), s\<lparr>mouse_cycle := 4\<rparr>)
         else ebind (if d AND 0x01 \<noteq> 0 then left_button else emodify left_released) (\<lambda>_.
              ebind (right_button (d AND 0x02 \<noteq> 0)) (\<lambda>_.
              emodify (\<lambda>s. (move_mouse d (mouse_byte s ! 1) (mouse_byte s ! 2) s)\<lparr>mouse_cycle := 4\<rparr>))) s)"

text \<open>The switch over \<open>mouse_cycle\<close>; the result says whether the handler returns there.\<close>

definition mouse_collect :: "8 word \<Rightarrow> ('a mouse_scheme, bool) eprog" where
  "mouse_collect mouse_in s =
     (if mouse_cycle s = 0
      then let t = s\<lparr>mouse_byte := (mouse_byte s)[0 := mouse_in]\<rparr>
           in if mouse_in AND 0x08 = 0 then Inr (True, t) else Inr (False, t\<lparr>mouse_cycle := mouse_cycle s + 1\<rparr>)
      else if mouse_cycle s = 1
      then Inr (False, s\<lparr>mouse_byte := (mouse_byte s)[1 := mouse_in], mouse_cycle := mouse_cycle s + 1\<rparr>)
      else if mouse_cycle s = 2
      then ebind mouse_packet (\<lambda>_. ereturn False) (s\<lparr>mouse_byte := (mouse_byte s)[2 := mouse_in]\<rparr>)
      else Inr (False, s))"

text \<open>One round of the loop: the next status, or nothing where the handler returns.\<close>

definition mouse_step :: "device \<Rightarrow> 8 word \<Rightarrow> ('a mouse_scheme, 8 word option) eprog" where
  "mouse_step dev status =
     ebind (inputb dev 0x60) (\<lambda>mouse_in.
     ebind (if status AND 0x20 \<noteq> 0 then mouse_collect mouse_in else ereturn False) (\<lambda>ret.
     if ret then ereturn None
     else ebind (inputb dev 0x64) (\<lambda>status s.
          if 4 \<le> mouse_cycle s then Inr (None, s\<lparr>mouse_cycle := 0\<rparr>) else Inr (Some status, s))))"

partial_function (option) mouse_loop :: "device \<Rightarrow> 8 word \<Rightarrow> 'a mouse_scheme \<Rightarrow> (fault + unit \<times> 'a mouse_scheme) option" where
  "mouse_loop dev status s =
     (if status AND 0x01 = 0 then Some (Inr ((), s))
      else case mouse_step dev status s of
          Inl e \<Rightarrow> Some (Inl e)
        | Inr (None, s) \<Rightarrow> Some (Inr ((), s))
        | Inr (Some status, s) \<Rightarrow> mouse_loop dev status s)"

definition mouse_handlerC :: "device \<Rightarrow> ('a mouse_scheme, unit) eprog" where
  "mouse_handlerC dev = ebind (inputb dev 0x64) (\<lambda>status. loop_outcome (mouse_loop dev status))"

section \<open>The selection\<close>

definition cell_of :: "int \<Rightarrow> int \<times> int" where
  "cell_of k = (k div 80, k mod 80)"

lemma cell_sdiv: "0 \<le> (k :: int) \<Longrightarrow> k sdiv 80 = k div 80" "0 \<le> (k :: int) \<Longrightarrow> k smod 80 = k mod 80"
  by (simp_all add: signed_divide_int_def signed_modulo_int_def sgn_if)

lemma cell_valid: "0 \<le> k \<Longrightarrow> k < 2000 \<Longrightarrow> validPosition (k div 80) (k mod 80)"
  unfolding validPosition_def by presburger

lemma cell_of_inject: "cell_of k = cell_of l \<longleftrightarrow> k = l"
  by (auto simp: cell_of_def) (metis mult_div_mod_eq)

definition marked :: "char \<Rightarrow> int \<Rightarrow> int \<Rightarrow> (int \<times> int \<Rightarrow> char) \<Rightarrow> int \<times> int \<Rightarrow> char" where
  "marked a k fin A p = (if p \<in> cell_of ` {k..fin} then a else A p)"

lemma mark_loop_marks:
  assumes mark: "\<And>f c s. validPosition f c \<Longrightarrow> mark f c s = s\<lparr>attributes := (attributes s)((f, c) := a)\<rparr>"
    and "0 \<le> k" "fin < 2000"
  shows "mark_loop mark k fin s = s\<lparr>attributes := marked a k fin (attributes s)\<rparr>"
  using assms(2)
proof (induction "nat (fin + 1 - k)" arbitrary: k s)
  case 0
  then have "\<not> k \<le> fin" by simp
  moreover from this have "marked a k fin (attributes s) = attributes s" by (simp add: marked_def fun_eq_iff)
  ultimately show ?case by (subst mark_loop.simps) simp
next
  case (Suc n)
  then have k: "k \<le> fin" "k < 2000" using assms(3) by simp_all
  define u where "u = s\<lparr>attributes := (attributes s)(cell_of k := a)\<rparr>"
  have "mark_loop mark k fin s = mark_loop mark (k + 1) fin u"
    using k Suc.prems cell_valid [of k]
    by (subst mark_loop.simps) (simp add: cell_sdiv mark u_def cell_of_def)
  also have "\<dots> = u\<lparr>attributes := marked a (k + 1) fin (attributes u)\<rparr>"
    using Suc.hyps(1) [of "k + 1" u] Suc.hyps(2) Suc.prems by simp
  also have "marked a (k + 1) fin (attributes u) = marked a k fin (attributes s)"
  proof -
    have "{k..fin} = insert k {k + 1..fin}" using k by auto
    then show ?thesis by (auto simp: marked_def u_def fun_eq_iff)
  qed
  finally show ?case by (simp add: u_def)
qed

lemma draw_marks:
  "0 \<le> k \<Longrightarrow> fin < 2000 \<Longrightarrow> mark_loop drawMouse k fin s = s\<lparr>attributes := marked (CHR 0x30) k fin (attributes s)\<rparr>"
  "0 \<le> k \<Longrightarrow> fin < 2000 \<Longrightarrow> mark_loop udrawMouse k fin s = s\<lparr>attributes := marked DEFAULT k fin (attributes s)\<rparr>"
  by (rule mark_loop_marks; simp add: drawMouse_def udrawMouse_def)+

text \<open>The text on the screen from cell \<open>k\<close>; cells that were never written count as blanks.\<close>

definition shown :: "char \<Rightarrow> char" where
  "shown a = (if a = CHR 0x00 then CHR '' '' else a)"

definition screen_text :: "(int \<times> int \<Rightarrow> char) \<Rightarrow> int \<Rightarrow> nat \<Rightarrow> string" where
  "screen_text v k n = map (\<lambda>i. shown (v (cell_of (k + int i)))) [0..<n]"

lemma screen_text_Suc: "screen_text v k (Suc n) = shown (v (cell_of k)) # screen_text v (k + 1) n"
  unfolding screen_text_def upt_conv_Cons [OF zero_less_Suc]
  by (simp add: map_Suc_upt [symmetric] add.assoc del: upt_Suc)

lemma getScreen_char:
  assumes "0 \<le> k" and "k < 2000"
  shows "getScreen (k sdiv 80) (k smod 80) s = schar (video s (cell_of k))"
  using assms cell_valid [OF assms] by (simp add: getScreen_def cell_sdiv cell_of_def)

lemma schar_char: "schar c = 0 \<longleftrightarrow> c = CHR 0x00" "char_of (nat (schar c mod 256)) = c"
proof -
  show "schar c = 0 \<longleftrightarrow> c = CHR 0x00" using schar_inject [of c "CHR 0x00"] by (simp add: schar_def code_def)
  have "schar c mod 256 = code c" using code_bounds [of c] by (auto simp: schar_def)
  then show "char_of (nat (schar c mod 256)) = c" by (simp add: code_def)
qed

lemma copyMouse_loop_copies:
  assumes "0 \<le> k" and "k + int h + int n \<le> 2000" and "length (mouseSelect s) = 2000"
  shows "\<exists>M. copyMouse_loop n (int h) k s = Inr ((), s\<lparr>mouseSelect := M\<rparr>) \<and> length M = 2000 \<and>
    take h M = take h (mouseSelect s) \<and> take n (drop h M) = screen_text (video s) (k + int h) n"
  using assms(2,3)
proof (induction n arbitrary: h s)
  case 0
  show ?case by (intro exI [of _ "mouseSelect s"]) (simp add: 0 screen_text_def)
next
  case (Suc n)
  have kh: "0 \<le> int h + k" "int h + k < 2000" using assms(1) Suc.prems by simp_all
  define c where "c = shown (video s (cell_of (k + int h)))"
  define u where "u = s\<lparr>mouseSelect := (mouseSelect s)[h := c]\<rparr>"
  obtain M where M: "copyMouse_loop n (int (Suc h)) k u = Inr ((), u\<lparr>mouseSelect := M\<rparr>)" "length M = 2000"
      "take (Suc h) M = take (Suc h) (mouseSelect u)" "take n (drop (Suc h) M) = screen_text (video u) (k + int (Suc h)) n"
    using Suc.IH [of "Suc h" u] Suc.prems by (auto simp: u_def)
  have "copyMouse_loop (Suc n) (int h) k s = copyMouse_loop n (int (Suc h)) k u"
    using getScreen_char [OF kh, of s] kh assms(1)
    by (simp add: ebind_def schar_char c_def u_def shown_def algebra_simps)
  moreover have "take h M = take h (mouseSelect s)"
    using arg_cong [OF M(3), of "take h"] by (simp add: u_def min_def)
  moreover have "M ! h = c"
    using arg_cong [OF M(3), of "\<lambda>l. l ! h"] Suc.prems assms(1) M(2) by (simp add: u_def)
  then have "take (Suc n) (drop h M) = screen_text (video s) (k + int h) (Suc n)"
    using M(2,4) Suc.prems assms(1) by (simp add: Cons_nth_drop_Suc [symmetric] screen_text_Suc c_def u_def algebra_simps)
  ultimately show ?case using M(1,2) by (simp add: u_def) metis
qed

lemma selection_copies:
  assumes "0 \<le> k" and "k \<le> fin" and "fin < 2000" and "length (mouseSelect s) = 2000" and "k = f1 * 80 + c1" and "fin = f2 * 80 + c2"
  obtains M where "selection f1 c1 f2 c2 s =
      Inr ((), s\<lparr>sel_size := fin - k + 1, mouseSelect := M, attributes := marked (CHR 0x30) k fin (attributes s)\<rparr>)"
    and "length M = 2000" and "take (nat (fin - k + 1)) M = screen_text (video s) k (nat (fin - k + 1))"
proof -
  obtain M where M: "copyMouse_loop (nat (fin - k + 1)) (int 0) k (s\<lparr>sel_size := fin - k + 1\<rparr>) =
      Inr ((), s\<lparr>sel_size := fin - k + 1, mouseSelect := M\<rparr>)" "length M = 2000"
      "take (nat (fin - k + 1)) (drop 0 M) = screen_text (video s) (k + int 0) (nat (fin - k + 1))"
    using copyMouse_loop_copies [of k 0 "nat (fin - k + 1)" "s\<lparr>sel_size := fin - k + 1\<rparr>"] assms(1-4) by auto
  have "copyMouse k fin s = Inr ((), s\<lparr>sel_size := fin - k + 1, mouseSelect := M\<rparr>)"
    using M(1) by (simp add: copyMouse_def)
  then have "selection f1 c1 f2 c2 s =
      Inr ((), s\<lparr>sel_size := fin - k + 1, mouseSelect := M, attributes := marked (CHR 0x30) k fin (attributes s)\<rparr>)"
    unfolding selection_def Let_def assms(5,6) [symmetric] by (simp add: ebind_def draw_marks(1) [OF assms(1,3)])
  then show thesis using M(2,3) by (intro that) simp_all
qed

section \<open>Pasting\<close>

text \<open>The frame of what the terminal does with a character, and the pointers it relies on.\<close>

definition tty_ok :: "'a tty_scheme \<Rightarrow> bool" where
  "tty_ok s \<longleftrightarrow> cursor_ok s \<and> bufferStart s = 0 \<and> bufferSize s = BUFFERSIZE \<and> 0 \<le> bufferPosition s \<and>
     bufferPosition s < BUFFERSIZE"

definition tty_frame :: "'a tty_scheme \<Rightarrow> 'a tty_scheme \<Rightarrow> bool" where
  "tty_frame s t \<longleftrightarrow> (\<exists>R v i j B p e. t = s\<lparr>ram := R, video := v, cur_i := i, cur_j := j, Buffer := B,
     bufferPosition := p, intr := e\<rparr>)"

lemma tty_frame_trans: "tty_frame s t \<Longrightarrow> tty_frame t u \<Longrightarrow> tty_frame s u"
  unfolding tty_frame_def by (elim exE) (simp, blast)

lemma putTerminalBuffer_total:
  assumes "tty_ok s"
  obtains t where "putTerminalBuffer c s = Inr ((), t)" and "tty_ok t" and "tty_frame s t"
proof -
  have s: "cursor_ok s" "bufferStart s = 0" "bufferSize s = 2500" "0 \<le> bufferPosition s" "bufferPosition s < 2500"
    using assms by (simp_all add: tty_ok_def)
  obtain b where full: "isBufferFull s = Inr (b, cli s)" by (simp add: isBufferFull_def Let_def)
  show thesis
  proof (cases b)
    case True
    have "putTerminalBuffer c s = Inr ((), s\<lparr>intr := True\<rparr>)"
      using full True by (simp add: putTerminalBuffer_def ebind_def cli_def sti_def)
    moreover have "tty_ok (s\<lparr>intr := True\<rparr>)" using assms by (simp add: tty_ok_def cursor_ok_def)
    moreover have "s\<lparr>intr := True\<rparr> = s\<lparr>ram := ram s, video := video s, cur_i := cur_i s, cur_j := cur_j s, Buffer := Buffer s,
      bufferPosition := bufferPosition s, intr := True\<rparr>" by simp
    then have "tty_frame s (s\<lparr>intr := True\<rparr>)" unfolding tty_frame_def by blast
    ultimately show thesis by (rule that)
  next
    case False
    define u where "u = s\<lparr>intr := False, Buffer := (Buffer s)(bufferPosition s := c)\<rparr>"
    have "cursor_ok u" using s(1) by (simp add: u_def cursor_ok_def)
    moreover have "0 \<le> bufferPosition u" "bufferPosition u < BUFFERSIZE" using s by (simp_all add: u_def)
    ultimately obtain v where v: "echo_char c u = Inr ((), v)" "cursor_ok v" "screen_frame u v"
      by (rule echo_char_ok)
    note same = screen_frame_tty [OF v(3)]
    define p where "p = (if bufferPosition s + 1 = 2500 then 0 else bufferPosition s + 1)"
    define t where "t = v\<lparr>bufferPosition := p, intr := True\<rparr>"
    have set: "set_buffer (bufferPosition (cli s)) c (cli s) = Inr ((), u)"
      using s by (simp add: set_buffer_def cli_def u_def)
    have "putTerminalBuffer c s = Inr ((), t)"
      using full False set v(1) same s
      by (simp add: putTerminalBuffer_def ebind_def cli_def sti_def t_def p_def u_def)
    moreover have "tty_ok t" using v(2) same s by (simp add: t_def tty_ok_def cursor_ok_def p_def u_def)
    moreover have "tty_frame s t"
    proof -
      obtain R w i j where "v = u\<lparr>ram := R, video := w, cur_i := i, cur_j := j\<rparr>"
        using v(3) unfolding screen_frame_def by (elim exE) (rule that)
      then have "t = s\<lparr>ram := R, video := w, cur_i := i, cur_j := j, Buffer := (Buffer s)(bufferPosition s := c),
        bufferPosition := p, intr := True\<rparr>" by (simp add: t_def u_def)
      then show ?thesis unfolding tty_frame_def by blast
    qed
    ultimately show thesis by (rule that)
  qed
qed

lemma tty_frame_fields:
  assumes "tty_frame s t"
  shows "mouseSelect t = mouseSelect s" "sel_size t = sel_size s" "attributes t = attributes s" "tty.more t = tty.more s"
    "procs t = procs s" "slots t = slots s" "current t = current s"
proof -
  obtain R v i j B p e where "t = s\<lparr>ram := R, video := v, cur_i := i, cur_j := j, Buffer := B, bufferPosition := p, intr := e\<rparr>"
    using assms unfolding tty_frame_def by (elim exE) (rule that)
  then show "mouseSelect t = mouseSelect s" "sel_size t = sel_size s" "attributes t = attributes s" "tty.more t = tty.more s"
    "procs t = procs s" "slots t = slots s" "current t = current s" by simp_all
qed

text \<open>\<open>paste\<close> types the selected characters.\<close>

lemma paste_loop_types:
  assumes "tty_ok s" and "h + n \<le> length (mouseSelect s)"
  shows "\<exists>t. paste_loop n h s = Inr ((), t) \<and> type_all (take n (drop h (mouseSelect s))) s = Inr ((), t) \<and> tty_ok t \<and> tty_frame s t"
  using assms
proof (induction n arbitrary: h s)
  case 0
  have "s = s\<lparr>ram := ram s, video := video s, cur_i := cur_i s, cur_j := cur_j s, Buffer := Buffer s,
      bufferPosition := bufferPosition s, intr := intr s\<rparr>" by simp
  then have "tty_frame s s" unfolding tty_frame_def by blast
  then show ?case using 0 by simp
next
  case (Suc n)
  define c where "c = mouseSelect s ! h"
  have drop: "take (Suc n) (drop h (mouseSelect s)) = c # take n (drop (Suc h) (mouseSelect s))"
    using Suc.prems(2) by (simp add: c_def Cons_nth_drop_Suc [symmetric])
  obtain u where u: "putTerminalBuffer c s = Inr ((), u)" "tty_ok u" "tty_frame s u"
    using putTerminalBuffer_total [OF Suc.prems(1)] .
  note same = tty_frame_fields [OF u(3)]
  obtain t where "paste_loop n (Suc h) u = Inr ((), t)" "type_all (take n (drop (Suc h) (mouseSelect u))) u = Inr ((), t)"
      "tty_ok t" "tty_frame u t"
    using Suc.IH [OF u(2), of "Suc h"] Suc.prems(2) by (auto simp: same)
  then show ?case
    using u Suc.prems(2) tty_frame_trans [OF u(3)] by (auto simp: ebind_def c_def [symmetric] drop same)
qed

lemma paste_types:
  assumes "tty_ok s" and "nat (sel_size s) \<le> length (mouseSelect s)"
  obtains t where "paste s = Inr ((), t)" and "type_all (take (nat (sel_size s)) (mouseSelect s)) s = Inr ((), t)"
    and "tty_ok t" and "tty_frame s t"
  using paste_loop_types [of s 0 "nat (sel_size s)"] assms by (auto simp: paste_def)

section \<open>The mouse stays on the screen\<close>

definition point_ok :: "int \<Rightarrow> int \<Rightarrow> bool" where
  "point_ok c f \<longleftrightarrow> 0 \<le> c \<and> c < 80 \<and> 0 \<le> f \<and> f < 25"

definition mouse_ok :: "'a mouse_scheme \<Rightarrow> bool" where
  "mouse_ok s \<longleftrightarrow> tty_ok s \<and> length (mouseSelect s) = 2000 \<and> nat (sel_size s) \<le> 2000 \<and> length (mouse_byte s) = 3 \<and>
     point_ok (mx s) (my s) \<and> (selecting s \<longrightarrow> point_ok (xinit s) (yinit s) \<and> point_ok (xfin s) (yfin s))"

text \<open>Between two packets the counter is below 3.\<close>

definition mouse_ready :: "'a mouse_scheme \<Rightarrow> bool" where
  "mouse_ready s \<longleftrightarrow> mouse_ok s \<and> (mouse_cycle s = 0 \<or> mouse_cycle s = 1 \<or> mouse_cycle s = 2)"

text \<open>The selection covers the cells between its ends.\<close>

definition sel_from :: "'a mouse_scheme \<Rightarrow> int" where
  "sel_from s = min (yinit s * 80 + xinit s) (yfin s * 80 + xfin s)"

definition sel_to :: "'a mouse_scheme \<Rightarrow> int" where
  "sel_to s = max (yinit s * 80 + xinit s) (yfin s * 80 + xfin s)"

lemma in_order_ends:
  assumes "point_ok (xinit s) (yinit s)" and "point_ok (xfin s) (yfin s)"
  obtains f1 c1 f2 c2 where "in_order g s = g f1 c1 f2 c2" and "f1 * 80 + c1 = sel_from s" and "f2 * 80 + c2 = sel_to s"
    and "0 \<le> sel_from s" and "sel_from s \<le> sel_to s" and "sel_to s < 2000"
proof (cases "yfin s < yinit s \<or> yfin s = yinit s \<and> xfin s < xinit s")
  case True
  then show thesis
    using assms by (intro that [of "yfin s" "xfin s" "yinit s" "xinit s"]) (auto simp: in_order_def sel_from_def sel_to_def point_ok_def)
next
  case False
  then show thesis
    using assms by (intro that [of "yinit s" "xinit s" "yfin s" "xfin s"]) (auto simp: in_order_def sel_from_def sel_to_def point_ok_def)
qed

lemma undo_in_order:
  assumes "point_ok (xinit s) (yinit s)" and "point_ok (xfin s) (yfin s)"
  shows "in_order undoSelection s s = s\<lparr>attributes := marked DEFAULT (sel_from s) (sel_to s) (attributes s)\<rparr>"
proof -
  obtain f1 c1 f2 c2 where e:
      "in_order (undoSelection :: _ \<Rightarrow> _ \<Rightarrow> _ \<Rightarrow> _ \<Rightarrow> 'a mouse_scheme \<Rightarrow> _) s = undoSelection f1 c1 f2 c2" "f1 * 80 + c1 = sel_from s" "f2 * 80 + c2 = sel_to s"
      "0 \<le> sel_from s" "sel_from s \<le> sel_to s" "sel_to s < 2000"
    by (rule in_order_ends [OF assms, of undoSelection])
  show ?thesis unfolding e(1) unfolding undoSelection_def e(2,3) by (rule draw_marks(2) [OF e(4,6)])
qed

text \<open>After a packet with the left button down the selection reaches from where the button went down to the mouse.\<close>

lemma left_button_selects:
  assumes "mouse_ok s"
  defines "u \<equiv> if selecting s then s\<lparr>xfin := mx s, yfin := my s\<rparr>
    else s\<lparr>selecting := True, xinit := mx s, yinit := my s, xfin := mx s, yfin := my s\<rparr>"
  obtains M A where "left_button s = Inr ((), u\<lparr>sel_size := sel_to u - sel_from u + 1, mouseSelect := M, attributes := A\<rparr>)"
    and "length M = 2000" and "0 \<le> sel_from u" and "sel_from u \<le> sel_to u" and "sel_to u < 2000"
    and "take (nat (sel_to u - sel_from u + 1)) M = screen_text (video s) (sel_from u) (nat (sel_to u - sel_from u + 1))"
    and "\<forall>k. sel_from u \<le> k \<longrightarrow> k \<le> sel_to u \<longrightarrow> A (cell_of k) = CHR 0x30"
proof -
  define B where "B = (if selecting s then marked DEFAULT (sel_from s) (sel_to s) (attributes s) else attributes s)"
  define v where "v = u\<lparr>attributes := B\<rparr>"
  have first: "(if selecting s then (in_order undoSelection s s)\<lparr>xfin := mx s, yfin := my s\<rparr>
      else s\<lparr>selecting := True, xinit := mx s, yinit := my s, xfin := mx s, yfin := my s\<rparr>) = v"
    using assms(1) undo_in_order [of s] by (simp add: v_def u_def B_def mouse_ok_def)
  have v: "point_ok (xinit v) (yinit v)" "point_ok (xfin v) (yfin v)"
    using assms(1) by (auto simp: v_def u_def mouse_ok_def)
  have same: "sel_from v = sel_from u" "sel_to v = sel_to u" "video v = video s" "length (mouseSelect v) = 2000"
    using assms(1) by (auto simp: v_def u_def sel_from_def sel_to_def mouse_ok_def)
  obtain f1 c1 f2 c2 where e:
      "in_order (selection :: _ \<Rightarrow> _ \<Rightarrow> _ \<Rightarrow> _ \<Rightarrow> ('a mouse_scheme, unit) eprog) v = selection f1 c1 f2 c2" "f1 * 80 + c1 = sel_from u" "f2 * 80 + c2 = sel_to u"
      "0 \<le> sel_from u" "sel_from u \<le> sel_to u" "sel_to u < 2000"
    by (rule in_order_ends [OF v, of selection, unfolded same])
  obtain M where M: "selection f1 c1 f2 c2 v = Inr ((), v\<lparr>sel_size := sel_to u - sel_from u + 1, mouseSelect := M,
        attributes := marked (CHR 0x30) (sel_from u) (sel_to u) (attributes v)\<rparr>)" "length M = 2000"
      "take (nat (sel_to u - sel_from u + 1)) M = screen_text (video v) (sel_from u) (nat (sel_to u - sel_from u + 1))"
    using selection_copies [OF e(4-6) same(4) e(2,3) [symmetric]] .
  have "left_button s = selection f1 c1 f2 c2 v"
    using first by (simp add: left_button_def ebind_def e(1))
  then show thesis
    using M e(4-6) by (intro that [where M = M and A = "marked (CHR 0x30) (sel_from u) (sel_to u) (attributes v)"])
      (simp_all add: v_def same(3) [unfolded v_def] marked_def)
qed

text \<open>What the buttons change: everything else of the mouse is as before.\<close>

definition buttons_frame :: "'a mouse_scheme \<Rightarrow> 'a mouse_scheme \<Rightarrow> bool" where
  "buttons_frame s t \<longleftrightarrow> mouse_byte t = mouse_byte s \<and> mouse_cycle t = mouse_cycle s \<and> mx t = mx s \<and> my t = my s \<and>
     reads t = reads s"

lemma left_button_ok:
  assumes "mouse_ok s"
  obtains t where "left_button s = Inr ((), t)" and "mouse_ok t" and "buttons_frame s t"
proof -
  define u where "u = (if selecting s then s\<lparr>xfin := mx s, yfin := my s\<rparr>
    else s\<lparr>selecting := True, xinit := mx s, yinit := my s, xfin := mx s, yfin := my s\<rparr>)"
  obtain M A where M: "left_button s = Inr ((), u\<lparr>sel_size := sel_to u - sel_from u + 1, mouseSelect := M, attributes := A\<rparr>)"
      "length M = 2000" "0 \<le> sel_from u" "sel_from u \<le> sel_to u" "sel_to u < 2000"
    using left_button_selects [OF assms] unfolding u_def [symmetric] by metis
  have "mouse_ok (u\<lparr>sel_size := sel_to u - sel_from u + 1, mouseSelect := M, attributes := A\<rparr>)"
    using assms M(2-5) by (auto simp: mouse_ok_def u_def tty_ok_def cursor_ok_def)
  with M(1) show thesis by (rule that) (simp add: buttons_frame_def u_def)
qed

lemmas mouse_ok_defs = mouse_ok_def tty_ok_def cursor_ok_def

lemma left_released_ok:
  assumes "mouse_ok s"
  shows "mouse_ok (left_released s)" and "buttons_frame s (left_released s)"
proof -
  have "left_released s = (if selecting s then updateScreen (s\<lparr>attributes := marked DEFAULT (sel_from s) (sel_to s) (attributes s),
      selecting := False\<rparr>) else s)"
    using assms undo_in_order [of s] by (simp add: left_released_def mouse_ok_def)
  then show "mouse_ok (left_released s)" "buttons_frame s (left_released s)"
    using assms by (simp_all add: buttons_frame_def updateScreen_ram mouse_ok_defs)
qed

lemma tty_frame_mouse:
  assumes "tty_frame s t"
  shows "buttons_frame s t" "selecting t = selecting s" "xinit t = xinit s" "yinit t = yinit s" "xfin t = xfin s" "yfin t = yfin s"
    "flag t = flag s"
proof -
  obtain R v i j B p e where "t = s\<lparr>ram := R, video := v, cur_i := i, cur_j := j, Buffer := B, bufferPosition := p, intr := e\<rparr>"
    using assms unfolding tty_frame_def by (elim exE) (rule that)
  then show "buttons_frame s t" "selecting t = selecting s" "xinit t = xinit s" "yinit t = yinit s" "xfin t = xfin s" "yfin t = yfin s"
    "flag t = flag s" by (simp_all add: buttons_frame_def)
qed

lemma right_button_ok:
  assumes "mouse_ok s"
  obtains t where "right_button down s = Inr ((), t)" and "mouse_ok t" and "buttons_frame s t"
proof -
  consider "down" | "\<not> down" "flag s" | "\<not> down" "\<not> flag s" by blast
  then show thesis
  proof cases
    case 1
    then show thesis
      using assms by (intro that [of "s\<lparr>flag := True\<rparr>"]) (simp_all add: right_button_def buttons_frame_def mouse_ok_defs)
  next
    case 2
    obtain t where t: "paste s = Inr ((), t)" "tty_ok t" "tty_frame s t"
      using paste_types [of s] assms unfolding mouse_ok_def by metis
    note same = tty_frame_mouse [OF t(3)] tty_frame_fields [OF t(3)]
    have "mouse_ok t" using assms t(2) same by (simp add: mouse_ok_def buttons_frame_def)
    then show thesis
      using 2 t(1) same(1)
      by (intro that [of "t\<lparr>flag := False\<rparr>"]) (simp_all add: right_button_def ebind_def buttons_frame_def mouse_ok_defs)
  next
    case 3
    then show thesis using assms by (intro that [of s]) (simp_all add: right_button_def buttons_frame_def)
  qed
qed

text \<open>Where the mouse goes: a step that would leave the screen is not made, in either direction by itself.\<close>

definition moved :: "int \<Rightarrow> int \<Rightarrow> int \<Rightarrow> int" where
  "moved limit a d = (if 0 \<le> a + d \<and> a + d < limit then a + d else a)"

lemma move_mouse_moves:
  assumes "mouse_ok s"
  shows "mx (move_mouse d bx by' s) = moved 80 (mx s) (rel_of (d AND 0x10 = 0x10) bx sdiv 10)"
    and "my (move_mouse d bx by' s) = moved 25 (my s) (- (rel_of (d AND 0x20 = 0x20) by' sdiv 10))"
    and "mouse_ok (move_mouse d bx by' s)" and "reads (move_mouse d bx by' s) = reads s"
    and "mouse_byte (move_mouse d bx by' s) = mouse_byte s"
proof -
  define x where "x = moved 80 (mx s) (rel_of (d AND 0x10 = 0x10) bx sdiv 10)"
  define y where "y = moved 25 (my s) (- (rel_of (d AND 0x20 = 0x20) by' sdiv 10))"
  have ok: "point_ok (mx s) (my s)" using assms by (simp add: mouse_ok_def)
  then have xy: "point_ok x y" by (auto simp: x_def y_def moved_def point_ok_def)
  define rx where "rx = rel_of (d AND 0x10 = 0x10) bx sdiv 10"
  define ry where "ry = rel_of (d AND 0x20 = 0x20) by' sdiv 10"
  define B where "B = (attributes s)((my s, mx s) := DEFAULT)"
  have erase: "udrawMouse (my s) (mx s) s = s\<lparr>attributes := B\<rparr>"
    using ok by (simp add: udrawMouse_def validPosition_def point_ok_def B_def)
  have step_x: "(if mx u + rx < 80 \<and> 0 \<le> mx u + rx then u\<lparr>mx := mx u + rx\<rparr> else u) = u\<lparr>mx := moved 80 (mx u) rx\<rparr>"
    and step_y: "(if my u - ry < 25 \<and> 0 \<le> my u - ry then u\<lparr>my := my u - ry\<rparr> else u) = u\<lparr>my := moved 25 (my u) (- ry)\<rparr>"
    for u :: "'a mouse_scheme" by (simp_all add: moved_def)
  have draw: "drawMouse y x (s\<lparr>attributes := B, mx := x, my := y\<rparr>) = s\<lparr>attributes := B((y, x) := CHR 0x30), mx := x, my := y\<rparr>"
    using xy by (simp add: drawMouse_def validPosition_def point_ok_def)
  have A: "move_mouse d bx by' s = updateScreen (s\<lparr>attributes := B((y, x) := CHR 0x30), mx := x, my := y\<rparr>)"
    unfolding move_mouse_def Let_def erase rx_def [symmetric] ry_def [symmetric] step_x step_y
    using draw by (simp add: x_def y_def rx_def ry_def)
  show "mx (move_mouse d bx by' s) = moved 80 (mx s) (rel_of (d AND 0x10 = 0x10) bx sdiv 10)"
    "my (move_mouse d bx by' s) = moved 25 (my s) (- (rel_of (d AND 0x20 = 0x20) by' sdiv 10))"
    "reads (move_mouse d bx by' s) = reads s" "mouse_byte (move_mouse d bx by' s) = mouse_byte s"
    unfolding A x_def [symmetric] y_def [symmetric] by (simp_all add: updateScreen_ram)
  show "mouse_ok (move_mouse d bx by' s)"
    unfolding A using assms xy by (simp add: mouse_ok_def tty_ok_def cursor_ok_def updateScreen_ram)
qed

section \<open>Packets\<close>

definition overflowed :: "8 word \<Rightarrow> bool" where
  "overflowed d \<longleftrightarrow> d AND 0x80 \<noteq> 0 \<or> d AND 0x40 \<noteq> 0"

text \<open>The position after a packet.\<close>

definition new_x :: "8 word \<Rightarrow> 8 word \<Rightarrow> int \<Rightarrow> int" where
  "new_x d b a = (if overflowed d then a else moved 80 a (rel_of (d AND 0x10 = 0x10) b sdiv 10))"

definition new_y :: "8 word \<Rightarrow> 8 word \<Rightarrow> int \<Rightarrow> int" where
  "new_y d b a = (if overflowed d then a else moved 25 a (- (rel_of (d AND 0x20 = 0x20) b sdiv 10)))"

lemma mouse_packet_ok:
  assumes "mouse_ok s"
  obtains t where "mouse_packet s = Inr ((), t)" and "mouse_ok t" and "mouse_cycle t = 4" and "reads t = reads s"
    and "mx t = new_x (mouse_byte s ! 0) (mouse_byte s ! 1) (mx s)" and "my t = new_y (mouse_byte s ! 0) (mouse_byte s ! 2) (my s)"
    and "mouse_byte t = mouse_byte s"
proof (cases "overflowed (mouse_byte s ! 0)")
  case True
  then show thesis
    using assms by (intro that [of "s\<lparr>mouse_cycle := 4\<rparr>"])
      (simp_all add: mouse_packet_def overflowed_def new_x_def new_y_def mouse_ok_defs)
next
  case False
  define d where "d = mouse_byte s ! 0"
  obtain u where u: "(if d AND 0x01 \<noteq> 0 then left_button else emodify left_released) s = Inr ((), u)" "mouse_ok u" "buttons_frame s u"
  proof (cases "d AND 0x01 \<noteq> 0")
    case True
    obtain t where "left_button s = Inr ((), t)" "mouse_ok t" "buttons_frame s t" using left_button_ok [OF assms] .
    then show thesis using True by (intro that [of t]) simp_all
  next
    case False
    then show thesis using left_released_ok [OF assms] by (intro that [of "left_released s"]) simp_all
  qed
  obtain v where v: "right_button (d AND 0x02 \<noteq> 0) u = Inr ((), v)" "mouse_ok v" "buttons_frame u v"
    using right_button_ok [OF u(2)] .
  define w where "w = move_mouse d (mouse_byte v ! 1) (mouse_byte v ! 2) v"
  have same: "mouse_byte v = mouse_byte s" "mx v = mx s" "my v = my s" "reads v = reads s"
    using u(3) v(3) by (simp_all add: buttons_frame_def)
  have "mouse_packet s = Inr ((), w\<lparr>mouse_cycle := 4\<rparr>)"
    using False u(1) v(1) unfolding mouse_packet_def Let_def d_def [symmetric] w_def overflowed_def by (simp add: ebind_def)
  moreover have "mouse_ok (w\<lparr>mouse_cycle := 4\<rparr>)"
    using move_mouse_moves(3) [OF v(2)] by (simp add: w_def mouse_ok_defs)
  ultimately show thesis
    by (rule that) (use False in \<open>simp_all add: w_def same new_x_def new_y_def d_def [symmetric] move_mouse_moves(1,2,4,5) [OF v(2)]\<close>)
qed

text \<open>One round of the loop.\<close>

lemma mouse_step_ok:
  assumes "mouse_ready s"
  obtains r t where "mouse_step dev status s = Inr (r, t)" and "mouse_ready t"
    and "\<forall>st. r = Some st \<longrightarrow> reads t = reads s + 2 \<and> st = dev (reads s + 1) 0x64 \<and>
      unat (mouse_cycle t) = (if status AND 0x20 \<noteq> 0 then unat (mouse_cycle s) + 1 else unat (mouse_cycle s))"
proof -
  note found = that
  define m where "m = dev (reads s) 0x60"
  define s1 where "s1 = s\<lparr>reads := reads s + 1\<rparr>"
  have s1: "inputb dev 0x60 s = Inr (m, s1)" "mouse_ok s1" "mouse_cycle s1 = mouse_cycle s" "reads s1 = reads s + 1"
    using assms by (simp_all add: inputb_def m_def s1_def mouse_ready_def mouse_ok_defs)
  have ret: thesis if "(if status AND 0x20 \<noteq> 0 then mouse_collect m else ereturn False) s1 = Inr (True, t)" "mouse_ready t" for t
    using that s1(1) by (intro found [of None t]) (simp_all add: mouse_step_def ebind_def)
  have go: thesis if c: "(if status AND 0x20 \<noteq> 0 then mouse_collect m else ereturn False) s1 = Inr (False, t)"
    "mouse_ok t" "reads t = reads s + 1"
    "mouse_cycle t = 4 \<or> (mouse_cycle t = 0 \<or> mouse_cycle t = 1 \<or> mouse_cycle t = 2) \<and>
       unat (mouse_cycle t) = (if status AND 0x20 \<noteq> 0 then unat (mouse_cycle s) + 1 else unat (mouse_cycle s))" for t
  proof (cases "mouse_cycle t = 4")
    case True
    have "mouse_step dev status s = Inr (None, t\<lparr>reads := reads t + 1, mouse_cycle := 0\<rparr>)"
      using c(1) s1(1) True by (simp add: mouse_step_def ebind_def inputb_def)
    then show thesis
      using c(2) by (intro found [of None "t\<lparr>reads := reads t + 1, mouse_cycle := 0\<rparr>"]) (simp_all add: mouse_ready_def mouse_ok_defs)
  next
    case False
    have "mouse_step dev status s = Inr (Some (dev (reads t) 0x64), t\<lparr>reads := reads t + 1\<rparr>)"
      using c(1,4) s1(1) False by (auto simp: mouse_step_def ebind_def inputb_def word_le_nat_alt)
    then show thesis
      using c(2-4) False by (intro found [of "Some (dev (reads t) 0x64)" "t\<lparr>reads := reads t + 1\<rparr>"])
        (simp_all add: mouse_ready_def mouse_ok_defs)
  qed
  have len: "length (mouse_byte s1) = 3" using s1(2) by (simp add: mouse_ok_def)
  consider "status AND 0x20 = 0" | "status AND 0x20 \<noteq> 0" "mouse_cycle s = 0" "m AND 0x08 = 0"
    | "status AND 0x20 \<noteq> 0" "mouse_cycle s = 0" "m AND 0x08 \<noteq> 0" | "status AND 0x20 \<noteq> 0" "mouse_cycle s = 1"
    | "status AND 0x20 \<noteq> 0" "mouse_cycle s = 2"
    using assms unfolding mouse_ready_def by blast
  then show thesis
  proof cases
    case 1
    then show thesis using assms s1 by (intro go [of s1]) (auto simp: mouse_ready_def)
  next
    case 2
    show thesis
      by (rule ret [of "s1\<lparr>mouse_byte := (mouse_byte s1)[0 := m]\<rparr>"])
        (use 2 s1 in \<open>simp_all add: mouse_collect_def mouse_ready_def mouse_ok_defs\<close>)
  next
    case 3
    show thesis
      by (rule go [of "s1\<lparr>mouse_byte := (mouse_byte s1)[0 := m], mouse_cycle := 1\<rparr>"])
        (use 3 s1 in \<open>simp_all add: mouse_collect_def mouse_ok_defs\<close>)
  next
    case 4
    show thesis
      by (rule go [of "s1\<lparr>mouse_byte := (mouse_byte s1)[1 := m], mouse_cycle := 2\<rparr>"])
        (use 4 s1 in \<open>simp_all add: mouse_collect_def mouse_ok_defs\<close>)
  next
    case 5
    have "mouse_ok (s1\<lparr>mouse_byte := (mouse_byte s1)[2 := m]\<rparr>)" using s1(2) by (simp add: mouse_ok_defs)
    from mouse_packet_ok [OF this] obtain t where t: "mouse_packet (s1\<lparr>mouse_byte := (mouse_byte s1)[2 := m]\<rparr>) = Inr ((), t)"
        "mouse_ok t" "mouse_cycle t = 4" "reads t = reads s + 1" using s1(4) by auto
    show thesis
      by (rule go [of t]) (use 5 s1(3) t in \<open>simp_all add: mouse_collect_def ebind_def\<close>)
  qed
qed

section \<open>The loop of the handler\<close>

lemma mouse_loop_returns:
  assumes "mouse_ready s" and "\<forall>m\<ge>n. dev m 0x64 AND 0x01 = 0 \<or> dev m 0x64 AND 0x20 \<noteq> 0"
    and "status AND 0x01 = 0 \<or> status AND 0x20 \<noteq> 0 \<or> reads s \<le> n"
  shows "\<exists>t. mouse_loop dev status s = Some (Inr ((), t)) \<and> mouse_ready t"
  using assms(1,3)
proof (induction "(n + 2 - reads s) + (2 - unat (mouse_cycle s))" arbitrary: s status rule: less_induct)
  case less
  show ?case
  proof (cases "status AND 0x01 = 0")
    case True
    then show ?thesis using less.prems(1) by (subst mouse_loop.simps) simp
  next
    case False
    obtain r t where t: "mouse_step dev status s = Inr (r, t)" "mouse_ready t"
        "\<forall>st. r = Some st \<longrightarrow> reads t = reads s + 2 \<and> st = dev (reads s + 1) 0x64 \<and>
          unat (mouse_cycle t) = (if status AND 0x20 \<noteq> 0 then unat (mouse_cycle s) + 1 else unat (mouse_cycle s))"
      by (rule mouse_step_ok [OF less.prems(1), of dev status])
    show ?thesis
    proof (cases r)
      case None
      then show ?thesis using False t(1,2) by (subst mouse_loop.simps) simp
    next
      case (Some st)
      note st = t(3) [rule_format, OF Some]
      have "unat (mouse_cycle t) \<le> 2" using t(2) unfolding mouse_ready_def by auto
      then have dec: "(n + 2 - reads t) + (2 - unat (mouse_cycle t)) < (n + 2 - reads s) + (2 - unat (mouse_cycle s))"
        using st less.prems(2) False by (auto split: if_splits)
      have "st AND 0x01 = 0 \<or> st AND 0x20 \<noteq> 0 \<or> reads t \<le> n"
      proof (cases "n \<le> reads s + 1")
        case True
        then show ?thesis using assms(2) st by simp
      next
        case False
        then show ?thesis using st by simp
      qed
      from less.hyps [OF dec t(2) this] show ?thesis
        using False t(1) Some by (subst mouse_loop.simps) simp
    qed
  qed
qed

section \<open>What a byte of a packet means\<close>

text \<open>A movement of the PS/2 protocol has nine bits: a byte, and its sign in the first byte.\<close>

definition ps2 :: "bool \<Rightarrow> 8 word \<Rightarrow> int" where
  "ps2 sign b = uint b - (if sign then 256 else 0)"

lemma sint_byte: "sint (b :: 8 word) = uint b - (if 128 \<le> uint b then 256 else 0)"
proof -
  have lt: "uint b < 256" "0 \<le> uint b" using uint_lt2p [of b] by simp_all
  have "bit (uint b) 7 \<longleftrightarrow> 128 \<le> uint b"
  proof -
    have "uint b div 128 = (if 128 \<le> uint b then 1 else 0)" using lt by presburger
    then show ?thesis by (simp add: bit_iff_odd)
  qed
  moreover have "take_bit 8 (uint b) = uint b" using lt by (simp add: take_bit_int_eq_self)
  ultimately show ?thesis by (simp add: sint_uint signed_take_bit_eq_take_bit_minus)
qed

lemma upper_bytes: "(0xFFFFFF00 :: 32 word) = push_bit 8 (mask 24)"
  by (simp add: mask_eq_exp_minus_1 push_bit_eq_mult)

lemma sign_extended: "sint ((scast (b :: 8 word) :: 32 word) OR 0xFFFFFF00) = uint b - 256"
proof -
  have "sint ((scast b :: 32 word) OR push_bit 8 (mask 24)) = uint b OR NOT (mask 8)"
    by (rule bit_eqI) (auto simp: bit_simps)
  moreover have "uint b OR NOT (mask 8) = uint b + NOT (mask 8)"
    by (rule disjunctive_add [symmetric]) (auto simp: bit_simps dest: bit_imp_le_length)
  moreover have "NOT (mask 8 :: int) = - 256" by (simp add: mask_eq_exp_minus_1 not_int_def)
  ultimately show ?thesis by (simp add: upper_bytes)
qed

lemma rel_of_ps2: "rel_of sign b = ps2 (sign \<or> 128 \<le> uint b) b"
  by (simp add: rel_of_def sign_extended sint_byte ps2_def)

text \<open>The three bytes of a packet.\<close>

lemma mouse_loop_step:
  "status AND 0x01 \<noteq> 0 \<Longrightarrow> mouse_step dev status s = Inr (r, t) \<Longrightarrow>
    mouse_loop dev status s = (case r of None \<Rightarrow> Some (Inr ((), t)) | Some st \<Rightarrow> mouse_loop dev st t)"
  by (subst mouse_loop.simps) (simp split: option.split)

lemma first_bytes:
  assumes "status AND 0x20 \<noteq> 0"
  shows "mouse_cycle s = 0 \<Longrightarrow> dev (reads s) 0x60 AND 0x08 \<noteq> 0 \<Longrightarrow> mouse_step dev status s = Inr (Some (dev (reads s + 1) 0x64),
      s\<lparr>mouse_byte := (mouse_byte s)[0 := dev (reads s) 0x60], mouse_cycle := 1, reads := reads s + 2\<rparr>)"
    and "mouse_cycle s = 1 \<Longrightarrow> mouse_step dev status s = Inr (Some (dev (reads s + 1) 0x64),
      s\<lparr>mouse_byte := (mouse_byte s)[1 := dev (reads s) 0x60], mouse_cycle := 2, reads := reads s + 2\<rparr>)"
  using assms by (simp_all add: mouse_step_def mouse_collect_def ebind_def inputb_def word_le_nat_alt)

lemma third_byte:
  assumes "status AND 0x20 \<noteq> 0" and "mouse_ok s" and "mouse_cycle s = 2"
  obtains t where "mouse_step dev status s = Inr (None, t)" and "mouse_ok t" and "mouse_cycle t = 0" and "reads t = reads s + 2"
    and "mx t = new_x (mouse_byte s ! 0) (mouse_byte s ! 1) (mx s)" and "my t = new_y (mouse_byte s ! 0) (dev (reads s) 0x60) (my s)"
proof -
  define u where "u = s\<lparr>reads := reads s + 1, mouse_byte := (mouse_byte s)[2 := dev (reads s) 0x60]\<rparr>"
  have len: "length (mouse_byte s) = 3" using assms(2) by (simp add: mouse_ok_def)
  have "mouse_ok u" using assms(2) by (simp add: u_def mouse_ok_defs)
  then obtain t where t: "mouse_packet u = Inr ((), t)" "mouse_ok t" "mouse_cycle t = 4" "reads t = reads u"
      "mx t = new_x (mouse_byte u ! 0) (mouse_byte u ! 1) (mx u)" "my t = new_y (mouse_byte u ! 0) (mouse_byte u ! 2) (my u)"
      "mouse_byte t = mouse_byte u"
    by (rule mouse_packet_ok)
  have "mouse_step dev status s = Inr (None, t\<lparr>reads := reads t + 1, mouse_cycle := 0\<rparr>)"
    using assms(1,3) t(1,3) by (simp add: mouse_step_def mouse_collect_def ebind_def inputb_def u_def)
  then show thesis
    by (rule that) (use t(2,4-6) len in \<open>simp_all add: mouse_ok_defs u_def\<close>)
qed

section \<open>The dialogue with the controller\<close>

text \<open>A program that only reads ports and sends bytes: its result and what it sends satisfy \<open>Q\<close>.\<close>

definition sends :: "('a mouse_scheme, 'b) eprog \<Rightarrow> ('b \<Rightarrow> (int \<times> 8 word) list \<Rightarrow> bool) \<Rightarrow> bool" where
  "sends m Q \<longleftrightarrow> (\<forall>s. \<exists>x os k. m s = Inr (x, s\<lparr>outs := outs s @ os, reads := k\<rparr>) \<and> Q x os)"

lemma sends_bind:
  assumes "sends m (\<lambda>x os. sends (f x) (\<lambda>y ps. Q y (os @ ps)))"
  shows "sends (ebind m f) Q"
  unfolding sends_def
proof
  fix s
  obtain x os k where m: "m s = Inr (x, s\<lparr>outs := outs s @ os, reads := k\<rparr>)" and f: "sends (f x) (\<lambda>y ps. Q y (os @ ps))"
    using assms unfolding sends_def [of m] by blast
  define u where "u = s\<lparr>outs := outs s @ os, reads := k\<rparr>"
  obtain y ps l where "f x u = Inr (y, u\<lparr>outs := outs u @ ps, reads := l\<rparr>)" "Q y (os @ ps)"
    using f unfolding sends_def by blast
  then show "\<exists>y qs k. ebind m f s = Inr (y, s\<lparr>outs := outs s @ qs, reads := k\<rparr>) \<and> Q y qs"
    using m by (intro exI [of _ y] exI [of _ "os @ ps"] exI [of _ l]) (simp add: ebind_def u_def)
qed

lemma sendsI:
  "(\<And>s. m s = Inr (x s, s\<lparr>outs := outs s @ os s, reads := k s\<rparr>)) \<Longrightarrow> (\<And>s. Q (x s) (os s)) \<Longrightarrow> sends m Q"
  unfolding sends_def by blast

lemma sends_outputb: "Q () [(port, v)] \<Longrightarrow> sends (emodify (outputb port v)) Q"
  by (rule sendsI [where x = "\<lambda>_. ()" and os = "\<lambda>_. [(port, v)]" and k = reads]) (simp_all add: outputb_def)

lemma sends_inputb: "(\<And>b. Q b []) \<Longrightarrow> sends (inputb dev port) Q"
  by (rule sendsI [where x = "\<lambda>s. dev (reads s) port" and os = "\<lambda>_. []" and k = "\<lambda>s. reads s + 1"]) (simp_all add: inputb_def)

lemma sends_return: "Q x [] \<Longrightarrow> sends (ereturn x) Q"
  by (rule sendsI [where x = "\<lambda>_. x" and os = "\<lambda>_. []" and k = reads]) simp_all

lemma sends_if: "(c \<Longrightarrow> sends m Q) \<Longrightarrow> (\<not> c \<Longrightarrow> sends n Q) \<Longrightarrow> sends (if c then m else n) Q"
  by simp

lemma sends_wait: "Q () [] \<Longrightarrow> sends (mouse_wait dev type) Q"
proof -
  assume Q: "Q () []"
  have "sends (wait_loop dev input n) Q" for input n
  proof (induction n)
    case 0
    show ?case unfolding wait_loop.simps by (rule sends_return) (rule Q)
  next
    case (Suc n)
    show ?case
      unfolding wait_loop.simps by (intro sends_bind sends_inputb sends_if sends_return) (simp_all only: append_Nil Q Suc)
  qed
  then show ?thesis by (simp add: mouse_wait_def)
qed

lemmas sends_rules = sends_bind sends_outputb sends_inputb sends_return sends_wait

lemma sends_write: "Q () [(0x64, 0xD4), (0x60, v)] \<Longrightarrow> sends (mouse_write dev v) Q"
  unfolding mouse_write_def by (intro sends_rules) simp

lemma sends_read: "(\<And>b. Q b []) \<Longrightarrow> sends (mouse_read dev) Q"
  unfolding mouse_read_def by (intro sends_rules) simp

section \<open>Properties\<close>

definition demo_mouse :: mouse where
  "demo_mouse = irq.extend demo_irq \<lparr>mouse_cycle = 0, mouse_byte = [0, 0, 0], flag = False, mx = 10, my = 10,
     xinit = 0, yinit = 0, xfin = 0, yfin = 0, selecting = False, reads = 0\<rparr>"

lemmas demo_mouse_defs = demo_mouse_def mouse.defs demo_irq_defs

lemma demo_mouse_ready: "mouse_ready demo_mouse"
proof -
  have "cursor_ok demo_mouse" using demo_tty_ok(1) by (simp add: cursor_ok_def demo_mouse_defs)
  then show ?thesis by (simp add: mouse_ready_def mouse_ok_def tty_ok_def point_ok_def) (simp add: demo_mouse_defs)
qed



text \<open>C30. A packet moves the mouse by a tenth of the two movements of the PS/2 protocol, to the right and up, each
  only if it stays on the screen; a packet that reports an overflow does not move it.  This holds for
  movements whose byte is below 128 or whose sign is set.\<close>

theorem mouse_packet_moves:
  assumes "mouse_ready s" and "mouse_cycle s = 0" and "\<forall>k\<in>{0, 2, 4}. dev (reads s + k) 0x64 AND 0x21 = 0x21"
    and "dev (reads s + 1) 0x60 = d" and "d AND 0x08 \<noteq> 0" and "dev (reads s + 3) 0x60 = bx" and "dev (reads s + 5) 0x60 = by'"
    and "d AND 0x10 = 0x10 \<or> uint bx < 128" and "d AND 0x20 = 0x20 \<or> uint by' < 128"
  shows "\<exists>t. mouse_handlerC dev s = Inr ((), t) \<and> mouse_cycle t = 0 \<and> reads t = reads s + 7 \<and>
    mx t = (if overflowed d then mx s else moved 80 (mx s) (ps2 (d AND 0x10 = 0x10) bx sdiv 10)) \<and>
    my t = (if overflowed d then my s else moved 25 (my s) (- (ps2 (d AND 0x20 = 0x20) by' sdiv 10)))"
proof -
  have bits: "v AND 0x01 \<noteq> 0 \<and> v AND 0x20 \<noteq> 0" if "v AND 0x21 = 0x21" for v :: "8 word"
  proof -
    have "v AND 0x01 = (v AND 0x21) AND 0x01" "v AND 0x20 = (v AND 0x21) AND 0x20" by (simp_all add: and.assoc)
    then have "v AND 0x01 = 0x01" "v AND 0x20 = 0x20" unfolding that by simp_all
    then show ?thesis by simp
  qed
  define st where "st k = dev (reads s + k) 0x64" for k
  have st: "st k AND 0x01 \<noteq> 0" "st k AND 0x20 \<noteq> 0" if "k \<in> {0, 2, 4}" for k
    using assms(3) bits that by (auto simp: st_def)
  have len: "length (mouse_byte s) = 3" using assms(1) by (simp add: mouse_ready_def mouse_ok_def)
  define s0 where "s0 = s\<lparr>reads := reads s + 1\<rparr>"
  define s1 where "s1 = s0\<lparr>mouse_byte := (mouse_byte s)[0 := d], mouse_cycle := 1, reads := reads s + 3\<rparr>"
  define s2 where "s2 = s1\<lparr>mouse_byte := (mouse_byte s)[0 := d, 1 := bx], mouse_cycle := 2, reads := reads s + 5\<rparr>"
  have step0: "mouse_step dev (st 0) s0 = Inr (Some (st 2), s1)"
    using first_bytes(1) [OF st(2), of 0 s0 dev] assms(2,4,5) by (simp add: s0_def s1_def st_def)
  have step1: "mouse_step dev (st 2) s1 = Inr (Some (st 4), s2)"
    using first_bytes(2) [OF st(2), of 2 s1 dev] assms(6) by (simp add: s0_def s1_def s2_def st_def add.commute)
  have s2: "mouse_ok s2" "mouse_cycle s2 = 2"
    using assms(1) by (simp_all add: mouse_ready_def mouse_ok_defs s2_def s1_def s0_def)
  have st4: "st 4 AND 0x20 \<noteq> 0" by (rule st) simp
  obtain t where step2: "mouse_step dev (st 4) s2 = Inr (None, t)" and "mouse_ok t"
      and t: "mouse_cycle t = 0" "reads t = reads s2 + 2" "mx t = new_x (mouse_byte s2 ! 0) (mouse_byte s2 ! 1) (mx s2)"
        "my t = new_y (mouse_byte s2 ! 0) (dev (reads s2) 0x60) (my s2)"
    by (rule third_byte [OF st4 s2, of dev])
  have "mouse_loop dev (st 0) s0 = Some (Inr ((), t))"
    using mouse_loop_step [OF st(1) step0] mouse_loop_step [OF st(1) step1] mouse_loop_step [OF st(1) step2] by simp
  then have "mouse_handlerC dev s = Inr ((), t)"
    by (simp add: mouse_handlerC_def ebind_def inputb_def loop_outcome_def s0_def st_def)
  moreover have "rel_of (d AND 0x10 = 0x10) bx = ps2 (d AND 0x10 = 0x10) bx" "rel_of (d AND 0x20 = 0x20) by' = ps2 (d AND 0x20 = 0x20) by'"
    using assms(8,9) by (auto simp: rel_of_ps2)
  ultimately show ?thesis
    using t len assms(7) by (simp add: s2_def s1_def s0_def new_x_def new_y_def)
qed

theorem mouse_packet_moves_witness:
  "\<exists>t. mouse_handlerC (\<lambda>n p. if p = 0x64 then 0x21 else if n = 1 then 0x28 else if n = 3 then 30 else 0xEC) demo_mouse = Inr ((), t) \<and>
    mx t = 13 \<and> my t = 12"
proof -
  define dev :: device where "dev = (\<lambda>n p. if p = 0x64 then 0x21 else if n = 1 then 0x28 else if n = 3 then 30 else 0xEC)"
  have r: "reads demo_mouse = 0" "mouse_cycle demo_mouse = 0" "mx demo_mouse = 10" "my demo_mouse = 10"
    by (simp_all add: demo_mouse_defs)
  from mouse_packet_moves [OF demo_mouse_ready r(2), of dev "0x28" 30 "0xEC"]
  show ?thesis
    unfolding dev_def [symmetric] by (auto simp: r dev_def overflowed_def moved_def ps2_def signed_divide_int_def)
qed

text \<open>C31. What is selected with the left button and pasted is what the screen showed: the cells between where
  the button went down and where the mouse is, in the order of the text and whichever end came first,
  follow what was waiting in the buffer of the terminal.\<close>

theorem drag_and_paste:
  assumes "mouse_ok s" and "selecting s" and "tty_is s xs"
    and "a = min (yinit s * 80 + xinit s) (my s * 80 + mx s)" and "b = max (yinit s * 80 + xinit s) (my s * 80 + mx s)"
    and "length xs + nat (b - a + 1) \<le> 2499"
  shows "\<exists>t u. left_button s = Inr ((), t) \<and> paste t = Inr ((), u) \<and>
    tty_is u (xs @ map (\<lambda>i. shown (video s (cell_of (a + int i)))) [0..<nat (b - a + 1)])"
proof -
  define v where "v = s\<lparr>xfin := mx s, yfin := my s\<rparr>"
  have v: "(if selecting s then s\<lparr>xfin := mx s, yfin := my s\<rparr>
      else s\<lparr>selecting := True, xinit := mx s, yinit := my s, xfin := mx s, yfin := my s\<rparr>) = v"
    using assms(2) by (simp add: v_def)
  have ends: "sel_from v = a" "sel_to v = b" using assms(4,5) by (simp_all add: v_def sel_from_def sel_to_def)
  obtain M A where left: "left_button s = Inr ((), v\<lparr>sel_size := b - a + 1, mouseSelect := M, attributes := A\<rparr>)"
      "length M = 2000" "0 \<le> a" "a \<le> b" "b < 2000" "take (nat (b - a + 1)) M = screen_text (video s) a (nat (b - a + 1))"
      "\<forall>k. a \<le> k \<longrightarrow> k \<le> b \<longrightarrow> A (cell_of k) = CHR 0x30"
    by (rule left_button_selects [OF assms(1), unfolded v ends])
  define t where "t = v\<lparr>sel_size := b - a + 1, mouseSelect := M, attributes := A\<rparr>"
  have t: "tty_ok t" "tty_is t xs" "cursor_ok t"
    using assms(1,3) by (auto simp: t_def v_def tty_is_def mouse_ok_defs)
  have "nat (sel_size t) \<le> length (mouseSelect t)" using left(2-5) by (simp add: t_def)
  from paste_types [OF t(1) this] obtain u where u: "paste t = Inr ((), u)"
      "type_all (take (nat (sel_size t)) (mouseSelect t)) t = Inr ((), u)" .
  have chars: "take (nat (sel_size t)) (mouseSelect t) = screen_text (video s) a (nat (b - a + 1))"
    using left(6) by (simp add: t_def)
  have "length xs + length (screen_text (video s) a (nat (b - a + 1))) \<le> 2499"
    using assms(6) by (simp add: screen_text_def)
  from type_all_room [OF t(3,2) this] u(2) have "tty_is u (xs @ screen_text (video s) a (nat (b - a + 1)))"
    unfolding chars by auto
  then show ?thesis using left(1) u(1) unfolding t_def [symmetric] screen_text_def by blast
qed

theorem drag_and_paste_witness:
  "\<exists>t u. left_button (demo_mouse\<lparr>selecting := True, xinit := 12, yinit := 10\<rparr>) = Inr ((), t) \<and> paste t = Inr ((), u) \<and>
    tty_is u ''   ''"
proof -
  define s where "s = demo_mouse\<lparr>selecting := True, xinit := 12, yinit := 10\<rparr>"
  have fields: "mx s = 10" "my s = 10" "xinit s = 12" "yinit s = 10" "selecting s" "video s = (\<lambda>_. CHR '' '')"
    by (simp_all add: s_def demo_mouse_defs)
  have "selecting demo_mouse = False" "xfin demo_mouse = 0" "yfin demo_mouse = 0" by (simp_all add: demo_mouse_defs)
  then have "mouse_ok s"
    using demo_mouse_ready by (simp add: mouse_ready_def mouse_ok_defs point_ok_def s_def)
  moreover have "bufferStart demo_mouse = 0" "bufferSize demo_mouse = 2500" "bufferConsume demo_mouse = 2498" "bufferPosition demo_mouse = 2498"
    by (simp_all add: demo_mouse_defs)
  then have "tty_is s []" by (simp add: tty_is_def ringseq_def s_def)
  ultimately have *: "mouse_ok s" "tty_is s []" .
  have chars: "[] @ map (\<lambda>i. shown (video s (cell_of (810 + int i)))) [0..<nat (812 - 810 + 1)] = ''   ''"
    by (simp add: fields shown_def upt_rec)
  have "\<exists>t u. left_button s = Inr ((), t) \<and> paste t = Inr ((), u) \<and>
      tty_is u ([] @ map (\<lambda>i. shown (video s (cell_of (810 + int i)))) [0..<nat (812 - 810 + 1)])"
    by (rule drag_and_paste [OF *(1) fields(5) *(2)]) (simp_all add: fields)
  then show ?thesis unfolding s_def [symmetric] chars .
qed

text \<open>A fast movement to the right, 128 or more without the sign, moves the mouse to the left, or not at all.\<close>

theorem fast_right_goes_left:
  assumes "d AND 0x10 = 0" and "128 \<le> uint bx" and "mouse_ok s"
  shows "mx (move_mouse d bx by' s) \<le> mx s \<and> (12 \<le> mx s \<longrightarrow> uint bx \<le> 246 \<longrightarrow> mx (move_mouse d bx by' s) < mx s)"
proof -
  have ok: "0 \<le> mx s" "mx s < 80" using assms(3) by (simp_all add: mouse_ok_def point_ok_def)
  have lt: "uint bx < 256" using uint_lt2p [of bx] by simp
  have "rel_of False bx = - (256 - uint bx)" using assms(2) by (simp add: rel_of_ps2 ps2_def)
  moreover have "(- (256 - uint bx)) sdiv 10 = - ((256 - uint bx) div 10)"
    using lt by (simp add: signed_divide_int_def sgn_if)
  moreover have "d AND 0x10 \<noteq> 0x10" using assms(1) by simp
  ultimately have "mx (move_mouse d bx by' s) = moved 80 (mx s) (- ((256 - uint bx) div 10))"
    using move_mouse_moves(1) [OF assms(3), of d bx by'] by simp
  moreover have "0 \<le> (256 - uint bx) div 10" "(256 - uint bx) div 10 \<le> 12" "uint bx \<le> 246 \<Longrightarrow> 1 \<le> (256 - uint bx) div 10"
    using lt assms(2) by presburger+
  ultimately show ?thesis using ok by (auto simp: moved_def)
qed

theorem fast_right_goes_left_witness:
  "mx (move_mouse 0x08 200 0 (demo_mouse\<lparr>mx := 20\<rparr>)) < 20"
proof -
  have "mouse_ok (demo_mouse\<lparr>mx := 20\<rparr>)" using demo_mouse_ready by (simp add: mouse_ready_def mouse_ok_defs point_ok_def)
  from fast_right_goes_left [OF _ _ this, of "0x08" 200 0] show ?thesis by simp
qed

text \<open>The initialisation of the mouse ends, whatever the controller answers or fails to answer, and sends
  the same commands in the same order: enable the second port, read the status and write it back with bit
  1 set, load the defaults, and start the stream.\<close>

theorem mouse_init_sends:
  "\<exists>b k. mouse_init dev s = Inr ((), s\<lparr>outs := outs s @ [(0x64, 0xA8), (0x64, 0x20), (0x64, 0x60), (0x60, b OR 2),
     (0x64, 0xD4), (0x60, 0xF6), (0x64, 0xD4), (0x60, 0xF4)], reads := k\<rparr>)"
proof -
  have "sends (mouse_init dev) (\<lambda>_ os. \<exists>b. os = [(0x64, 0xA8), (0x64, 0x20), (0x64, 0x60), (0x60, b OR 2),
      (0x64, 0xD4), (0x60, 0xF6), (0x64, 0xD4), (0x60, 0xF4)])"
    unfolding mouse_init_def Let_def by (intro sends_rules sends_write sends_read) auto
  then obtain x os k where "mouse_init dev s = Inr (x, s\<lparr>outs := outs s @ os, reads := k\<rparr>)"
      "\<exists>b. os = [(0x64, 0xA8), (0x64, 0x20), (0x64, 0x60), (0x60, b OR 2), (0x64, 0xD4), (0x60, 0xF6), (0x64, 0xD4), (0x60, 0xF4)]"
    unfolding sends_def by blast
  then show ?thesis by auto
qed

end
