(* ===== verification/Modules.thy ===== *)
theory Modules
  imports Mouse
begin

text \<open>
  How programs get into memory: the module packer of Toolchain/ModulePacker/main.c, which appends the
  user programs to the kernel, and Kernel/moduleLoader.c, which takes them apart again at boot; with
  the number printing of Kernel/naiveConsole.c that the loader uses and the small functions of
  Kernel/kernel.c around it.

  The files of the machine that builds the image are a parameter of the packer.  The main lemma is the
  round trip: what the packer packs the loader puts where it belongs.
\<close>

section \<open>naiveConsole.c\<close>

text \<open>\<open>putchar\<close> goes to the console log; \<open>currentVideo\<close> is moved by \<open>ncPrintChar\<close> only.\<close>

record loader = mouse +
  currentVideo :: addr

definition ncPrintBase :: "int \<Rightarrow> int \<Rightarrow> ('a loader_scheme, unit) eprog" where
  "ncPrintBase v b s = (case uintToBase v b of Inl e \<Rightarrow> Inl e | Inr (ds, n) \<Rightarrow> ncPrint ds s)"

definition ncPrintDec :: "int \<Rightarrow> ('a loader_scheme, unit) eprog" where
  "ncPrintDec v = ncPrintBase v 10"

definition ncPrintHex :: "int \<Rightarrow> ('a loader_scheme, unit) eprog" where
  "ncPrintHex v = ncPrintBase v 16"

definition ncPrintBin :: "int \<Rightarrow> ('a loader_scheme, unit) eprog" where
  "ncPrintBin v = ncPrintBase v 2"

definition ncPrintChar :: "char \<Rightarrow> 'a loader_scheme \<Rightarrow> 'a loader_scheme" where
  "ncPrintChar c s = s\<lparr>ram := (ram s)(currentVideo s := byte_of c), currentVideo := currentVideo s + 2\<rparr>"

text \<open>The \<open>do\<close> loop prints blanks until \<open>currentVideo\<close> is at the start of a row, which no blank moves.\<close>

partial_function (option) newline_loop :: "'a loader_scheme \<Rightarrow> (fault + unit \<times> 'a loader_scheme) option" where
  "newline_loop s =
     (case ncPrint '' '' s of
        Inl e \<Rightarrow> Some (Inl e)
      | Inr (_, s) \<Rightarrow> if (currentVideo s - SCREEN) mod 160 \<noteq> 0 then newline_loop s else Some (Inr ((), s)))"

definition ncNewline :: "('a loader_scheme, unit) eprog" where
  "ncNewline = loop_outcome newline_loop"

fun clear_loop :: "nat \<Rightarrow> int \<Rightarrow> (addr \<Rightarrow> 8 word) \<Rightarrow> (addr \<Rightarrow> 8 word)" where
  "clear_loop 0 i m = m"
| "clear_loop (Suc n) i m = clear_loop n (i + 1) (m(SCREEN + i * 2 := byte_of (CHR '' '')))"

definition ncClear :: "'a loader_scheme \<Rightarrow> 'a loader_scheme" where
  "ncClear s = s\<lparr>ram := clear_loop (25 * 80) 0 (ram s), currentVideo := SCREEN\<rparr>"

section \<open>moduleLoader.c\<close>

text \<open>A little-endian word of \<open>n\<close> bytes.\<close>

fun read_le :: "nat \<Rightarrow> addr \<Rightarrow> (addr \<Rightarrow> 8 word) \<Rightarrow> nat" where
  "read_le 0 a m = 0"
| "read_le (Suc n) a m = unat (m a) + 256 * read_le n (a + 1) m"

fun le_bytes :: "nat \<Rightarrow> nat \<Rightarrow> 8 word list" where
  "le_bytes 0 v = []"
| "le_bytes (Suc n) v = word_of_nat v # le_bytes n (v div 256)"

fun store_bytes :: "addr \<Rightarrow> 8 word list \<Rightarrow> (addr \<Rightarrow> 8 word) \<Rightarrow> (addr \<Rightarrow> 8 word)" where
  "store_bytes a [] m = m"
| "store_bytes a (b # bs) m = store_bytes (a + 1) bs (m(a := b))"

text \<open>The pointer the C functions advance is their result.\<close>

definition readUint32 :: "addr \<Rightarrow> ('a loader_scheme, nat \<times> addr) eprog" where
  "readUint32 address s = Inr ((read_le 4 address (ram s), address + 4), s)"

definition loadModule :: "addr \<Rightarrow> addr \<Rightarrow> ('a loader_scheme, addr) eprog" where
  "loadModule module targetModuleAddress =
     ebind (readUint32 module) (\<lambda>(moduleSize, module).
     ebind (ncPrint ''  Will copy module at 0x'') (\<lambda>_.
     ebind (ncPrintHex module) (\<lambda>_.
     ebind (ncPrint '' to 0x'') (\<lambda>_.
     ebind (ncPrintHex targetModuleAddress) (\<lambda>_.
     ebind (ncPrint '' ('') (\<lambda>_.
     ebind (ncPrintDec (int moduleSize)) (\<lambda>_.
     ebind (ncPrint '' bytes)'') (\<lambda>_.
     ebind (emodify (\<lambda>s. s\<lparr>ram := memcpy targetModuleAddress module moduleSize (ram s)\<rparr>)) (\<lambda>_.
     ebind (ncPrint '' [Done]'') (\<lambda>_.
     ebind ncNewline (\<lambda>_.
     ereturn (module + int moduleSize))))))))))))"

fun load_loop :: "nat \<Rightarrow> nat \<Rightarrow> addr \<Rightarrow> addr list \<Rightarrow> ('a loader_scheme, unit) eprog" where
  "load_loop 0 i module targets = ereturn ()"
| "load_loop (Suc n) i module targets =
     (if i < length targets
      then ebind (loadModule module (targets ! i)) (\<lambda>module. load_loop n (i + 1) module targets)
      else efail OutOfBounds)"

definition loadModules :: "addr \<Rightarrow> addr list \<Rightarrow> ('a loader_scheme, unit) eprog" where
  "loadModules payloadStart targetModuleAddress =
     ebind (readUint32 payloadStart) (\<lambda>(moduleCount, currentModule).
     load_loop moduleCount 0 currentModule targetModuleAddress)"

unbundle bit_operations_syntax

text \<open>Entries 4 and 5 of the page directory at 0x10000, eight bytes each.\<close>

definition mapModulesLogical :: "addr \<Rightarrow> 'a loader_scheme \<Rightarrow> 'a loader_scheme" where
  "mapModulesLogical physical s =
     s\<lparr>ram := store_bytes (0x10000 + 8 * 4) (le_bytes 8 (nat (physical OR 0x8F))) (ram s)\<rparr>"

definition testPageFault :: "'a loader_scheme \<Rightarrow> 'a loader_scheme" where
  "testPageFault s = s\<lparr>ram := store_bytes (0x10000 + 8 * 5) (le_bytes 8 0x8E) (ram s)\<rparr>"

section \<open>kernel.c\<close>

text \<open>
  The variables of the kernel are fields of the state, not bytes of \<open>ram\<close>, so the call of \<open>clearBSS\<close> in
  \<open>initializeKernelBinary\<close>, which sets them all to zero, has no counterpart here.
\<close>

definition clearBSS :: "addr \<Rightarrow> nat \<Rightarrow> 'a loader_scheme \<Rightarrow> 'a loader_scheme" where
  "clearBSS bssAddress bssSize s = s\<lparr>ram := memset bssAddress 0 bssSize (ram s)\<rparr>"

definition getStackBase :: "addr \<Rightarrow> addr" where
  "getStackBase endOfKernel = endOfKernel + 0x1000 * 8 - 8"

text \<open>Where the modules go, in the order in which they are packed.\<close>

definition moduleAddresses :: "addr list" where
  "moduleAddresses = [0x400000, 0x500000, 0xA00000, 0xC00000, 0xE00000, 0x600000]"

section \<open>The module packer\<close>

type_synonym files = "string \<Rightarrow> 8 word list option"

text \<open>The loop until \<open>feof\<close> copies blocks of 128 bytes and stops behind the first short one.\<close>

function write_file :: "8 word list \<Rightarrow> 8 word list" where
  "write_file src = take 128 src @ (if length src < 128 then [] else write_file (drop 128 src))"
  by pat_completeness auto
termination by (relation "measure length") auto

declare write_file.simps [simp del]

definition write_size :: "8 word list \<Rightarrow> 8 word list" where
  "write_size src = le_bytes 4 (length src)"

definition checkFiles :: "files \<Rightarrow> string list \<Rightarrow> bool" where
  "checkFiles fs names = list_all (\<lambda>f. fs f \<noteq> None) names"

text \<open>
  \<open>None\<close> when the target cannot be opened; a file that cannot be read is excluded by \<open>checkFiles\<close>.  The target is taken
  to be none of the files to pack: opening it for writing truncates it.
\<close>

definition buildImage :: "files \<Rightarrow> bool \<Rightarrow> string list \<Rightarrow> 8 word list option" where
  "buildImage fs writable names =
     (if \<not> writable then None
      else Some (write_file (the (fs (names ! 0))) @ le_bytes 4 (length names - 1) @
        concat (map (\<lambda>f. write_size (the (fs f)) @ write_file (the (fs f))) (drop 1 names))))"

record arguments =
  arg_names :: "string list"
  arg_count :: nat
  output_file :: string

datatype argp_key = KeyO | ARGP_KEY_ARG | ARGP_KEY_END | KeyOther

datatype packer_fault = ArgsOverflow | Usage

definition MAX_FILES :: nat where
  "MAX_FILES = 128"

definition parse_opt :: "argp_key \<Rightarrow> string \<Rightarrow> nat \<Rightarrow> arguments \<Rightarrow> packer_fault + arguments" where
  "parse_opt key arg arg_num a =
     (case key of
        KeyO \<Rightarrow> Inr (a\<lparr>output_file := arg\<rparr>)
      | ARGP_KEY_ARG \<Rightarrow>
          if arg_num < MAX_FILES then Inr (a\<lparr>arg_names := (arg_names a)[arg_num := arg]\<rparr>) else Inl ArgsOverflow
      | ARGP_KEY_END \<Rightarrow> if arg_num < 1 then Inl Usage else Inr (a\<lparr>arg_count := arg_num\<rparr>)
      | KeyOther \<Rightarrow> Inr a)"

text \<open>\<open>argp_parse\<close> calls \<open>parse_opt\<close> for one event after the other.\<close>

fun parse_all :: "(argp_key \<times> string \<times> nat) list \<Rightarrow> arguments \<Rightarrow> packer_fault + arguments" where
  "parse_all [] a = Inr a"
| "parse_all ((k, arg, n) # evs) a = (case parse_opt k arg n a of Inl e \<Rightarrow> Inl e | Inr a \<Rightarrow> parse_all evs a)"

text \<open>The exit code, and the image that was written.\<close>

definition packer_main :: "files \<Rightarrow> (string \<Rightarrow> bool) \<Rightarrow> (argp_key \<times> string \<times> nat) list \<Rightarrow>
    packer_fault + int \<times> 8 word list option" where
  "packer_main fs writable evs =
     (case parse_all evs \<lparr>arg_names = replicate MAX_FILES [], arg_count = 0, output_file = ''packedKernel.bin''\<rparr> of
        Inl e \<Rightarrow> Inl e
      | Inr a \<Rightarrow>
          let names = take (arg_count a) (arg_names a)
          in if \<not> checkFiles fs names then Inr (1, None)
             else case buildImage fs (writable (output_file a)) names of
                    None \<Rightarrow> Inr (1, None)
                  | Some img \<Rightarrow> Inr (0, Some img))"

section \<open>Bytes and words\<close>

lemma store_bytes_at:
  "store_bytes a bs m x = (if a \<le> x \<and> x < a + int (length bs) then bs ! nat (x - a) else m x)"
proof (induction bs arbitrary: a m)
  case (Cons b bs)
  have IH: "store_bytes (a + 1) bs (m(a := b)) x =
      (if a + 1 \<le> x \<and> x < a + 1 + int (length bs) then bs ! nat (x - (a + 1)) else (m(a := b)) x)" by (rule Cons.IH)
  consider "x = a" | "a + 1 \<le> x" | "x < a" by linarith
  then show ?case
  proof cases
    case 2
    then have "nat (x - a) = Suc (nat (x - (a + 1)))" by simp
    then show ?thesis using 2 IH by simp
  qed (use IH in simp_all)
qed auto

definition bytes_at :: "(addr \<Rightarrow> 8 word) \<Rightarrow> addr \<Rightarrow> 8 word list \<Rightarrow> bool" where
  "bytes_at m a bs \<longleftrightarrow> (\<forall>i<length bs. m (a + int i) = bs ! i)"

lemma bytes_at_store: "bytes_at (store_bytes a bs m) a bs"
  by (simp add: bytes_at_def store_bytes_at)

lemma bytes_at_append: "bytes_at m a (bs @ cs) \<longleftrightarrow> bytes_at m a bs \<and> bytes_at m (a + int (length bs)) cs"
proof
  assume h: "bytes_at m a (bs @ cs)"
  have "m (a + int (length bs) + int i) = cs ! i" if "i < length cs" for i
    using h [unfolded bytes_at_def, rule_format, of "length bs + i"] that by (simp add: nth_append algebra_simps)
  moreover have "m (a + int i) = bs ! i" if "i < length bs" for i
    using h [unfolded bytes_at_def, rule_format, of i] that by (simp add: nth_append)
  ultimately show "bytes_at m a bs \<and> bytes_at m (a + int (length bs)) cs" by (simp add: bytes_at_def)
next
  assume h: "bytes_at m a bs \<and> bytes_at m (a + int (length bs)) cs"
  show "bytes_at m a (bs @ cs)"
    unfolding bytes_at_def
  proof (intro allI impI)
    fix i assume i: "i < length (bs @ cs)"
    show "m (a + int i) = (bs @ cs) ! i"
    proof (cases "i < length bs")
      case True
      then show ?thesis using h by (simp add: bytes_at_def nth_append)
    next
      case False
      then obtain k where k: "i = length bs + k" by (metis le_iff_add not_less)
      then have "m (a + int (length bs) + int k) = cs ! k" using h i by (simp add: bytes_at_def)
      then show ?thesis using k by (simp add: nth_append algebra_simps)
    qed
  qed
qed

lemma bytes_at_Cons: "bytes_at m a (b # bs) \<longleftrightarrow> m a = b \<and> bytes_at m (a + 1) bs"
  using bytes_at_append [of m a "[b]" bs] by (simp add: bytes_at_def)

lemma le_bytes_length [simp]: "length (le_bytes n v) = n"
  by (induction n arbitrary: v) simp_all

lemma read_le_bytes: "bytes_at m a (le_bytes n v) \<Longrightarrow> read_le n a m = v mod 256 ^ n"
proof (induction n arbitrary: a v)
  case (Suc n)
  then have "m a = word_of_nat v" "bytes_at m (a + 1) (le_bytes n (v div 256))" by (simp_all add: bytes_at_Cons)
  moreover have "unat (word_of_nat v :: 8 word) = v mod 256" by (simp add: unat_of_nat)
  ultimately show ?case using Suc.IH by (simp add: mod_mult2_eq)
qed simp

lemma write_file_copies: "write_file src = src"
proof (induction src rule: write_file.induct)
  case (1 src)
  show ?case
  proof (cases "length src < 128")
    case True
    then show ?thesis by (subst write_file.simps) simp
  next
    case False
    then show ?thesis using 1 by (subst write_file.simps) simp
  qed
qed

section \<open>What the loader does\<close>

text \<open>The printing ends and changes the console only.\<close>

definition prints :: "('a loader_scheme, unit) eprog \<Rightarrow> bool" where
  "prints m \<longleftrightarrow> (\<forall>s. \<exists>c. m s = Inr ((), s\<lparr>console := c\<rparr>))"

lemma prints_ncPrint: "prints (ncPrint msg)"
  unfolding prints_def ncPrint_def by blast

lemma prints_base:
  assumes "0 \<le> v" and "v < 2 ^ 64" and "b = 10 \<or> b = 16"
  shows "prints (ncPrintBase v b)"
proof -
  have b: "2 \<le> b" "b \<le> 36" using assms(3) by auto
  obtain es where es: "digits_loop b v = Inr es" using digits_loop_value [OF assms(1) b] by blast
  have "(2::int) ^ 64 < b ^ Suc 62" using assms(3) by auto
  then have "v < b ^ Suc 62" using assms(2) by linarith
  then have "length es \<le> Suc 62" by (rule digits_loop_length_le [OF assms(1) b(1) _ es])
  then have "uintToBase v b = Inr (rev es, int (length es))" using es by (simp add: uintToBase_def)
  then show ?thesis using prints_ncPrint [of "rev es"] by (simp add: prints_def ncPrintBase_def)
qed

lemma prints_newline:
  assumes "currentVideo s = SCREEN"
  shows "ncNewline s = Inr ((), s\<lparr>console := console s @ '' ''\<rparr>)"
  using assms by (simp add: ncNewline_def loop_outcome_def newline_loop.simps ncPrint_def)

lemma prints_bind:
  assumes "prints m" and "\<And>c. \<exists>t. f () (s\<lparr>console := c\<rparr>) = Inr (x, t) \<and> P t"
  shows "\<exists>t. ebind m f s = Inr (x, t) \<and> P t"
proof -
  obtain c where "m s = Inr ((), s\<lparr>console := c\<rparr>)" using assms(1) unfolding prints_def by blast
  then show ?thesis using assms(2) [of c] by (simp add: ebind_def)
qed

definition apart_regions :: "addr \<Rightarrow> nat \<Rightarrow> addr \<Rightarrow> nat \<Rightarrow> bool" where
  "apart_regions a m b n \<longleftrightarrow> a + int m \<le> b \<or> b + int n \<le> a"

definition in_machine :: "addr \<Rightarrow> bool" where
  "in_machine a \<longleftrightarrow> 0 \<le> a \<and> a < 2 ^ 64"

lemma memcpy_apart:
  assumes "apart_regions dst n src n"
  shows "memcpy dst src n m a = (if dst \<le> a \<and> a < dst + int n then m (a - dst + src) else m a)"
proof -
  have ap: "\<And>a. src \<le> a \<Longrightarrow> a < src + int n \<Longrightarrow> a < dst \<or> dst + int n \<le> a"
    using assms by (auto simp: apart_regions_def)
  show ?thesis
  proof (cases "n mod 4 = 0")
    case True
    then have n: "4 * int (n div 4) = int n" by presburger
    have "copy_words (n div 4) dst src m a = (if dst \<le> a \<and> a < dst + int n then m (a - dst + src) else m a)"
      using copy_words_at [of src "n div 4" dst m a] ap n by simp
    with copy_bytes_at [of src n dst m a] ap show ?thesis by (simp add: memcpy_def)
  next
    case False
    with copy_bytes_at [of src n dst m a] ap show ?thesis by (simp add: memcpy_def)
  qed
qed

lemma loadModule_loads:
  assumes "bytes_at (ram s) a (le_bytes 4 (length bs) @ bs)" and "length bs < 2 ^ 32" and "in_machine (a + 4)" and "in_machine d"
    and "apart_regions d (length bs) (a + 4) (length bs)" and "currentVideo s = SCREEN"
  shows "\<exists>t. loadModule a d s = Inr (a + 4 + int (length bs), t) \<and> currentVideo t = SCREEN \<and>
    (\<exists>m c. t = s\<lparr>ram := m, console := c\<rparr>) \<and>
    (\<forall>x. ram t x = (if d \<le> x \<and> x < d + int (length bs) then bs ! nat (x - d) else ram s x))"
proof -
  have b: "bytes_at (ram s) a (le_bytes 4 (length bs))" "bytes_at (ram s) (a + 4) bs"
    using assms(1) by (simp_all add: bytes_at_append)
  then have size: "readUint32 a s = Inr ((length bs, a + 4), s)"
    using read_le_bytes [OF b(1)] assms(2) by (simp add: readUint32_def)
  define m where "m = memcpy d (a + 4) (length bs) (ram s)"
  have m: "m x = (if d \<le> x \<and> x < d + int (length bs) then bs ! nat (x - d) else ram s x)" for x
    using memcpy_apart [OF assms(5)] b(2) [unfolded bytes_at_def, rule_format, of "nat (x - d)"]
    by (auto simp: m_def algebra_simps)
  have dec: "prints (ncPrintDec (int (length bs)))"
    unfolding ncPrintDec_def by (rule prints_base) (use assms(2) in auto)
  have hex: "prints (ncPrintHex (a + 4))" "prints (ncPrintHex d)"
    unfolding ncPrintHex_def by (rule prints_base; use assms(3,4) in \<open>simp add: in_machine_def\<close>)+
  have finish: "\<exists>t. ebind (emodify (\<lambda>s. s\<lparr>ram := memcpy d (a + 4) (length bs) (ram s)\<rparr>)) (\<lambda>_.
      ebind (ncPrint '' [Done]'') (\<lambda>_. ebind ncNewline (\<lambda>_. ereturn (a + 4 + int (length bs))))) u =
      Inr (a + 4 + int (length bs), t) \<and> (\<exists>c. t = s\<lparr>ram := m, console := c\<rparr>)" if "\<exists>c. u = s\<lparr>console := c\<rparr>" for u
    using that assms(6) by (auto simp: ebind_def ncPrint_def prints_newline m_def)
  have "\<exists>t. loadModule a d s = Inr (a + 4 + int (length bs), t) \<and> (\<exists>c. t = s\<lparr>ram := m, console := c\<rparr>)"
    unfolding loadModule_def ebind_Inr [where m = "readUint32 a", OF size] prod.case
    apply (rule prints_bind [OF prints_ncPrint], rule prints_bind [OF hex(1)], rule prints_bind [OF prints_ncPrint])
    apply (rule prints_bind [OF hex(2)], rule prints_bind [OF prints_ncPrint], rule prints_bind [OF dec])
    apply (rule prints_bind [OF prints_ncPrint], rule finish)
    apply (intro exI)
    apply simp
    done
  then obtain c where c: "loadModule a d s = Inr (a + 4 + int (length bs), s\<lparr>ram := m, console := c\<rparr>)" by blast
  show ?thesis
    by (rule exI [of _ "s\<lparr>ram := m, console := c\<rparr>"]) (use c m assms(6) in \<open>simp, blast\<close>)
qed

section \<open>Packing and loading\<close>

definition packed :: "8 word list \<Rightarrow> 8 word list" where
  "packed bs = le_bytes 4 (length bs) @ bs"

definition payload :: "8 word list list \<Rightarrow> 8 word list" where
  "payload ms = le_bytes 4 (length ms) @ concat (map packed ms)"

text \<open>The places of the modules \<open>ms\<close> are clear of each other and of the payload at \<open>p\<close>, and all of it is in the
  64-bit address space.\<close>

definition places_ok :: "addr \<Rightarrow> addr list \<Rightarrow> 8 word list list \<Rightarrow> bool" where
  "places_ok p ds ms \<longleftrightarrow> length ms \<le> length ds \<and> length ms < 2 ^ 32 \<and> 0 \<le> p \<and> p + int (length (payload ms)) < 2 ^ 64 \<and>
     (\<forall>i<length ms. length (ms ! i) < 2 ^ 32 \<and> in_machine (ds ! i) \<and>
        apart_regions (ds ! i) (length (ms ! i)) p (length (payload ms)) \<and>
        (\<forall>j<i. apart_regions (ds ! i) (length (ms ! i)) (ds ! j) (length (ms ! j))))"

lemma bytes_at_cong: "(\<And>i. i < length bs \<Longrightarrow> m' (a + int i) = m (a + int i)) \<Longrightarrow> bytes_at m' a bs = bytes_at m a bs"
  by (simp add: bytes_at_def)

lemma bytes_at_outside:
  assumes "\<And>x. m' x = (if d \<le> x \<and> x < d + int n then g x else m x)" and "apart_regions d n a (length bs)"
  shows "bytes_at m' a bs = bytes_at m a bs"
  by (rule bytes_at_cong) (use assms in \<open>auto simp: apart_regions_def\<close>)

lemma load_loop_loads:
  assumes "places_ok p ds ms" and "i \<le> length ms" and "p + 4 + int (length (concat (map packed (take i ms)))) = a"
    and "bytes_at (ram s) a (concat (map packed (drop i ms)))" and "currentVideo s = SCREEN"
    and "\<forall>j<i. bytes_at (ram s) (ds ! j) (ms ! j)"
  shows "\<exists>t. load_loop (length ms - i) i a ds s = Inr ((), t) \<and> (\<forall>j<length ms. bytes_at (ram t) (ds ! j) (ms ! j)) \<and>
    (\<exists>m c. t = s\<lparr>ram := m, console := c\<rparr>)"
  using assms(2-6)
proof (induction "length ms - i" arbitrary: i a s)
  case 0
  then have "i = length ms" by simp
  then have "load_loop (length ms - i) i a ds s = Inr ((), s)" "\<forall>j<length ms. bytes_at (ram s) (ds ! j) (ms ! j)"
    using 0 by simp_all
  moreover have "\<exists>m c. s = s\<lparr>ram := m, console := c\<rparr>"
    by (intro exI [of _ "ram s"] exI [of _ "console s"]) simp
  ultimately show ?case by blast
next
  case (Suc n)
  then have i: "i < length ms" by simp
  define b where "b = ms ! i"
  define pre where "pre = concat (map packed (take i ms))"
  define post where "post = concat (map packed (drop (Suc i) ms))"
  have ok: "i < length ds" "length b < 2 ^ 32" "in_machine (ds ! i)" "apart_regions (ds ! i) (length b) p (length (payload ms))"
      "\<forall>j<i. apart_regions (ds ! i) (length b) (ds ! j) (length (ms ! j))" "0 \<le> p" "p + int (length (payload ms)) < 2 ^ 64"
    using assms(1) i by (auto simp: places_ok_def b_def)
  have "concat (map packed ms) = pre @ packed b @ post"
    by (subst (1) id_take_nth_drop [OF i]) (simp add: pre_def post_def b_def)
  then have "length (payload ms) = 4 + length pre + (4 + length b) + length post"
    by (simp add: payload_def packed_def)
  then have len: "int (length (payload ms)) = 8 + int (length pre) + int (length b) + int (length post)" by simp
  have a: "a = p + 4 + int (length pre)" using Suc.prems(2) by (simp add: pre_def)
  have rest: "concat (map packed (drop i ms)) = packed b @ post"
    using i by (simp add: Cons_nth_drop_Suc [symmetric] b_def post_def)
  have here: "bytes_at (ram s) a (le_bytes 4 (length b) @ b)" and later: "bytes_at (ram s) (a + 4 + int (length b)) post"
    using Suc.prems(3) unfolding rest by (simp_all add: bytes_at_append packed_def add.assoc)
  have apart: "apart_regions (ds ! i) (length b) (a + 4) (length b)"
    "apart_regions (ds ! i) (length b) (a + 4 + int (length b)) (length post)"
    using ok(4) len a unfolding apart_regions_def by linarith+
  have "in_machine (a + 4)" using ok(6,7) len a by (simp add: in_machine_def)
  from loadModule_loads [OF here ok(2) this ok(3) apart(1) Suc.prems(4)] obtain u m c where
    u: "loadModule a (ds ! i) s = Inr (a + 4 + int (length b), u)" "currentVideo u = SCREEN" "u = s\<lparr>ram := m, console := c\<rparr>"
      "\<And>x. ram u x = (if ds ! i \<le> x \<and> x < ds ! i + int (length b) then b ! nat (x - ds ! i) else ram s x)"
    by blast
  have "bytes_at (ram u) (a + 4 + int (length b)) post"
    using bytes_at_outside [OF u(4) apart(2)] later by simp
  moreover have "bytes_at (ram u) (ds ! j) (ms ! j)" if "j < Suc i" for j
  proof (cases "j = i")
    case True
    then show ?thesis using u(4) by (simp add: bytes_at_def b_def)
  next
    case False
    then have "j < i" using that by simp
    then show ?thesis using bytes_at_outside [OF u(4)] ok(5) Suc.prems(5) by blast
  qed
  moreover have "p + 4 + int (length (concat (map packed (take (Suc i) ms)))) = a + 4 + int (length b)"
    using i a by (simp add: take_Suc_conv_app_nth pre_def [symmetric] packed_def b_def)
  moreover have "n = length ms - Suc i" "Suc i \<le> length ms" using Suc.hyps(2) i by simp_all
  ultimately obtain t m' c' where t: "load_loop n (Suc i) (a + 4 + int (length b)) ds u = Inr ((), t)"
      "\<forall>j<length ms. bytes_at (ram t) (ds ! j) (ms ! j)" "t = u\<lparr>ram := m', console := c'\<rparr>"
    using Suc.hyps(1) [of "Suc i" "a + 4 + int (length b)" u] u(2) unfolding post_def by blast
  have "load_loop (length ms - i) i a ds s = Inr ((), t)"
    using ok(1) u(1) t(1) by (simp add: Suc.hyps(2) [symmetric])
  moreover have "t = s\<lparr>ram := m', console := c'\<rparr>" using t(3) u(3) by simp
  ultimately show ?case using t(2) by blast
qed

lemma buildImage_payload:
  assumes "map fs names = map Some (kern # ms)"
  shows "buildImage fs True names = Some (kern @ payload ms)"
proof -
  obtain f gs where names: "names = f # gs" "fs f = Some kern" "map fs gs = map Some ms"
    using assms by (cases names) auto
  have "concat (map (\<lambda>f. write_size (the (fs f)) @ write_file (the (fs f))) gs) = concat (map packed (map (the \<circ> fs) gs))"
    by (simp add: packed_def write_size_def write_file_copies comp_def)
  also have "map (the \<circ> fs) gs = ms"
    using arg_cong [OF names(3), of "map the"] by (simp add: comp_def)
  finally show ?thesis
    using names map_eq_imp_length_eq [OF names(3)] by (simp add: buildImage_def payload_def write_file_copies)
qed

section \<open>Properties\<close>

definition demo_loader :: "(addr \<Rightarrow> 8 word) \<Rightarrow> loader" where
  "demo_loader m = mouse.extend (demo_mouse\<lparr>ram := m\<rparr>) \<lparr>currentVideo = SCREEN\<rparr>"

text \<open>C32. What the packer packs the loader finds again: when the image of a kernel and its modules lies in memory
  at \<open>K\<close>, \<open>loadModules\<close>, called with the address behind the kernel, copies each module to the place
  with its number, for modules of any content and length, as long as the places are clear of each
  other and of the image's payload.\<close>

theorem pack_then_load:
  assumes "map fs names = map Some (kern # ms)" and "places_ok (K + int (length kern)) ds ms"
    and "\<forall>img. buildImage fs True names = Some img \<longrightarrow> bytes_at (ram s) K img" and "currentVideo s = SCREEN"
  shows "\<exists>t. loadModules (K + int (length kern)) ds s = Inr ((), t) \<and> (\<forall>j<length ms. bytes_at (ram t) (ds ! j) (ms ! j))"
proof -
  define p where "p = K + int (length kern)"
  have "bytes_at (ram s) p (payload ms)"
    using assms(3) buildImage_payload [OF assms(1)] by (simp add: bytes_at_append p_def)
  then have b: "bytes_at (ram s) p (le_bytes 4 (length ms))" "bytes_at (ram s) (p + 4) (concat (map packed (drop 0 ms)))"
    by (simp_all add: payload_def bytes_at_append)
  have "length ms < 2 ^ 32" using assms(2) by (simp add: places_ok_def)
  then have count: "readUint32 p s = Inr ((length ms, p + 4), s)"
    using read_le_bytes [OF b(1)] by (simp add: readUint32_def)
  obtain t where "load_loop (length ms - 0) 0 (p + 4) ds s = Inr ((), t)" "\<forall>j<length ms. bytes_at (ram t) (ds ! j) (ms ! j)"
    using load_loop_loads [OF assms(2) [folded p_def] _ _ b(2) assms(4)] by auto
  then show ?thesis using count by (auto simp: loadModules_def ebind_def p_def)
qed

theorem pack_then_load_witness:
  "\<exists>t. loadModules 0x100003 moduleAddresses (demo_loader (store_bytes 0x100000
      ([1, 2, 3] @ payload [[0x55, 0x48], [0x90, 0x90, 0xC3]]) (\<lambda>_. 0))) = Inr ((), t) \<and> ram t 0x400001 = 0x48 \<and> ram t 0x500002 = 0xC3"
proof -
  define fs :: files where "fs = (\<lambda>f. if f = ''k'' then Some [1, 2, 3] else if f = ''a'' then Some [0x55, 0x48] else Some [0x90, 0x90, 0xC3])"
  define ms :: "8 word list list" where "ms = [[0x55, 0x48], [0x90, 0x90, 0xC3]]"
  define s where "s = demo_loader (store_bytes 0x100000 ([1, 2, 3] @ payload ms) (\<lambda>_. 0))"
  have ram: "ram s = store_bytes 0x100000 ([1, 2, 3] @ payload ms) (\<lambda>_. 0)" and cv: "currentVideo s = SCREEN"
    by (simp_all add: s_def demo_loader_def mouse.defs)
  have fs: "map fs [''k'', ''a'', ''b''] = map Some ([1, 2, 3] # ms)" by (simp add: fs_def ms_def)
  have places: "places_ok (0x100000 + int (length ([1, 2, 3] :: 8 word list))) moduleAddresses ms"
    by (auto simp: places_ok_def ms_def payload_def packed_def moduleAddresses_def in_machine_def apart_regions_def less_2_cases_iff
        less_Suc_eq)
  have "bytes_at (ram s) 0x100000 ([1, 2, 3] @ payload ms)"
    unfolding ram by (rule bytes_at_store)
  then have "\<forall>img. buildImage fs True [''k'', ''a'', ''b''] = Some img \<longrightarrow> bytes_at (ram s) 0x100000 img"
    using buildImage_payload [OF fs] by simp
  from pack_then_load [OF fs places this cv] obtain t where t: "loadModules 0x100003 moduleAddresses s = Inr ((), t)"
      "\<forall>j<length ms. bytes_at (ram t) (moduleAddresses ! j) (ms ! j)" by auto
  have "ram t (0x400000 + int 1) = 0x48" "ram t (0x500000 + int 2) = 0xC3"
    using t(2) [rule_format, of 0] t(2) [rule_format, of 1] unfolding bytes_at_def
    by (auto simp: ms_def moduleAddresses_def)
  then show ?thesis using t(1) unfolding s_def ms_def by auto
qed

text \<open>C33. The packer's answers.  Called with file names only, it overruns its array of names when there are more than
  128, asks for a file when there is none, and otherwise writes an image and exits with 0 exactly when every
  file is readable and the target can be written; in the other cases it exits with 1 and writes nothing.\<close>

theorem packer_exit_codes:
  "packer_main fs writable (map (\<lambda>i. (ARGP_KEY_ARG, names ! i, i)) [0..<length names] @ [(ARGP_KEY_END, [], length names)]) =
     (if 128 < length names then Inl ArgsOverflow
      else if names = [] then Inl Usage
      else if list_all (\<lambda>f. fs f \<noteq> None) names \<and> writable ''packedKernel.bin''
      then Inr (0, buildImage fs True names) else Inr (1, None))"
proof -
  define a0 :: arguments where "a0 = \<lparr>arg_names = replicate 128 [], arg_count = 0, output_file = ''packedKernel.bin''\<rparr>"
  define ev where "ev = (\<lambda>i. (ARGP_KEY_ARG, names ! i, i :: nat))"
  have args: "parse_all (map ev [0..<n] @ evs) a0 =
      parse_all evs (a0\<lparr>arg_names := take n names @ replicate (128 - n) []\<rparr>)" if "n \<le> 128" "n \<le> length names" for n evs
    using that
  proof (induction n arbitrary: evs)
    case 0
    show ?case by (simp add: a0_def)
  next
    case (Suc n)
    have upd: "(take n names @ replicate (128 - n) [])[n := names ! n] = take (Suc n) names @ replicate (128 - Suc n) []"
    proof -
      have "128 - n = Suc (128 - Suc n)" using Suc.prems(1) by simp
      then have "replicate (128 - n) [] = [] # replicate (128 - Suc n) ([] :: string)" by (metis replicate_Suc)
      then show ?thesis using Suc.prems by (simp add: list_update_append take_Suc_conv_app_nth)
    qed
    show ?case
      using Suc.IH [of "ev n # evs"] Suc.prems upd by (simp add: ev_def parse_opt_def MAX_FILES_def)
  qed
  have whole: "map ev [0..<length names] @ evs = map ev [0..<128] @ map ev [128..<length names] @ evs" if "128 < length names" for evs
    using that by (metis append.assoc less_imp_le map_append upt_add_eq_append le_add_diff_inverse zero_le)
  consider "128 < length names" | "names = []" | "names \<noteq> []" "length names \<le> 128" by force
  then show ?thesis
  proof cases
    case 1
    then have "[128..<length names] = 128 # [Suc 128..<length names]" by (rule upt_conv_Cons)
    then have "parse_all (map ev [0..<length names] @ [(ARGP_KEY_END, [], length names)]) a0 = Inl ArgsOverflow"
      using whole [OF 1] args [of 128] 1 by (simp add: ev_def parse_opt_def MAX_FILES_def)
    then show ?thesis using 1 by (simp add: packer_main_def a0_def ev_def MAX_FILES_def)
  next
    case 2
    then show ?thesis by (simp add: packer_main_def parse_opt_def)
  next
    case 3
    then have "parse_all (map ev [0..<length names] @ [(ARGP_KEY_END, [], length names)]) a0 =
        Inr (a0\<lparr>arg_names := names @ replicate (128 - length names) [], arg_count := length names\<rparr>)"
      using args [of "length names"] by (simp add: parse_opt_def Suc_le_eq)
    then show ?thesis
      using 3 by (simp add: packer_main_def a0_def ev_def MAX_FILES_def checkFiles_def buildImage_def)
  qed
qed

end
