(* ===== verification/SystemCalls.thy ===== *)
theory SystemCalls
  imports Modules
begin

text \<open>
  The system calls of Kernel/systemCalls.c: the table, the dispatcher behind \<open>int 0x80\<close>, and one function
  per call that turns the registers of the caller into the arguments of the kernel; with \<open>printProcesses\<close>
  and \<open>restartSHELL\<close> of Kernel/scheduler.c and the page fault handler of Kernel/interrupts.c, which run
  programs through them.

  The lemmas show what the dispatcher calls, that unset numbers call address 0, and what the calls that
  print, read, clear the screen, sleep and start a program do.
\<close>

section \<open>State and registers\<close>

datatype syscall =
    Sys_readC | Sys_writeC | Sys_clearC | Sys_echoC | Sys_runC | Sys_changeModuleEnvironmetC | Sys_undoBackwardsC
  | Sys_printProcesses | Sys_kill | Sys_createThread | Sys_mallock | Sys_getAddressOfModuleC | Sys_signal | Sys_semOpen
  | Sys_semCreate | Sys_semClose | Sys_getMutex | Sys_lockMutex | Sys_freeMutex | Sys_closeMutex | Sys_createProcess
  | Sys_sleep | Sys_wait | Sys_openPipe | Sys_createPipe | Sys_closePipe | Sys_read | Sys_write

abbreviation (input) SYSTEM_CALL_COUNT :: nat where
  "SYSTEM_CALL_COUNT \<equiv> 35"

text \<open>\<open>None\<close> is a null function pointer.\<close>

record kernel_state = loader +
  sysCalls :: "syscall option list"

type_synonym qword = "64 word"

text \<open>\<open>(int) q\<close> and \<open>(uint32_t) q\<close> keep the lower half; a result of type \<open>int\<close> is sign-extended.\<close>

definition int_arg :: "qword \<Rightarrow> int" where
  "int_arg q = sint (ucast q :: 32 word)"

definition ptr_arg :: "qword \<Rightarrow> addr" where
  "ptr_arg q = uint q"

definition int_result :: "int \<Rightarrow> qword" where
  "int_result n = word_of_int n"

text \<open>The characters at a pointer, up to the terminating zero; \<open>None\<close> when there is none.\<close>

partial_function (option) c_string :: "(addr \<Rightarrow> 8 word) \<Rightarrow> addr \<Rightarrow> string option" where
  "c_string m a =
     (if m a = 0 then Some []
      else Option.bind (c_string m (a + 1)) (\<lambda>cs. Some (char_of (unat (m a)) # cs)))"

definition string_arg :: "qword \<Rightarrow> ('a kernel_state_scheme, string) kprog" where
  "string_arg q s = (case c_string (ram s) (ptr_arg q) of None \<Rightarrow> Undef Diverges | Some cs \<Rightarrow> Ret cs s)"

text \<open>The pipes keep a null pointer apart from a name.\<close>

definition pipe_name_arg :: "qword \<Rightarrow> ('a kernel_state_scheme, string option) kprog" where
  "pipe_name_arg q = (if q = 0 then kreturn None else kbind (string_arg q) (\<lambda>cs. kreturn (Some cs)))"

definition returning :: "qword \<Rightarrow> ('s, unit) kprog \<Rightarrow> ('s, qword) kprog" where
  "returning v m = kbind m (\<lambda>_. kreturn v)"

section \<open>The terminal and the screen\<close>

text \<open>
  The loop counts \<open>length\<close> down to 0; a negative one passes the smallest \<open>int\<close>, which is undefined.
\<close>

fun write_chars :: "nat \<Rightarrow> addr \<Rightarrow> ('a kernel_state_scheme, unit) eprog" where
  "write_chars 0 msg = ereturn ()"
| "write_chars (Suc n) msg =
     ebind (\<lambda>s. if ram s msg = 0x0A then lineJump s else putChar (char_of (unat (ram s msg))) s) (\<lambda>_.
     write_chars n (msg + 1))"

definition sys_call_writeC :: "qword \<Rightarrow> qword \<Rightarrow> qword \<Rightarrow> ('a kernel_state_scheme, qword) kprog" where
  "sys_call_writeC qstdout qmsg qlength =
     (if (ucast qstdout :: 32 word) = 0
      then returning 0 (kcall (if int_arg qlength < 0 then efail Diverges
             else write_chars (nat (int_arg qlength)) (ptr_arg qmsg)))
      else kreturn 0)"

definition sys_call_readC :: "qword \<Rightarrow> qword \<Rightarrow> qword \<Rightarrow> ('a kernel_state_scheme, qword) kprog" where
  "sys_call_readC qstdin qbuffer qlength =
     (if (ucast qstdin :: 32 word) = 0
      then kbind (kcall (getTerminalBuffer (ptr_arg qbuffer) (ucast qlength))) (\<lambda>n. kreturn (int_result n))
      else kreturn 0)"

definition sys_call_clearC :: "('a kernel_state_scheme, qword) kprog" where
  "sys_call_clearC =
     returning 0 (kmodify (\<lambda>s. setCursor 3 0 (fold clearRow (map int (rev [3..<26])) s)))"

definition sys_call_echoC :: "qword \<Rightarrow> ('a kernel_state_scheme, qword) kprog" where
  "sys_call_echoC qon = returning 0 (kmodify (if int_arg qon \<noteq> 0 then echoON else echoOF))"

definition sys_call_changeModuleEnvironmetC :: "qword \<Rightarrow> qword \<Rightarrow> ('a kernel_state_scheme, qword) kprog" where
  "sys_call_changeModuleEnvironmetC qi qj = returning 0 (kmodify (changeStartModule (int_arg qi) (int_arg qj)))"

definition sys_call_undoBackwardsC :: "qword \<Rightarrow> ('a kernel_state_scheme, qword) kprog" where
  "sys_call_undoBackwardsC qfrom = returning 0 (kmodify (changeStopBackwards (int_arg qfrom)))"

section \<open>Programs and processes\<close>

text \<open>The addresses of two kernel symbols are parameters, and what a string at address 0 would be.\<close>

record kenv =
  e_callProcess :: addr
  e_nul :: string

abbreviation (input) DUMMY :: int where "DUMMY \<equiv> 1"
abbreviation (input) EDITOR :: int where "EDITOR \<equiv> 2"
abbreviation (input) FORTUNE :: int where "FORTUNE \<equiv> 3"
abbreviation (input) SHELL :: int where "SHELL \<equiv> 4"
abbreviation (input) PAGE_FAULT_MODULE :: int where "PAGE_FAULT_MODULE \<equiv> 5"

definition dummyAddress :: addr where "dummyAddress = 0xA00000"
definition shellAddress :: addr where "shellAddress = 0xC00000"
definition currentAddress :: addr where "currentAddress = 0x800000"
definition editorAddress :: addr where "editorAddress = 0xE00000"
definition fortuneAddress :: addr where "fortuneAddress = 0x600000"
definition sampleCodeModuleAddress :: addr where "sampleCodeModuleAddress = 0x400000"

text \<open>Map the module, reload CR3 (no effect on this state), create its process.\<close>

definition start_module :: "kenv \<Rightarrow> addr \<Rightarrow> string \<Rightarrow> addr \<Rightarrow> ('a kernel_state_scheme, int) kprog" where
  "start_module env moduleAdress description args =
     kbind (kmodify (mapModulesLogical moduleAdress)) (\<lambda>_.
     kcall (createProcess (e_callProcess env) moduleAdress description args))"

definition run_program :: "kenv \<Rightarrow> int \<Rightarrow> addr \<Rightarrow> ('a kernel_state_scheme, unit) kprog" where
  "run_program env program dumyProgram =
     (if program = DUMMY then kbind (start_module env dummyAddress ''dummy'' dumyProgram) (\<lambda>_. kreturn ())
      else if program = EDITOR then kbind (start_module env editorAddress ''editor'' NULL) (\<lambda>_. kreturn ())
      else if program = FORTUNE then kbind (start_module env fortuneAddress ''fortune'' NULL) (\<lambda>_. kreturn ())
      else if program = SHELL then kbind (start_module env shellAddress ''Shell'' NULL) (\<lambda>_. kreturn ())
      else if program = PAGE_FAULT_MODULE then
        kbind (start_module env sampleCodeModuleAddress ''pagefaul'' NULL) (\<lambda>pid.
        kcall (ebind (getProcessById pid) (\<lambda>p.
               ebind (deref procs p) (\<lambda>pr.
               ebind (deref threads (p_thread pr ! 0)) (\<lambda>t.
               ebind (deref frames (userStack t)) (\<lambda>f.
               put_frame (userStack t) (f\<lparr>sf_cs := 0x00D\<rparr>)))))))
      else kcall (ncPrint ''MUERTE''))"

definition sys_call_runC :: "kenv \<Rightarrow> qword \<Rightarrow> qword \<Rightarrow> ('a kernel_state_scheme, qword) kprog" where
  "sys_call_runC env qprogram dumyProgram =
     kbind (kmodify resetBuffer) (\<lambda>_.
     kbind (run_program env (int_arg qprogram) (ptr_arg dumyProgram)) (\<lambda>_.
     kbind (kcall getCurrentPid) (\<lambda>pid.
     kbind (removeProcess pid) (\<lambda>_.
     kreturn (int_result currentAddress)))))"

definition sys_call_getAddressOfModuleC :: "qword \<Rightarrow> ('a kernel_state_scheme, qword) kprog" where
  "sys_call_getAddressOfModuleC qprogram =
     (let program = int_arg qprogram
      in if program = DUMMY then kreturn (int_result dummyAddress)
         else if program = EDITOR then kreturn (int_result editorAddress)
         else if program = FORTUNE then kreturn (int_result fortuneAddress)
         else if program = SHELL then kreturn (int_result shellAddress)
         else (\<lambda>s. Undef Uninitialised))"

text \<open>\<open>putNumber\<close> leaves its digits in a new block of the kernel's heap.\<close>

definition print_number :: "int \<Rightarrow> ('a kernel_state_scheme, unit) eprog" where
  "print_number n =
     ebind (kmalloc 20) (\<lambda>buffer.
     ebind (emodify (\<lambda>s. s\<lparr>ram := store_bytes buffer
        (map byte_of (number_digits (if n < 0 then int32 (- n) else n))) (ram s)\<rparr>)) (\<lambda>_.
     ncPrint (putNumber n)))"

definition print_stack :: "Process \<Rightarrow> ('a kernel_state_scheme, unit) eprog" where
  "print_stack p = ebind (deref threads (p_thread p ! 0)) (\<lambda>t. ncPrintHex (userStack t))"

fun print_threads :: "nat \<Rightarrow> nat \<Rightarrow> Process \<Rightarrow> ('a kernel_state_scheme, unit) eprog" where
  "print_threads 0 j p = ereturn ()"
| "print_threads (Suc n) j p =
     ebind (ncPrint (CHR 0x0A # ''         thread: '')) (\<lambda>_.
     ebind (print_number (int j)) (\<lambda>_.
     ebind (ncPrint ''   UserStack:'') (\<lambda>_.
     ebind (print_stack p) (\<lambda>_.
     print_threads n (j + 1) p))))"

definition print_process :: "addr \<Rightarrow> ('a kernel_state_scheme, unit) eprog" where
  "print_process a =
     ebind (deref procs a) (\<lambda>p.
     ebind (ncPrint ''pid: '') (\<lambda>_.
     ebind (print_number (p_pid p)) (\<lambda>_.
     ebind (ncPrint (''-->description: '' @ p_description p @ ''-->state: '' @
              getStateFromNumber (state_number (p_state p)) @ ''  UserStack:'')) (\<lambda>_.
     ebind (print_stack p) (\<lambda>_.
     ebind (print_threads (nat (p_numberOfThreads p)) 0 p) (\<lambda>_.
     ncPrint [CHR 0x0A]))))))"

fun print_all :: "addr list \<Rightarrow> ('a kernel_state_scheme, unit) eprog" where
  "print_all [] = ereturn ()"
| "print_all (a # as) = ebind (print_process a) (\<lambda>_. print_all as)"

definition printProcesses :: "('a kernel_state_scheme, unit) eprog" where
  "printProcesses = ebind getCurrentProcesses (\<lambda>(ps, c). print_all (take (nat c) ps))"

definition sys_call_printProcesses :: "('a kernel_state_scheme, qword) kprog" where
  "sys_call_printProcesses = returning 0 (kcall printProcesses)"

definition sys_call_kill :: "qword \<Rightarrow> ('a kernel_state_scheme, qword) kprog" where
  "sys_call_kill qpid = returning 0 (removeProcess (int_arg qpid))"

definition sys_call_createThread :: "kenv \<Rightarrow> qword \<Rightarrow> qword \<Rightarrow> ('a kernel_state_scheme, qword) kprog" where
  "sys_call_createThread env qentryPoint qargs =
     kbind (kcall getCurrentProcess) (\<lambda>p.
     returning 0 (kbind (kcall (createThread (e_callProcess env) (ptr_arg qentryPoint) (ptr_arg qargs) p)) (\<lambda>_. kreturn ())))"

definition sys_call_mallock :: "qword \<Rightarrow> ('a kernel_state_scheme, qword) kprog" where
  "sys_call_mallock qnumberOfBytes = kbind (kcall (mallock (ucast qnumberOfBytes))) (\<lambda>a. kreturn (int_result a))"

definition sys_call_createProcess :: "kenv \<Rightarrow> qword \<Rightarrow> qword \<Rightarrow> qword \<Rightarrow> ('a kernel_state_scheme, qword) kprog" where
  "sys_call_createProcess env qentryPoint description param =
     kbind (string_arg description) (\<lambda>d.
     kbind (kcall (createProcess (e_callProcess env) (ptr_arg qentryPoint) d (ptr_arg param))) (\<lambda>pid.
     kreturn (int_result pid)))"

definition sys_call_sleep :: "qword \<Rightarrow> ('a kernel_state_scheme, qword) kprog" where
  "sys_call_sleep time = returning 0 (sleep (int_arg time))"

section \<open>Synchronisation\<close>

definition sys_call_wait :: "qword \<Rightarrow> ('a kernel_state_scheme, qword) kprog" where
  "sys_call_wait semaphore = returning 0 (wait (int_arg semaphore))"

definition sys_call_signal :: "qword \<Rightarrow> ('a kernel_state_scheme, qword) kprog" where
  "sys_call_signal semaphore = returning 0 (kcall (signal (int_arg semaphore)))"

definition sys_call_semOpen :: "kenv \<Rightarrow> qword \<Rightarrow> ('a kernel_state_scheme, qword) kprog" where
  "sys_call_semOpen env name =
     kbind (string_arg name) (\<lambda>n. kbind (kget (semOpen (e_nul env) n)) (\<lambda>i. kreturn (int_result i)))"

definition sys_call_semCreate :: "kenv \<Rightarrow> qword \<Rightarrow> qword \<Rightarrow> ('a kernel_state_scheme, qword) kprog" where
  "sys_call_semCreate env name start =
     kbind (string_arg name) (\<lambda>n. kbind (semCreate (e_nul env) n (int_arg start)) (\<lambda>i. kreturn (int_result i)))"

definition sys_call_semClose :: "qword \<Rightarrow> ('a kernel_state_scheme, qword) kprog" where
  "sys_call_semClose index = returning 0 (kcall (semClose (int_arg index)))"

definition sys_call_getMutex :: "kenv \<Rightarrow> qword \<Rightarrow> ('a kernel_state_scheme, qword) kprog" where
  "sys_call_getMutex env mutexName =
     kbind (string_arg mutexName) (\<lambda>n. kbind (getMutex (e_nul env) n) (\<lambda>i. kreturn (int_result i)))"

definition sys_call_lockMutex :: "qword \<Rightarrow> ('a kernel_state_scheme, qword) kprog" where
  "sys_call_lockMutex mutex = returning 0 (lockMutex (int_arg mutex))"

definition sys_call_freeMutex :: "qword \<Rightarrow> ('a kernel_state_scheme, qword) kprog" where
  "sys_call_freeMutex mutex = returning 0 (kcall (freeMutex (int_arg mutex)))"

definition sys_call_closeMutex :: "qword \<Rightarrow> ('a kernel_state_scheme, qword) kprog" where
  "sys_call_closeMutex index = returning 0 (kcall (closeMutex (int_arg index)))"

section \<open>Pipes\<close>

definition sys_call_openPipe :: "kenv \<Rightarrow> qword \<Rightarrow> ('a kernel_state_scheme, qword) kprog" where
  "sys_call_openPipe env name =
     kbind (pipe_name_arg name) (\<lambda>n. kbind (openPipe (e_nul env) n) (\<lambda>a. kreturn (int_result a)))"

definition sys_call_createPipe :: "kenv \<Rightarrow> qword \<Rightarrow> ('a kernel_state_scheme, qword) kprog" where
  "sys_call_createPipe env name =
     kbind (pipe_name_arg name) (\<lambda>n. kbind (createPipe (e_nul env) n) (\<lambda>a. kreturn (int_result a)))"

definition sys_call_closePipe :: "kenv \<Rightarrow> qword \<Rightarrow> ('a kernel_state_scheme, qword) kprog" where
  "sys_call_closePipe env pipe = returning 0 (kcall (closePipe (e_nul env) (ptr_arg pipe)))"

definition sys_call_read :: "qword \<Rightarrow> qword \<Rightarrow> qword \<Rightarrow> ('a kernel_state_scheme, qword) kprog" where
  "sys_call_read pipe result bytes =
     kbind (read_pipe (ptr_arg pipe) (ptr_arg result) (int_arg bytes)) (\<lambda>n. kreturn (int_result n))"

definition sys_call_write :: "kenv \<Rightarrow> qword \<Rightarrow> qword \<Rightarrow> ('a kernel_state_scheme, qword) kprog" where
  "sys_call_write env pipe message =
     kbind (write_pipe (e_nul env) (ptr_arg pipe) (ptr_arg message)) (\<lambda>n. kreturn (int_result n))"

section \<open>The table and the dispatcher\<close>

definition setUpSystemCalls :: "'a kernel_state_scheme \<Rightarrow> 'a kernel_state_scheme" where
  "setUpSystemCalls s = s\<lparr>sysCalls := (sysCalls s)
     [4 := Some Sys_writeC, 3 := Some Sys_readC, 5 := Some Sys_clearC, 6 := Some Sys_echoC, 7 := Some Sys_runC,
      10 := Some Sys_printProcesses, 8 := Some Sys_changeModuleEnvironmetC, 9 := Some Sys_undoBackwardsC,
      11 := Some Sys_kill, 12 := Some Sys_createThread, 13 := Some Sys_mallock, 14 := Some Sys_getAddressOfModuleC,
      15 := Some Sys_signal, 16 := Some Sys_semOpen, 17 := Some Sys_semCreate, 18 := Some Sys_semClose,
      19 := Some Sys_getMutex, 20 := Some Sys_lockMutex, 21 := Some Sys_freeMutex, 22 := Some Sys_closeMutex,
      23 := Some Sys_createProcess, 24 := Some Sys_sleep, 25 := Some Sys_wait, 26 := Some Sys_openPipe,
      27 := Some Sys_createPipe, 28 := Some Sys_closePipe, 29 := Some Sys_read, 30 := Some Sys_write]\<rparr>"

text \<open>What stands behind a function pointer; no call looks at more than three arguments.\<close>

fun call_of :: "kenv \<Rightarrow> syscall \<Rightarrow> qword \<Rightarrow> qword \<Rightarrow> qword \<Rightarrow> ('a kernel_state_scheme, qword) kprog" where
  "call_of env Sys_writeC a b c = sys_call_writeC a b c"
| "call_of env Sys_readC a b c = sys_call_readC a b c"
| "call_of env Sys_clearC a b c = sys_call_clearC"
| "call_of env Sys_echoC a b c = sys_call_echoC a"
| "call_of env Sys_runC a b c = sys_call_runC env a b"
| "call_of env Sys_changeModuleEnvironmetC a b c = sys_call_changeModuleEnvironmetC a b"
| "call_of env Sys_undoBackwardsC a b c = sys_call_undoBackwardsC a"
| "call_of env Sys_printProcesses a b c = sys_call_printProcesses"
| "call_of env Sys_kill a b c = sys_call_kill a"
| "call_of env Sys_createThread a b c = sys_call_createThread env a b"
| "call_of env Sys_mallock a b c = sys_call_mallock a"
| "call_of env Sys_getAddressOfModuleC a b c = sys_call_getAddressOfModuleC a"
| "call_of env Sys_signal a b c = sys_call_signal a"
| "call_of env Sys_semOpen a b c = sys_call_semOpen env a"
| "call_of env Sys_semCreate a b c = sys_call_semCreate env a b"
| "call_of env Sys_semClose a b c = sys_call_semClose a"
| "call_of env Sys_getMutex a b c = sys_call_getMutex env a"
| "call_of env Sys_lockMutex a b c = sys_call_lockMutex a"
| "call_of env Sys_freeMutex a b c = sys_call_freeMutex a"
| "call_of env Sys_closeMutex a b c = sys_call_closeMutex a"
| "call_of env Sys_createProcess a b c = sys_call_createProcess env a b c"
| "call_of env Sys_sleep a b c = sys_call_sleep a"
| "call_of env Sys_wait a b c = sys_call_wait a"
| "call_of env Sys_openPipe a b c = sys_call_openPipe env a"
| "call_of env Sys_createPipe a b c = sys_call_createPipe env a"
| "call_of env Sys_closePipe a b c = sys_call_closePipe env a"
| "call_of env Sys_read a b c = sys_call_read a b c"
| "call_of env Sys_write a b c = sys_call_write env a b"

definition syscallHandler :: "kenv \<Rightarrow> qword \<Rightarrow> qword \<Rightarrow> qword \<Rightarrow> qword \<Rightarrow> ('a kernel_state_scheme, qword) kprog" where
  "syscallHandler env rdi rsi rdx rcx s =
     (if of_nat SYSTEM_CALL_COUNT \<le> rdi then Ret 0 s
      else case sysCalls s ! unat rdi of
             None \<Rightarrow> Undef NullDeref
           | Some f \<Rightarrow> call_of env f rsi rdx rcx s)"

section \<open>Programs that are started by the kernel\<close>

definition pageFaultHandlerC :: "kenv \<Rightarrow> ('a kernel_state_scheme, unit) kprog" where
  "pageFaultHandlerC env =
     kbind (kcall (ncPrint ''RECOVERING FROMPAGE FAULT'')) (\<lambda>_.
     kbind (sys_call_runC env 4 0) (\<lambda>_. kreturn ()))"

text \<open>\<open>fuel\<close> bounds the walk of \<open>killAllExceptCurrent\<close> round the ring.\<close>

definition restartSHELL :: "kenv \<Rightarrow> nat \<Rightarrow> ('a kernel_state_scheme, unit) kprog" where
  "restartSHELL env fuel =
     kbind (killAllExceptCurrent fuel) (\<lambda>_.
     kbind (kcall initializeMutexes) (\<lambda>_.
     kbind (initializeSemaphores (e_nul env)) (\<lambda>_.
     kbind (sys_call_runC env 4 0) (\<lambda>_. kreturn ()))))"

section \<open>The dispatcher\<close>

text \<open>The calls from number 3 on.\<close>

definition numbered :: "syscall list" where
  "numbered = [Sys_readC, Sys_writeC, Sys_clearC, Sys_echoC, Sys_runC, Sys_changeModuleEnvironmetC, Sys_undoBackwardsC,
     Sys_printProcesses, Sys_kill, Sys_createThread, Sys_mallock, Sys_getAddressOfModuleC, Sys_signal, Sys_semOpen,
     Sys_semCreate, Sys_semClose, Sys_getMutex, Sys_lockMutex, Sys_freeMutex, Sys_closeMutex, Sys_createProcess,
     Sys_sleep, Sys_wait, Sys_openPipe, Sys_createPipe, Sys_closePipe, Sys_read, Sys_write]"

definition call_table :: "syscall option list" where
  "call_table = replicate 3 None @ map Some numbered @ replicate 4 None"

lemma setUpSystemCalls_table:
  "sysCalls s = replicate 35 None \<Longrightarrow> setUpSystemCalls s = s\<lparr>sysCalls := call_table\<rparr>"
  by (simp add: setUpSystemCalls_def call_table_def numbered_def numeral_eq_Suc)

lemma call_table_nth:
  assumes "n < 35"
  shows "call_table ! n = (if 3 \<le> n \<and> n < 31 then Some (numbered ! (n - 3)) else None)"
proof -
  have len: "length numbered = 28" by (simp add: numbered_def)
  consider "n < 3" | "3 \<le> n" "n < 31" | "31 \<le> n" by linarith
  then show ?thesis
    using assms len by cases (auto simp: call_table_def nth_append nth_Cons')
qed

lemma syscallHandler_number:
  assumes "sysCalls s = call_table" and "rdi < 35"
  shows "syscallHandler env rdi a b c s = (case call_table ! unat rdi of None \<Rightarrow> Undef NullDeref | Some f \<Rightarrow> call_of env f a b c s)"
proof -
  have "\<not> 35 \<le> rdi" using assms(2) by (simp only: not_le)
  then show ?thesis using assms(1) by (simp add: syscallHandler_def)
qed

section \<open>What is outside the video memory stays\<close>

definition same_outside :: "(addr \<Rightarrow> 8 word) \<Rightarrow> (addr \<Rightarrow> 8 word) \<Rightarrow> bool" where
  "same_outside m m' \<longleftrightarrow> (\<forall>x. x < SCREEN \<or> SCREEN + 4000 \<le> x \<longrightarrow> m' x = m x)"

lemma same_outside_refl [simp]: "same_outside m m"
  by (simp add: same_outside_def)

lemma same_outside_trans: "same_outside m m' \<Longrightarrow> same_outside m' m'' \<Longrightarrow> same_outside m m''"
  by (simp add: same_outside_def)

lemma same_outside_fold: "(\<And>k m. k \<in> set ks \<Longrightarrow> same_outside m (g k m)) \<Longrightarrow> same_outside m (fold g ks m)"
  by (induction ks arbitrary: m) (auto intro: same_outside_trans)

lemma screen_bytes_outside: "same_outside m (screen_bytes v a m)"
  unfolding screen_bytes_def
proof (intro same_outside_fold)
  fix c f and m :: "addr \<Rightarrow> 8 word"
  assume "c \<in> set columns" and "f \<in> set rows"
  then have "0 \<le> c" "c < 80" "0 \<le> f" "f < 25" unfolding columns_def rows_def in_columns by simp_all
  then show "same_outside m (cell_bytes f c v a m)"
    by (auto simp: same_outside_def cell_bytes_def)
qed

lemma forwardCursor_outside:
  assumes "cursor_ok s" and "forwardCursor s = Inr ((), t)"
  shows "same_outside (ram s) (ram t)"
  using assms(2) screen_bytes_outside unfolding forwardCursor_cases [OF assms(1)]
  by (auto simp: updateScreen_ram split: if_splits)

lemma putChar_outside:
  assumes "cursor_ok s" and "putChar a s = Inr ((), t)"
  shows "same_outside (ram s) (ram t)"
proof -
  define u where "u = updateScreen (s\<lparr>video := (video s)((cur_j s, cur_i s) := a)\<rparr>)"
  have "forwardCursor u = Inr ((), t)" using assms(2) by (simp add: putChar_def printChar_at(1) [OF assms(1)] u_def)
  then have "same_outside (ram u) (ram t)" using printChar_at(2) [OF assms(1)] by (simp add: forwardCursor_outside u_def)
  moreover have "same_outside (ram s) (ram u)" by (simp add: u_def updateScreen_ram screen_bytes_outside)
  ultimately show ?thesis by (rule same_outside_trans [rotated])
qed

section \<open>Writing\<close>

text \<open>What the call prints: a line feed jumps to the next row, every other character is printed.\<close>

fun print_text :: "string \<Rightarrow> ('a vid_scheme, unit) eprog" where
  "print_text [] = ereturn ()"
| "print_text (c # cs) = ebind (if c = CHR 0x0A then lineJump else putChar c) (\<lambda>_. print_text cs)"

lemma byte_of_char: "char_of (unat (byte_of c)) = c" "byte_of c = 0x0A \<longleftrightarrow> c = CHR 0x0A"
proof -
  have "of_char c < (256 :: nat)" by simp
  then have u: "unat (byte_of c) = of_char c" unfolding byte_of_def by (simp add: unat_of_nat)
  then show "char_of (unat (byte_of c)) = c" by simp
  have "byte_of c = 0x0A \<longleftrightarrow> unat (byte_of c) = unat (0x0A :: 8 word)" by (simp only: word_unat_eq_iff)
  also have "\<dots> \<longleftrightarrow> of_char c = (of_char (CHR 0x0A) :: nat)" unfolding u by simp
  finally show "byte_of c = 0x0A \<longleftrightarrow> c = CHR 0x0A" by (simp only: of_char_eq_iff)
qed

lemma write_chars_prints:
  assumes "cursor_ok s" and "bytes_at (ram s) a (map byte_of cs)" and "a + int (length cs) \<le> SCREEN \<or> SCREEN + 4000 \<le> a"
  shows "\<exists>t. write_chars (length cs) a s = Inr ((), t) \<and> print_text cs s = Inr ((), t)"
  using assms
proof (induction cs arbitrary: a s)
  case (Cons c cs)
  have b: "ram s a = byte_of c" "bytes_at (ram s) (a + 1) (map byte_of cs)" using Cons.prems(2) by (simp_all add: bytes_at_Cons)
  define m :: "('a kernel_state_scheme, unit) eprog" where "m = (if c = CHR 0x0A then lineJump else putChar c)"
  obtain u where u: "m s = Inr ((), u)" "cursor_ok u" "same_outside (ram s) (ram u)"
  proof (cases "c = CHR 0x0A")
    case True
    obtain u where "lineJump s = Inr ((), u)" "cursor_ok u" "screen_frame s u" using lineJump_keeps [OF Cons.prems(1)] by blast
    moreover from this have "ram u = ram s" unfolding lineJump_ok [OF Cons.prems(1)] by (auto split: if_splits)
    ultimately show thesis using that True by (simp add: m_def)
  next
    case False
    obtain u where "putChar c s = Inr ((), u)" "cursor_ok u" using putChar_ok [OF Cons.prems(1)] by metis
    then show thesis using that putChar_outside [OF Cons.prems(1)] False by (simp add: m_def)
  qed
  have "bytes_at (ram u) (a + 1) (map byte_of cs) = bytes_at (ram s) (a + 1) (map byte_of cs)"
    by (rule bytes_at_cong) (use u(3) Cons.prems(3) in \<open>auto simp: same_outside_def\<close>)
  then obtain t where "write_chars (length cs) (a + 1) u = Inr ((), t)" "print_text cs u = Inr ((), t)"
    using Cons.IH [OF u(2), of "a + 1"] b(2) Cons.prems(3) by auto
  then show ?case using u(1) b(1) by (simp add: ebind_def byte_of_char m_def split: if_splits)
qed simp

section \<open>Clearing the screen\<close>

definition blank_rows :: "int list \<Rightarrow> (int \<times> int \<Rightarrow> char) \<Rightarrow> int \<times> int \<Rightarrow> char" where
  "blank_rows fs v = (\<lambda>(r, c). if r \<in> set fs \<and> r < 25 \<and> 0 \<le> c \<and> c < 80 then CHR '' '' else v (r, c))"

lemma blank_rows_Cons: "blank_rows fs (blank_rows [f] v) = blank_rows (f # fs) v"
  by (auto simp: blank_rows_def fun_eq_iff)

lemma clearRow_blank: "0 \<le> f \<Longrightarrow> clearRow f s = s\<lparr>video := blank_rows [f] (video s)\<rparr>"
proof (cases "f < 25")
  case True
  assume f: "0 \<le> f"
  have "blank_row f (video s) = blank_rows [f] (video s)"
    using True by (auto simp: blank_row_def blank_rows_def fun_eq_iff)
  then show ?thesis using clearRow_video [OF f True, of s] by simp
next
  case False
  then have "blank_rows [f] (video s) = video s" by (auto simp: blank_rows_def fun_eq_iff)
  then show ?thesis using clearRow_outside [of f s] False by simp
qed

lemma clear_rows: "\<forall>f\<in>set fs. 0 \<le> f \<Longrightarrow> fold clearRow fs s = s\<lparr>video := blank_rows fs (video s)\<rparr>"
proof (induction fs arbitrary: s)
  case Nil
  have "blank_rows [] (video s) = video s" by (auto simp: blank_rows_def fun_eq_iff)
  then show ?case by simp
next
  case (Cons f fs)
  then show ?case using clearRow_blank [of f s] by (simp add: blank_rows_Cons)
qed

section \<open>Properties\<close>

definition demo_state :: "(addr \<Rightarrow> 8 word) \<Rightarrow> kernel_state" where
  "demo_state m = loader.extend (demo_loader m) \<lparr>sysCalls = call_table\<rparr>"

definition demo_env :: kenv where
  "demo_env = \<lparr>e_callProcess = 0x101000, e_nul = []\<rparr>"

text \<open>C34. The dispatcher.  After \<open>setUpSystemCalls\<close> and for as long as nobody changes the table, the numbers 3 to 30
  run the call with that number on the registers of the caller, numbers from 35 on return 0 and change
  nothing, and the numbers 0, 1, 2 and 31 to 34, which nobody set, call a null pointer.\<close>

theorem syscall_dispatch:
  assumes "sysCalls s = replicate 35 None" and "sysCalls t = sysCalls (setUpSystemCalls s)"
  shows "syscallHandler env n a b c t =
    (if 35 \<le> n then Ret 0 t
     else if 3 \<le> unat n \<and> unat n \<le> 30 then call_of env (numbered ! (unat n - 3)) a b c t
     else Undef NullDeref)"
proof (cases "35 \<le> n")
  case True
  then show ?thesis by (simp add: syscallHandler_def)
next
  case False
  then have n: "n < 35" by (simp only: not_le)
  then have "unat n < 35" by (simp add: word_less_nat_alt)
  moreover have "sysCalls t = call_table" using assms by (simp add: setUpSystemCalls_table)
  ultimately show ?thesis
    using syscallHandler_number [of t n] n False call_table_nth [of "unat n"] by auto
qed

theorem syscall_dispatch_witness:
  "syscallHandler demo_env 9 7 0 0 (setUpSystemCalls ((demo_state (\<lambda>_. 0))\<lparr>sysCalls := replicate 35 None\<rparr>)) =
     sys_call_undoBackwardsC 7 (setUpSystemCalls ((demo_state (\<lambda>_. 0))\<lparr>sysCalls := replicate 35 None\<rparr>)) \<and>
   syscallHandler demo_env 33 7 0 0 (setUpSystemCalls ((demo_state (\<lambda>_. 0))\<lparr>sysCalls := replicate 35 None\<rparr>)) = Undef NullDeref"
proof -
  define s where "s = (demo_state (\<lambda>_. 0))\<lparr>sysCalls := replicate 35 None\<rparr>"
  have s: "sysCalls s = replicate 35 None" by (simp add: s_def)
  show ?thesis
    unfolding s_def [symmetric] using syscall_dispatch [OF s refl, of demo_env 9 7 0 0] syscall_dispatch [OF s refl, of demo_env 33 7 0 0]
    by (simp add: numbered_def)
qed

text \<open>C35. The system call \<open>write\<close> on the standard output prints the message at the caller's pointer: it does to the
  screen exactly what printing the text character by character does, with a jump to the next row for a
  line feed, and returns 0, for every message that does not lie in the video memory.\<close>

theorem syscall_write_prints:
  assumes "sysCalls s = call_table" and "cursor_ok s" and "bytes_at (ram s) (uint msg) (map byte_of cs)"
    and "uint msg + int (length cs) \<le> 0xB8000 \<or> 0xB8000 + 4000 \<le> uint msg" and "length cs < 2 ^ 31"
  shows "\<exists>t. syscallHandler env 4 0 msg (word_of_nat (length cs)) s = Ret 0 t \<and> print_text cs s = Inr ((), t)"
proof -
  obtain t where t: "write_chars (length cs) (uint msg) s = Inr ((), t)" "print_text cs s = Inr ((), t)"
    using write_chars_prints [OF assms(2,3)] assms(4) by auto
  have "int_arg (word_of_nat (length cs)) = int (length cs)"
    using assms(5) by (simp add: int_arg_def unsigned_of_nat take_bit_nat_eq_self signed_of_nat signed_take_bit_int_eq_self)
  then have "sys_call_writeC 0 msg (word_of_nat (length cs)) s = Ret 0 t"
    using t(1) by (simp add: sys_call_writeC_def returning_def kbind_def kcall_def ptr_arg_def)
  moreover have "syscallHandler env 4 0 msg (word_of_nat (length cs)) s = sys_call_writeC 0 msg (word_of_nat (length cs)) s"
    using syscallHandler_number [OF assms(1), of 4] call_table_nth [of 4] by (simp add: numbered_def)
  ultimately show ?thesis using t(2) by auto
qed

theorem syscall_write_prints_witness:
  "\<exists>t. syscallHandler demo_env 4 0 0x900000 2 (demo_state (store_bytes 0x900000 (map byte_of ''ok'') (\<lambda>_. 0))) = Ret 0 t \<and>
    print_text ''ok'' (demo_state (store_bytes 0x900000 (map byte_of ''ok'') (\<lambda>_. 0))) = Inr ((), t)"
proof -
  define s where "s = demo_state (store_bytes 0x900000 (map byte_of ''ok'') (\<lambda>_. 0))"
  have "sysCalls s = call_table" "ram s = store_bytes 0x900000 (map byte_of ''ok'') (\<lambda>_. 0)"
    by (simp_all add: s_def demo_state_def demo_loader_def loader.defs mouse.defs)
  moreover have "cursor_ok s"
    using demo_tty_ok(1) by (simp add: cursor_ok_def s_def demo_state_def demo_loader_def demo_mouse_def loader.defs demo_mouse_defs)
  moreover have "bytes_at (store_bytes 0x900000 (map byte_of ''ok'') (\<lambda>_. 0)) (uint (0x900000 :: qword)) (map byte_of ''ok'')"
  proof -
    have "uint (0x900000 :: qword) = 0x900000" by simp
    then show ?thesis by (simp only: bytes_at_store)
  qed
  ultimately have "\<exists>t. syscallHandler demo_env 4 0 0x900000 (word_of_nat (length ''ok'')) s = Ret 0 t \<and> print_text ''ok'' s = Inr ((), t)"
    by (intro syscall_write_prints) simp_all
  then show ?thesis unfolding s_def [symmetric] by simp
qed

text \<open>The system call \<open>clear\<close> blanks the rows below the clock, keeps the first three, and puts the cursor at
  the start of the fourth row.  What is displayed is not updated until the next character is printed.\<close>

theorem syscall_clear_blanks:
  assumes "sysCalls s = call_table"
  shows "\<exists>t. syscallHandler env 5 a b c s = Ret 0 t \<and> cur_j t = 3 \<and> cur_i t = 0 \<and> ram t = ram s \<and>
    (\<forall>r k. video t (r, k) = (if 3 \<le> r \<and> r < 25 \<and> 0 \<le> k \<and> k < 80 then CHR '' '' else video s (r, k)))"
proof -
  define v where "v = blank_rows (map int (rev [3..<26])) (video s)"
  have rows: "r \<in> set (map int (rev [3..<26])) \<and> r < 25 \<longleftrightarrow> 3 \<le> r \<and> r < 25" for r :: int
    unfolding set_map set_rev set_upt by (auto intro!: image_eqI [of _ _ "nat r"])
  have run: "fold clearRow (map int (rev [3..<26])) s = s\<lparr>video := v\<rparr>"
    unfolding v_def by (rule clear_rows) simp
  have "sys_call_clearC s = Ret 0 (s\<lparr>video := v, cur_i := 0, cur_j := 3\<rparr>)"
    unfolding sys_call_clearC_def returning_def kbind_def kmodify_def run by (simp add: setCursor_def validPosition_def)
  moreover have "syscallHandler env 5 a b c s = sys_call_clearC s"
    using syscallHandler_number [OF assms, of 5] call_table_nth [of 5] by (simp add: numbered_def)
  moreover have "v (r, k) = (if 3 \<le> r \<and> r < 25 \<and> 0 \<le> k \<and> k < 80 then CHR '' '' else video s (r, k))" for r k
    unfolding v_def blank_rows_def prod.case using rows [of r] by auto
  ultimately show ?thesis by auto
qed

theorem syscall_clear_blanks_witness:
  "\<exists>t. syscallHandler demo_env 5 0 0 0 (demo_state (\<lambda>_. 0)) = Ret 0 t \<and> cur_j t = 3 \<and> video t (7, 7) = CHR '' ''"
proof -
  have "sysCalls (demo_state (\<lambda>_. 0)) = call_table" by (simp add: demo_state_def loader.defs)
  from syscall_clear_blanks [OF this, of demo_env 0 0 0] show ?thesis by auto
qed

end
