(* ===== verification/Keyboard.thy ===== *)
theory Keyboard
  imports SystemCalls
begin

text \<open>
  The keyboard of Kernel/keyboard.c: the table of the keys, the shift and caps lock states, and the
  interrupt handler that turns scan codes into characters for the terminal.

  The lemmas show that what is typed arrives in the buffer of the terminal, letter case included, and what
  the handler reads outside its table.
\<close>

section \<open>The table\<close>

definition NOCHAR :: char where
  "NOCHAR = CHR 0xFF"       \<comment> \<open>\<open>-1\<close> in a \<open>char\<close>\<close>

definition kbd_EN :: "char list list" where
  "kbd_EN = [
     [CHR 0x00, NOCHAR, NOCHAR, NOCHAR, NOCHAR], [CHR 0x01, NOCHAR, NOCHAR, NOCHAR, NOCHAR],
     [CHR 0x02, CHR ''1'', CHR ''!'', CHR ''1'', CHR ''!''], [CHR 0x03, CHR ''2'', CHR ''@'', CHR ''2'', CHR ''@''],
     [CHR 0x04, CHR ''3'', CHR ''#'', CHR ''3'', CHR ''#''], [CHR 0x05, CHR ''4'', CHR ''$'', CHR ''4'', CHR ''$''],
     [CHR 0x06, CHR ''5'', CHR ''%'', CHR ''5'', CHR ''%''], [CHR 0x07, CHR ''6'', CHR ''^'', CHR ''6'', CHR ''^''],
     [CHR 0x08, CHR ''7'', CHR ''&'', CHR ''7'', CHR ''&''], [CHR 0x09, CHR ''8'', CHR ''*'', CHR ''8'', CHR ''*''],
     [CHR 0x0A, CHR ''9'', CHR ''('', CHR ''9'', CHR ''(''], [CHR 0x0B, CHR ''0'', CHR '')'', CHR ''0'', CHR '')''],
     [CHR 0x0C, CHR ''-'', CHR ''_'', CHR ''-'', CHR ''_''], [CHR 0x0D, CHR ''='', CHR ''+'', CHR ''='', CHR ''+''],
     [CHR 0x0E, CHR 0x08, CHR 0x08, CHR 0x08, CHR 0x08], [CHR 0x0F, CHR 0x09, CHR 0x09, CHR 0x09, CHR 0x09],
     [CHR 0x10, CHR ''q'', CHR ''Q'', CHR ''Q'', CHR ''q''], [CHR 0x11, CHR ''w'', CHR ''W'', CHR ''W'', CHR ''w''],
     [CHR 0x12, CHR ''e'', CHR ''E'', CHR ''E'', CHR ''e''], [CHR 0x13, CHR ''r'', CHR ''R'', CHR ''R'', CHR ''r''],
     [CHR 0x14, CHR ''t'', CHR ''T'', CHR ''T'', CHR ''t''], [CHR 0x15, CHR ''y'', CHR ''Y'', CHR ''Y'', CHR ''y''],
     [CHR 0x16, CHR ''u'', CHR ''U'', CHR ''U'', CHR ''u''], [CHR 0x17, CHR ''i'', CHR ''I'', CHR ''I'', CHR ''i''],
     [CHR 0x18, CHR ''o'', CHR ''O'', CHR ''O'', CHR ''o''], [CHR 0x19, CHR ''p'', CHR ''P'', CHR ''P'', CHR ''p''],
     [CHR 0x1A, CHR ''['', CHR ''{'', CHR ''['', CHR ''{''], [CHR 0x1B, CHR '']'', CHR ''}'', CHR '']'', CHR ''}''],
     [CHR 0x1C, CHR 0x0A, CHR 0x0A, CHR 0x0A, CHR 0x0A], [CHR 0x1D, NOCHAR, NOCHAR, NOCHAR, NOCHAR],
     [CHR 0x1E, CHR ''a'', CHR ''A'', CHR ''A'', CHR ''a''], [CHR 0x1F, CHR ''s'', CHR ''S'', CHR ''S'', CHR ''s''],
     [CHR 0x20, CHR ''d'', CHR ''D'', CHR ''D'', CHR ''d''], [CHR 0x21, CHR ''f'', CHR ''F'', CHR ''F'', CHR ''f''],
     [CHR 0x22, CHR ''g'', CHR ''G'', CHR ''G'', CHR ''g''], [CHR 0x23, CHR ''h'', CHR ''H'', CHR ''H'', CHR ''h''],
     [CHR 0x24, CHR ''j'', CHR ''J'', CHR ''J'', CHR ''j''], [CHR 0x25, CHR ''k'', CHR ''K'', CHR ''K'', CHR ''k''],
     [CHR 0x26, CHR ''l'', CHR ''L'', CHR ''L'', CHR ''l''], [CHR 0x27, CHR '';'', CHR '':'', CHR '';'', CHR '':''],
     [CHR 0x28, CHR 0x27, CHR 0x22, CHR 0x27, CHR 0x22], [CHR 0x29, CHR 0x60, CHR ''~'', CHR 0x60, CHR ''~''],
     [CHR 0x2A, CHR 0x2A, CHR 0x2A, CHR 0x2A, CHR 0x2A], [CHR 0x2B, CHR 0x5C, CHR ''|'', NOCHAR, CHR ''|''],
     [CHR 0x2C, CHR ''z'', CHR ''Z'', CHR ''Z'', CHR ''z''], [CHR 0x2D, CHR ''x'', CHR ''X'', CHR ''X'', CHR ''x''],
     [CHR 0x2E, CHR ''c'', CHR ''C'', CHR ''C'', CHR ''c''], [CHR 0x2F, CHR ''v'', CHR ''V'', CHR ''V'', CHR ''v''],
     [CHR 0x30, CHR ''b'', CHR ''B'', CHR ''B'', CHR ''b''], [CHR 0x31, CHR ''n'', CHR ''N'', CHR ''N'', CHR ''n''],
     [CHR 0x32, CHR ''m'', CHR ''M'', CHR ''M'', CHR ''m''], [CHR 0x33, CHR '','', CHR ''<'', CHR '','', CHR ''<''],
     [CHR 0x34, CHR ''.'', CHR ''>'', CHR ''.'', CHR ''>''], [CHR 0x35, CHR ''/'', CHR ''?'', CHR ''/'', CHR ''?''],
     [CHR 0x36, CHR 0x36, CHR 0x36, CHR 0x36, CHR 0x36], [CHR 0x37, CHR ''*'', NOCHAR, NOCHAR, NOCHAR],
     [CHR 0x38, NOCHAR, NOCHAR, NOCHAR, NOCHAR], [CHR 0x39, CHR '' '', CHR '' '', CHR '' '', CHR '' ''],
     [CHR 0x3A, CHR 0x3A, CHR 0x3A, CHR 0x3A, CHR 0x3A], [CHR 0x3B, NOCHAR, NOCHAR, NOCHAR, NOCHAR],
     [CHR 0x3C, NOCHAR, NOCHAR, NOCHAR, NOCHAR], [CHR 0x3D, NOCHAR, NOCHAR, NOCHAR, NOCHAR],
     [CHR 0x3E, NOCHAR, NOCHAR, NOCHAR, NOCHAR], [CHR 0x3F, NOCHAR, NOCHAR, NOCHAR, NOCHAR],
     [CHR 0x40, NOCHAR, NOCHAR, NOCHAR, NOCHAR], [CHR 0x41, NOCHAR, NOCHAR, NOCHAR, NOCHAR],
     [CHR 0x42, NOCHAR, NOCHAR, NOCHAR, NOCHAR], [CHR 0x43, NOCHAR, NOCHAR, NOCHAR, NOCHAR],
     [CHR 0x44, NOCHAR, NOCHAR, NOCHAR, NOCHAR], [CHR 0x45, NOCHAR, NOCHAR, NOCHAR, NOCHAR],
     [CHR 0x46, NOCHAR, NOCHAR, NOCHAR, NOCHAR], [CHR 0x47, CHR ''7'', NOCHAR, NOCHAR, NOCHAR],
     [CHR 0x48, NOCHAR, NOCHAR, NOCHAR, NOCHAR], [CHR 0x49, CHR ''9'', NOCHAR, NOCHAR, NOCHAR],
     [CHR 0x4A, CHR ''-'', NOCHAR, NOCHAR, NOCHAR], [CHR 0x4B, NOCHAR, NOCHAR, NOCHAR, NOCHAR],
     [CHR 0x4C, CHR ''5'', NOCHAR, NOCHAR, NOCHAR], [CHR 0x4D, NOCHAR, NOCHAR, NOCHAR, NOCHAR],
     [CHR 0x4E, CHR ''+'', NOCHAR, NOCHAR, NOCHAR], [CHR 0x4F, CHR ''1'', NOCHAR, NOCHAR, NOCHAR],
     [CHR 0x50, NOCHAR, NOCHAR, NOCHAR, NOCHAR], [CHR 0x51, CHR ''3'', NOCHAR, NOCHAR, NOCHAR],
     [CHR 0x52, CHR ''0'', NOCHAR, NOCHAR, NOCHAR], [CHR 0x53, CHR ''.'', NOCHAR, NOCHAR, NOCHAR],
     [CHR 0x57, NOCHAR, NOCHAR, NOCHAR, NOCHAR], [CHR 0x58, NOCHAR, NOCHAR, NOCHAR, NOCHAR]]"

record kbd_state = kernel_state +
  shift :: bool
  caps :: bool

text \<open>
  The scan code is a signed \<open>char\<close>, so the index is negative for a released key, and it reaches 0x7F while the table
  ends with row 0x55.  What lies around the table in memory is a parameter: \<open>around k\<close> is the byte \<open>k\<close> behind its start.
\<close>

definition kbd_at :: "(int \<Rightarrow> char) \<Rightarrow> 8 word \<Rightarrow> nat \<Rightarrow> char" where
  "kbd_at around c column =
     (let i = sint c in if 0 \<le> i \<and> i < 86 then kbd_EN ! nat i ! column else around (5 * i + int column))"

section \<open>The handler\<close>

unbundle bit_operations_syntax

definition keyboardHandlerC ::
  "kenv \<Rightarrow> nat \<Rightarrow> (int \<Rightarrow> char) \<Rightarrow> device \<Rightarrow> ('a kbd_state_scheme, unit) kprog" where
  "keyboardHandlerC env fuel around dev =
     kbind (kcall (inputb dev 0x60)) (\<lambda>c.
     if c = 0x3A then kmodify (\<lambda>s. s\<lparr>caps := \<not> caps s\<rparr>)
     else if c = 0x2A \<or> c = 0x36 then kmodify (\<lambda>s. s\<lparr>shift := True\<rparr>)
     else if c = 0xAA \<or> c = 0xB6 then kmodify (\<lambda>s. s\<lparr>shift := False\<rparr>)
     else let toSend = kbd_at around c 1 in
       kbind (\<lambda>s. if shift s \<and> c = 0x3B then restartSHELL env fuel s else Ret () s) (\<lambda>_ s.
       if c AND 0x80 = 0 \<and> toSend \<noteq> NOCHAR
       then kcall (putTerminalBuffer
              (if caps s \<and> shift s then kbd_at around c 4
               else if caps s then kbd_at around c 3
               else if shift s then kbd_at around c 2
               else kbd_at around c 1)) s
       else Ret () s))"

section \<open>What is typed\<close>

text \<open>The scan codes as the user sees them: the states of the two locks and the characters.\<close>

fun typed :: "bool \<Rightarrow> bool \<Rightarrow> 8 word list \<Rightarrow> string" where
  "typed up sh [] = []"
| "typed up sh (c # cs) =
     (if c = 0x3A then typed (\<not> up) sh cs
      else if c = 0x2A \<or> c = 0x36 then typed up True cs
      else if c = 0xAA \<or> c = 0xB6 then typed up False cs
      else if c < 0x56 \<and> kbd_EN ! unat c ! 1 \<noteq> NOCHAR
      then kbd_EN ! unat c ! (if up \<and> sh then 4 else if up then 3 else if sh then 2 else 1) # typed up sh cs
      else typed up sh cs)"

text \<open>Codes of keys in the table, and of releases; not F1, which restarts the shell when shift is down.\<close>

definition known_code :: "8 word \<Rightarrow> bool" where
  "known_code c \<longleftrightarrow> (c < 0x56 \<or> 0x80 \<le> c) \<and> c \<noteq> 0x3B"

fun keys :: "kenv \<Rightarrow> nat \<Rightarrow> (int \<Rightarrow> char) \<Rightarrow> device \<Rightarrow> nat \<Rightarrow> ('a kbd_state_scheme, unit) kprog" where
  "keys env fuel around dev 0 = kreturn ()"
| "keys env fuel around dev (Suc n) = kbind (keyboardHandlerC env fuel around dev) (\<lambda>_. keys env fuel around dev n)"

lemma kbd_at_code:
  assumes "c < 0x56"
  shows "kbd_at around c k = kbd_EN ! unat c ! k" and "c AND 0x80 = 0"
proof -
  have u: "uint c < 86" using assms by (simp add: word_less_def)
  then have "sint c = uint c" by (simp add: sint_byte)
  then show "kbd_at around c k = kbd_EN ! unat c ! k"
    using u by (simp add: kbd_at_def)
  have "uint c div 128 = 0" using u by simp
  then have "\<not> bit (uint c) 7" by (simp add: bit_iff_odd)
  then have "\<not> bit c 7" by (simp add: bit_uint_iff)
  then show "c AND 0x80 = 0" using and_exp_eq_0_iff_not_bit [of c 7] by simp
qed

lemma released_bit:
  assumes "0x80 \<le> c"
  shows "c AND 0x80 \<noteq> (0 :: 8 word)"
proof -
  have u: "128 \<le> uint c" "uint c < 256" using assms uint_lt2p [of c] by (simp_all add: word_le_def)
  then have "uint c div 128 = 1" by presburger
  then have "bit (uint c) 7" by (simp add: bit_iff_odd)
  then have "bit c 7" by (simp add: bit_uint_iff)
  then show ?thesis using and_exp_eq_0_iff_not_bit [of c 7] by simp
qed

text \<open>One key: the locks are updated and the character, if any, goes to the terminal.\<close>

definition typing :: "'a kbd_state_scheme \<Rightarrow> string \<Rightarrow> bool" where
  "typing s xs \<longleftrightarrow> cursor_ok s \<and> tty_is s xs"

lemma typing_cong:
  "typing (s\<lparr>reads := n\<rparr>) xs = typing s xs" "typing (s\<lparr>caps := b\<rparr>) xs = typing s xs" "typing (s\<lparr>shift := b\<rparr>) xs = typing s xs"
  by (simp_all add: typing_def cursor_ok_def tty_is_def)

lemma put_typing:
  assumes "typing s xs" and "length xs < 2499"
  obtains t where "putTerminalBuffer c s = Inr ((), t)" and "typing t (xs @ [c])" and "caps t = caps s" and "shift t = shift s"
    and "reads t = reads s"
proof -
  have s: "cursor_ok s" "tty_is s xs" using assms(1) by (simp_all add: typing_def)
  obtain t where t: "putTerminalBuffer c s = Inr ((), t)" "cursor_ok t" "tty_is t (xs @ [c])"
    using put_room [OF s assms(2)] by metis
  have "tty_ok s" using s by (simp add: tty_ok_def tty_is_def)
  then obtain u where "putTerminalBuffer c s = Inr ((), u)" "tty_frame s u" using putTerminalBuffer_total by metis
  then have "tty_frame s t" using t(1) by simp
  then obtain R v i j B p e where "t = s\<lparr>ram := R, video := v, cur_i := i, cur_j := j, Buffer := B, bufferPosition := p, intr := e\<rparr>"
    unfolding tty_frame_def by (elim exE) (rule that)
  then have "caps t = caps s" "shift t = shift s" "reads t = reads s" by simp_all
  moreover have "typing t (xs @ [c])" using t by (simp add: typing_def)
  ultimately show thesis using t(1) by (intro that)
qed

lemma key_typed:
  assumes "typing s xs" and "length xs < 2499" and "known_code (dev (reads s) 0x60)"
  shows "\<exists>t ys. keyboardHandlerC env fuel around dev s = Ret () t \<and> reads t = reads s + 1 \<and> typing t (xs @ ys) \<and>
    length ys \<le> 1 \<and> (\<forall>cs. typed (caps s) (shift s) (dev (reads s) 0x60 # cs) = ys @ typed (caps t) (shift t) cs)"
proof -
  define c where "c = dev (reads s) 0x60"
  define u where "u = s\<lparr>reads := reads s + 1\<rparr>"
  have read: "inputb dev 0x60 s = Inr (c, u)" by (simp add: inputb_def c_def u_def)
  have u: "typing u xs" "caps u = caps s" "shift u = shift s" "reads u = reads s + 1"
    using assms(1) by (simp_all add: u_def typing_cong)
  define plain where "plain \<longleftrightarrow> c \<noteq> 0x3A \<and> c \<noteq> 0x2A \<and> c \<noteq> 0x36 \<and> c \<noteq> 0xAA \<and> c \<noteq> 0xB6"
  consider "c = 0x3A" | "c = 0x2A \<or> c = 0x36" | "c = 0xAA \<or> c = 0xB6" | "plain" "c < 0x56" | "plain" "0x80 \<le> c"
    using assms(3) unfolding known_code_def c_def [symmetric] plain_def by blast
  then have "\<exists>t ys. keyboardHandlerC env fuel around dev s = Ret () t \<and> reads t = reads s + 1 \<and> typing t (xs @ ys) \<and>
    length ys \<le> 1 \<and> (\<forall>cs. typed (caps s) (shift s) (c # cs) = ys @ typed (caps t) (shift t) cs)" (is ?goal)
  proof cases
    case 1
    then show ?goal
      using read u by (intro exI [of _ "u\<lparr>caps := \<not> caps u\<rparr>"] exI [of _ "[]"]) (simp add: keyboardHandlerC_def kbind_def kcall_def typing_cong)
  next
    case 2
    then have "keyboardHandlerC env fuel around dev s = Ret () (u\<lparr>shift := True\<rparr>)"
      using read by (elim disjE) (simp_all add: keyboardHandlerC_def kbind_def kcall_def)
    moreover have "typed (caps s) (shift s) (c # cs) = typed (caps s) True cs" for cs
      using 2 by (elim disjE) simp_all
    ultimately show ?goal using u by (intro exI [of _ "u\<lparr>shift := True\<rparr>"] exI [of _ "[]"]) (simp add: typing_cong)
  next
    case 3
    then have "keyboardHandlerC env fuel around dev s = Ret () (u\<lparr>shift := False\<rparr>)"
      using read by (elim disjE) (simp_all add: keyboardHandlerC_def kbind_def kcall_def)
    moreover have "typed (caps s) (shift s) (c # cs) = typed (caps s) False cs" for cs
      using 3 by (elim disjE) simp_all
    ultimately show ?goal using u by (intro exI [of _ "u\<lparr>shift := False\<rparr>"] exI [of _ "[]"]) (simp add: typing_cong)
  next
    case 4
    have f1: "c \<noteq> 0x3B" using assms(3) by (simp add: known_code_def c_def)
    define col where "col = (if caps s \<and> shift s then 4 else if caps s then 3 else if shift s then 2 else (1 :: nat))"
    note at = kbd_at_code(1) [OF 4(2), of around] kbd_at_code(2) [OF 4(2)]
    have run: "keyboardHandlerC env fuel around dev s =
      (if kbd_EN ! unat c ! 1 \<noteq> NOCHAR then kcall (putTerminalBuffer (kbd_EN ! unat c ! col)) u else Ret () u)"
      using 4(1) read u(2-4) f1 unfolding plain_def keyboardHandlerC_def kbind_def kcall_def [of "inputb dev 0x60"]
      by (simp add: at col_def)
    show ?goal
    proof (cases "kbd_EN ! unat c ! 1 \<noteq> NOCHAR")
      case True
      obtain t where t: "putTerminalBuffer (kbd_EN ! unat c ! col) u = Inr ((), t)" "typing t (xs @ [kbd_EN ! unat c ! col])"
          "caps t = caps u" "shift t = shift u" "reads t = reads u" using put_typing [OF u(1) assms(2)] by metis
      then show ?goal
        using run True t u 4 by (intro exI [of _ t] exI [of _ "[kbd_EN ! unat c ! col]"]) (simp add: kcall_def plain_def col_def)
    next
      case False
      then show ?goal using run u 4 by (intro exI [of _ u] exI [of _ "[]"]) (simp add: plain_def)
    qed
  next
    case 5
    have "\<not> c < 0x56" using 5(2) by (simp add: word_less_def word_le_def)
    moreover have "keyboardHandlerC env fuel around dev s = Ret () u"
      using 5(1) read assms(3) released_bit [OF 5(2)]
      by (auto simp: plain_def keyboardHandlerC_def kbind_def kcall_def known_code_def c_def)
    ultimately show ?goal using u 5(1) by (intro exI [of _ u] exI [of _ "[]"]) (simp add: plain_def)
  qed
  then show ?thesis unfolding c_def .
qed

lemma keys_typed:
  assumes "typing s xs" and "length xs + n \<le> 2499" and "\<forall>i<n. known_code (dev (reads s + i) 0x60)"
  shows "\<exists>t. keys env fuel around dev n s = Ret () t \<and>
    typing t (xs @ typed (caps s) (shift s) (map (\<lambda>i. dev (reads s + i) 0x60) [0..<n]))"
  using assms
proof (induction n arbitrary: s xs)
  case (Suc n)
  obtain t ys where t: "keyboardHandlerC env fuel around dev s = Ret () t" "reads t = reads s + 1" "typing t (xs @ ys)" "length ys \<le> 1"
      "\<forall>cs. typed (caps s) (shift s) (dev (reads s) 0x60 # cs) = ys @ typed (caps t) (shift t) cs"
  proof -
    have "length xs < 2499" using Suc.prems(2) by simp
    moreover have "known_code (dev (reads s) 0x60)" using Suc.prems(3) [rule_format, of 0] by simp
    ultimately show thesis using key_typed [OF Suc.prems(1), of dev env fuel around] that by blast
  qed
  have codes: "map (\<lambda>i. dev (reads s + i) 0x60) [0..<Suc n] = dev (reads s) 0x60 # map (\<lambda>i. dev (reads t + i) 0x60) [0..<n]"
    unfolding upt_conv_Cons [OF zero_less_Suc] by (simp add: t(2) map_Suc_upt [symmetric] del: upt_Suc)
  have "\<forall>i<n. known_code (dev (reads t + i) 0x60)"
  proof (intro allI impI)
    fix i assume "i < n"
    then show "known_code (dev (reads t + i) 0x60)" using Suc.prems(3) [rule_format, of "Suc i"] by (simp add: t(2))
  qed
  moreover have "length (xs @ ys) + n \<le> 2499" using t(4) Suc.prems(2) by simp
  ultimately obtain u where "keys env fuel around dev n t = Ret () u"
      "typing u ((xs @ ys) @ typed (caps t) (shift t) (map (\<lambda>i. dev (reads t + i) 0x60) [0..<n]))"
    using Suc.IH [OF t(3)] by blast
  then show ?case unfolding codes t(5) [rule_format] using t(1) by (simp add: kbind_def)
qed simp

section \<open>Properties\<close>

definition demo_kbd :: kbd_state where
  "demo_kbd = kernel_state.extend (demo_state (\<lambda>_. 0)) \<lparr>shift = False, caps = False\<rparr>"

lemma demo_kbd_fields: "reads demo_kbd = 0" "\<not> shift demo_kbd" "\<not> caps demo_kbd" "typing demo_kbd []"
proof -
  note defs = demo_kbd_def demo_state_def demo_loader_def demo_mouse_def kernel_state.defs loader.defs demo_mouse_defs
  show "reads demo_kbd = 0" "\<not> shift demo_kbd" "\<not> caps demo_kbd" by (simp_all add: defs)
  have "bufferStart demo_kbd = 0" "bufferSize demo_kbd = 2500" "bufferConsume demo_kbd = 2498" "bufferPosition demo_kbd = 2498"
    "iStartModule demo_kbd = 0" "jStartModule demo_kbd = 3" "cur_i demo_kbd = 78" "cur_j demo_kbd = 3"
    by (simp_all add: defs)
  then show "typing demo_kbd []" by (simp add: typing_def cursor_ok_def tty_is_def ringseq_def)
qed



text \<open>The table ends with row 0x55, but the handler uses the scan code as the row: the keys with codes from 0x56 to
  0x7F, F11 and F12 (0x57 and 0x58) among them, send whatever bytes lie behind the table in memory.\<close>

theorem keyboard_reads_outside:
  assumes "cursor_ok s" and "tty_is s xs" and "length xs < 2499" and "\<not> caps s" and "\<not> shift s"
    and "dev (reads s) 0x60 = c" and "0x56 \<le> c" and "c < 0x80" and "around (5 * uint c + 1) \<noteq> NOCHAR"
  shows "\<exists>t. keyboardHandlerC env fuel around dev s = Ret () t \<and> tty_is t (xs @ [around (5 * uint c + 1)])"
proof -
  have u: "86 \<le> uint c" "uint c < 128" using assms(7,8) by (simp_all add: word_le_def word_less_def)
  then have "sint c = uint c" by (simp add: sint_byte)
  then have at: "kbd_at around c 1 = around (5 * uint c + 1)" using u by (simp add: kbd_at_def)
  have "uint c div 128 = 0" using u by simp
  then have "\<not> bit (uint c) 7" by (simp add: bit_iff_odd)
  then have bit7: "c AND 0x80 = 0" using and_exp_eq_0_iff_not_bit [of c 7] by (simp add: bit_uint_iff)
  have plain: "c \<noteq> 0x3A" "c \<noteq> 0x2A" "c \<noteq> 0x36" "c \<noteq> 0xAA" "c \<noteq> 0xB6" "c \<noteq> 0x3B" using u by auto
  define v where "v = s\<lparr>reads := reads s + 1\<rparr>"
  have "typing v xs" using assms(1,2) by (simp add: v_def typing_cong) (simp add: typing_def)
  then obtain t where t: "putTerminalBuffer (around (5 * uint c + 1)) v = Inr ((), t)" "typing t (xs @ [around (5 * uint c + 1)])"
    using put_typing [OF _ assms(3)] by metis
  have "keyboardHandlerC env fuel around dev s = kcall (putTerminalBuffer (around (5 * uint c + 1))) v"
    using plain assms(4-6,9) at bit7 by (simp add: keyboardHandlerC_def kbind_def kcall_def inputb_def v_def)
  then show ?thesis using t by (auto simp: kcall_def typing_def)
qed

theorem keyboard_reads_outside_witness:
  "\<exists>t. keyboardHandlerC demo_env 9 (\<lambda>_. CHR ''?'') (\<lambda>i p. 0x57) demo_kbd = Ret () t \<and> tty_is t ''?''"
  using keyboard_reads_outside [of demo_kbd "[]" "\<lambda>i p. 0x57" "0x57" "\<lambda>_. CHR ''?''" demo_env 9] demo_kbd_fields
  by (simp add: typing_def NOCHAR_def)

end
