(* ===== verification/UserHeap.thy ===== *)
theory UserHeap
  imports SystemCalls
begin

text \<open>
  The heap of a process as its program sees it through \<open>mallock\<close> of Kernel/malloc.c: as long as the last block of the
  heap is free and large enough, a small request takes a block of the heap, and nothing else of the kernel changes.
  The lemmas reduce it to \<open>kmalloc\<close> of theory \<open>Malloc\<close>, of which the search and the splitting are the same code.
\<close>

lemma take_block_frame:
  assumes "take_block x n s = Inr (a, t)"
  shows "t = s\<lparr>tblocks := tblocks t\<rparr>"
    and "take_block x n (s\<lparr>kernelBase := k\<rparr>) = Inr (a, t\<lparr>kernelBase := k\<rparr>)"
  using assms
  by (auto simp: take_block_def split_block_def upd_block_def put_block_def ebind_def Let_def deref_def
      split: option.splits sum.splits if_splits)

text \<open>\<open>k\<close> more bytes, the headers of their blocks included, fit into the last block.\<close>

definition room :: "nat \<Rightarrow> block list \<Rightarrow> bool" where
  "room k bs \<longleftrightarrow> bs \<noteq> [] \<and> b_free (snd (last bs)) \<and> int k + 4 < uint (b_size (snd (last bs)))"

lemma room_mono: "room k bs \<Longrightarrow> m \<le> k \<Longrightarrow> room m bs"
  by (simp add: room_def)

lemma room_fits: "room (k + unat n + 28) bs \<Longrightarrow> \<exists>xb\<in>set bs. fits n xb"
  by (rule bexI [of _ "last bs"]) (simp_all add: room_def fits_def word_less_def)

lemma room_taken:
  assumes "room (k + unat n + 28) (us @ (x, b) # ws)" and "uint (b_size b) < 2 ^ 31" and "fits n (x, b)"
  shows "room k (us @ taken n (x, b) @ ws)"
proof (cases "ws = []")
  case False
  then show ?thesis using room_mono [OF assms(1), of k] by (simp add: room_def)
next
  case True
  then have size: "int k + uint n + 32 < uint (b_size b)" using assms(1) by (simp add: room_def)
  then have "uint n < 2 ^ 31" using assms(2) by simp
  then have "uint (n + 4 + 28) = uint n + 32" by (simp add: uint_word_ariths)
  then have split: "n + 4 + 28 < b_size b" using size by (simp add: word_less_def)
  moreover have "uint (b_size b - (n + 28)) = uint (b_size b) - uint n - 28"
    using uint_split(2) [OF assms(2) _ split] assms(3) by (simp add: fits_def)
  ultimately show ?thesis using size True by (simp add: room_def taken_def Let_def)
qed

definition process_heap :: "nat \<Rightarrow> addr set \<Rightarrow> 'a kmem_scheme \<Rightarrow> bool" where
  "process_heap n A s \<longleftrightarrow> (\<exists>p pr bs e. getCurrentProcess s = Inr (p, s) \<and> p \<noteq> NULL \<and> procs s p = Some pr \<and>
     p_heap pr \<noteq> NULL \<and> heap_inv (s\<lparr>kernelBase := p_heap pr\<rparr>) bs e \<and> room n bs \<and>
     (\<forall>a\<in>A. \<exists>(q, l)\<in>used bs. q \<le> a \<and> a < q + l))"

lemma fit_walk_cong:
  assumes "hchain (tblocks s) a bs" and "tblocks t = tblocks s"
  shows "fit_walk t a n = fit_walk s a n"
  using assms(1)
proof (induction bs arbitrary: a)
  case Nil
  then show ?case by (subst (1 2) fit_walk.simps) simp
next
  case (Cons xb bs)
  then show ?case by (subst (1 2) fit_walk.simps, cases xb) (simp add: assms(2))
qed

lemma process_heap_mono: "process_heap k A s \<Longrightarrow> m \<le> k \<Longrightarrow> B \<subseteq> A \<Longrightarrow> process_heap m B s"
  unfolding process_heap_def using room_mono by (meson subsetD)

text \<open>On a heap that is there, \<open>mallock\<close> does to it what \<open>kmalloc\<close> would do.\<close>

lemma mallock_as_kmalloc:
  assumes "getCurrentProcess s = Inr (p, s)" and "p \<noteq> NULL" and "procs s p = Some pr" and "p_heap pr = h" and "0 < h"
    and "hchain (tblocks s) h bs" and "sz \<noteq> 0"
    and "kmalloc sz (s\<lparr>heapBase := h, kernelBase := h\<rparr>) = Inr (a, t)" and "a \<noteq> NULL"
  obtains m where "t = s\<lparr>heapBase := h, kernelBase := h, tblocks := m\<rparr>"
    and "mallock sz s = Inr (a, s\<lparr>heapBase := h, tblocks := m\<rparr>)"
proof -
  define v where "v = s\<lparr>heapBase := h, kernelBase := h\<rparr>"
  define w where "w = s\<lparr>heapBase := h\<rparr>"
  define n where "n = align4 sz"
  have call: "kmalloc sz v = Inr (a, t)" using assms(8) by (simp add: v_def)
  have "kernelBase v = h" by (simp add: v_def)
  then have "kmalloc sz v = ebind (findFirstFreeBlock h n) (\<lambda>f. if f = NULL then ereturn NULL else take_block f n) v"
    using assms(5,7) unfolding kmalloc_def n_def by simp
  moreover obtain f where "findFirstFreeBlock h n v = Inr (f, v)"
    using call calculation by (auto simp: findFirstFreeBlock_def outcome_def ebind_def split: option.splits sum.splits)
  ultimately have f: "f \<noteq> NULL" "findFirstFreeBlock h n v = Inr (f, v)" "take_block f n v = Inr (a, t)"
    using call assms(9) by (simp_all split: if_splits)
  obtain m where parts: "t = v\<lparr>tblocks := m\<rparr>" using take_block_frame(1) [OF f(3)] by blast
  have "hchain (tblocks v) h bs" using assms(6) by (simp add: v_def)
  then have "fit_walk w h n = fit_walk v h n" by (rule fit_walk_cong) (simp add: w_def v_def)
  then have find: "findFirstFreeBlock h n w = Inr (f, w)"
    using f(2) by (auto simp: findFirstFreeBlock_def outcome_def split: option.splits sum.splits)
  have "w = v\<lparr>kernelBase := kernelBase s\<rparr>" by (simp add: w_def v_def)
  then have "take_block f n w = Inr (a, w\<lparr>tblocks := m\<rparr>)"
    using take_block_frame(2) [OF f(3), of "kernelBase s"] by (simp add: parts)
  moreover have "mallock sz s = take_block f n w"
    using assms(1-5,7) find f(1) by (simp add: mallock_def ebind_def deref_def Let_def n_def [symmetric] w_def [symmetric])
  ultimately show thesis by (intro that [of m]) (simp_all add: parts v_def w_def)
qed

text \<open>
  A request is served with bytes below 2 GiB that are none of \<open>A\<close>, and that belong to the program from then on.
\<close>

lemma mallock_takes:
  assumes "process_heap (k + unat (align4 sz) + 28) A s" and "sz \<noteq> 0" and "uint sz < 2 ^ 31"
  obtains a m h where "mallock sz s = Inr (a, s\<lparr>heapBase := h, tblocks := m\<rparr>)" and "0 < a" and "a < 2 ^ 31"
    and "A \<inter> {a..<a + uint sz} = {}" and "process_heap k (A \<union> {a..<a + uint sz}) (s\<lparr>heapBase := h, tblocks := m\<rparr>)"
proof -
  define n where "n = align4 sz"
  obtain p pr bs e where p: "getCurrentProcess s = Inr (p, s)" "p \<noteq> NULL" "procs s p = Some pr" "p_heap pr \<noteq> NULL"
      "heap_inv (s\<lparr>kernelBase := p_heap pr\<rparr>) bs e" "room (k + unat n + 28) bs" "\<forall>a\<in>A. \<exists>(q, l)\<in>used bs. q \<le> a \<and> a < q + l"
    using assms(1) by (auto simp: process_heap_def n_def)
  define h where "h = p_heap pr"
  define v where "v = s\<lparr>heapBase := h, kernelBase := h\<rparr>"
  have inv: "heap_inv v bs e" using p(5) by (simp add: heap_inv_def v_def h_def)
  have "find (fits n) bs \<noteq> None" using room_fits [OF p(6)] by (auto simp: find_None_iff)
  then obtain x b t us ws where t: "kmalloc sz v = Inr (dataStart x, t)" "bs = us @ (x, b) # ws" "fits n (x, b)"
      "heap_inv t (us @ taken n (x, b) @ ws) e" "kernelBase t = kernelBase v"
    using kmalloc_first_fit [OF inv assms(2)] by (auto simp: n_def)
  have h: "0 < h" "hchain (tblocks v) h bs" "tiled h bs e" "e < 2 ^ 31" using inv by (simp_all add: heap_inv_def v_def)
  have "(x, b) \<in> set bs" using t(2) by simp
  then have x: "h \<le> x" "dataStart x + uint (b_size b) \<le> e" using tiled_bounds [OF h(3)] by (auto dest: bspec [of _ _ "(x, b)"])
  have size: "uint sz \<le> uint n" "uint n < uint (b_size b)"
    using align4_covers [OF assms(2,3)] t(3) by (simp_all add: fits_def word_less_def n_def)
  have "hchain (tblocks s) h bs" "dataStart x \<noteq> NULL" using h(1,2) x(1) by (simp_all add: v_def)
  then obtain m where parts: "t = v\<lparr>tblocks := m\<rparr>"
    and call: "mallock sz s = Inr (dataStart x, s\<lparr>heapBase := h, tblocks := m\<rparr>)"
    using mallock_as_kmalloc [OF p(1-3) h_def [symmetric] h(1) _ assms(2) t(1) [unfolded v_def]] unfolding v_def by metis
  define cs where "cs = us @ taken n (x, b) @ ws"
  obtain l where l: "uint n \<le> l" "used cs = insert (dataStart x, l) (used bs)"
    using used_taken [OF t(3), of us ws] unfolding t(2) [symmetric] cs_def by blast
  have tiles: "tiled h cs e" using t(4,5) by (simp add: heap_inv_def cs_def v_def)
  have fresh: "(dataStart x, i) \<notin> used bs" for i
    using tiled_disjoint(2) [OF h(3)] t(2,3) by (force simp: used_def fits_def)
  have apart: "A \<inter> {dataStart x..<dataStart x + uint sz} = {}"
  proof (intro equals0I)
    fix a assume a: "a \<in> A \<inter> {dataStart x..<dataStart x + uint sz}"
    then obtain q i where q: "(q, i) \<in> used bs" "q \<le> a" "a < q + i" using p(7) by blast
    then have "q \<noteq> dataStart x" using fresh by blast
    then have "q + i \<le> dataStart x \<or> dataStart x + l \<le> q"
      using used_apart [OF tiles, of q i "dataStart x" l] q(1) l(2) by simp
    then show False using a q(2,3) l(1) size(1) by auto
  qed
  have "\<exists>(q, l)\<in>used cs. q \<le> a \<and> a < q + l" if "a \<in> A \<union> {dataStart x..<dataStart x + uint sz}" for a
    using that p(7) l size(1) by fastforce
  moreover have "room k cs"
    unfolding cs_def using room_taken [OF p(6) [unfolded t(2)] _ t(3)] x h(1,4) by simp
  moreover have "heap_inv (s\<lparr>heapBase := h, tblocks := m, kernelBase := h\<rparr>) cs e"
    using t(4) by (simp add: parts heap_inv_def v_def cs_def)
  ultimately have "process_heap k (A \<union> {dataStart x..<dataStart x + uint sz}) (s\<lparr>heapBase := h, tblocks := m\<rparr>)"
    using p(1-4) unfolding process_heap_def
    by (intro exI [of _ p] exI [of _ pr] exI [of _ cs] exI [of _ e])
      (simp add: h_def [symmetric] getCurrentProcess_def ebind_def deref_def split: option.splits)
  moreover have "dataStart x < 2 ^ 31" using x(2) h(4) size(2) uint_nonnegative [of n] by linarith
  ultimately show thesis using call apart x(1) h(1) by (intro that [of "dataStart x" m h]) simp_all
qed

end
