(* ===== verification/UserLib.thy ===== *)
theory UserLib
  imports UserHeap
begin

text \<open>
  The library of the user programs, which each of them has as a copy: Userland/SHELL/stdio.c, EDITOR/stdio.c and
  FORTUNE/stdio.c are one text, Userland/dummy/stdio.c has the same functions over another \<open>putchar\<close> and
  \<open>getchar\<close>, and the wrappers of the system calls.

  A user program runs on the state of the kernel: it has its part of \<open>ram\<close> and enters the kernel through
  \<open>int 0x80\<close>.  Strings that are literals of a program are passed as lists; buffers are addresses.  The
  functions common to the copies take \<open>putchar\<close> and \<open>getchar\<close> as arguments, and what they do with them is
  stated once, in a locale: \<open>scanFF\<close> reads a line and edits it as the user typed backspaces.
\<close>

section \<open>Entering the kernel\<close>

text \<open>The three functions of stdioASM.asm.\<close>

definition sys_call ::
  "kenv \<Rightarrow> int \<Rightarrow> qword \<Rightarrow> qword \<Rightarrow> qword \<Rightarrow> ('a kernel_state_scheme, qword) kprog" where
  "sys_call env index parametre1 parametre2 parametre3 =
     syscallHandler env (word_of_int index) parametre1 parametre2 parametre3"

definition readC :: "kenv \<Rightarrow> addr \<Rightarrow> int \<Rightarrow> ('a kernel_state_scheme, qword) kprog" where
  "readC env buffer sz = syscallHandler env 3 0 (word_of_int buffer) (word_of_int sz)"

definition writeC :: "kenv \<Rightarrow> addr \<Rightarrow> int \<Rightarrow> ('a kernel_state_scheme, qword) kprog" where
  "writeC env msg sz = syscallHandler env 4 0 (word_of_int msg) (word_of_int sz)"

text \<open>A call whose result is not used, and one whose result is an \<open>int\<close>.\<close>

definition calling :: "('s, qword) kprog \<Rightarrow> ('s, unit) kprog" where
  "calling m = kbind m (\<lambda>_. kreturn ())"

definition int_call :: "('s, qword) kprog \<Rightarrow> ('s, int) kprog" where
  "int_call m = kbind m (\<lambda>r. kreturn (int_arg r))"

section \<open>The wrappers of dummy/stdio.c\<close>

definition user_printProcesses :: "kenv \<Rightarrow> ('a kernel_state_scheme, unit) kprog" where
  "user_printProcesses env = calling (sys_call env 10 0 0 0)"

definition user_removeProcess :: "kenv \<Rightarrow> int \<Rightarrow> ('a kernel_state_scheme, unit) kprog" where
  "user_removeProcess env pid = calling (sys_call env 11 (word_of_int pid) 0 0)"

definition user_lockMutex :: "kenv \<Rightarrow> int \<Rightarrow> ('a kernel_state_scheme, unit) kprog" where
  "user_lockMutex env mut = calling (sys_call env 20 (word_of_int mut) 0 0)"

definition user_freeMutex :: "kenv \<Rightarrow> int \<Rightarrow> ('a kernel_state_scheme, unit) kprog" where
  "user_freeMutex env mut = calling (sys_call env 21 (word_of_int mut) 0 0)"

definition user_getMutex :: "kenv \<Rightarrow> addr \<Rightarrow> ('a kernel_state_scheme, int) kprog" where
  "user_getMutex env name = int_call (sys_call env 19 (word_of_int name) 0 0)"

definition user_createProcess :: "kenv \<Rightarrow> addr \<Rightarrow> addr \<Rightarrow> addr \<Rightarrow> ('a kernel_state_scheme, int) kprog" where
  "user_createProcess env entry name args =
     int_call (sys_call env 23 (word_of_int entry) (word_of_int name) (word_of_int args))"

definition user_wait :: "kenv \<Rightarrow> int \<Rightarrow> ('a kernel_state_scheme, unit) kprog" where
  "user_wait env semaphore = calling (sys_call env 25 (word_of_int semaphore) 0 0)"

definition user_signal :: "kenv \<Rightarrow> int \<Rightarrow> ('a kernel_state_scheme, unit) kprog" where
  "user_signal env semaphore = calling (sys_call env 15 (word_of_int semaphore) 0 0)"

definition user_semOpen :: "kenv \<Rightarrow> addr \<Rightarrow> ('a kernel_state_scheme, int) kprog" where
  "user_semOpen env name = int_call (sys_call env 16 (word_of_int name) 0 0)"

definition user_semCreate :: "kenv \<Rightarrow> addr \<Rightarrow> int \<Rightarrow> ('a kernel_state_scheme, int) kprog" where
  "user_semCreate env name start = int_call (sys_call env 17 (word_of_int name) (word_of_int start) 0)"

definition user_semClose :: "kenv \<Rightarrow> int \<Rightarrow> ('a kernel_state_scheme, unit) kprog" where
  "user_semClose env index = calling (sys_call env 18 (word_of_int index) 0 0)"

definition user_sleep :: "kenv \<Rightarrow> int \<Rightarrow> ('a kernel_state_scheme, unit) kprog" where
  "user_sleep env time = calling (sys_call env 24 (word_of_int time) 0 0)"

definition malloc :: "kenv \<Rightarrow> int \<Rightarrow> ('a kernel_state_scheme, addr) kprog" where
  "malloc env bytes = kbind (sys_call env 13 (word_of_int bytes) 0 0) (\<lambda>a. kreturn (ptr_arg a))"

section \<open>Characters\<close>

definition store_char :: "addr \<Rightarrow> char \<Rightarrow> ('a kernel_state_scheme, unit) kprog" where
  "store_char a c = kmodify (\<lambda>s. s\<lparr>ram := (ram s)(a := byte_of c)\<rparr>)"

definition load_char :: "addr \<Rightarrow> ('a kernel_state_scheme, char) kprog" where
  "load_char a = kget (\<lambda>s. char_of (unat (ram s a)))"

text \<open>
  \<open>putchar\<close> and \<open>getchar\<close> with a byte of the heap, which is never given back (SHELL, EDITOR and FORTUNE), and with
  a byte of the stack, whose address is a parameter (dummy).
\<close>

definition putchar :: "kenv \<Rightarrow> char \<Rightarrow> ('a kernel_state_scheme, int) kprog" where
  "putchar env c =
     kbind (malloc env 1) (\<lambda>msg.
     kbind (store_char msg c) (\<lambda>_.
     kbind (writeC env msg 1) (\<lambda>_. kreturn 0)))"

definition stack_putchar :: "kenv \<Rightarrow> addr \<Rightarrow> char \<Rightarrow> ('a kernel_state_scheme, int) kprog" where
  "stack_putchar env msg c =
     kbind (store_char msg c) (\<lambda>_.
     kbind (writeC env msg 1) (\<lambda>_. kreturn 0))"

text \<open>
  The loop polls the terminal until the byte has changed.  Between two polls the interrupts come, so that the state
  may be another one (\<open>Yield\<close>); the parameter bounds the number of polls.
\<close>

fun poll_loop :: "kenv \<Rightarrow> nat \<Rightarrow> addr \<Rightarrow> ('a kernel_state_scheme, unit) kprog" where
  "poll_loop env 0 buffer = kcall (efail Diverges)"
| "poll_loop env (Suc polls) buffer =
     kbind (readC env buffer 1) (\<lambda>_ s.
     if ram s buffer = 0 then Yield s (poll_loop env polls buffer) else Ret () s)"

definition getchar :: "kenv \<Rightarrow> nat \<Rightarrow> ('a kernel_state_scheme, char) kprog" where
  "getchar env polls =
     kbind (malloc env 1) (\<lambda>buffer.
     kbind (store_char buffer (CHR 0x00)) (\<lambda>_.
     kbind (poll_loop env polls buffer) (\<lambda>_. load_char buffer)))"

definition stack_getchar :: "kenv \<Rightarrow> nat \<Rightarrow> addr \<Rightarrow> ('a kernel_state_scheme, char) kprog" where
  "stack_getchar env polls buffer =
     kbind (store_char buffer (CHR 0x00)) (\<lambda>_.
     kbind (poll_loop env polls buffer) (\<lambda>_. load_char buffer))"

section \<open>Printing\<close>

fun user_print :: "(char \<Rightarrow> ('s, int) kprog) \<Rightarrow> string \<Rightarrow> ('s, unit) kprog" where
  "user_print put [] = kreturn ()"
| "user_print put (c # cs) = kbind (put c) (\<lambda>_. user_print put cs)"

text \<open>\<open>putNumber\<close> writes the digits to the heap and reads them back from the last one.\<close>

fun print_back ::
  "(char \<Rightarrow> ('a kernel_state_scheme, int) kprog) \<Rightarrow> nat \<Rightarrow> addr \<Rightarrow> ('a kernel_state_scheme, unit) kprog" where
  "print_back put 0 buffer = kreturn ()"
| "print_back put (Suc n) buffer =
     kbind (load_char buffer) (\<lambda>c. kbind (put c) (\<lambda>_. print_back put n (buffer - 1)))"

definition user_putNumber ::
  "kenv \<Rightarrow> (char \<Rightarrow> ('a kernel_state_scheme, int) kprog) \<Rightarrow> int \<Rightarrow> ('a kernel_state_scheme, unit) kprog" where
  "user_putNumber env put n =
     kbind (malloc env 20) (\<lambda>buffer.
     kbind (if n < 0 then kbind (put (CHR ''-'')) (\<lambda>_. kreturn ()) else kreturn ()) (\<lambda>_.
     let digits = number_digits (if n < 0 then int32 (- n) else n) in
     kbind (kmodify (\<lambda>s. s\<lparr>ram := store_bytes buffer (map byte_of digits) (ram s)\<rparr>)) (\<lambda>_.
     print_back put (length digits) (buffer + int (length digits) - 1))))"

text \<open>The two digits and the terminating zero.\<close>

definition user_intToString :: "int \<Rightarrow> addr \<Rightarrow> ('a kernel_state_scheme, unit) kprog" where
  "user_intToString n buffer = kmodify (\<lambda>s. s\<lparr>ram := store_bytes buffer (map byte_of (intToString n)) (ram s)\<rparr>)"

text \<open>
  The loop of \<open>printFF\<close>, as that of the kernel in theory \<open>Strings\<close>; \<open>num\<close> prints a number, \<open>prev\<close> is the character before
  the one that is read next.
\<close>

fun user_printFF_loop ::
  "(char \<Rightarrow> ('s, int) kprog) \<Rightarrow> (int \<Rightarrow> ('s, unit) kprog) \<Rightarrow> ff_state \<Rightarrow> char option \<Rightarrow> string \<Rightarrow>
   string list option \<Rightarrow> int list option \<Rightarrow> ('s, unit) kprog" where
  "user_printFF_loop put num st prev [] s n =
     (case prev of None \<Rightarrow> kcall (efail OutOfBounds)
      | Some c \<Rightarrow> if c = CHR ''%'' then kbind (put (CHR ''%'')) (\<lambda>_. kreturn ()) else kreturn ())"
| "user_printFF_loop put num LETTER prev (c # format) s n =
     (if c = CHR ''%'' then user_printFF_loop put num FORMAT (Some c) format s n
      else kbind (put c) (\<lambda>_. user_printFF_loop put num LETTER (Some c) format s n))"
| "user_printFF_loop put num FORMAT prev (c # format) s n =
     (if c = CHR ''d'' \<and> n \<noteq> None then
        (case the n of
           [] \<Rightarrow> kcall (efail OutOfBounds)
         | k # ks \<Rightarrow> kbind (num k) (\<lambda>_. user_printFF_loop put num LETTER (Some c) format s (Some ks)))
      else if c = CHR ''s'' then
        (case s of
           None \<Rightarrow> kcall (efail Diverges)
         | Some [] \<Rightarrow> kcall (efail OutOfBounds)
         | Some (t # ts) \<Rightarrow> kbind (user_print put t) (\<lambda>_. user_printFF_loop put num LETTER (Some c) format (Some ts) n))
      else kbind (put (CHR ''%'')) (\<lambda>_. user_printFF_loop put num FORMAT (Some c) format s n))"

definition user_printFF ::
  "(char \<Rightarrow> ('s, int) kprog) \<Rightarrow> (int \<Rightarrow> ('s, unit) kprog) \<Rightarrow> string \<Rightarrow> string list option \<Rightarrow> int list option \<Rightarrow>
   ('s, unit) kprog" where
  "user_printFF put num format s n = user_printFF_loop put num LETTER None format s n"

section \<open>Reading\<close>

abbreviation (input) LINE_SIZE :: nat where     \<comment> \<open>\<open>BUFFERSIZE\<close> of the user's stdio.c\<close>
  "LINE_SIZE \<equiv> 100"

abbreviation LF :: char where "LF \<equiv> CHR 0x0A"
abbreviation BS :: char where "BS \<equiv> CHR 0x08"

text \<open>The loop of \<open>%s\<close>: where the string ends and \<open>bufferindex\<close>; the first parameter bounds the number of characters.\<close>

fun scan_line ::
  "('a kernel_state_scheme, char) kprog \<Rightarrow> nat \<Rightarrow> addr \<Rightarrow> nat \<Rightarrow> ('a kernel_state_scheme, addr \<times> nat) kprog" where
  "scan_line get 0 string bufferindex = kcall (efail Diverges)"
| "scan_line get (Suc fuel) string bufferindex =
     kbind get (\<lambda>c.
     if c = LF then kreturn (string, bufferindex)
     else if c = BS then
       if bufferindex \<noteq> 0 then scan_line get fuel (string - 1) (bufferindex - 1)
       else scan_line get fuel string bufferindex
     else if bufferindex = LINE_SIZE then kreturn (string, bufferindex)
     else kbind (store_char string c) (\<lambda>_. scan_line get fuel (string + 1) (bufferindex + 1)))"

text \<open>Any other character of the format is read over as long as it is typed, with one more character.\<close>

fun skip_char :: "('s, char) kprog \<Rightarrow> nat \<Rightarrow> char \<Rightarrow> ('s, unit) kprog" where
  "skip_char get 0 c = kcall (efail Diverges)"
| "skip_char get (Suc fuel) c = kbind get (\<lambda>d. if d = c then skip_char get fuel c else kreturn ())"

text \<open>
  With \<open>%d\<close> a number is printed, not read.  Every other format after \<open>%\<close>, and null arrays, advance nothing.
  \<open>bufferindex\<close> has no value before the first \<open>%s\<close>.
\<close>

fun scanFF_loop ::
  "('a kernel_state_scheme, char) kprog \<Rightarrow> (int \<Rightarrow> ('a kernel_state_scheme, unit) kprog) \<Rightarrow> nat \<Rightarrow> ff_state \<Rightarrow> string \<Rightarrow>
   addr list option \<Rightarrow> int list option \<Rightarrow> nat option \<Rightarrow> ('a kernel_state_scheme, nat option) kprog" where
  "scanFF_loop get num fuel st [] s n bufferindex = kreturn bufferindex"
| "scanFF_loop get num fuel LETTER (c # format) s n bufferindex =
     (if c = CHR ''%'' then scanFF_loop get num fuel FORMAT format s n bufferindex
      else kbind (skip_char get fuel c) (\<lambda>_. scanFF_loop get num fuel LETTER format s n bufferindex))"
| "scanFF_loop get num fuel FORMAT (c # format) s n bufferindex =
     (if c = CHR ''d'' \<and> n \<noteq> None then
        (case the n of
           [] \<Rightarrow> kcall (efail OutOfBounds)
         | k # ks \<Rightarrow> kbind (num k) (\<lambda>_. scanFF_loop get num fuel LETTER format s (Some ks) bufferindex))
      else if c = CHR ''s'' then
        (case s of
           None \<Rightarrow> kcall (efail Diverges)
         | Some [] \<Rightarrow> kcall (efail OutOfBounds)
         | Some (a # as) \<Rightarrow>
             kbind (scan_line get fuel a 0) (\<lambda>(string, i).
             kbind (store_char string (CHR 0x00)) (\<lambda>_.
             scanFF_loop get num fuel LETTER format (Some as) n (Some i))))
      else kcall (efail Diverges))"

definition scanFF ::
  "('a kernel_state_scheme, char) kprog \<Rightarrow> (int \<Rightarrow> ('a kernel_state_scheme, unit) kprog) \<Rightarrow> nat \<Rightarrow> string \<Rightarrow>
   addr list option \<Rightarrow> int list option \<Rightarrow> ('a kernel_state_scheme, int) kprog" where
  "scanFF get num fuel format s n =
     kbind (scanFF_loop get num fuel LETTER format s n None) (\<lambda>bufferindex.
     case bufferindex of
       None \<Rightarrow> kcall (efail Uninitialised)
     | Some i \<Rightarrow> kreturn (if i = LINE_SIZE then 1 else 0))"

section \<open>Comparing\<close>

text \<open>\<open>strcmp\<close> and \<open>strcmpN\<close> of a literal and a string in memory.\<close>

fun strcmp_at :: "string \<Rightarrow> (addr \<Rightarrow> 8 word) \<Rightarrow> addr \<Rightarrow> int" where
  "strcmp_at [] m str2 = (if m str2 = 0 then 0 else -1)"
| "strcmp_at (c # str1) m str2 =
     (if m str2 = 0 then 1
      else if schar c - sint (m str2) > 0 then 1
      else if schar c - sint (m str2) < 0 then -1
      else strcmp_at str1 m (str2 + 1))"

fun strcmpN_at :: "string \<Rightarrow> (addr \<Rightarrow> 8 word) \<Rightarrow> addr \<Rightarrow> nat \<Rightarrow> int" where
  "strcmpN_at str1 m str2 0 = 0"
| "strcmpN_at [] m str2 (Suc number) = (if m str2 = 0 then 0 else -1)"
| "strcmpN_at (c # str1) m str2 (Suc number) =
     (if m str2 = 0 then 1
      else if schar c - sint (m str2) > 0 then 1
      else if schar c - sint (m str2) < 0 then -1
      else strcmpN_at str1 m (str2 + 1) number)"

section \<open>Strings in memory\<close>

definition text_at :: "(addr \<Rightarrow> 8 word) \<Rightarrow> addr \<Rightarrow> string \<Rightarrow> bool" where
  "text_at m a cs \<longleftrightarrow> bytes_at m a (map byte_of cs @ [0]) \<and> CHR 0x00 \<notin> set cs"

lemma byte_of_zero: "byte_of c = 0 \<longleftrightarrow> c = CHR 0x00"
proof -
  have "byte_of c = 0 \<longleftrightarrow> char_of (unat (byte_of c)) = (char_of (unat (0 :: 8 word)) :: char)"
    using byte_of_char(1) [of c] by (auto simp: byte_of_def)
  also have "\<dots> \<longleftrightarrow> c = CHR 0x00" unfolding byte_of_char(1) by (simp add: char_of_def)
  finally show ?thesis .
qed

lemma text_at_Nil: "text_at m a [] \<longleftrightarrow> m a = 0"
  by (simp add: text_at_def bytes_at_def)

lemma text_at_Cons: "text_at m a (c # cs) \<longleftrightarrow> m a = byte_of c \<and> m a \<noteq> 0 \<and> text_at m (a + 1) cs"
  by (auto simp: text_at_def bytes_at_Cons byte_of_zero)

lemma text_at_drop: "text_at m a cs \<Longrightarrow> n \<le> length cs \<Longrightarrow> text_at m (a + int n) (drop n cs)"
proof (induction n arbitrary: a cs)
  case (Suc n)
  then obtain c ds where "cs = c # ds" by (cases cs) auto
  with Suc.prems Suc.IH [of "a + 1" ds] show ?case by (simp add: text_at_Cons algebra_simps)
qed simp

lemma store_text: "CHR 0x00 \<notin> set cs \<Longrightarrow> text_at (store_bytes a (map byte_of cs @ [0]) m) a cs"
  by (simp only: text_at_def bytes_at_store) simp

lemma sint_byte_of: "sint (byte_of c) = schar c"
proof -
  have "of_char c < (256 :: nat)" by simp
  then have "unat (byte_of c) = of_char c" by (simp add: byte_of_def unat_of_nat)
  moreover have "uint (byte_of c) = int (unat (byte_of c))" by simp
  ultimately have "uint (byte_of c) = code c" by (simp only: code_def)
  then show ?thesis by (simp add: sint_byte schar_def)
qed

lemma strcmp_at_text: "text_at m a t \<Longrightarrow> strcmp_at cs m a = strcmp cs t"
proof (induction cs t arbitrary: a rule: strcmp.induct)
  case (4 c cs d ds)
  then have m: "m a = byte_of d" "m a \<noteq> 0" "text_at m (a + 1) ds" by (auto simp: text_at_Cons)
  have "sint (m a) = schar d" using m(1) by (simp add: sint_byte_of)
  with 4(1) m(2,3) show ?case by simp
qed (auto simp: text_at_Nil text_at_Cons)

lemma strcmpN_at_text: "text_at m a t \<Longrightarrow> strcmpN_at cs m a n = strcmpN cs t (int n)"
proof (induction cs m a n arbitrary: t rule: strcmpN_at.induct)
  case (1 cs m a)
  show ?case by (cases cs; cases t) simp_all
next
  case (2 m a n)
  then show ?case by (cases t) (auto simp: text_at_Nil text_at_Cons)
next
  case (3 c cs m a n)
  show ?case
  proof (cases t)
    case (Cons d ds)
    then have m: "m a = byte_of d" "m a \<noteq> 0" "text_at m (a + 1) ds" using 3(2) by (auto simp: text_at_Cons)
    have "sint (m a) = schar d" using m(1) by (simp add: sint_byte_of)
    with Cons m(2) 3(1) [OF m(2) _ _ m(3)] show ?thesis by simp
  qed (use 3 in \<open>simp add: text_at_Nil\<close>)
qed

section \<open>Reading a line\<close>

text \<open>What is left of a line after its backspaces, and whether it never has more than \<open>LINE_SIZE\<close> characters.\<close>

fun edit :: "string \<Rightarrow> string \<Rightarrow> string" where
  "edit line [] = line"
| "edit line (c # cs) = edit (if c = BS then butlast line else line @ [c]) cs"

fun short :: "nat \<Rightarrow> string \<Rightarrow> bool" where
  "short k [] \<longleftrightarrow> True"
| "short k (c # cs) \<longleftrightarrow> (if c = BS then short (k - 1) cs else k < LINE_SIZE \<and> short (k + 1) cs)"

definition plain :: "string \<Rightarrow> bool" where
  "plain cs \<longleftrightarrow> LF \<notin> set cs \<and> CHR 0x00 \<notin> set cs"

lemma plain_Cons: "plain (c # cs) \<longleftrightarrow> c \<noteq> LF \<and> c \<noteq> CHR 0x00 \<and> plain cs"
  by (auto simp: plain_def)

lemma edit_no_BS: "BS \<notin> set cs \<Longrightarrow> edit line cs = line @ cs"
  by (induction cs arbitrary: line) auto

lemma short_no_BS: "BS \<notin> set cs \<Longrightarrow> k + length cs \<le> LINE_SIZE \<Longrightarrow> short k cs"
  by (induction cs arbitrary: k) auto

lemma edit_no_zero: "CHR 0x00 \<notin> set line \<Longrightarrow> plain cs \<Longrightarrow> CHR 0x00 \<notin> set (edit line cs)"
proof (induction cs arbitrary: line)
  case (Cons c cs)
  then have "CHR 0x00 \<notin> set (if c = BS then butlast line else line @ [c])"
    by (simp add: plain_Cons) (meson in_set_butlastD)
  moreover have "plain cs" using Cons.prems(2) by (simp only: plain_Cons)
  ultimately show ?case unfolding edit.simps by (rule Cons.IH)
qed simp

text \<open>
  What the readers rely on: \<open>ready A cs s\<close> says that the characters \<open>cs\<close> are typed and not yet read, and that nothing
  the library does touches the memory \<open>A\<close>.
\<close>

locale line_input =
  fixes get :: "('a kernel_state_scheme, char) kprog"
    and ready :: "addr set \<Rightarrow> string \<Rightarrow> 'a kernel_state_scheme \<Rightarrow> bool"
  assumes get_takes: "ready A (c # cs) s \<Longrightarrow> c \<noteq> CHR 0x00 \<Longrightarrow>
      \<exists>t. get s = Ret c t \<and> ready A cs t \<and> (\<forall>a\<in>A. ram t a = ram s a)"
    and ready_store: "ready A cs s \<Longrightarrow> a \<in> A \<Longrightarrow> ready A cs (s\<lparr>ram := (ram s)(a := b)\<rparr>)"
begin

lemma take_char:
  assumes "ready A (c # cs) s" and "c \<noteq> CHR 0x00" and "{b..b + 100} \<subseteq> A" and "bytes_at (ram s) b (map byte_of line)"
    and "length line \<le> 100"
  obtains t where "get s = Ret c t" and "ready A cs t" and "bytes_at (ram t) b (map byte_of line)"
proof -
  obtain t where t: "get s = Ret c t" "ready A cs t" "\<forall>a\<in>A. ram t a = ram s a" using get_takes [OF assms(1,2)] by blast
  have "ram t (b + int i) = ram s (b + int i)" if "i < length line" for i
  proof -
    have "b + int i \<in> {b..b + 100}" using that assms(5) by simp
    then show ?thesis using t(3) assms(3) by blast
  qed
  then show thesis using assms(4) by (intro that [OF t(1,2)]) (simp add: bytes_at_def)
qed

lemma store_next:
  assumes "ready A cs t" and "{b..b + 100} \<subseteq> A" and "bytes_at (ram t) b (map byte_of line)" and "length line \<le> 100"
    and "u = t\<lparr>ram := (ram t)(b + int (length line) := byte_of c)\<rparr>"
  shows "ready A cs u" and "bytes_at (ram u) b (map byte_of (line @ [c]))"
proof -
  have "b + int (length line) \<in> {b..b + 100}" using assms(4) by simp
  then have "b + int (length line) \<in> A" using assms(2) by blast
  then show "ready A cs u" using ready_store [OF assms(1)] by (simp add: assms(5))
  show "bytes_at (ram u) b (map byte_of (line @ [c]))"
    using assms(3) by (auto simp: bytes_at_def assms(5) nth_append less_Suc_eq)
qed

lemma scan_line_char:
  assumes "ready A (c # cs) s" and "plain [c]" and "short (length line) [c]" and "length line \<le> 100"
    and "{b..b + 100} \<subseteq> A" and "bytes_at (ram s) b (map byte_of line)"
  obtains t where "scan_line get (Suc fuel) (b + int (length line)) (length line) s =
      scan_line get fuel (b + int (length (edit line [c]))) (length (edit line [c])) t"
    and "ready A cs t" and "bytes_at (ram t) b (map byte_of (edit line [c]))" and "length (edit line [c]) \<le> 100"
proof -
  have c: "c \<noteq> LF" "c \<noteq> CHR 0x00" using assms(2) by (simp_all add: plain_Cons)
  obtain t where t: "get s = Ret c t" "ready A cs t" "bytes_at (ram t) b (map byte_of line)"
    by (rule take_char [OF assms(1) c(2) assms(5,6,4)])
  show thesis
  proof (cases "c = BS")
    case True
    show thesis
    proof (cases "line = []")
      case True
      then show thesis using t \<open>c = BS\<close> by (intro that [of t]) (simp_all add: kbind_def)
    next
      case False
      then have len: "length line \<noteq> 0" "b + int (length line) - 1 = b + int (length line - 1)" by (simp_all add: Suc_leI of_nat_diff)
      have "bytes_at (ram t) b (map byte_of (butlast line))"
        using t(3) by (simp add: bytes_at_def nth_butlast)
      moreover have "scan_line get (Suc fuel) (b + int (length line)) (length line) s =
          scan_line get fuel (b + int (length line - 1)) (length line - 1) t"
        using t(1) len(1) \<open>c = BS\<close> by (simp only: scan_line.simps kbind_Ret len(2) [symmetric]) simp
      ultimately show thesis using t(2) \<open>c = BS\<close> assms(4) by (intro that [of t]) simp_all
    qed
  next
    case False
    then have "length line < 100" using assms(3) by simp
    then show thesis
      using c False t(1) store_next [OF t(2) assms(5) t(3) assms(4) refl, of c]
      by (intro that [of "t\<lparr>ram := (ram t)(b + int (length line) := byte_of c)\<rparr>"])
        (simp_all add: kbind_def store_char_def algebra_simps)
  qed
qed

lemma scan_line_plain:
  assumes "ready A (typed @ rest) s" and "plain typed" and "short (length line) typed" and "length line \<le> 100"
    and "{b..b + 100} \<subseteq> A" and "bytes_at (ram s) b (map byte_of line)"
  shows "\<exists>t. scan_line get (length typed + fuel) (b + int (length line)) (length line) s =
      scan_line get fuel (b + int (length (edit line typed))) (length (edit line typed)) t \<and>
    ready A rest t \<and> bytes_at (ram t) b (map byte_of (edit line typed)) \<and> length (edit line typed) \<le> 100"
  using assms
proof (induction typed arbitrary: line s)
  case Nil
  then show ?case by (intro exI [of _ s]) simp
next
  case (Cons c cs)
  have c: "plain [c]" "plain cs" using Cons.prems(2) by (simp_all add: plain_Cons plain_def)
  have short: "short (length line) [c]" "short (length (edit line [c])) cs"
    using Cons.prems(3) by (auto split: if_splits)
  have "ready A (c # (cs @ rest)) s" using Cons.prems(1) by simp
  then obtain t where t: "scan_line get (Suc (length cs + fuel)) (b + int (length line)) (length line) s =
        scan_line get (length cs + fuel) (b + int (length (edit line [c]))) (length (edit line [c])) t"
      "ready A (cs @ rest) t" "bytes_at (ram t) b (map byte_of (edit line [c]))" "length (edit line [c]) \<le> 100"
    by (rule scan_line_char [OF _ c(1) short(1) Cons.prems(4-6)])
  from Cons.IH [OF t(2) c(2) short(2) t(4) Cons.prems(5) t(3)] t(1)
  show ?case by simp
qed

lemma scan_line_reads:
  assumes "ready A (typed @ LF # rest) s" and "plain typed" and "short 0 typed" and "{b..b + 100} \<subseteq> A"
    and "length typed < fuel"
  shows "\<exists>t. scan_line get fuel b 0 s = Ret (b + int (length (edit [] typed)), length (edit [] typed)) t \<and>
    ready A rest t \<and> bytes_at (ram t) b (map byte_of (edit [] typed)) \<and> length (edit [] typed) \<le> 100"
proof -
  obtain f where f: "fuel = length typed + Suc f" using assms(5) less_imp_Suc_add by fastforce
  obtain t where t: "scan_line get fuel b 0 s = scan_line get (Suc f) (b + int (length (edit [] typed))) (length (edit [] typed)) t"
      "ready A (LF # rest) t" "bytes_at (ram t) b (map byte_of (edit [] typed))" "length (edit [] typed) \<le> 100"
    using scan_line_plain [OF assms(1,2), of "[]" b "Suc f"] assms(3,4) f by (auto simp: bytes_at_def)
  obtain u where u: "get t = Ret LF u" "ready A rest u" "bytes_at (ram u) b (map byte_of (edit [] typed))"
    by (rule take_char [OF t(2) _ assms(4) t(3,4)]) simp_all
  then show ?thesis using t(1,4) by (simp add: kbind_def)
qed

lemma scanFF_reads:
  assumes "ready A (typed @ LF # rest) s" and "plain typed" and "short 0 typed" and "{b..b + 100} \<subseteq> A"
    and "length typed < fuel"
  shows "\<exists>t. scanFF get num fuel ''%s'' (Some [b]) None s = Ret (if length (edit [] typed) = 100 then 1 else 0) t \<and>
    ready A rest t \<and> text_at (ram t) b (edit [] typed)"
proof -
  define l where "l = edit [] typed"
  obtain t where t: "scan_line get fuel b 0 s = Ret (b + int (length l), length l) t"
      "ready A rest t" "bytes_at (ram t) b (map byte_of l)" "length l \<le> 100"
    using scan_line_reads [OF assms] by (auto simp: l_def)
  define u where "u = t\<lparr>ram := (ram t)(b + int (length l) := byte_of (CHR 0x00))\<rparr>"
  have u: "ready A rest u" "bytes_at (ram u) b (map byte_of (l @ [CHR 0x00]))"
    using store_next [OF t(2) assms(4) t(3,4), of u "CHR 0x00"] by (simp_all add: u_def)
  have "CHR 0x00 \<notin> set l" using edit_no_zero [OF _ assms(2), of "[]"] by (simp add: l_def)
  then have "text_at (ram u) b l" using u(2) by (simp add: text_at_def byte_of_zero [THEN iffD2])
  moreover have "scanFF get num fuel ''%s'' (Some [b]) None s = Ret (if length l = 100 then 1 else 0) u"
    using t(1) by (simp add: scanFF_def kbind_def store_char_def u_def)
  ultimately show ?thesis using u(1) by (auto simp: l_def)
qed

lemma scanFF_overflows:
  assumes "ready A (typed @ c # rest) s" and "plain (typed @ [c])" and "short 0 typed" and "length (edit [] typed) = 100"
    and "c \<noteq> BS" and "{b..b + 100} \<subseteq> A" and "length typed < fuel"
  shows "\<exists>t. scanFF get num fuel ''%s'' (Some [b]) None s = Ret 1 t \<and> ready A rest t \<and> text_at (ram t) b (edit [] typed)"
proof -
  define l where "l = edit [] typed"
  have plain: "plain typed" "c \<noteq> LF" "c \<noteq> CHR 0x00" using assms(2) by (auto simp: plain_def)
  obtain f where f: "fuel = length typed + Suc f" using assms(7) less_imp_Suc_add by fastforce
  obtain t where t: "scan_line get fuel b 0 s = scan_line get (Suc f) (b + int (length l)) (length l) t"
      "ready A (c # rest) t" "bytes_at (ram t) b (map byte_of l)"
    using scan_line_plain [OF assms(1) plain(1), of "[]" b "Suc f"] assms(3,6) f by (auto simp: bytes_at_def l_def)
  have len: "length l = 100" using assms(4) by (simp add: l_def)
  obtain v where v: "get t = Ret c v" "ready A rest v" "bytes_at (ram v) b (map byte_of l)"
    by (rule take_char [OF t(2) plain(3) assms(6) t(3)]) (simp_all add: len)
  have line: "scan_line get fuel b 0 s = Ret (b + 100, 100) v"
    using t(1) v(1) plain(2) assms(5) len by (simp add: kbind_def)
  define u where "u = v\<lparr>ram := (ram v)(b + int (length l) := byte_of (CHR 0x00))\<rparr>"
  have u: "ready A rest u" "bytes_at (ram u) b (map byte_of (l @ [CHR 0x00]))"
    using store_next [OF v(2) assms(6) v(3), of u "CHR 0x00"] len by (simp_all add: u_def)
  have "CHR 0x00 \<notin> set l" using edit_no_zero [OF _ plain(1), of "[]"] by (simp add: l_def)
  then have "text_at (ram u) b l" using u(2) by (simp add: text_at_def byte_of_zero [THEN iffD2])
  moreover have "scanFF get num fuel ''%s'' (Some [b]) None s = Ret 1 u"
    using line len by (simp add: scanFF_def kbind_def store_char_def u_def)
  ultimately show ?thesis using u(1) by (auto simp: l_def)
qed

end

section \<open>The two copies read lines\<close>

lemma readC_takes:
  assumes "sysCalls s = call_table" and "tty_is s (c # cs)" and "0 \<le> a" and "a < 2 ^ 64"
  defines "t \<equiv> s\<lparr>intr := True, ram := (ram s)(a := byte_of c), bufferConsume := (bufferConsume s + 1) mod 2500\<rparr>"
  shows "readC env a 1 s = Ret 1 t" and "tty_is t cs"
proof -
  have first: "Buffer s (bufferConsume s) = c" "tty_is (s\<lparr>bufferConsume := (bufferConsume s + 1) mod 2500\<rparr>) cs"
    using tty_take_first [OF assms(2)] by simp_all
  then show "tty_is t cs" by (simp add: tty_is_def t_def)
  have s: "0 \<le> bufferConsume s" "bufferConsume s < 2500" "bufferStart s = 0" "bufferSize s = 2500"
      "bufferConsume s \<noteq> bufferPosition s"
    using assms(2) by (auto simp: tty_is_def)
  have next_cell: "(bufferConsume s + 1) mod 2500 = (if bufferConsume s + 1 = 2500 then 0 else bufferConsume s + 1)"
    using s by simp
  have "getTerminalBuffer a 1 s = Inr (1, t)"
    using s first(1) unfolding t_def next_cell
    by (cases "bufferConsume s + 1 = 2500")
      (simp_all add: getTerminalBuffer_def isBufferEmpty_def Let_def cli_def sti_def ebind_def buffer_at_def)
  moreover have "uint (word_of_int a :: qword) = a" using assms(3,4) by (simp add: uint_word_of_int)
  moreover have "syscallHandler env 3 0 (word_of_int a) 1 s = sys_call_readC 0 (word_of_int a) 1 s"
    using syscallHandler_number [OF assms(1), of 3] by (simp add: call_table_nth numbered_def)
  ultimately show "readC env a 1 s = Ret 1 t"
    by (simp add: readC_def sys_call_readC_def ptr_arg_def kbind_def int_result_def)
qed

lemma poll_loop_takes:
  assumes "sysCalls s = call_table" and "tty_is s (c # cs)" and "0 \<le> a" and "a < 2 ^ 64" and "c \<noteq> CHR 0x00"
  shows "poll_loop env (Suc polls) a s =
    Ret () (s\<lparr>intr := True, ram := (ram s)(a := byte_of c), bufferConsume := (bufferConsume s + 1) mod 2500\<rparr>)"
  using readC_takes(1) [OF assms(1-4)] assms(5) by (simp add: kbind_def byte_of_zero)

text \<open>
  When nothing is typed the loop waits: it has changed nothing but the byte it keeps at 0, and polls again in whatever
  state it is resumed.
\<close>

lemma poll_loop_waits:
  assumes "sysCalls s = call_table" and "tty_is s []" and "0 \<le> a" and "a < 2 ^ 64" and "ram s a = 0"
  shows "poll_loop env (Suc polls) a s = Yield (s\<lparr>intr := True\<rparr>) (poll_loop env polls a)"
proof -
  have "bufferConsume s = bufferPosition s" using assms(2) tty_position(1) [OF assms(2)] by (simp add: tty_is_def)
  then have "getTerminalBuffer a 1 s = Inr (0, s\<lparr>intr := True\<rparr>)"
    by (simp add: getTerminalBuffer_def isBufferEmpty_def Let_def cli_def sti_def ebind_def)
  moreover have "uint (word_of_int a :: qword) = a" using assms(3,4) by (simp add: uint_word_of_int)
  moreover have "syscallHandler env 3 0 (word_of_int a) 1 s = sys_call_readC 0 (word_of_int a) 1 s"
    using syscallHandler_number [OF assms(1), of 3] by (simp add: call_table_nth numbered_def)
  ultimately show ?thesis
    using assms(5) by (simp add: readC_def sys_call_readC_def ptr_arg_def kbind_def int_result_def)
qed

definition stack_ready :: "addr \<Rightarrow> addr set \<Rightarrow> string \<Rightarrow> 'a kernel_state_scheme \<Rightarrow> bool" where
  "stack_ready a A cs s \<longleftrightarrow> sysCalls s = call_table \<and> tty_is s cs \<and> 0 \<le> a \<and> a < 2 ^ 64 \<and> a \<notin> A"

interpretation dummy_input: line_input "stack_getchar env (Suc polls) a" "stack_ready a"
proof unfold_locales
  fix A c cs and s :: "'a kernel_state_scheme"
  assume ready: "stack_ready a A (c # cs) s" and c: "c \<noteq> CHR 0x00"
  define u where "u = s\<lparr>ram := (ram s)(a := byte_of (CHR 0x00))\<rparr>"
  have u: "sysCalls u = call_table" "tty_is u (c # cs)" "0 \<le> a" "a < 2 ^ 64"
    using ready by (simp_all add: stack_ready_def u_def tty_is_def)
  define t where "t = u\<lparr>intr := True, ram := (ram u)(a := byte_of c), bufferConsume := (bufferConsume u + 1) mod 2500\<rparr>"
  have "stack_getchar env (Suc polls) a s = Ret c t"
    using poll_loop_takes [OF u c, of env polls]
    by (simp add: stack_getchar_def kbind_def store_char_def u_def [symmetric] load_char_def t_def byte_of_char)
  moreover have "stack_ready a A cs t"
    using readC_takes(2) [OF u] u ready by (simp add: stack_ready_def t_def)
  moreover have "\<forall>x\<in>A. ram t x = ram s x" using ready by (auto simp: t_def u_def stack_ready_def)
  ultimately show "\<exists>t. stack_getchar env (Suc polls) a s = Ret c t \<and> stack_ready a A cs t \<and> (\<forall>x\<in>A. ram t x = ram s x)"
    by blast
next
  fix A cs x b and s :: "'a kernel_state_scheme"
  assume "stack_ready a A cs s"
  then show "stack_ready a A cs (s\<lparr>ram := (ram s)(x := b)\<rparr>)" by (simp add: stack_ready_def tty_is_def)
qed

lemma process_heap_cong:
  assumes "process_heap n A s" and "procs t = procs s" and "slots t = slots s" and "current t = current s"
    and "tblocks t = tblocks s"
  shows "process_heap n A t"
proof -
  obtain p pr bs e where p: "getCurrentProcess s = Inr (p, s)" "p \<noteq> NULL" "procs s p = Some pr" "p_heap pr \<noteq> NULL"
      "heap_inv (s\<lparr>kernelBase := p_heap pr\<rparr>) bs e" "room n bs" "\<forall>a\<in>A. \<exists>(q, l)\<in>used bs. q \<le> a \<and> a < q + l"
    using assms(1) by (auto simp: process_heap_def)
  have "getCurrentProcess t = Inr (p, t)"
    using p(1) assms(3,4) by (auto simp: getCurrentProcess_def ebind_def deref_def split: option.splits)
  then show ?thesis using p(2-) assms(2,5) unfolding process_heap_def
    by (intro exI [of _ p] exI [of _ pr] exI [of _ bs] exI [of _ e]) (simp add: heap_inv_def)
qed

text \<open>A request of \<open>sz\<close> bytes costs the heap the bytes, rounded up to a multiple of four, and a header.\<close>

abbreviation cost :: "32 word \<Rightarrow> nat" where
  "cost sz \<equiv> unat (align4 sz) + 28"

lemma malloc_takes:
  assumes "sysCalls s = call_table" and "process_heap (k + cost (word_of_int sz)) A s" and "0 < sz" and "sz < 2 ^ 31"
  obtains a m h where "malloc env sz s = Ret a (s\<lparr>heapBase := h, tblocks := m\<rparr>)" and "0 < a" and "a < 2 ^ 31"
    and "A \<inter> {a..<a + sz} = {}" and "process_heap k (A \<union> {a..<a + sz}) (s\<lparr>heapBase := h, tblocks := m\<rparr>)"
proof -
  define w :: "32 word" where "w = word_of_int sz"
  have sz: "uint w = sz" using assms(3,4) by (simp add: w_def uint_word_of_int)
  then have w: "w \<noteq> 0" "uint w < 2 ^ 31" using assms(3,4) by auto
  have heap: "process_heap (k + unat (align4 w) + 28) A s" using assms(2) by (simp only: w_def add.assoc)
  obtain a m h where a: "mallock w s = Inr (a, s\<lparr>heapBase := h, tblocks := m\<rparr>)" "0 < a" "a < 2 ^ 31"
      "A \<inter> {a..<a + uint w} = {}" "process_heap k (A \<union> {a..<a + uint w}) (s\<lparr>heapBase := h, tblocks := m\<rparr>)"
    by (rule mallock_takes [OF heap w])
  have "uint (word_of_int a :: qword) = a" using a(2,3) by (simp add: uint_word_of_int)
  moreover have "uint (word_of_int sz :: qword) = sz" using assms(3,4) by (simp add: uint_word_of_int)
  then have "(ucast (word_of_int sz :: qword) :: 32 word) = w" unfolding w_def by (metis ucast_eq)
  moreover have "syscallHandler env 13 (word_of_int sz) 0 0 s = sys_call_mallock (word_of_int sz) s"
    using syscallHandler_number [OF assms(1), of 13] by (simp add: call_table_nth numbered_def)
  ultimately have "malloc env sz s = Ret a (s\<lparr>heapBase := h, tblocks := m\<rparr>)"
    using a(1) by (simp add: malloc_def sys_call_def sys_call_mallock_def kbind_def int_result_def ptr_arg_def)
  with a show thesis unfolding sz by (intro that [of a m h]) simp_all
qed

lemma cost_small: "cost 1 = 32" "cost 8 = 36"
  by (simp_all add: align4_def)

text \<open>
  A program can go on for \<open>k\<close> bytes of heap: the table of the calls is set up, the characters \<open>cs\<close> wait in the terminal,
  the cursor is in its window, and the memory \<open>A\<close> belongs to the program.
\<close>

definition user_ok :: "nat \<Rightarrow> addr set \<Rightarrow> string \<Rightarrow> 'a kernel_state_scheme \<Rightarrow> bool" where
  "user_ok k A cs s \<longleftrightarrow> sysCalls s = call_table \<and> tty_is s cs \<and> process_heap k A s \<and> cursor_ok s \<and>
     A \<inter> {SCREEN..<SCREEN + 4000} = {}"

definition keeps :: "addr set \<Rightarrow> 'a kernel_state_scheme \<Rightarrow> 'a kernel_state_scheme \<Rightarrow> bool" where
  "keeps A s t \<longleftrightarrow> (\<forall>a\<in>A. ram t a = ram s a)"

lemma keeps_trans: "keeps A s t \<Longrightarrow> keeps A t u \<Longrightarrow> keeps A s u"
  by (simp add: keeps_def)

lemma user_ok_mono: "user_ok k A cs s \<Longrightarrow> m \<le> k \<Longrightarrow> user_ok m A cs s"
  unfolding user_ok_def using process_heap_mono by blast

text \<open>Changes of memory and of what the kernel does not look at.\<close>

lemma user_ok_ram: "user_ok k A cs s \<Longrightarrow> user_ok k A cs (s\<lparr>ram := m\<rparr>)"
  unfolding user_ok_def tty_is_def cursor_ok_def by (auto intro: process_heap_cong)

lemma user_malloc:
  assumes "user_ok (k + cost (word_of_int sz)) A cs s" and "0 < sz" and "sz < 2 ^ 31"
  obtains a t where "malloc env sz s = Ret a t" and "0 < a" and "a < 2 ^ 31" and "A \<inter> {a..<a + sz} = {}"
    and "user_ok k A cs t" and "ram t = ram s"
proof -
  have s: "sysCalls s = call_table" "process_heap (k + cost (word_of_int sz)) A s" using assms(1) by (simp_all add: user_ok_def)
  obtain a m h where a: "malloc env sz s = Ret a (s\<lparr>heapBase := h, tblocks := m\<rparr>)" "0 < a" "a < 2 ^ 31"
      "A \<inter> {a..<a + sz} = {}" "process_heap k (A \<union> {a..<a + sz}) (s\<lparr>heapBase := h, tblocks := m\<rparr>)"
    by (rule malloc_takes [OF s assms(2,3)])
  have "process_heap k A (s\<lparr>heapBase := h, tblocks := m\<rparr>)" by (rule process_heap_mono [OF a(5)]) simp_all
  then have "user_ok k A cs (s\<lparr>heapBase := h, tblocks := m\<rparr>)"
    using assms(1) by (simp add: user_ok_def tty_is_def cursor_ok_def)
  then show thesis by (intro that [OF a(1-4)]) simp_all
qed

lemma write_chars_one:
  assumes "cursor_ok s"
  obtains t where "write_chars 1 a s = Inr ((), t)" and "cursor_ok t" and "screen_frame s t" and "same_outside (ram s) (ram t)"
proof (cases "ram s a = 0x0A")
  case True
  obtain t where t: "lineJump s = Inr ((), t)" "cursor_ok t" "screen_frame s t" using lineJump_keeps [OF assms] by blast
  moreover have "ram t = ram s" using t(1) unfolding lineJump_ok [OF assms] by (auto split: if_splits)
  ultimately show thesis using True by (intro that [of t]) (simp_all add: ebind_def)
next
  case False
  obtain t where t: "putChar (char_of (unat (ram s a))) s = Inr ((), t)" "cursor_ok t" "screen_frame s t"
    by (rule putChar_ok [OF assms])
  then show thesis using False putChar_outside [OF assms t(1)] by (intro that [of t]) (simp_all add: ebind_def)
qed

lemma user_ok_screen:
  assumes "user_ok k A cs s" and "screen_frame s t" and "cursor_ok t" and "same_outside (ram s) (ram t)"
  shows "user_ok k A cs t" and "keeps A s t"
proof -
  obtain R v i j where t: "t = s\<lparr>ram := R, video := v, cur_i := i, cur_j := j\<rparr>"
    using assms(2) unfolding screen_frame_def by (elim exE) (rule that)
  have "process_heap k A t" by (rule process_heap_cong [of _ _ s]) (use assms(1) in \<open>simp_all add: user_ok_def t\<close>)
  then show "user_ok k A cs t" using assms(1,3) by (simp add: user_ok_def tty_is_def t)
  show "keeps A s t" unfolding keeps_def
  proof
    fix a assume "a \<in> A"
    then have "a \<notin> {SCREEN..<SCREEN + 4000}" using assms(1) unfolding user_ok_def by blast
    then show "ram t a = ram s a" using assms(4) unfolding same_outside_def by fastforce
  qed
qed

lemma writeC_ok:
  assumes "user_ok k A cs s" and "0 \<le> a" and "a < 2 ^ 64"
  obtains t where "writeC env a 1 s = Ret 0 t" and "user_ok k A cs t" and "keeps A s t"
proof -
  have "sysCalls s = call_table" "cursor_ok s" using assms(1) by (simp_all add: user_ok_def)
  obtain t where t: "write_chars 1 a s = Inr ((), t)" "cursor_ok t" "screen_frame s t" "same_outside (ram s) (ram t)"
    by (rule write_chars_one [OF \<open>cursor_ok s\<close>])
  have "uint (word_of_int a :: qword) = a" using assms(2,3) by (simp add: uint_word_of_int)
  moreover have "syscallHandler env 4 0 (word_of_int a) 1 s = sys_call_writeC 0 (word_of_int a) 1 s"
    using syscallHandler_number [OF \<open>sysCalls s = call_table\<close>, of 4] by (simp add: call_table_nth numbered_def)
  ultimately have "writeC env a 1 s = Ret 0 t"
    using t(1) by (simp add: writeC_def sys_call_writeC_def ptr_arg_def int_arg_def returning_def kbind_def)
  with user_ok_screen [OF assms(1) t(3,2,4)] show thesis by (intro that [of t])
qed

lemma putchar_ok:
  assumes "user_ok (k + 32) A cs s"
  obtains t where "putchar env c s = Ret 0 t" and "user_ok k A cs t" and "keeps A s t"
proof -
  have "user_ok (k + cost (word_of_int 1)) A cs s" using assms by (simp add: cost_small)
  then obtain a u where a: "malloc env 1 s = Ret a u" "0 < a" "a < 2 ^ 31" "A \<inter> {a..<a + 1} = {}" "user_ok k A cs u" "ram u = ram s"
    by (rule user_malloc) simp_all
  define v where "v = u\<lparr>ram := (ram u)(a := byte_of c)\<rparr>"
  have v: "user_ok k A cs v" "keeps A s v" using user_ok_ram [OF a(5)] a(4,6) by (auto simp: v_def keeps_def)
  have "0 \<le> a" "a < 2 ^ 64" using a(2,3) by simp_all
  then obtain t where t: "writeC env a 1 v = Ret 0 t" "user_ok k A cs t" "keeps A v t"
    by (rule writeC_ok [OF v(1)])
  have "putchar env c s = Ret 0 t"
    using a(1) t(1) by (simp add: putchar_def kbind_def store_char_def v_def)
  with t(2) keeps_trans [OF v(2) t(3)] show thesis by (intro that [of t])
qed

lemma user_print_ok:
  assumes "user_ok (k + 32 * length ds) A cs s"
  obtains t where "user_print (putchar env) ds s = Ret () t" and "user_ok k A cs t" and "keeps A s t"
  using assms
proof (induction ds arbitrary: s thesis)
  case Nil
  then show ?case by (simp add: keeps_def)
next
  case (Cons d ds)
  have "user_ok ((k + 32 * length ds) + 32) A cs s" by (rule user_ok_mono [OF Cons.prems(2)]) simp
  then obtain u where u: "putchar env d s = Ret 0 u" "user_ok (k + 32 * length ds) A cs u" "keeps A s u"
    by (rule putchar_ok)
  obtain t where t: "user_print (putchar env) ds u = Ret () t" "user_ok k A cs t" "keeps A u t"
    by (rule Cons.IH [OF _ u(2)])
  show ?case using u(1) t keeps_trans [OF u(3) t(3)] by (intro Cons.prems(1) [of t]) simp_all
qed

lemma printFF_string: "user_printFF put num ''%s'' (Some [ds]) None = user_print put ds"
proof -
  have "user_printFF put num ''%s'' (Some [ds]) None = kbind (user_print put ds) (\<lambda>_. kreturn ())" 
    by (simp add: user_printFF_def)
  also have "\<dots> = kbind (user_print put ds) kreturn" by (intro arg_cong [where f = "kbind _"] ext) simp
  finally show ?thesis by (simp add: kbind_kreturn_right)
qed

interpretation shell_input: line_input "getchar env (Suc polls)" "\<lambda>A cs. user_ok (k + 32 * length cs) A cs"
proof unfold_locales
  fix A c cs and s :: "'a kernel_state_scheme"
  assume ready: "user_ok (k + 32 * length (c # cs)) A (c # cs) s" and c: "c \<noteq> CHR 0x00"
  have "user_ok (k + 32 * length cs + cost (word_of_int 1)) A (c # cs) s"
    by (rule user_ok_mono [OF ready]) (simp add: cost_small)
  then obtain a v where a: "malloc env 1 s = Ret a v" "0 < a" "a < 2 ^ 31" "A \<inter> {a..<a + 1} = {}"
      "user_ok (k + 32 * length cs) A (c # cs) v" "ram v = ram s"
    by (rule user_malloc) simp_all
  then have addr: "0 \<le> a" "a < 2 ^ 64" "a \<notin> A" by auto
  define u where "u = v\<lparr>ram := (ram v)(a := byte_of (CHR 0x00))\<rparr>"
  have u: "sysCalls u = call_table" "tty_is u (c # cs)" "user_ok (k + 32 * length cs) A (c # cs) u"
    using user_ok_ram [OF a(5)] by (simp_all add: u_def user_ok_def)
  define t where "t = u\<lparr>intr := True, ram := (ram u)(a := byte_of c), bufferConsume := (bufferConsume u + 1) mod 2500\<rparr>"
  have "getchar env (Suc polls) s = Ret c t"
    using a(1) poll_loop_takes [OF u(1,2) addr(1,2) c, of env polls]
    by (simp add: getchar_def kbind_def store_char_def u_def [symmetric] load_char_def t_def byte_of_char)
  moreover have "process_heap (k + 32 * length cs) A t"
    by (rule process_heap_cong [of _ _ u]) (use u(3) in \<open>simp_all add: t_def user_ok_def\<close>)
  then have "user_ok (k + 32 * length cs) A cs t"
    using readC_takes(2) [OF u(1,2) addr(1,2)] u(3) by (simp add: user_ok_def t_def cursor_ok_def)
  moreover have "\<forall>x\<in>A. ram t x = ram s x" using addr(3) a(6) by (auto simp: t_def u_def)
  ultimately show "\<exists>t. getchar env (Suc polls) s = Ret c t \<and> user_ok (k + 32 * length cs) A cs t \<and> (\<forall>x\<in>A. ram t x = ram s x)"
    by blast
next
  fix A cs x b and s :: "'a kernel_state_scheme"
  assume "user_ok (k + 32 * length cs) A cs s"
  then show "user_ok (k + 32 * length cs) A cs (s\<lparr>ram := (ram s)(x := b)\<rparr>)" by (rule user_ok_ram)
qed

section \<open>Properties\<close>

text \<open>
  A program with a heap of one page, of which 104 bytes at \<open>0x100901C\<close> are its line buffer, and with \<open>cs\<close> typed.
\<close>

definition demo_user :: "string \<Rightarrow> kernel_state" where
  "demo_user cs = (demo_state (\<lambda>_. 0))\<lparr>
     procs := [0x1003000 \<mapsto> (demo_process 0 RUNNING 0x1006000)\<lparr>p_heap := 0x1009000\<rparr>],
     tblocks := [0x1009000 \<mapsto> \<lparr>b_size = 104, b_next = 0x1009084, b_prev = NULL, b_free = False\<rparr>,
                 0x1009084 \<mapsto> \<lparr>b_size = 3936, b_next = NULL, b_prev = 0x1009000, b_free = True\<rparr>],
     Buffer := (\<lambda>p. (cs @ replicate 2500 (CHR 0x00)) ! nat p), bufferConsume := 0, bufferPosition := int (length cs)\<rparr>"

lemma demo_user_ok:
  assumes "length cs < 2500" and "k \<le> 3900"
  shows "user_ok k {0x100901C..0x100901C + 100} cs (demo_user cs)"
proof -
  define bs :: "block list" where "bs = [(0x1009000, \<lparr>b_size = 104, b_next = 0x1009084, b_prev = NULL, b_free = False\<rparr>),
    (0x1009084, \<lparr>b_size = 3936, b_next = NULL, b_prev = 0x1009000, b_free = True\<rparr>)]"
  define pr where "pr = (demo_process 0 RUNNING 0x1006000)\<lparr>p_heap := 0x1009000\<rparr>"
  have "current demo_conds = 0x1000000" "slots demo_conds 0x1000000 = Some \<lparr>slot_next = 0x1001000, slot_process = 0x1003000\<rparr>"
    using demo_pages_fields(11,13) by (simp_all add: demo_pages_def conds.defs demo_sched_def)
  then have fields: "sysCalls (demo_user cs) = call_table" "bufferStart (demo_user cs) = 0" "bufferSize (demo_user cs) = 2500"
      "cursor_ok (demo_user cs)" "current (demo_user cs) = 0x1000000"
      "slots (demo_user cs) 0x1000000 = Some \<lparr>slot_next = 0x1001000, slot_process = 0x1003000\<rparr>"
    using demo_tty_ok(1)
    by (simp_all add: demo_user_def demo_state_def demo_loader_def loader.defs cursor_ok_def demo_mouse_defs)
  have "getCurrentProcess (demo_user cs) = Inr (0x1003000, demo_user cs)"
    using fields(5,6) by (simp add: getCurrentProcess_def ebind_def deref_def)
  moreover have "heap_inv ((demo_user cs)\<lparr>kernelBase := p_heap pr\<rparr>) bs 0x100A000"
    by (simp add: heap_inv_def demo_user_def bs_def pr_def)
  moreover have "room k bs" using assms(2) by (simp add: room_def bs_def)
  moreover have "used bs = {(0x100901C, 104)}" by (auto simp: used_def bs_def)
  then have "\<forall>a\<in>{0x100901C..0x100901C + 100}. \<exists>(q, l)\<in>used bs. q \<le> a \<and> a < q + l" by simp
  moreover have "procs (demo_user cs) 0x1003000 = Some pr" "p_heap pr \<noteq> NULL" by (simp_all add: demo_user_def pr_def)
  ultimately have "process_heap k {0x100901C..0x100901C + 100} (demo_user cs)"
    unfolding process_heap_def by (intro exI [of _ "0x1003000"] exI [of _ pr] exI [of _ bs] exI [of _ "0x100A000"]) simp
  moreover have "cs = ringseq (Buffer (demo_user cs)) 0 2500 0 (length cs)"
    using assms(1) by (intro nth_equalityI) (simp_all add: ringseq_nth cell_def demo_user_def nth_append)
  then have "tty_is (demo_user cs) cs"
    using assms(1) fields(2,3) by (simp add: tty_is_def) (simp add: demo_user_def)
  moreover have "{0x100901C..0x100901C + 100 :: addr} \<inter> {SCREEN..<SCREEN + 4000} = {}" by auto
  ultimately show ?thesis using fields(1,4) unfolding user_ok_def by blast
qed

text \<open>C37. The line editor.  \<open>scanFF("%s")\<close> of the shell's library, called with a buffer of 101 bytes, reads exactly the
  typed line and its line feed, stores the characters that are left after the backspaces with a zero behind them, and
  returns 0; but a line that fills the buffer exactly is stored and reported as an overflow all the same.\<close>

theorem scanFF_edits_line:
  assumes "user_ok (k + 32 * length (typed @ LF # rest)) {b..b + 100} (typed @ LF # rest) s"
    and "plain typed" and "short 0 typed" and "length typed < fuel"
  shows "\<exists>t. scanFF (getchar env (Suc polls)) num fuel ''%s'' (Some [b]) None s =
      Ret (if length (edit [] typed) = 100 then 1 else 0) t \<and>
    user_ok (k + 32 * length rest) {b..b + 100} rest t \<and> text_at (ram t) b (edit [] typed)"
  by (rule shell_input.scanFF_reads [OF assms(1-3) order_refl assms(4)])

theorem scanFF_edits_line_witness:
  "\<exists>t. scanFF (getchar demo_env 1) (\<lambda>_. kreturn ()) 9 ''%s'' (Some [0x100901C]) None (demo_user (''lp'' @ [BS] @ ''s'' @ [LF])) =
     Ret 0 t \<and> text_at (ram t) 0x100901C ''ls''"
proof -
  have edit: "edit [] (''lp'' @ [BS] @ ''s'') = ''ls''" "short 0 (''lp'' @ [BS] @ ''s'')" "plain (''lp'' @ [BS] @ ''s'')"
    by (simp_all add: plain_def)
  have "user_ok (0 + 32 * length ((''lp'' @ [BS] @ ''s'') @ LF # [])) {0x100901C..0x100901C + 100} ((''lp'' @ [BS] @ ''s'') @ LF # [])
      (demo_user ((''lp'' @ [BS] @ ''s'') @ LF # []))"
    by (rule demo_user_ok) simp_all
  from scanFF_edits_line [OF this edit(3,2), of 9 demo_env 0 "\<lambda>_. kreturn ()"] edit(1) show ?thesis by auto
qed

text \<open>A line that is too long is cut.  When the buffer is full and one more character is typed, \<open>scanFF\<close> swallows that
  character, reports the overflow and leaves the rest of the line in the terminal, where the next call
  takes it for a line of its own.\<close>

theorem scanFF_cuts_line:
  assumes "user_ok (k + 32 * length (typed @ c # rest)) {b..b + 100} (typed @ c # rest) s"
    and "plain (typed @ [c])" and "c \<noteq> BS" and "short 0 typed" and "length (edit [] typed) = 100" and "length typed < fuel"
  shows "\<exists>t. scanFF (getchar env (Suc polls)) num fuel ''%s'' (Some [b]) None s = Ret 1 t \<and>
    user_ok (k + 32 * length rest) {b..b + 100} rest t \<and> text_at (ram t) b (edit [] typed)"
  by (rule shell_input.scanFF_overflows [OF assms(1,2,4,5,3) order_refl assms(6)])

theorem scanFF_cuts_line_witness:
  "\<exists>t. scanFF (getchar demo_env 1) (\<lambda>_. kreturn ()) 200 ''%s'' (Some [0x100901C]) None
      (demo_user (replicate 100 (CHR ''x'') @ CHR ''y'' # ''z'' @ [LF])) = Ret 1 t \<and> tty_is t (''z'' @ [LF])"
proof -
  define typed where "typed = replicate 100 (CHR ''x'')"
  define rest where "rest = ''z'' @ [LF]"
  have typed: "BS \<notin> set typed" "length typed = 100" "plain (typed @ ''y'')" by (simp_all add: typed_def plain_def)
  have edit: "edit [] typed = typed" "short 0 typed" using typed by (simp_all add: edit_no_BS short_no_BS)
  have "user_ok (0 + 32 * length (typed @ CHR ''y'' # rest)) {0x100901C..0x100901C + 100} (typed @ CHR ''y'' # rest)
      (demo_user (typed @ CHR ''y'' # rest))"
    by (rule demo_user_ok) (simp_all add: typed rest_def)
  from scanFF_cuts_line [OF this typed(3) _ edit(2), of 200 demo_env 0 "\<lambda>_. kreturn ()"] typed(2) edit(1)
  show ?thesis unfolding typed_def [symmetric] rest_def [symmetric] by (auto simp: user_ok_def)
qed

end
