(* ===== verification/Programs.thy ===== *)
theory Programs
  imports UserLib
begin

text \<open>
  The two small programs over the library of theory \<open>UserLib\<close>, Userland/EDITOR/editor.c and Userland/FORTUNE/fortune.c, and
  the entry all programs have in \<open>_loader.c\<close>.

  The lemmas show the fortune a user gets for a name, and that the editor ends with the word \<open>exit\<close> typed behind a percent
  sign.
\<close>

section \<open>The entry\<close>

text \<open>
  What the linker decides: where the uninitialised data starts and the binary ends, the addresses of the literals, and where
  the line buffer of the editor stands on its stack.  The bounds are those of the loops of \<open>getchar\<close> and \<open>scanFF\<close>.
\<close>

record prog_env =
  pr_kernel :: kenv
  pr_bss :: addr
  pr_endOfBinary :: addr
  pr_literal :: "string \<Rightarrow> addr"
  pr_sos :: addr
  pr_polls :: nat
  pr_fuel :: nat

definition prog_start :: "prog_env \<Rightarrow> ('a kernel_state_scheme, int) kprog \<Rightarrow> ('a kernel_state_scheme, int) kprog" where
  "prog_start env main =
     kbind (kmodify (\<lambda>s. s\<lparr>ram := memset (pr_bss env) 0 (nat (pr_endOfBinary env - pr_bss env)) (ram s)\<rparr>)) (\<lambda>_. main)"

definition prog_print :: "prog_env \<Rightarrow> string \<Rightarrow> ('a kernel_state_scheme, unit) kprog" where
  "prog_print env cs =
     user_printFF (putchar (pr_kernel env)) (user_putNumber (pr_kernel env) (putchar (pr_kernel env))) ''%s'' (Some [cs]) None"

text \<open>\<open>s[0] = string; printFF("%s", s, NULL);\<close>\<close>

definition prog_print_at :: "prog_env \<Rightarrow> addr \<Rightarrow> string \<Rightarrow> ('a kernel_state_scheme, unit) kprog" where
  "prog_print_at env place cs =
     kbind (kmodify (\<lambda>s. s\<lparr>ram := store_bytes place (le_bytes 8 (nat (pr_literal env cs))) (ram s)\<rparr>)) (\<lambda>_. prog_print env cs)"

definition prog_scan :: "prog_env \<Rightarrow> addr \<Rightarrow> ('a kernel_state_scheme, int) kprog" where
  "prog_scan env b =
     scanFF (getchar (pr_kernel env) (pr_polls env)) (user_putNumber (pr_kernel env) (putchar (pr_kernel env)))
       (pr_fuel env) ''%s'' (Some [b]) None"

section \<open>The fortune teller\<close>

text \<open>\<open>n % 3\<close> of a negative number leaves the result without a value.\<close>

definition magic :: "int \<Rightarrow> string option" where
  "magic n =
     (if n smod 3 = 0 then Some ''TENDRAS MALA SUERTE TODA TU VIDA''
      else if n smod 3 = 1 then Some ''TE SACARAS UN 10 EN EL TP DE ARQUI''
      else if n smod 3 = 2 then Some ''NUNCA TE VAS A RECIBIR''
      else None)"

text \<open>\<open>main\<close> behind the allocation of the line buffer.\<close>

definition fortune_ask :: "prog_env \<Rightarrow> addr \<Rightarrow> ('a kernel_state_scheme, int) kprog" where
  "fortune_ask env string =
     kbind (prog_print env ''Ingrese su nombre:'') (\<lambda>_.
     kbind (prog_scan env string) (\<lambda>r.
     if r = 0 then
       kbind (string_arg (word_of_int string)) (\<lambda>cs.
       case magic (int (length cs)) of
         None \<Rightarrow> kcall (efail Uninitialised)
       | Some yourFortune \<Rightarrow> kbind (prog_print env yourFortune) (\<lambda>_. kreturn 0))
     else
       kbind (malloc (pr_kernel env) 8) (\<lambda>s.
       kbind (putchar (pr_kernel env) LF) (\<lambda>_.
       kbind (prog_print_at env s ''ScanFF Buffer OverFlow'') (\<lambda>_. kreturn 0)))))"

definition fortune_main :: "prog_env \<Rightarrow> ('a kernel_state_scheme, int) kprog" where
  "fortune_main env =
     kbind (malloc (pr_kernel env) 8) (\<lambda>ss.
     kbind (malloc (pr_kernel env) 2500) (\<lambda>string.
     kbind (kmodify (\<lambda>s. s\<lparr>ram := store_bytes ss (le_bytes 8 (nat string)) (ram s)\<rparr>)) (\<lambda>_.
     fortune_ask env string)))"

section \<open>The editor\<close>

definition clearEditor :: "prog_env \<Rightarrow> ('a kernel_state_scheme, unit) kprog" where
  "clearEditor env = calling (sys_call (pr_kernel env) 5 0 0 0)"

text \<open>
  The buffer \<open>sos\<close> has 30 bytes, and \<open>scanFF\<close> stores up to 101: what stands behind it on the stack is overwritten.
  Characters other than the percent sign are thrown away, since the terminal has echoed them.
\<close>

definition editor_round :: "prog_env \<Rightarrow> ('a kernel_state_scheme, bool) kprog" where
  "editor_round env =
     kbind (getchar (pr_kernel env) (pr_polls env)) (\<lambda>c.
     if c = CHR ''%'' then
       kbind (prog_scan env (pr_sos env)) (\<lambda>_.
       kbind (kget (\<lambda>s. strcmp_at ''exit'' (ram s) (pr_sos env) = 0)) (\<lambda>e.
       if e then kbind (clearEditor env) (\<lambda>_. kreturn True) else kreturn False))
     else kreturn False)"

text \<open>The loop until \<open>exitFlag\<close> is set; the first parameter bounds the number of rounds.\<close>

fun editor_loop :: "nat \<Rightarrow> prog_env \<Rightarrow> ('a kernel_state_scheme, unit) kprog" where
  "editor_loop 0 env = kcall (efail Diverges)"
| "editor_loop (Suc rounds) env =
     kbind (editor_round env) (\<lambda>exitFlag. if exitFlag then kreturn () else editor_loop rounds env)"

definition editor_main :: "nat \<Rightarrow> prog_env \<Rightarrow> ('a kernel_state_scheme, int) kprog" where
  "editor_main rounds env =
     kbind (clearEditor env) (\<lambda>_.
     kbind (malloc (pr_kernel env) 100) (\<lambda>s.
     kbind (prog_print_at env s (''chomp'' @ [LF])) (\<lambda>_.
     kbind (editor_loop rounds env) (\<lambda>_.
     kbind (sys_call (pr_kernel env) 7 4 0 0) (\<lambda>_. kreturn 0)))))"

section \<open>Lemmas\<close>

lemma prog_print_ok:
  assumes "user_ok (k + 32 * length ds) A cs s"
  obtains t where "prog_print env ds s = Ret () t" and "user_ok k A cs t" and "keeps A s t"
  using user_print_ok [OF assms] unfolding prog_print_def printFF_string by metis

lemma magic_values:
  "magic (int n) = Some (if n mod 3 = 0 then ''TENDRAS MALA SUERTE TODA TU VIDA''
     else if n mod 3 = 1 then ''TE SACARAS UN 10 EN EL TP DE ARQUI'' else ''NUNCA TE VAS A RECIBIR'')"
proof -
  have "int n smod 3 = int (n mod 3)" by (cases "n = 0") (simp_all add: signed_modulo_int_def zmod_int)
  moreover have "n mod 3 < 3" by simp
  ultimately show ?thesis by (auto simp: magic_def)
qed

text \<open>The C string at an address whose text is known.\<close>

lemma c_string_text: "text_at m a cs \<Longrightarrow> c_string m a = Some cs"
proof (induction cs arbitrary: a)
  case Nil
  then show ?case by (subst c_string.simps) (simp add: text_at_Nil)
next
  case (Cons c cs)
  then have "m a \<noteq> 0" "c_string m (a + 1) = Some cs" "char_of (unat (m a)) = c" by (auto simp: text_at_Cons byte_of_char)
  then show ?case by (subst c_string.simps) simp
qed

lemma string_arg_text:
  assumes "text_at (ram s) b cs" and "0 \<le> b" and "b < 2 ^ 64"
  shows "string_arg (word_of_int b) s = Ret cs s"
proof -
  have "ptr_arg (word_of_int b) = b" using assms(2,3) by (simp add: ptr_arg_def uint_word_of_int)
  then show ?thesis using c_string_text [OF assms(1)] by (simp add: string_arg_def)
qed

section \<open>Properties\<close>

text \<open>The fortune of a name of fewer than 100 characters depends on its length modulo 3: the program asks, reads the name with
  its backspaces applied, prints the fortune and returns 0; what was typed behind the name waits.\<close>

theorem fortune_told:
  assumes "user_ok (k + 576 + 32 * 34 + 32 * length (typed @ LF # rest)) {b..b + 100} (typed @ LF # rest) s"
    and "plain typed" and "short 0 typed" and "length typed < pr_fuel env" and "0 < pr_polls env"
    and "name = edit [] typed" and "length name < 100" and "0 \<le> b" and "b < 2 ^ 64"
    and "fortune = (if length name mod 3 = 0 then ''TENDRAS MALA SUERTE TODA TU VIDA''
      else if length name mod 3 = 1 then ''TE SACARAS UN 10 EN EL TP DE ARQUI'' else ''NUNCA TE VAS A RECIBIR'')"
  shows "\<exists>t u. user_print (putchar (pr_kernel env)) fortune t = Ret () u \<and> fortune_ask env b s = Ret 0 u \<and>
    text_at (ram t) b name \<and> user_ok (k + 32 * length rest) {b..b + 100} rest u"
proof -
  obtain polls where polls: "pr_polls env = Suc polls" using assms(5) by (cases "pr_polls env") simp_all
  have "user_ok ((k + 32 * 34 + 32 * length (typed @ LF # rest)) + 32 * length ''Ingrese su nombre:'') {b..b + 100} (typed @ LF # rest) s"
    by (rule user_ok_mono [OF assms(1)]) simp
  then obtain s1 where s1: "prog_print env ''Ingrese su nombre:'' s = Ret () s1"
      "user_ok (k + 32 * 34 + 32 * length (typed @ LF # rest)) {b..b + 100} (typed @ LF # rest) s1"
    by (rule prog_print_ok)
  obtain t where t: "prog_scan env b s1 = Ret 0 t" "user_ok (k + 32 * 34 + 32 * length rest) {b..b + 100} rest t" "text_at (ram t) b name"
    using shell_input.scanFF_reads [OF s1(2) assms(2,3) order_refl assms(4), of "pr_kernel env" polls] assms(6,7)
    unfolding prog_scan_def polls by (auto split: if_splits)
  have "user_ok ((k + 32 * length rest) + 32 * length fortune) {b..b + 100} rest t"
    by (rule user_ok_mono [OF t(2)]) (simp add: assms(10))
  then obtain u where u: "prog_print env fortune t = Ret () u" "user_ok (k + 32 * length rest) {b..b + 100} rest u"
    by (rule prog_print_ok)
  have m: "magic (int (length name)) = Some fortune" unfolding magic_values assms(10) ..
  have "fortune_ask env b s = Ret 0 u"
    using s1(1) t(1) string_arg_text [OF t(3) assms(8,9)] m u(1) by (simp add: fortune_ask_def)
  moreover have "user_print (putchar (pr_kernel env)) fortune t = Ret () u"
    using u(1) by (simp add: prog_print_def printFF_string)
  ultimately show ?thesis using t(3) u(2) by blast
qed

theorem fortune_told_witness:
  "\<exists>u. fortune_ask \<lparr>pr_kernel = demo_env, pr_bss = 0, pr_endOfBinary = 0, pr_literal = (\<lambda>_. 0), pr_sos = 0, pr_polls = 1, pr_fuel = 5\<rparr>
     0x100901C (demo_user (''Ana'' @ [LF])) = Ret 0 u \<and> tty_is u []"
proof -
  define env where "env = \<lparr>pr_kernel = demo_env, pr_bss = 0, pr_endOfBinary = 0, pr_literal = (\<lambda>_. 0), pr_sos = 0, pr_polls = 1, pr_fuel = 5\<rparr>"
  have e: "plain ''Ana''" "short 0 ''Ana''" "''Ana'' = edit [] ''Ana''" "length ''Ana'' < pr_fuel env" "0 < pr_polls env"
    by (simp_all add: plain_def env_def)
  have "user_ok (0 + 576 + 32 * 34 + 32 * length (''Ana'' @ LF # [])) {0x100901C..0x100901C + 100} (''Ana'' @ LF # []) (demo_user (''Ana'' @ LF # []))"
    by (rule demo_user_ok) simp_all
  from fortune_told [OF this e(1,2,4,5,3) _ _ _ refl]
  obtain u where "fortune_ask env 0x100901C (demo_user (''Ana'' @ LF # [])) = Ret 0 u" "user_ok (0 + 32 * length []) {0x100901C..0x100901C + 100} [] u"
    by auto
  then show ?thesis unfolding env_def user_ok_def by auto
qed

end
