(* ===== verification/Shell.thy ===== *)
theory Shell
  imports UserLib
begin

text \<open>
  The shell of Userland/SHELL/shell.c: the prompt, the parser of commands and the commands, over the library of theory
  \<open>UserLib\<close> and the system calls.

  The lemmas show what the shell runs for every line, that a round of its main loop hands the line the user typed,
  backspaces applied, to the parser, and which commands read what an earlier line left behind.
\<close>

section \<open>State and environment\<close>

record shell_state = kernel_state +
  isAsynchronicCall :: bool

text \<open>
  What the linker decides is a parameter: the addresses of the literals and of the functions that are started as threads;
  so are the bounds of the loops of \<open>getchar\<close> and \<open>scanFF\<close>.
\<close>

datatype shell_function =
    F_helpShell | F_clearShell | F_printProcesses | F_echoShellON | F_echoShellOFF | F_killProcess | F_man | F_ls | F_while1

record shell_env =
  sh_kernel :: kenv
  sh_literal :: "string \<Rightarrow> addr"
  sh_function :: "shell_function \<Rightarrow> addr"
  sh_polls :: nat
  sh_fuel :: nat

section \<open>Messages\<close>

definition shell_putNumber :: "shell_env \<Rightarrow> int \<Rightarrow> ('a kernel_state_scheme, unit) kprog" where
  "shell_putNumber env = user_putNumber (sh_kernel env) (putchar (sh_kernel env))"

definition put_char :: "shell_env \<Rightarrow> char \<Rightarrow> ('a kernel_state_scheme, unit) kprog" where
  "put_char env c = kbind (putchar (sh_kernel env) c) (\<lambda>_. kreturn ())"

text \<open>\<open>s[0] = string; printFF("%s", s, NULL);\<close>\<close>

definition print_pointer :: "shell_env \<Rightarrow> addr \<Rightarrow> addr \<Rightarrow> string \<Rightarrow> ('a kernel_state_scheme, unit) kprog" where
  "print_pointer env place string cs =
     kbind (kmodify (\<lambda>s. s\<lparr>ram := store_bytes place (le_bytes 8 (nat string)) (ram s)\<rparr>)) (\<lambda>_.
     user_printFF (putchar (sh_kernel env)) (shell_putNumber env) ''%s'' (Some [cs]) None)"

definition print_literal :: "shell_env \<Rightarrow> addr \<Rightarrow> string \<Rightarrow> ('a kernel_state_scheme, unit) kprog" where
  "print_literal env place cs = print_pointer env place (sh_literal env cs) cs"

text \<open>\<open>runError\<close>, \<open>error\<close> and \<open>asyncError\<close> print the word the user typed and a message.\<close>

definition complain :: "string \<Rightarrow> shell_env \<Rightarrow> addr \<Rightarrow> ('a kernel_state_scheme, unit) kprog" where
  "complain message env buffer =
     kbind (malloc (sh_kernel env) 8) (\<lambda>s.
     kbind (string_arg (word_of_int buffer)) (\<lambda>cs.
     kbind (print_pointer env s buffer cs) (\<lambda>_.
     kbind (put_char env (CHR '':'')) (\<lambda>_.
     kbind (put_char env (CHR '' '')) (\<lambda>_.
     kbind (print_literal env s message) (\<lambda>_.
     put_char env LF))))))"

definition runError :: "shell_env \<Rightarrow> addr \<Rightarrow> ('a kernel_state_scheme, unit) kprog" where
  "runError = complain ''is not a valid program''"

definition shell_error :: "shell_env \<Rightarrow> addr \<Rightarrow> ('a kernel_state_scheme, unit) kprog" where
  "shell_error = complain ''command not found''"

definition asyncError :: "shell_env \<Rightarrow> addr \<Rightarrow> ('a kernel_state_scheme, unit) kprog" where
  "asyncError = complain ''is not a valid comand for &''"

text \<open>A literal and a line feed.\<close>

definition print_line :: "shell_env \<Rightarrow> string \<Rightarrow> ('a kernel_state_scheme, unit) kprog" where
  "print_line env cs =
     kbind (malloc (sh_kernel env) 8) (\<lambda>s. kbind (print_literal env s cs) (\<lambda>_. put_char env LF))"

definition helpShell :: "shell_env \<Rightarrow> ('a kernel_state_scheme, unit) kprog" where
  "helpShell env = print_line env
     (''Help'' @ [LF] @ '' the commands are clear, help, echo, ls , ps, & and man'' @ [LF] @
      '' write man '' @ [CHR 0x22] @ ''comand'' @ [CHR 0x22] @ '' for more information'')"

definition ls :: "shell_env \<Rightarrow> ('a kernel_state_scheme, unit) kprog" where
  "ls env = print_line env ''Programs: prodCons, philosophers, pipetest, editor, shell, fortune''"

definition printShellComand :: "shell_env \<Rightarrow> ('a kernel_state_scheme, unit) kprog" where
  "printShellComand env = kbind (malloc (sh_kernel env) 8) (\<lambda>s. print_literal env s ''shell>'')"

definition while1 :: "('a kernel_state_scheme, unit) kprog" where
  "while1 = kcall (efail Diverges)"

text \<open>The page \<open>man\<close> prints for the word at \<open>buffer\<close>.\<close>

definition man_page :: "(addr \<Rightarrow> 8 word) \<Rightarrow> addr \<Rightarrow> string" where
  "man_page m buffer =
     (if strcmp_at ''help'' m buffer = 0 then ''HELP'' @ [LF] @ '' use this comand to see all the comands''
      else if strcmp_at ''clear'' m buffer = 0 then ''CLEAR'' @ [LF] @ '' clear the video use by the shell''
      else if strcmp_at ''echo'' m buffer = 0
      then ''ECHO'' @ [LF] @ '' Use '' @ [CHR 0x22] @ ''echo on'' @ [CHR 0x22] @ '' to turn on the echo and '' @
           [CHR 0x22] @ ''echo off'' @ [CHR 0x22] @ '' to turn it off  ''
      else if strcmp_at ''ls'' m buffer = 0 then ''LS'' @ [LF] @ '' display all programs''
      else if strcmp_at ''ps'' m buffer = 0 then ''ps'' @ [LF] @ '' list all current processes''
      else if strcmp_at ''&'' m buffer = 0 then ''&'' @ [LF] @ '' run a command in background. Use: &command''
      else if strcmp_at ''./'' m buffer = 0 then ''./'' @ [LF] @ '' run a program. Use: ./programName''
      else ''invalid command for man'')"

definition man :: "shell_env \<Rightarrow> addr \<Rightarrow> ('a kernel_state_scheme, unit) kprog" where
  "man env buffer =
     kbind (malloc (sh_kernel env) 8) (\<lambda>s.
     kbind (kget (\<lambda>st. man_page (ram st) buffer)) (\<lambda>page.
     kbind (print_literal env s page) (\<lambda>_. put_char env LF)))"

section \<open>Calls of the kernel\<close>

definition kernel_call :: "shell_env \<Rightarrow> int \<Rightarrow> int \<Rightarrow> int \<Rightarrow> ('a kernel_state_scheme, unit) kprog" where
  "kernel_call env index p1 p2 = calling (sys_call (sh_kernel env) index (word_of_int p1) (word_of_int p2) 0)"

definition echoShellON :: "shell_env \<Rightarrow> ('a kernel_state_scheme, unit) kprog" where
  "echoShellON env = kernel_call env 6 1 0"

definition echoShellOFF :: "shell_env \<Rightarrow> ('a kernel_state_scheme, unit) kprog" where
  "echoShellOFF env = kernel_call env 6 0 0"

definition clearShell :: "shell_env \<Rightarrow> ('a kernel_state_scheme, unit) kprog" where
  "clearShell env = kernel_call env 5 0 0"

definition undoBackwards :: "shell_env \<Rightarrow> ('a kernel_state_scheme, unit) kprog" where
  "undoBackwards env = kernel_call env 9 7 0"

definition changeToUserEnvirnment :: "shell_env \<Rightarrow> ('a kernel_state_scheme, unit) kprog" where
  "changeToUserEnvirnment env = kbind (kernel_call env 8 6 4) (\<lambda>_. undoBackwards env)"

definition changeToSehllEnvironment :: "shell_env \<Rightarrow> ('a kernel_state_scheme, unit) kprog" where
  "changeToSehllEnvironment env = kernel_call env 8 0 4"

definition shell_printProcesses :: "shell_env \<Rightarrow> ('a kernel_state_scheme, unit) kprog" where
  "shell_printProcesses env = kernel_call env 10 0 0"

definition killProcess :: "shell_env \<Rightarrow> int \<Rightarrow> ('a kernel_state_scheme, unit) kprog" where
  "killProcess env pid = kernel_call env 11 pid 0"

text \<open>The system call that starts a program replaces the shell; only a wrong name comes back.\<close>

definition run :: "shell_env \<Rightarrow> addr \<Rightarrow> ('a kernel_state_scheme, unit) kprog" where
  "run env c s =
     kbind (let m = ram s in
            if strcmp_at ''prodCons'' m c = 0 then kernel_call env 7 1 1
            else if strcmp_at ''pipeTest'' m c = 0 then kernel_call env 7 1 2
            else if strcmp_at ''philosophers'' m c = 0 then kernel_call env 7 1 4
            else if strcmp_at ''editor'' m c = 0 then kernel_call env 7 2 0
            else if strcmp_at ''fortune'' m c = 0 then kernel_call env 7 3 0
            else if strcmp_at ''pagefault'' m c = 0 then kernel_call env 7 5 0
            else runError env c) (\<lambda>_. echoShellON env) s"

section \<open>The parsers\<close>

text \<open>\<open>&\<close>: the command runs in a new thread of the shell.\<close>

definition start_thread :: "shell_env \<Rightarrow> shell_function \<Rightarrow> int \<Rightarrow> ('a kernel_state_scheme, unit) kprog" where
  "start_thread env f arg = kernel_call env 12 (sh_function env f) arg"

definition clear_async :: "('a shell_state_scheme, unit) kprog" where
  "clear_async = kmodify (\<lambda>s. s\<lparr>isAsynchronicCall := False\<rparr>)"

text \<open>\<open>*(buffer + 4) - '0'\<close>.\<close>

definition pid_digit :: "(addr \<Rightarrow> 8 word) \<Rightarrow> addr \<Rightarrow> int" where
  "pid_digit m buffer = sint (m (buffer + 4)) - 48"

definition asyncParser :: "shell_env \<Rightarrow> addr \<Rightarrow> ('a shell_state_scheme, unit) kprog" where
  "asyncParser env buffer s =
     (let m = ram s in
      if strcmp_at ''help'' m buffer = 0 then start_thread env F_helpShell 0 s
      else if strcmp_at ''clear'' m buffer = 0 then start_thread env F_clearShell 0 s
      else if strcmp_at ''ps'' m buffer = 0 then start_thread env F_printProcesses 0 s
      else if strcmpN_at ''echo'' m buffer 4 = 0 then
        if strcmp_at ''on'' m (buffer + 5) = 0 then start_thread env F_echoShellON 0 s
        else start_thread env F_echoShellOFF 0 s
      else if strcmpN_at ''kill'' m buffer 4 = 0 then start_thread env F_killProcess (pid_digit m buffer) s
      else if m buffer = byte_of (CHR ''.'') \<and> m (buffer + 1) = byte_of (CHR ''/'') then run env (buffer + 2) s
      else if strcmpN_at ''man'' m buffer 3 = 0 then start_thread env F_man (buffer + 4) s
      else if strcmp_at ''ls'' m buffer = 0 then start_thread env F_ls 0 s
      else if strcmp_at ''while1'' m buffer = 0 then start_thread env F_while1 0 s
      else if m buffer = byte_of LF then Ret () s
      else kbind (asyncError env buffer) (\<lambda>_. clear_async) s)"

definition parser :: "shell_env \<Rightarrow> addr \<Rightarrow> ('a shell_state_scheme, unit) kprog" where
  "parser env buffer s =
     (let m = ram s in
      if m buffer = byte_of (CHR ''&'') then
        kbind (kmodify (\<lambda>s. s\<lparr>isAsynchronicCall := True\<rparr>)) (\<lambda>_.
        kbind (asyncParser env (buffer + 1)) (\<lambda>_. clear_async)) s
      else if strcmp_at ''help'' m buffer = 0 then helpShell env s
      else if strcmp_at ''clear'' m buffer = 0 then clearShell env s
      else if strcmp_at ''ps'' m buffer = 0 then shell_printProcesses env s
      else if strcmpN_at ''echo'' m buffer 4 = 0 then
        if strcmp_at ''on'' m (buffer + 5) = 0 then echoShellON env s else echoShellOFF env s
      else if strcmpN_at ''kill'' m buffer 4 = 0 then killProcess env (pid_digit m buffer) s
      else if m buffer = byte_of (CHR ''.'') \<and> m (buffer + 1) = byte_of (CHR ''/'') then run env (buffer + 2) s
      else if strcmpN_at ''man'' m buffer 3 = 0 then man env (buffer + 4) s
      else if strcmp_at ''while1'' m buffer = 0 then while1 s
      else if strcmp_at ''ls'' m buffer = 0 then ls env s
      else if m buffer = byte_of LF then Ret () s
      else kbind (shell_error env buffer) (\<lambda>_. clear_async) s)"

section \<open>The main loop\<close>

definition shell_round :: "shell_env \<Rightarrow> addr \<Rightarrow> ('a shell_state_scheme, unit) kprog" where
  "shell_round env sos =
     kbind (put_char env LF) (\<lambda>_.
     kbind (changeToSehllEnvironment env) (\<lambda>_.
     kbind (printShellComand env) (\<lambda>_.
     kbind (changeToUserEnvirnment env) (\<lambda>_.
     kbind (scanFF (getchar (sh_kernel env) (sh_polls env)) (shell_putNumber env) (sh_fuel env) ''%s'' (Some [sos]) None) (\<lambda>r.
     if r = 0 then kbind (changeToSehllEnvironment env) (\<lambda>_. parser env sos)
     else kbind (malloc (sh_kernel env) 8) (\<lambda>s.
          kbind (put_char env LF) (\<lambda>_.
          print_literal env s ''ScanFF Buffer OverFlow'')))))))"

text \<open>The loop never ends; the parameter is the number of rounds looked at.\<close>

fun shell_loop :: "shell_env \<Rightarrow> nat \<Rightarrow> addr \<Rightarrow> ('a shell_state_scheme, unit) kprog" where
  "shell_loop env 0 sos = kcall (efail Diverges)"
| "shell_loop env (Suc n) sos = kbind (shell_round env sos) (\<lambda>_. shell_loop env n sos)"

definition shell_main :: "shell_env \<Rightarrow> nat \<Rightarrow> ('a shell_state_scheme, unit) kprog" where
  "shell_main env rounds =
     kbind (malloc (sh_kernel env) 8) (\<lambda>ss.
     kbind (malloc (sh_kernel env) 2500) (\<lambda>sos.
     kbind (kmodify (\<lambda>s. s\<lparr>ram := store_bytes ss (le_bytes 8 (nat sos)) (ram s)\<rparr>)) (\<lambda>_.
     shell_loop env rounds sos)))"

section \<open>What a line means\<close>

declare strcmp_at.simps [simp del] strcmpN_at.simps [simp del]

datatype command =
    Cmd_help | Cmd_clear | Cmd_ps | Cmd_echo bool | Cmd_kill int | Cmd_run string | Cmd_man string | Cmd_while1 | Cmd_ls
  | Cmd_nothing | Cmd_unknown

definition command_of :: "string \<Rightarrow> command" where
  "command_of t =
     (if t = ''help'' then Cmd_help
      else if t = ''clear'' then Cmd_clear
      else if t = ''ps'' then Cmd_ps
      else if take 4 t = ''echo'' then Cmd_echo (drop 5 t = ''on'')
      else if take 4 t = ''kill'' then Cmd_kill ((if length t = 4 then 0 else schar (t ! 4)) - 48)
      else if take 2 t = ''./'' then Cmd_run (drop 2 t)
      else if take 3 t = ''man'' then Cmd_man (drop 4 t)
      else if t = ''while1'' then Cmd_while1
      else if t = ''ls'' then Cmd_ls
      else if take 1 t = [LF] then Cmd_nothing
      else Cmd_unknown)"

text \<open>The programs \<open>run\<close> knows, with the arguments of the system call.\<close>

definition programs :: "(string \<times> int \<times> int) list" where
  "programs = [(''prodCons'', 1, 1), (''pipeTest'', 1, 2), (''philosophers'', 1, 4), (''editor'', 2, 0),
     (''fortune'', 3, 0), (''pagefault'', 5, 0)]"

definition run_named :: "shell_env \<Rightarrow> string \<Rightarrow> addr \<Rightarrow> ('a kernel_state_scheme, unit) kprog" where
  "run_named env p c =
     kbind (case map_of programs p of Some (n, d) \<Rightarrow> kernel_call env 7 n d | None \<Rightarrow> runError env c) (\<lambda>_. echoShellON env)"

text \<open>What the shell does for a command at \<open>b\<close>, itself or in a thread.\<close>

fun obey :: "shell_env \<Rightarrow> addr \<Rightarrow> command \<Rightarrow> ('a shell_state_scheme, unit) kprog" where
  "obey env b Cmd_help = helpShell env"
| "obey env b Cmd_clear = clearShell env"
| "obey env b Cmd_ps = shell_printProcesses env"
| "obey env b (Cmd_echo on) = (if on then echoShellON env else echoShellOFF env)"
| "obey env b (Cmd_kill pid) = killProcess env pid"
| "obey env b (Cmd_run p) = run_named env p (b + 2)"
| "obey env b (Cmd_man p) = man env (b + 4)"
| "obey env b Cmd_while1 = while1"
| "obey env b Cmd_ls = ls env"
| "obey env b Cmd_nothing = kreturn ()"
| "obey env b Cmd_unknown = kbind (shell_error env b) (\<lambda>_. clear_async)"

fun obey_async :: "shell_env \<Rightarrow> addr \<Rightarrow> command \<Rightarrow> ('a shell_state_scheme, unit) kprog" where
  "obey_async env b Cmd_help = start_thread env F_helpShell 0"
| "obey_async env b Cmd_clear = start_thread env F_clearShell 0"
| "obey_async env b Cmd_ps = start_thread env F_printProcesses 0"
| "obey_async env b (Cmd_echo on) = start_thread env (if on then F_echoShellON else F_echoShellOFF) 0"
| "obey_async env b (Cmd_kill pid) = start_thread env F_killProcess pid"
| "obey_async env b (Cmd_run p) = run_named env p (b + 2)"
| "obey_async env b (Cmd_man p) = start_thread env F_man (b + 4)"
| "obey_async env b Cmd_while1 = start_thread env F_while1 0"
| "obey_async env b Cmd_ls = start_thread env F_ls 0"
| "obey_async env b Cmd_nothing = kreturn ()"
| "obey_async env b Cmd_unknown = kbind (asyncError env b) (\<lambda>_. clear_async)"

lemma byte_of_inject: "byte_of a = byte_of b \<longleftrightarrow> a = b"
  by (metis byte_of_char(1))

lemma first_char: "text_at m a t \<Longrightarrow> c \<noteq> CHR 0x00 \<Longrightarrow> m a = byte_of c \<longleftrightarrow> take 1 t = [c]"
  by (cases t) (auto simp: text_at_Nil text_at_Cons byte_of_inject byte_of_zero dest: sym)

lemma first_chars:
  assumes "text_at m a t" and "c \<noteq> CHR 0x00" and "d \<noteq> CHR 0x00"
  shows "m a = byte_of c \<and> m (a + 1) = byte_of d \<longleftrightarrow> take 2 t = [c, d]"
proof (cases t)
  case (Cons e es)
  then have "m a = byte_of e" "text_at m (a + 1) es" using assms(1) by (auto simp: text_at_Cons)
  then show ?thesis using first_char [of m "a + 1" es d] assms(3) Cons
    by (auto simp: byte_of_inject numeral_2_eq_2 take_Suc split: list.splits)
qed (use assms in \<open>auto simp: text_at_Nil byte_of_zero dest: sym\<close>)

lemma strcmp_at_iff: "text_at m a t \<Longrightarrow> strcmp_at cs m a = 0 \<longleftrightarrow> t = cs"
  by (auto simp: strcmp_at_text strcmp_zero_iff)

lemma strcmpN_at_iff: "text_at m a t \<Longrightarrow> n = length cs \<Longrightarrow> strcmpN_at cs m a n = 0 \<longleftrightarrow> take n t = cs"
  by (auto simp: strcmpN_at_text strcmpN_take strcmp_zero_iff)

lemma pid_digit_text:
  assumes "text_at m a t" and "take 4 t = ''kill''"
  shows "pid_digit m a = (if length t = 4 then 0 else schar (t ! 4)) - 48"
proof -
  have len: "4 \<le> length t" using arg_cong [OF assms(2), of length] by simp
  then have rest: "text_at m (a + 4) (drop 4 t)" using text_at_drop [OF assms(1), of 4] by simp
  show ?thesis
  proof (cases "length t = 4")
    case True
    then show ?thesis using rest by (simp add: pid_digit_def text_at_Nil)
  next
    case False
    then have "drop 4 t = t ! 4 # drop 5 t" using len Cons_nth_drop_Suc [of 4 t] by simp
    then have "m (a + 4) = byte_of (t ! 4)" using rest by (simp add: text_at_Cons)
    then show ?thesis using False by (simp add: pid_digit_def sint_byte_of)
  qed
qed

lemma echo_argument:
  assumes "text_at m a t" and "take 4 t = ''echo''" and "t \<noteq> ''echo''"
  shows "strcmp_at cs m (a + 5) = 0 \<longleftrightarrow> drop 5 t = cs"
proof -
  have "4 \<le> length t" using arg_cong [OF assms(2), of length] by simp
  moreover have "length t \<noteq> 4" using assms(2,3) by auto
  ultimately have "text_at m (a + 5) (drop 5 t)" using text_at_drop [OF assms(1), of 5] by simp
  then show ?thesis by (rule strcmp_at_iff)
qed

lemma run_by_name:
  assumes "text_at (ram s) c p"
  shows "run env c s = run_named env p c s"
  unfolding run_def run_named_def programs_def Let_def strcmp_at_iff [OF assms] by simp

lemma run_after:
  assumes "text_at (ram s) b t" and "take 2 t = ''./''"
  shows "run env (b + 2) s = run_named env (drop 2 t) (b + 2) s"
proof -
  have "2 \<le> length t" using arg_cong [OF assms(2), of length] by simp
  then show ?thesis using run_by_name [of s "b + 2"] text_at_drop [OF assms(1), of 2] by simp
qed

text \<open>The tests of the two parsers, on the text.\<close>

lemma parser_tests:
  assumes "text_at m b t"
  shows "strcmp_at cs m b = 0 \<longleftrightarrow> t = cs" "strcmpN_at ''echo'' m b 4 = 0 \<longleftrightarrow> take 4 t = ''echo''"
    "strcmpN_at ''kill'' m b 4 = 0 \<longleftrightarrow> take 4 t = ''kill''" "strcmpN_at ''man'' m b 3 = 0 \<longleftrightarrow> take 3 t = ''man''"
    "m b = byte_of (CHR ''.'') \<and> m (b + 1) = byte_of (CHR ''/'') \<longleftrightarrow> take 2 t = ''./''"
    "m b = byte_of LF \<longleftrightarrow> take 1 t = [LF]" "m b = byte_of (CHR ''&'') \<longleftrightarrow> take 1 t = ''&''"
proof -
  show "strcmp_at cs m b = 0 \<longleftrightarrow> t = cs" by (rule strcmp_at_iff [OF assms])
  show "strcmpN_at ''echo'' m b 4 = 0 \<longleftrightarrow> take 4 t = ''echo''" "strcmpN_at ''kill'' m b 4 = 0 \<longleftrightarrow> take 4 t = ''kill''"
    "strcmpN_at ''man'' m b 3 = 0 \<longleftrightarrow> take 3 t = ''man''" by (rule strcmpN_at_iff [OF assms]; simp)+
  show "m b = byte_of (CHR ''.'') \<and> m (b + 1) = byte_of (CHR ''/'') \<longleftrightarrow> take 2 t = ''./''"
    by (rule first_chars [OF assms]) simp_all
  show "m b = byte_of LF \<longleftrightarrow> take 1 t = [LF]" "m b = byte_of (CHR ''&'') \<longleftrightarrow> take 1 t = ''&''"
    by (rule first_char [OF assms]; simp)+
qed

lemma asyncParser_obeys:
  assumes "text_at (ram s) b t" and "t \<noteq> ''echo''"
  shows "asyncParser env b s = obey_async env b (command_of t) s"
proof (cases "t = ''while1''")
  case True
  then show ?thesis unfolding asyncParser_def command_of_def Let_def parser_tests [OF assms(1)] by simp
next
  case False
  show ?thesis
    unfolding asyncParser_def command_of_def Let_def parser_tests [OF assms(1)] if_not_P [OF False]
      if_distrib [where f = "\<lambda>c. obey_async env b c s"] obey_async.simps
    by (intro if_cong refl)
      (simp_all add: pid_digit_text [OF assms(1)] echo_argument [OF assms(1) _ assms(2)] run_after [OF assms(1)])
qed

lemma parser_obeys:
  assumes "text_at (ram s) b t" and "t \<noteq> ''echo''" and "take 1 t \<noteq> ''&''"
  shows "parser env b s = obey env b (command_of t) s"
  unfolding parser_def command_of_def Let_def parser_tests [OF assms(1)] if_not_P [OF assms(3)]
    if_distrib [where f = "\<lambda>c. obey env b c s"] obey.simps
  by (intro if_cong refl)
    (simp_all add: pid_digit_text [OF assms(1)] echo_argument [OF assms(1) _ assms(2)] run_after [OF assms(1)])

section \<open>A round of the main loop\<close>

text \<open>The shell's changes of the window put the cursor at a column of it.\<close>

lemma window_ok:
  assumes "user_ok k A cs s" and "f = 0 \<or> f = 6"
  obtains t where "kernel_call env 8 f 4 s = Ret () t" and "user_ok k A cs t" and "keeps A s t"
proof -
  have table: "sysCalls s = call_table" using assms(1) by (simp add: user_ok_def)
  have call8: "syscallHandler e 8 a b c s = sys_call_changeModuleEnvironmetC a b s" for e a b c
    using syscallHandler_number [OF table, of 8] by (simp add: call_table_nth numbered_def)
  define t where "t = changeStartModule f 4 s"
  have t: "t = s\<lparr>jStartModule := 4, iStartModule := f, cur_i := f\<rparr>"
    unfolding t_def changeStartModule_def by (rule if_not_P) (use assms(2) in auto)
  have "process_heap k A t" by (rule process_heap_cong [of _ _ s]) (use assms(1) in \<open>simp_all add: user_ok_def t\<close>)
  then have "user_ok k A cs t" using assms by (auto simp: user_ok_def t tty_is_def cursor_ok_def)
  moreover have "int_arg (word_of_int f) = f" "int_arg (word_of_int 4) = 4" using assms(2) by (auto simp: int_arg_def)
  then have "sys_call_changeModuleEnvironmetC (word_of_int f) (word_of_int 4) s = Ret 0 t"
    by (simp add: sys_call_changeModuleEnvironmetC_def returning_def kbind_def t_def)
  then have "kernel_call env 8 f 4 s = Ret () t" by (simp add: kernel_call_def sys_call_def calling_def kbind_def call8)
  ultimately show thesis by (intro that [of t]) (simp_all add: keeps_def t)
qed

lemma backwards_ok:
  assumes "user_ok k A cs s"
  obtains t where "undoBackwards env s = Ret () t" and "user_ok k A cs t" and "keeps A s t"
proof -
  have table: "sysCalls s = call_table" using assms by (simp add: user_ok_def)
  define t where "t = changeStopBackwards 7 s"
  have "process_heap k A t"
    by (rule process_heap_cong [of _ _ s]) (use assms in \<open>simp_all add: user_ok_def t_def changeStopBackwards_def\<close>)
  then have "user_ok k A cs t" using assms by (simp add: user_ok_def t_def changeStopBackwards_def tty_is_def cursor_ok_def)
  moreover have "undoBackwards env s = Ret () t"
    using syscallHandler_number [OF table, of 9]
    by (simp add: undoBackwards_def kernel_call_def sys_call_def calling_def call_table_nth numbered_def kbind_def returning_def
        sys_call_undoBackwardsC_def t_def int_arg_def)
  ultimately show thesis by (intro that [of t]) (simp_all add: keeps_def t_def changeStopBackwards_def)
qed

lemma put_char_ok:
  assumes "user_ok (k + 32) A cs s"
  obtains t where "put_char env c s = Ret () t" and "user_ok k A cs t" and "keeps A s t"
  by (rule putchar_ok [OF assms, of "sh_kernel env" c]) (use that in \<open>simp add: put_char_def\<close>)

lemma keeps_store_bytes:
  "A \<inter> {a..<a + int (length bs)} = {} \<Longrightarrow> ram t = store_bytes a bs (ram s) \<Longrightarrow> keeps A s t"
  by (force simp: keeps_def store_bytes_at)

lemma print_literal_ok:
  assumes "user_ok (k + 32 * length ds) A cs s" and "A \<inter> {place..<place + 8} = {}"
  obtains t where "print_literal env place ds s = Ret () t" and "user_ok k A cs t" and "keeps A s t"
proof -
  define v where "v = s\<lparr>ram := store_bytes place (le_bytes 8 (nat (sh_literal env ds))) (ram s)\<rparr>"
  have v: "user_ok (k + 32 * length ds) A cs v" unfolding v_def by (rule user_ok_ram [OF assms(1)])
  have "keeps A s v" by (rule keeps_store_bytes [of _ place]) (use assms(2) in \<open>simp_all add: v_def le_bytes_length\<close>)
  moreover obtain t where "user_print (putchar (sh_kernel env)) ds v = Ret () t" "user_ok k A cs t" "keeps A v t"
    by (rule user_print_ok [OF v])
  ultimately show thesis
    using keeps_trans [of A s v t] by (intro that [of t]) (simp_all add: print_literal_def print_pointer_def printFF_string v_def)
qed

lemma prompt_ok:
  assumes "user_ok (k + 228) A cs s"
  obtains t where "printShellComand env s = Ret () t" and "user_ok k A cs t" and "keeps A s t"
proof -
  have "user_ok (k + 32 * length ''shell>'' + cost (word_of_int 8)) A cs s"
    by (rule user_ok_mono [OF assms]) (simp add: cost_small)
  then obtain a u where a: "malloc (sh_kernel env) 8 s = Ret a u" "0 < a" "a < 2 ^ 31" "A \<inter> {a..<a + 8} = {}"
      "user_ok (k + 32 * length ''shell>'') A cs u" "ram u = ram s"
    by (rule user_malloc) simp_all
  obtain t where t: "print_literal env a ''shell>'' u = Ret () t" "user_ok k A cs t" "keeps A u t"
    by (rule print_literal_ok [OF a(5,4)])
  show thesis using a(1,6) t by (intro that [of t]) (simp_all add: printShellComand_def keeps_def)
qed

lemma shell_prompts:
  assumes "user_ok (k + 260) A cs s"
  obtains t where "user_ok k A cs t" and "shell_round env sos s =
    kbind (scanFF (getchar (sh_kernel env) (sh_polls env)) (shell_putNumber env) (sh_fuel env) ''%s'' (Some [sos]) None) (\<lambda>r.
     if r = 0 then kbind (changeToSehllEnvironment env) (\<lambda>_. parser env sos)
     else kbind (malloc (sh_kernel env) 8) (\<lambda>s.
          kbind (put_char env LF) (\<lambda>_.
          print_literal env s ''ScanFF Buffer OverFlow''))) t"
proof -
  have "user_ok ((k + 228) + 32) A cs s" by (rule user_ok_mono [OF assms]) simp
  then obtain s1 where s1: "put_char env LF s = Ret () s1" "user_ok (k + 228) A cs s1" by (rule put_char_ok)
  obtain s2 where s2: "kernel_call env 8 0 4 s1 = Ret () s2" "user_ok (k + 228) A cs s2"
    by (rule window_ok [OF s1(2), of 0]) simp
  obtain s3 where s3: "printShellComand env s2 = Ret () s3" "user_ok k A cs s3" by (rule prompt_ok [OF s2(2)])
  obtain s4 where s4: "kernel_call env 8 6 4 s3 = Ret () s4" "user_ok k A cs s4" by (rule window_ok [OF s3(2), of 6]) simp
  obtain t where t: "undoBackwards env s4 = Ret () t" "user_ok k A cs t" by (rule backwards_ok [OF s4(2)])
  show thesis
    using s1(1) s2(1) s3(1) s4(1) t
    by (intro that [of t]) (simp_all add: shell_round_def changeToSehllEnvironment_def changeToUserEnvirnment_def)
qed

lemma shell_reads:
  assumes "user_ok (k + 260 + 32 * length (typed @ LF # rest)) {sos..sos + 100} (typed @ LF # rest) s"
    and "plain typed" and "short 0 typed" and "length (edit [] typed) < 100"
    and "length typed < sh_fuel env" and "0 < sh_polls env"
  obtains t where "shell_round env sos s = parser env sos t" and "user_ok (k + 32 * length rest) {sos..sos + 100} rest t"
    and "text_at (ram t) sos (edit [] typed)"
proof -
  define line where "line = edit [] typed"
  have "user_ok (k + 32 * length (typed @ LF # rest) + 260) {sos..sos + 100} (typed @ LF # rest) s"
    by (rule user_ok_mono [OF assms(1)]) simp
  then obtain s1 where s1: "user_ok (k + 32 * length (typed @ LF # rest)) {sos..sos + 100} (typed @ LF # rest) s1"
    and round: "shell_round env sos s =
      kbind (scanFF (getchar (sh_kernel env) (sh_polls env)) (shell_putNumber env) (sh_fuel env) ''%s'' (Some [sos]) None) (\<lambda>r.
       if r = 0 then kbind (changeToSehllEnvironment env) (\<lambda>_. parser env sos)
       else kbind (malloc (sh_kernel env) 8) (\<lambda>s.
            kbind (put_char env LF) (\<lambda>_.
            print_literal env s ''ScanFF Buffer OverFlow''))) s1"
    by (rule shell_prompts)
  obtain polls where polls: "sh_polls env = Suc polls" using assms(6) by (cases "sh_polls env") simp_all
  obtain u where u: "scanFF (getchar (sh_kernel env) (Suc polls)) (shell_putNumber env) (sh_fuel env) ''%s'' (Some [sos]) None s1 =
        Ret (if length line = 100 then 1 else 0) u"
      "user_ok (k + 32 * length rest) {sos..sos + 100} rest u" "text_at (ram u) sos line"
    using shell_input.scanFF_reads [OF s1 assms(2,3) _ assms(5), of sos "sh_kernel env" polls "shell_putNumber env"]
    unfolding line_def by auto
  obtain t where t: "kernel_call env 8 0 4 u = Ret () t" "user_ok (k + 32 * length rest) {sos..sos + 100} rest t"
      "keeps {sos..sos + 100} u t"
    by (rule window_ok [OF u(2), of 0]) simp
  have len: "length line < 100" using assms(4) by (simp add: line_def)
  have "ram t (sos + int i) = ram u (sos + int i)" if "i < length (map byte_of line @ [0])" for i
    using t(3) that len by (simp add: keeps_def)
  then have "text_at (ram t) sos line" using u(3) by (simp add: text_at_def bytes_at_def)
  moreover have "shell_round env sos s = parser env sos t"
    unfolding round polls using u(1) t(1) len by (simp add: changeToSehllEnvironment_def)
  ultimately show thesis using t(2) by (intro that [of t]) (simp_all add: line_def)
qed

section \<open>Properties\<close>

text \<open>A shell whose line buffer is that of \<open>demo_user\<close>.\<close>

definition demo_shell :: "string \<Rightarrow> shell_state" where
  "demo_shell cs = kernel_state.extend (demo_user cs) \<lparr>isAsynchronicCall = False\<rparr>"

definition demo_shell_env :: shell_env where
  "demo_shell_env = \<lparr>sh_kernel = demo_env, sh_literal = (\<lambda>_. 0xC01000), sh_function = (\<lambda>_. 0xC00100), sh_polls = 5, sh_fuel = 200\<rparr>"

lemma demo_shell_ok:
  assumes "length cs < 2500" and "k \<le> 3900"
  shows "user_ok k {0x100901C..0x100901C + 100} cs (demo_shell cs)"
proof -
  have same: "procs (demo_shell cs) = procs (demo_user cs)" "slots (demo_shell cs) = slots (demo_user cs)"
      "current (demo_shell cs) = current (demo_user cs)" "tblocks (demo_shell cs) = tblocks (demo_user cs)"
      "sysCalls (demo_shell cs) = sysCalls (demo_user cs)"
      "cursor_ok (demo_shell cs) = cursor_ok (demo_user cs)" "tty_is (demo_shell cs) cs = tty_is (demo_user cs) cs"
    by (simp_all add: demo_shell_def kernel_state.defs cursor_ok_def tty_is_def)
  have user: "user_ok k {0x100901C..0x100901C + 100} cs (demo_user cs)" by (rule demo_user_ok [OF assms])
  obtain p pr bs e where p: "getCurrentProcess (demo_user cs) = Inr (p, demo_user cs)" "p \<noteq> NULL"
      "procs (demo_user cs) p = Some pr" "p_heap pr \<noteq> NULL" "heap_inv ((demo_user cs)\<lparr>kernelBase := p_heap pr\<rparr>) bs e"
      "room k bs" "\<forall>a\<in>{0x100901C..0x100901C + 100}. \<exists>(q, l)\<in>used bs. q \<le> a \<and> a < q + l"
    using user unfolding user_ok_def process_heap_def by blast
  have "getCurrentProcess (demo_shell cs) = Inr (p, demo_shell cs)"
    using p(1) same(2,3) by (auto simp: getCurrentProcess_def ebind_def deref_def split: option.splits)
  then have "process_heap k {0x100901C..0x100901C + 100} (demo_shell cs)"
    using p(2-7) same(1,4) unfolding process_heap_def
    by (intro exI [of _ p] exI [of _ pr] exI [of _ bs] exI [of _ e]) (simp add: heap_inv_def)
  then show ?thesis using user same(5-7) unfolding user_ok_def by simp
qed

text \<open>C38. A line of the user reaches the command it names.  If the line is short enough, a round of the main loop
  ends in the function for the command the line stands for once the backspaces are applied, with nothing of
  the line left in the terminal and the program's memory and the screen in order; whatever was typed behind it waits.\<close>

theorem shell_round_obeys:
  assumes "user_ok (k + 260 + 32 * length (typed @ LF # rest)) {sos..sos + 100} (typed @ LF # rest) s"
    and "plain typed" and "short 0 typed" and "length typed < sh_fuel env" and "0 < sh_polls env"
    and "line = edit [] typed" and "length line < 100" and "line \<noteq> ''echo''" and "take 1 line \<noteq> ''&''"
  shows "\<exists>t. shell_round env sos s = obey env sos (command_of line) t \<and>
    user_ok (k + 32 * length rest) {sos..sos + 100} rest t \<and> text_at (ram t) sos line"
proof -
  obtain t where "shell_round env sos s = parser env sos t" "user_ok (k + 32 * length rest) {sos..sos + 100} rest t"
      "text_at (ram t) sos line"
    using shell_reads [OF assms(1-3) _ assms(4,5)] assms(6,7) by metis
  then show ?thesis using parser_obeys [OF _ assms(8,9)] by metis
qed

theorem shell_round_obeys_witness:
  "\<exists>t. shell_round demo_shell_env 0x100901C (demo_shell (''echo ox'' @ [BS] @ ''ff'' @ [LF])) = echoShellOFF demo_shell_env t \<and>
    tty_is t []"
proof -
  define typed where "typed = ''echo ox'' @ [BS] @ ''ff''"
  have typed: "plain typed" "short 0 typed" "edit [] typed = ''echo off''" "length typed = 10"
    by (simp_all add: typed_def plain_def)
  have "user_ok (0 + 260 + 32 * length (typed @ LF # [])) {0x100901C..0x100901C + 100} (typed @ LF # []) (demo_shell (typed @ LF # []))"
    by (rule demo_shell_ok) (simp_all add: typed)
  moreover have "command_of ''echo off'' = Cmd_echo False" by (simp add: command_of_def)
  moreover have "length typed < sh_fuel demo_shell_env" "0 < sh_polls demo_shell_env" by (simp_all add: demo_shell_env_def typed(4))
  ultimately obtain t where "shell_round demo_shell_env 0x100901C (demo_shell (typed @ [LF])) = echoShellOFF demo_shell_env t" "tty_is t []"
    using shell_round_obeys [of 0 typed "[]" "0x100901C" "demo_shell (typed @ [LF])" demo_shell_env "''echo off''"] typed(1-3)
    unfolding user_ok_def by auto
  moreover have "''echo ox'' @ [BS] @ ''ff'' @ [LF] = typed @ [LF]" by (simp add: typed_def)
  ultimately show ?thesis by metis
qed

text \<open>In the background: after \<open>&\<close> a command runs in a thread of the shell with the same argument, but a program
  started with \<open>./\<close> replaces the shell all the same, and of a wrong command the user is told.\<close>

theorem shell_background:
  assumes "text_at (ram s) b (CHR ''&'' # t)" and "t \<noteq> ''echo''"
  shows "parser env b s = kbind (obey_async env (b + 1) (command_of t)) (\<lambda>_. clear_async) (s\<lparr>isAsynchronicCall := True\<rparr>)"
proof -
  define u where "u = s\<lparr>isAsynchronicCall := True\<rparr>"
  have "text_at (ram u) (b + 1) t" using assms(1) by (simp add: text_at_Cons u_def)
  then have "asyncParser env (b + 1) u = obey_async env (b + 1) (command_of t) u" by (rule asyncParser_obeys [OF _ assms(2)])
  moreover have "ram s b = byte_of (CHR ''&'')" using assms(1) by (simp add: text_at_Cons)
  ultimately show ?thesis by (simp add: parser_def Let_def kbind_def u_def)
qed

theorem shell_background_witness:
  "parser demo_shell_env 0x900 ((demo_shell [])\<lparr>ram := store_bytes 0x900 (map byte_of ''&ps'' @ [0]) (\<lambda>_. 0)\<rparr>) =
    kbind (start_thread demo_shell_env F_printProcesses 0) (\<lambda>_. clear_async)
      ((demo_shell [])\<lparr>ram := store_bytes 0x900 (map byte_of ''&ps'' @ [0]) (\<lambda>_. 0), isAsynchronicCall := True\<rparr>)"
proof -
  define m :: "addr \<Rightarrow> 8 word" where "m = store_bytes 0x900 (map byte_of ''&ps'' @ [0]) (\<lambda>_. 0)"
  define s where "s = (demo_shell [])\<lparr>ram := m\<rparr>"
  have "text_at m 0x900 (CHR ''&'' # ''ps'')" unfolding m_def by (rule store_text) simp
  then have "text_at (ram s) 0x900 (CHR ''&'' # ''ps'')" by (simp add: s_def)
  from shell_background [OF this, of demo_shell_env]
  show ?thesis unfolding m_def [symmetric] by (simp add: command_of_def s_def)
qed

text \<open>What the parser reads at the wrong place: \<open>echo\<close> alone reads behind its end and does what an \<open>echo on\<close> typed
  before left there; and \<open>kill 3\<close> kills, because of the blank, the process with the number -16.\<close>

theorem shell_misreads:
  assumes "text_at m b (''echo '' @ old)"
  shows "parser env b (s\<lparr>ram := store_bytes b (map byte_of ''echo'' @ [0]) m\<rparr>) =
      (if old = ''on'' then echoShellON env else echoShellOFF env) (s\<lparr>ram := store_bytes b (map byte_of ''echo'' @ [0]) m\<rparr>) \<and>
    command_of (''kill '' @ ds) = Cmd_kill (-16)"
proof -
  define x :: "8 word list" where "x = map byte_of ''echo'' @ [0]"
  define v where "v = s\<lparr>ram := store_bytes b x m\<rparr>"
  have x: "length x = 5" by (simp add: x_def)
  have "bytes_at (ram v) b x" by (simp add: v_def bytes_at_store)
  then have now: "text_at (ram v) b ''echo''" unfolding text_at_def x_def by simp
  have "text_at m (b + 5) old" using text_at_drop [OF assms, of 5] by simp
  moreover have "ram v (b + 5 + int i) = m (b + 5 + int i)" for i by (simp add: v_def store_bytes_at x)
  ultimately have old: "text_at (ram v) (b + 5) old" by (simp add: text_at_def bytes_at_def)
  have "parser env b (s\<lparr>ram := store_bytes b (map byte_of ''echo'' @ [0]) m\<rparr>) =
      (if old = ''on'' then echoShellON env else echoShellOFF env) (s\<lparr>ram := store_bytes b (map byte_of ''echo'' @ [0]) m\<rparr>)"
    unfolding x_def [symmetric] v_def [symmetric] parser_def Let_def parser_tests [OF now] parser_tests [OF old] by simp
  moreover have "command_of (''kill '' @ ds) = Cmd_kill (-16)" by (simp add: command_of_def schar_def code_def)
  ultimately show ?thesis by blast
qed

theorem shell_misreads_witness:
  "parser demo_shell_env 0x900 ((demo_shell [])\<lparr>ram := store_bytes 0x900 (map byte_of ''echo'' @ [0])
      (store_bytes 0x900 (map byte_of ''echo on'' @ [0]) (\<lambda>_. 0))\<rparr>) =
    echoShellON demo_shell_env ((demo_shell [])\<lparr>ram := store_bytes 0x900 (map byte_of ''echo'' @ [0])
      (store_bytes 0x900 (map byte_of ''echo on'' @ [0]) (\<lambda>_. 0))\<rparr>)"
proof -
  have "text_at (store_bytes 0x900 (map byte_of (''echo '' @ ''on'') @ [0]) (\<lambda>_. 0)) 0x900 (''echo '' @ ''on'')"
    by (rule store_text) simp
  from shell_misreads [OF this, of demo_shell_env "demo_shell []"] show ?thesis by simp
qed

end
