(* ===== verification/ProdCons.thy ===== *)
theory ProdCons
  imports UserLib RingBuffer
begin

text \<open>
  The producers and consumers of Userland/dummy/dummy.c: up to ten of each share a buffer of fifty characters
  under three semaphores of the kernel, and a loop of keys starts and stops them.

  There are two views of the same code.  The first is the program over the kernel, with its system calls.  The
  second is for the interleavings: every statement of a thread that touches shared memory is a step of its own, any thread
  may be preempted between any two, and started or killed at any time.  There a semaphore is what
  theory \<open>Semaphores\<close> proves of it: \<open>wait\<close> returns only as long as fewer calls have returned than the start
  value and the calls of \<open>signal\<close> allow.  The main lemma is that the buffer is a queue: what is consumed is what was
  produced, in order.
\<close>

section \<open>Data\<close>

abbreviation (input) MAX_CONSUMER :: int where "MAX_CONSUMER \<equiv> 10"
abbreviation (input) MAX_PRODUCER :: int where "MAX_PRODUCER \<equiv> 10"
abbreviation (input) PROD_CONS :: int where "PROD_CONS \<equiv> 1"
abbreviation (input) PHILOSOPHERS :: int where "PHILOSOPHERS \<equiv> 4"

abbreviation (input) ITEMS :: int where       \<comment> \<open>\<open>bufferSize\<close>\<close>
  "ITEMS \<equiv> 50"

record prodcons = kernel_state +
  consumerID :: "int list"
  producerID :: "int list"
  consumerPid :: "int list"
  producerPid :: "int list"
  producers :: int
  consumers :: int
  itemMutex :: int
  emptyCount :: int
  fullCount :: int
  prodSleepTime :: int
  consSleepTime :: int
  buf_r :: int
  buf_w :: int
  buf :: "char list"
  item_i :: int

text \<open>
  What the linker decides: literals, functions, the arrays of arguments, a byte of the stack, and where the local variables of
  \<open>dPhilosphers\<close> are.
\<close>

record dummy_env =
  du_kernel :: kenv
  du_literal :: "string \<Rightarrow> addr"
  du_producer :: addr
  du_consumer :: addr
  du_philospher :: addr
  du_producerID :: addr
  du_consumerID :: addr
  du_local :: addr
  du_mutex :: addr
  du_semaphores :: addr
  du_state :: addr
  du_polls :: nat

section \<open>The buffer\<close>

definition put_item :: "char \<Rightarrow> ('a prodcons_scheme, unit) eprog" where
  "put_item c s =
     (if 0 \<le> buf_w s \<and> buf_w s < ITEMS then Inr ((), s\<lparr>buf := (buf s)[nat (buf_w s) := c]\<rparr>) else Inl OutOfBounds)"

definition advance_w :: "'a prodcons_scheme \<Rightarrow> 'a prodcons_scheme" where
  "advance_w s = s\<lparr>buf_w := (buf_w s + 1) smod ITEMS\<rparr>"

definition insertItem :: "char \<Rightarrow> ('a prodcons_scheme, unit) eprog" where
  "insertItem c = ebind (put_item c) (\<lambda>_. emodify advance_w)"

definition get_item :: "('a prodcons_scheme, char) eprog" where
  "get_item s = (if 0 \<le> buf_r s \<and> buf_r s < ITEMS then Inr (buf s ! nat (buf_r s), s) else Inl OutOfBounds)"

definition advance_r :: "'a prodcons_scheme \<Rightarrow> 'a prodcons_scheme" where
  "advance_r s = s\<lparr>buf_r := (buf_r s + 1) smod ITEMS\<rparr>"

definition removeItem :: "('a prodcons_scheme, char) eprog" where
  "removeItem = ebind get_item (\<lambda>c. ebind (emodify advance_r) (\<lambda>_. ereturn c))"

text \<open>An \<open>int\<close> passed as a \<open>char\<close> keeps its lowest byte.\<close>

definition char_of_int :: "int \<Rightarrow> char" where
  "char_of_int n = char_of (nat (n mod 256))"

section \<open>The threads over the kernel\<close>

definition du_put :: "dummy_env \<Rightarrow> char \<Rightarrow> ('a kernel_state_scheme, int) kprog" where
  "du_put env = stack_putchar (du_kernel env) (du_local env)"

definition du_printFF ::
  "dummy_env \<Rightarrow> string \<Rightarrow> string list option \<Rightarrow> int list option \<Rightarrow> ('a kernel_state_scheme, unit) kprog" where
  "du_printFF env format s n = user_printFF (du_put env) (user_putNumber (du_kernel env) (du_put env)) format s n"

definition du_semOpen :: "dummy_env \<Rightarrow> string \<Rightarrow> ('a kernel_state_scheme, int) kprog" where
  "du_semOpen env name = user_semOpen (du_kernel env) (du_literal env name)"

text \<open>One round of the endless loop; \<open>ctx\<close> points to \<open>producerID[k]\<close>.\<close>

definition producer_round :: "dummy_env \<Rightarrow> nat \<Rightarrow> int \<Rightarrow> int \<Rightarrow> int \<Rightarrow> ('a prodcons_scheme, unit) kprog" where
  "producer_round env k itemP fullP emptyP =
     kbind (\<lambda>s. user_sleep (du_kernel env) (prodSleepTime s) s) (\<lambda>_.
     kbind (kget item_i) (\<lambda>item.
     kbind (kmodify (\<lambda>s. s\<lparr>item_i := int32 (item + 1)\<rparr>)) (\<lambda>_.
     kbind (\<lambda>s. du_printFF env (''Producer %d producing: %d'' @ [LF]) None (Some [producerID s ! k, item]) s) (\<lambda>_.
     kbind (user_wait (du_kernel env) emptyP) (\<lambda>_.
     kbind (user_wait (du_kernel env) itemP) (\<lambda>_.
     kbind (kcall (insertItem (char_of_int item))) (\<lambda>_.
     kbind (user_signal (du_kernel env) itemP) (\<lambda>_.
     user_signal (du_kernel env) fullP))))))))"

definition consumer_round :: "dummy_env \<Rightarrow> nat \<Rightarrow> int \<Rightarrow> int \<Rightarrow> int \<Rightarrow> ('a prodcons_scheme, unit) kprog" where
  "consumer_round env k itemC fullC emptyC =
     kbind (\<lambda>s. user_sleep (du_kernel env) (consSleepTime s) s) (\<lambda>_.
     kbind (user_wait (du_kernel env) fullC) (\<lambda>_.
     kbind (user_wait (du_kernel env) itemC) (\<lambda>_.
     kbind (kcall removeItem) (\<lambda>c.
     kbind (user_signal (du_kernel env) itemC) (\<lambda>_.
     kbind (user_signal (du_kernel env) emptyC) (\<lambda>_ s.
     du_printFF env (''Consumer %d consuming: %d'' @ [LF]) None (Some [consumerID s ! k, schar c]) s))))))"

text \<open>\<open>while (1)\<close>: the parameter is the number of rounds looked at.\<close>

fun forever :: "nat \<Rightarrow> ('s, unit) kprog \<Rightarrow> ('s, unit) kprog" where
  "forever 0 body = kcall (efail Diverges)"
| "forever (Suc n) body = kbind body (\<lambda>_. forever n body)"

definition producer :: "dummy_env \<Rightarrow> nat \<Rightarrow> nat \<Rightarrow> ('a prodcons_scheme, unit) kprog" where
  "producer env rounds k =
     kbind (du_semOpen env ''itemMutex'') (\<lambda>itemP.
     kbind (du_semOpen env ''fullCount'') (\<lambda>fullP.
     kbind (du_semOpen env ''emptyCount'') (\<lambda>emptyP.
     forever rounds (producer_round env k itemP fullP emptyP))))"

definition consumer :: "dummy_env \<Rightarrow> nat \<Rightarrow> nat \<Rightarrow> ('a prodcons_scheme, unit) kprog" where
  "consumer env rounds k =
     kbind (du_semOpen env ''itemMutex'') (\<lambda>itemC.
     kbind (du_semOpen env ''fullCount'') (\<lambda>fullC.
     kbind (du_semOpen env ''emptyCount'') (\<lambda>emptyC.
     forever rounds (consumer_round env k itemC fullC emptyC))))"

section \<open>Starting and stopping\<close>

text \<open>A read and a write of an array of eleven.\<close>

definition array_get :: "int list \<Rightarrow> int \<Rightarrow> ('s, int) kprog" where
  "array_get xs i = kcall (if 0 \<le> i \<and> i < int (length xs) then ereturn (xs ! nat i) else efail OutOfBounds)"

definition array_put :: "(int list \<Rightarrow> 's \<Rightarrow> 's) \<Rightarrow> int list \<Rightarrow> int \<Rightarrow> int \<Rightarrow> ('s, unit) kprog" where
  "array_put upd xs i v = kcall (if 0 \<le> i \<and> i < int (length xs) then emodify (upd (xs[nat i := v])) else efail OutOfBounds)"

text \<open>\<open>producerPid[producers - 1] = createProcess(producer, "PRODUCER", &producerID[producers - 1])\<close>.\<close>

definition start_producer :: "dummy_env \<Rightarrow> ('a prodcons_scheme, unit) kprog" where
  "start_producer env =
     kbind (\<lambda>s. user_createProcess (du_kernel env) (du_producer env) (du_literal env ''PRODUCER'')
                (du_producerID env + 4 * (producers s - 1)) s) (\<lambda>pid s.
     array_put (\<lambda>xs s. s\<lparr>producerPid := xs\<rparr>) (producerPid s) (producers s - 1) pid s)"

definition start_consumer :: "dummy_env \<Rightarrow> ('a prodcons_scheme, unit) kprog" where
  "start_consumer env =
     kbind (\<lambda>s. user_createProcess (du_kernel env) (du_consumer env) (du_literal env ''CONSUMER'')
                (du_consumerID env + 4 * (consumers s - 1)) s) (\<lambda>pid s.
     array_put (\<lambda>xs s. s\<lparr>consumerPid := xs\<rparr>) (consumerPid s) (consumers s - 1) pid s)"

fun remove_pids :: "dummy_env \<Rightarrow> nat \<Rightarrow> int \<Rightarrow> ('a prodcons_scheme \<Rightarrow> int list) \<Rightarrow> ('a prodcons_scheme, unit) kprog" where
  "remove_pids env 0 i pids = kreturn ()"
| "remove_pids env (Suc n) i pids =
     kbind (\<lambda>s. array_get (pids s) i s) (\<lambda>pid.
     kbind (user_removeProcess (du_kernel env) pid) (\<lambda>_. remove_pids env n (i + 1) pids))"

definition killAllProcesses :: "dummy_env \<Rightarrow> ('a prodcons_scheme, unit) kprog" where
  "killAllProcesses env =
     kbind (\<lambda>s. remove_pids env (nat (producers s)) 0 producerPid s) (\<lambda>_ s.
     remove_pids env (nat (consumers s)) 0 consumerPid s)"

text \<open>The cases of the switch in \<open>control\<close>; the result is \<open>end\<close>.\<close>

definition control_key :: "dummy_env \<Rightarrow> char \<Rightarrow> ('a prodcons_scheme, bool) kprog" where
  "control_key env c s =
     (if c = CHR ''c'' then
        if consumers s + 1 \<le> MAX_CONSUMER then
          kbind (array_put (\<lambda>xs s. s\<lparr>consumerID := xs\<rparr>) (consumerID s) (consumers s) (consumers s)) (\<lambda>_.
          kbind (kmodify (\<lambda>s. s\<lparr>consumers := consumers s + 1\<rparr>)) (\<lambda>_.
          kbind (start_consumer env) (\<lambda>_. kreturn False))) s
        else Ret False s
      else if c = CHR ''p'' then
        if producers s + 1 \<le> MAX_PRODUCER then
          kbind (array_put (\<lambda>xs s. s\<lparr>producerID := xs\<rparr>) (producerID s) (producers s) (producers s)) (\<lambda>_.
          kbind (kmodify (\<lambda>s. s\<lparr>producers := producers s + 1\<rparr>)) (\<lambda>_.
          kbind (start_producer env) (\<lambda>_. kreturn False))) s
        else Ret False s
      else if c = CHR ''z'' then
        if 0 \<le> producers s - 1 then
          kbind (array_get (producerPid s) (producers s - 1)) (\<lambda>pid.
          kbind (user_removeProcess (du_kernel env) pid) (\<lambda>_.
          kbind (kmodify (\<lambda>s. s\<lparr>producers := producers s - 1\<rparr>)) (\<lambda>_. kreturn False))) s
        else Ret False s
      else if c = CHR ''x'' then
        if 0 \<le> consumers s - 1 then
          kbind (array_get (consumerPid s) (consumers s - 1)) (\<lambda>pid.
          kbind (user_removeProcess (du_kernel env) pid) (\<lambda>_.
          kbind (kmodify (\<lambda>s. s\<lparr>consumers := consumers s - 1\<rparr>)) (\<lambda>_. kreturn False))) s
        else Ret False s
      else if c = CHR ''q'' then
        kbind (killAllProcesses env) (\<lambda>_.
        kbind (user_print (du_put env) ''PASOOO'') (\<lambda>_. kreturn True)) s
      else Ret False s)"

fun control :: "dummy_env \<Rightarrow> nat \<Rightarrow> ('a prodcons_scheme, unit) kprog" where
  "control env 0 = kcall (efail Diverges)"
| "control env (Suc fuel) =
     kbind (stack_getchar (du_kernel env) (du_polls env) (du_local env)) (\<lambda>c.
     kbind (control_key env c) (\<lambda>fin. if fin then kreturn () else control env fuel))"

definition prodCons :: "dummy_env \<Rightarrow> nat \<Rightarrow> ('a prodcons_scheme, int) kprog" where
  "prodCons env fuel =
     kbind (user_semCreate (du_kernel env) (du_literal env ''itemMutex'') 1) (\<lambda>m.
     kbind (kmodify (\<lambda>s. s\<lparr>itemMutex := m\<rparr>)) (\<lambda>_.
     kbind (user_semCreate (du_kernel env) (du_literal env ''fullCount'') 0) (\<lambda>m.
     kbind (kmodify (\<lambda>s. s\<lparr>fullCount := m\<rparr>)) (\<lambda>_.
     kbind (user_semCreate (du_kernel env) (du_literal env ''emptyCount'') ITEMS) (\<lambda>m.
     kbind (kmodify (\<lambda>s. s\<lparr>emptyCount := m\<rparr>)) (\<lambda>_.
     kbind (kmodify (\<lambda>s. s\<lparr>consumerID := (consumerID s)[0 := 0], producerID := (producerID s)[0 := 0]\<rparr>)) (\<lambda>_.
     kbind (start_producer env) (\<lambda>_.
     kbind (start_consumer env) (\<lambda>_.
     kbind (control env fuel) (\<lambda>_. kreturn 0))))))))))"

section \<open>The threads interleaved\<close>

text \<open>Where a thread stands, with the value of its local variable; the names say what it does next.\<close>

datatype prod_pc =
    P_sleep | P_load | P_store int | P_print int | P_wait_empty int | P_wait_item int | P_put int | P_advance int
  | P_signal_item | P_signal_full

datatype cons_pc =
    C_sleep | C_wait_full | C_wait_item | C_get | C_advance char | C_signal_item char | C_signal_empty char | C_print char

datatype psem = Item_mutex | Empty_count | Full_count

text \<open>
  The shared variables, the threads, for each semaphore how many calls of \<open>wait\<close> have returned and how many calls of
  \<open>signal\<close> were made, and what was put into the buffer and taken out of it so far.
\<close>

record shared = prodcons +
  passed :: "psem \<Rightarrow> nat"
  posted :: "psem \<Rightarrow> nat"
  prods :: "prod_pc list"
  conss :: "cons_pc list"
  put_in :: "char list"
  taken_out :: "char list"

text \<open>
  The start values of \<open>prodCons\<close>, and what a semaphore promises: theorem \<open>semaphore_counts\<close> of theory \<open>Semaphores\<close>, as
  long as no array of waiting processes is full and no process that waits is killed.  When one is, the kernel wakes nobody in its
  place; the view only assumes that no call of \<open>wait\<close> returns that should not.
\<close>

fun start_value :: "psem \<Rightarrow> nat" where
  "start_value Item_mutex = 1"
| "start_value Empty_count = 50"
| "start_value Full_count = 0"

definition may_pass :: "psem \<Rightarrow> 'a shared_scheme \<Rightarrow> bool" where
  "may_pass x s \<longleftrightarrow> passed s x < start_value x + posted s x"

definition pass :: "psem \<Rightarrow> 'a shared_scheme \<Rightarrow> 'a shared_scheme" where
  "pass x s = s\<lparr>passed := (passed s)(x := passed s x + 1)\<rparr>"

definition post :: "psem \<Rightarrow> 'a shared_scheme \<Rightarrow> 'a shared_scheme" where
  "post x s = s\<lparr>posted := (posted s)(x := posted s x + 1)\<rparr>"

text \<open>A step of a thread: a fault, nothing as long as the semaphore is down, or where it stands afterwards.\<close>

fun prod_step :: "prod_pc \<Rightarrow> 'a shared_scheme \<Rightarrow> fault + (prod_pc \<times> 'a shared_scheme) option" where
  "prod_step P_sleep s = Inr (Some (P_load, s))"
| "prod_step P_load s = Inr (Some (P_store (item_i s), s))"
| "prod_step (P_store item) s = Inr (Some (P_print item, s\<lparr>item_i := int32 (item + 1)\<rparr>))"
| "prod_step (P_print item) s = Inr (Some (P_wait_empty item, s))"
| "prod_step (P_wait_empty item) s = Inr (if may_pass Empty_count s then Some (P_wait_item item, pass Empty_count s) else None)"
| "prod_step (P_wait_item item) s = Inr (if may_pass Item_mutex s then Some (P_put item, pass Item_mutex s) else None)"
| "prod_step (P_put item) s = map_sum id (\<lambda>(_, t). Some (P_advance item, t)) (put_item (char_of_int item) s)"
| "prod_step (P_advance item) s =
     Inr (Some (P_signal_item, (advance_w s)\<lparr>put_in := put_in s @ [char_of_int item]\<rparr>))"
| "prod_step P_signal_item s = Inr (Some (P_signal_full, post Item_mutex s))"
| "prod_step P_signal_full s = Inr (Some (P_sleep, post Full_count s))"

fun cons_step :: "cons_pc \<Rightarrow> 'a shared_scheme \<Rightarrow> fault + (cons_pc \<times> 'a shared_scheme) option" where
  "cons_step C_sleep s = Inr (Some (C_wait_full, s))"
| "cons_step C_wait_full s = Inr (if may_pass Full_count s then Some (C_wait_item, pass Full_count s) else None)"
| "cons_step C_wait_item s = Inr (if may_pass Item_mutex s then Some (C_get, pass Item_mutex s) else None)"
| "cons_step C_get s = map_sum id (\<lambda>(c, t). Some (C_advance c, t)) (get_item s)"
| "cons_step (C_advance c) s = Inr (Some (C_signal_item c, (advance_r s)\<lparr>taken_out := taken_out s @ [c]\<rparr>))"
| "cons_step (C_signal_item c) s = Inr (Some (C_signal_empty c, post Item_mutex s))"
| "cons_step (C_signal_empty c) s = Inr (Some (C_print c, post Empty_count s))"
| "cons_step (C_print c) s = Inr (Some (C_sleep, s))"

text \<open>Any thread makes a step, and threads are started; a thread is killed wherever it stands.\<close>

inductive pc_move :: "'a shared_scheme \<Rightarrow> 'a shared_scheme \<Rightarrow> bool" where
  pc_prod: "k < length (prods s) \<Longrightarrow> prod_step (prods s ! k) s = Inr (Some (pc, t)) \<Longrightarrow>
     pc_move s (t\<lparr>prods := (prods s)[k := pc]\<rparr>)"
| pc_cons: "k < length (conss s) \<Longrightarrow> cons_step (conss s ! k) s = Inr (Some (pc, t)) \<Longrightarrow>
     pc_move s (t\<lparr>conss := (conss s)[k := pc]\<rparr>)"
| pc_new_prod: "pc_move s (s\<lparr>prods := prods s @ [P_sleep]\<rparr>)"
| pc_new_cons: "pc_move s (s\<lparr>conss := conss s @ [C_sleep]\<rparr>)"

inductive pc_kill :: "'a shared_scheme \<Rightarrow> 'a shared_scheme \<Rightarrow> bool" where
  kill_prod: "k < length (prods s) \<Longrightarrow> pc_kill s (s\<lparr>prods := take k (prods s) @ drop (Suc k) (prods s)\<rparr>)"
| kill_cons: "k < length (conss s) \<Longrightarrow> pc_kill s (s\<lparr>conss := take k (conss s) @ drop (Suc k) (conss s)\<rparr>)"

definition pc_start :: "'a shared_scheme \<Rightarrow> bool" where
  "pc_start s \<longleftrightarrow> buf_r s = 0 \<and> buf_w s = 0 \<and> length (buf s) = 50 \<and> passed s = (\<lambda>_. 0) \<and> posted s = (\<lambda>_. 0) \<and>
     prods s = [] \<and> conss s = [] \<and> put_in s = [] \<and> taken_out s = []"

text \<open>The reachable states; the flag says whether threads are killed.\<close>

inductive pc_run :: "bool \<Rightarrow> 'a shared_scheme \<Rightarrow> bool" for kills where
  run_start: "pc_start s \<Longrightarrow> pc_run kills s"
| run_move: "pc_run kills s \<Longrightarrow> pc_move s t \<Longrightarrow> pc_run kills t"
| run_kill: "kills \<Longrightarrow> pc_run kills s \<Longrightarrow> pc_kill s t \<Longrightarrow> pc_run kills t"

section \<open>The invariant\<close>

text \<open>How many threads stand at a place of a kind.\<close>

definition count_at :: "('a \<Rightarrow> bool) \<Rightarrow> 'a list \<Rightarrow> nat" where
  "count_at P xs = length (filter P xs)"

lemma count_at_update:
  assumes "k < length xs"
  shows "count_at P (xs[k := y]) + (if P (xs ! k) then 1 else 0) = count_at P xs + (if P y then 1 else 0)"
proof -
  have "count_at P xs = count_at P (take k xs @ xs ! k # drop (Suc k) xs)" using assms by (simp add: id_take_nth_drop [symmetric])
  then show ?thesis unfolding upd_conv_take_nth_drop [OF assms] by (simp add: count_at_def)
qed

lemma count_at_append: "count_at P (xs @ [y]) = count_at P xs + (if P y then 1 else 0)"
  by (simp add: count_at_def)

lemma count_at_remove: "count_at P (take k xs @ drop (Suc k) xs) \<le> count_at P xs"
proof (cases "k < length xs")
  case True
  have "count_at P xs = count_at P (take k xs @ xs ! k # drop (Suc k) xs)" using True by (simp add: id_take_nth_drop [symmetric])
  then show ?thesis by (simp add: count_at_def)
qed (simp add: count_at_def)

lemma count_at_zero: "count_at P xs = 0 \<Longrightarrow> x \<in> set xs \<Longrightarrow> \<not> P x"
  by (auto simp: count_at_def filter_empty_conv)

lemma count_at_one:
  assumes "count_at P xs \<le> 1" and "P (xs ! k)" and "k < length xs" and "x \<in> set (xs[k := z])" and "P x"
  shows "x = z"
proof -
  have "count_at P xs = count_at P (take k xs @ xs ! k # drop (Suc k) xs)" using assms(3) by (simp add: id_take_nth_drop [symmetric])
  then have "count_at P (take k xs) = 0" "count_at P (drop (Suc k) xs) = 0" using assms(1,2) by (simp_all add: count_at_def)
  then have "x \<notin> set (take k xs)" "x \<notin> set (drop (Suc k) xs)" using assms(5) by (auto dest: count_at_zero)
  then show ?thesis using assms(4) unfolding upd_conv_take_nth_drop [OF assms(3)] by simp
qed

text \<open>The places between two operations on the semaphores and the buffer.\<close>

fun p_reserved :: "prod_pc \<Rightarrow> bool" where    \<comment> \<open>has passed \<open>emptyCount\<close>, has not inserted\<close>
  "p_reserved (P_wait_item _) = True"
| "p_reserved (P_put _) = True"
| "p_reserved (P_advance _) = True"
| "p_reserved _ = False"

fun p_inserted :: "prod_pc \<Rightarrow> bool" where    \<comment> \<open>has inserted, has not signalled \<open>fullCount\<close>\<close>
  "p_inserted P_signal_item = True"
| "p_inserted P_signal_full = True"
| "p_inserted _ = False"

fun p_inside :: "prod_pc \<Rightarrow> bool" where      \<comment> \<open>holds \<open>itemMutex\<close>\<close>
  "p_inside (P_put _) = True"
| "p_inside (P_advance _) = True"
| "p_inside P_signal_item = True"
| "p_inside _ = False"

fun c_reserved :: "cons_pc \<Rightarrow> bool" where
  "c_reserved C_wait_item = True"
| "c_reserved C_get = True"
| "c_reserved (C_advance _) = True"
| "c_reserved _ = False"

fun c_removed :: "cons_pc \<Rightarrow> bool" where
  "c_removed (C_signal_item _) = True"
| "c_removed (C_signal_empty _) = True"
| "c_removed _ = False"

fun c_inside :: "cons_pc \<Rightarrow> bool" where
  "c_inside C_get = True"
| "c_inside (C_advance _) = True"
| "c_inside (C_signal_item _) = True"
| "c_inside _ = False"

text \<open>The counts of the semaphores; a killed thread leaves a gap.\<close>

definition counts_ok :: "'a shared_scheme \<Rightarrow> bool" where
  "counts_ok s \<longleftrightarrow>
     (\<forall>x. passed s x \<le> start_value x + posted s x) \<and>
     length (put_in s) + count_at p_reserved (prods s) \<le> passed s Empty_count \<and>
     posted s Full_count + count_at p_inserted (prods s) \<le> length (put_in s) \<and>
     length (taken_out s) + count_at c_reserved (conss s) \<le> passed s Full_count \<and>
     posted s Empty_count + count_at c_removed (conss s) \<le> length (taken_out s) \<and>
     posted s Item_mutex + count_at p_inside (prods s) + count_at c_inside (conss s) \<le> passed s Item_mutex"

text \<open>The buffer holds what was put in and not taken out, and the two threads in the middle of an access know its end.\<close>

definition buffer_ok :: "'a shared_scheme \<Rightarrow> bool" where
  "buffer_ok s \<longleftrightarrow> length (buf s) = 50 \<and>
     buf_w s = int (length (put_in s) mod 50) \<and> buf_r s = int (length (taken_out s) mod 50) \<and>
     taken_out s = take (length (taken_out s)) (put_in s) \<and>
     (\<forall>k. length (taken_out s) \<le> k \<and> k < length (put_in s) \<longrightarrow> buf s ! (k mod 50) = put_in s ! k) \<and>
     (\<forall>item. P_advance item \<in> set (prods s) \<longrightarrow> buf s ! (length (put_in s) mod 50) = char_of_int item) \<and>
     (\<forall>c. C_advance c \<in> set (conss s) \<longrightarrow> c = put_in s ! length (taken_out s))"

lemma all_psem: "(\<forall>x. Q x) \<longleftrightarrow> Q Item_mutex \<and> Q Empty_count \<and> Q Full_count"
  by (metis psem.exhaust)

lemma prod_counts:
  assumes "counts_ok s" and "k < length (prods s)" and "prod_step (prods s ! k) s = Inr (Some (pc, t))"
  shows "counts_ok (t\<lparr>prods := (prods s)[k := pc]\<rparr>)"
  using assms(1,3) count_at_update [OF assms(2), of p_reserved pc] count_at_update [OF assms(2), of p_inserted pc]
    count_at_update [OF assms(2), of p_inside pc]
  by (cases "prods s ! k")
    (auto simp: counts_ok_def all_psem pass_def post_def may_pass_def advance_w_def put_item_def split: if_splits)

lemma cons_counts:
  assumes "counts_ok s" and "k < length (conss s)" and "cons_step (conss s ! k) s = Inr (Some (pc, t))"
  shows "counts_ok (t\<lparr>conss := (conss s)[k := pc]\<rparr>)"
  using assms(1,3) count_at_update [OF assms(2), of c_reserved pc] count_at_update [OF assms(2), of c_removed pc]
    count_at_update [OF assms(2), of c_inside pc]
  by (cases "conss s ! k")
    (auto simp: counts_ok_def all_psem pass_def post_def may_pass_def advance_r_def get_item_def split: if_splits)

text \<open>At most one thread is inside; a reserved place is free, and a reserved item is there.\<close>

lemma inside_one:
  assumes "counts_ok s"
  shows "count_at p_inside (prods s) + count_at c_inside (conss s) \<le> 1"
  using assms by (simp add: counts_ok_def all_psem)

lemma window_size:
  assumes "counts_ok s"
  shows "length (put_in s) + count_at p_reserved (prods s) \<le> length (taken_out s) + 50"
    and "length (taken_out s) + count_at c_reserved (conss s) \<le> length (put_in s)"
  using assms by (simp_all add: counts_ok_def all_psem)

lemma count_at_pos: "k < length xs \<Longrightarrow> P (xs ! k) \<Longrightarrow> 1 \<le> count_at P xs"
  by (metis count_at_zero less_one linorder_not_less nth_mem)

lemma inside_alone:
  assumes "counts_ok s" and "k < length (prods s)" and "p_inside (prods s ! k)"
  shows "P_advance item \<in> set ((prods s)[k := pc]) \<Longrightarrow> pc = P_advance item" and "c_inside x \<Longrightarrow> x \<notin> set (conss s)"
proof -
  have one: "count_at p_inside (prods s) \<le> 1" "count_at c_inside (conss s) = 0"
    using inside_one [OF assms(1)] count_at_pos [OF assms(2), of p_inside] assms(3) by simp_all
  show "P_advance item \<in> set ((prods s)[k := pc]) \<Longrightarrow> pc = P_advance item"
    using count_at_one [OF one(1) assms(3,2)] by fastforce
  show "c_inside x \<Longrightarrow> x \<notin> set (conss s)" using count_at_zero [OF one(2)] by blast
qed

lemma cons_inside_alone:
  assumes "counts_ok s" and "k < length (conss s)" and "c_inside (conss s ! k)"
  shows "C_advance c \<in> set ((conss s)[k := pc]) \<Longrightarrow> pc = C_advance c" and "p_inside x \<Longrightarrow> x \<notin> set (prods s)"
proof -
  have one: "count_at c_inside (conss s) \<le> 1" "count_at p_inside (prods s) = 0"
    using inside_one [OF assms(1)] count_at_pos [OF assms(2), of c_inside] assms(3) by simp_all
  show "C_advance c \<in> set ((conss s)[k := pc]) \<Longrightarrow> pc = C_advance c"
    using count_at_one [OF one(1) assms(3,2)] by fastforce
  show "p_inside x \<Longrightarrow> x \<notin> set (prods s)" using count_at_zero [OF one(2)] by blast
qed

lemma place_reserved:
  assumes "counts_ok s" and "k < length (prods s)" and "p_reserved (prods s ! k)"
  shows "length (put_in s) < length (taken_out s) + 50"
  using window_size(1) [OF assms(1)] count_at_pos [OF assms(2), of p_reserved] assms(3) by simp

lemma item_reserved:
  assumes "counts_ok s" and "k < length (conss s)" and "c_reserved (conss s ! k)"
  shows "length (taken_out s) < length (put_in s)"
  using window_size(2) [OF assms(1)] count_at_pos [OF assms(2), of c_reserved] assms(3) by simp

text \<open>The index that wraps; two places of the window are two cells.\<close>

lemma wrap_step: "(int (n mod 50) + 1) smod 50 = int (Suc n mod 50)"
proof -
  have "(int (n mod 50) + 1) smod 50 = int ((n mod 50 + 1) mod 50)" by (simp add: smod_pos zmod_int add.commute)
  then show ?thesis by (simp add: mod_Suc_eq)
qed

lemma window_cells:
  fixes j n t :: nat
  assumes "t \<le> j" and "j < n" and "n < t + 50"
  shows "j mod 50 \<noteq> n mod 50"
proof
  assume "j mod 50 = n mod 50"
  then have "50 dvd n - j" by (metis mod_eq_dvd_iff_nat assms(2) less_imp_le)
  then show False using assms by (auto dest!: dvd_imp_le)
qed

lemma buffer_frame:
  assumes "buffer_ok s"
    and "buf t = buf s" and "buf_w t = buf_w s" and "buf_r t = buf_r s" and "put_in t = put_in s" and "taken_out t = taken_out s"
    and "\<And>item. P_advance item \<in> set (prods t) \<Longrightarrow> P_advance item \<in> set (prods s)"
    and "\<And>c. C_advance c \<in> set (conss t) \<Longrightarrow> C_advance c \<in> set (conss s)"
  shows "buffer_ok t"
  using assms unfolding buffer_ok_def by metis

lemma set_updateD: "x \<in> set (xs[k := y]) \<Longrightarrow> x \<noteq> y \<Longrightarrow> x \<in> set xs"
  using set_update_subset_insert by fastforce

lemma buffer_put:
  assumes "counts_ok s" and "buffer_ok s" and "k < length (prods s)" and "prods s ! k = P_put item"
  shows "buffer_ok (s\<lparr>buf := (buf s)[nat (buf_w s) := char_of_int item], prods := (prods s)[k := P_advance item]\<rparr>)"
proof -
  have free: "length (put_in s) < length (taken_out s) + 50" using place_reserved [OF assms(1,3)] assms(4) by simp
  have alone: "P_advance x \<in> set ((prods s)[k := P_advance item]) \<Longrightarrow> x = item" "C_advance c \<notin> set (conss s)" for x c
    using inside_alone [OF assms(1,3)] assms(4) by fastforce+
  have "nat (buf_w s) = length (put_in s) mod 50" "length (buf s) = 50" using assms(2) by (simp_all add: buffer_ok_def)
  moreover have "length (taken_out s) \<le> j \<Longrightarrow> j < length (put_in s) \<Longrightarrow> length (put_in s) mod 50 \<noteq> j mod 50" for j
    using window_cells [of "length (taken_out s)" j] free by fastforce
  ultimately show ?thesis using assms(2) alone unfolding buffer_ok_def by (auto simp: nth_list_update)
qed

lemma buffer_advance:
  assumes "counts_ok s" and "buffer_ok s" and "k < length (prods s)" and "prods s ! k = P_advance item"
  shows "buffer_ok ((advance_w s)\<lparr>put_in := put_in s @ [char_of_int item], prods := (prods s)[k := P_signal_item]\<rparr>)"
proof -
  have alone: "P_advance x \<notin> set ((prods s)[k := P_signal_item])" "C_advance c \<notin> set (conss s)" for x c
    using inside_alone [OF assms(1,3)] assms(4) by fastforce+
  have "buf s ! (length (put_in s) mod 50) = char_of_int item"
    using assms(2-4) nth_mem [of k "prods s"] by (auto simp: buffer_ok_def)
  moreover have "length (taken_out s) \<le> length (put_in s)" using window_size(2) [OF assms(1)] by simp
  ultimately show ?thesis using assms(2) alone wrap_step [of "length (put_in s)"] unfolding buffer_ok_def
    by (auto simp: advance_w_def nth_append less_Suc_eq)
qed

lemma buffer_get:
  assumes "counts_ok s" and "buffer_ok s" and "k < length (conss s)" and "conss s ! k = C_get"
  shows "buffer_ok (s\<lparr>conss := (conss s)[k := C_advance (buf s ! nat (buf_r s))]\<rparr>)"
proof -
  have "length (taken_out s) < length (put_in s)" using item_reserved [OF assms(1,3)] assms(4) by simp
  then have "buf s ! nat (buf_r s) = put_in s ! length (taken_out s)" using assms(2) by (simp add: buffer_ok_def)
  moreover have "C_advance c \<in> set ((conss s)[k := C_advance x]) \<Longrightarrow> c = x" for c x
    using cons_inside_alone(1) [OF assms(1,3)] assms(4) by fastforce
  ultimately show ?thesis using assms(2) unfolding buffer_ok_def by auto
qed

lemma buffer_take:
  assumes "counts_ok s" and "buffer_ok s" and "k < length (conss s)" and "conss s ! k = C_advance c"
  shows "buffer_ok ((advance_r s)\<lparr>taken_out := taken_out s @ [c], conss := (conss s)[k := C_signal_item c]\<rparr>)"
proof -
  have less: "length (taken_out s) < length (put_in s)" using item_reserved [OF assms(1,3)] assms(4) by simp
  have "c = put_in s ! length (taken_out s)" using assms(2-4) nth_mem [of k "conss s"] by (auto simp: buffer_ok_def)
  moreover have "C_advance x \<notin> set ((conss s)[k := C_signal_item c])" for x
    using cons_inside_alone(1) [OF assms(1,3)] assms(4) by fastforce
  ultimately show ?thesis using assms(2) less wrap_step [of "length (taken_out s)"] unfolding buffer_ok_def
    by (auto simp: advance_r_def take_Suc_conv_app_nth)
qed

lemma prod_buffer:
  assumes "counts_ok s" and "buffer_ok s" and "k < length (prods s)" and "prod_step (prods s ! k) s = Inr (Some (pc, t))"
  shows "buffer_ok (t\<lparr>prods := (prods s)[k := pc]\<rparr>)"
proof (cases "\<exists>item. prods s ! k = P_put item \<or> prods s ! k = P_advance item")
  case True
  then show ?thesis using buffer_put [OF assms(1-3)] buffer_advance [OF assms(1-3)] assms(4)
    by (auto simp: put_item_def split: if_splits)
next
  case False
  then have "buf t = buf s" "buf_w t = buf_w s" "buf_r t = buf_r s" "put_in t = put_in s" "taken_out t = taken_out s"
    "conss t = conss s" "\<And>item. pc \<noteq> P_advance item" using assms(4)
    by (cases "prods s ! k"; auto simp: pass_def post_def split: if_splits)+
  then show ?thesis by (intro buffer_frame [OF assms(2)]) (auto dest: set_updateD)
qed

lemma cons_buffer:
  assumes "counts_ok s" and "buffer_ok s" and "k < length (conss s)" and "cons_step (conss s ! k) s = Inr (Some (pc, t))"
  shows "buffer_ok (t\<lparr>conss := (conss s)[k := pc]\<rparr>)"
proof (cases "conss s ! k = C_get \<or> (\<exists>c. conss s ! k = C_advance c)")
  case True
  then show ?thesis using buffer_get [OF assms(1-3)] buffer_take [OF assms(1-3)] assms(4)
    by (auto simp: get_item_def split: if_splits)
next
  case False
  then have "buf t = buf s" "buf_w t = buf_w s" "buf_r t = buf_r s" "put_in t = put_in s" "taken_out t = taken_out s"
    "prods t = prods s" "\<And>c. pc \<noteq> C_advance c" using assms(4)
    by (cases "conss s ! k"; auto simp: pass_def post_def split: if_splits)+
  then show ?thesis by (intro buffer_frame [OF assms(2)]) (auto dest: set_updateD)
qed

lemma move_invariant:
  assumes "pc_move s t" and "counts_ok s" and "buffer_ok s"
  shows "counts_ok t \<and> buffer_ok t"
  using assms
proof cases
  case pc_new_prod
  then show ?thesis using assms(2,3) by (auto simp: counts_ok_def count_at_append intro!: buffer_frame [OF assms(3)])
next
  case pc_new_cons
  then show ?thesis using assms(2,3) by (auto simp: counts_ok_def count_at_append intro!: buffer_frame [OF assms(3)])
qed (use assms(2,3) prod_counts cons_counts prod_buffer cons_buffer in blast)+

lemma kill_invariant:
  assumes "pc_kill s t" and "counts_ok s" and "buffer_ok s"
  shows "counts_ok t \<and> buffer_ok t"
  using assms
proof cases
  case (kill_prod k)
  have le: "count_at P (take k (prods s) @ drop (Suc k) (prods s)) \<le> count_at P (prods s)" for P by (rule count_at_remove)
  have "counts_ok t" using assms(2) le [of p_reserved] le [of p_inserted] le [of p_inside]
    by (simp add: kill_prod(1) counts_ok_def)
  moreover have "buffer_ok t"
    using kill_prod(1) by (intro buffer_frame [OF assms(3)]) (auto dest: in_set_takeD in_set_dropD)
  ultimately show ?thesis ..
next
  case (kill_cons k)
  have le: "count_at P (take k (conss s) @ drop (Suc k) (conss s)) \<le> count_at P (conss s)" for P by (rule count_at_remove)
  have "counts_ok t" using assms(2) le [of c_reserved] le [of c_removed] le [of c_inside]
    by (simp add: kill_cons(1) counts_ok_def)
  moreover have "buffer_ok t"
    using kill_cons(1) by (intro buffer_frame [OF assms(3)]) (auto dest: in_set_takeD in_set_dropD)
  ultimately show ?thesis ..
qed

lemma start_invariant: "pc_start s \<Longrightarrow> counts_ok s \<and> buffer_ok s"
  by (simp add: pc_start_def counts_ok_def buffer_ok_def count_at_def)

lemma run_invariant: "pc_run kills s \<Longrightarrow> counts_ok s \<and> buffer_ok s"
proof (induction rule: pc_run.induct)
  case (run_move s t)
  then show ?case using move_invariant by blast
next
  case (run_kill s t)
  then show ?case using kill_invariant by blast
qed (rule start_invariant)

section \<open>What the program does\<close>

text \<open>No access is outside the buffer.\<close>

lemma no_fault:
  assumes "buffer_ok s"
  shows "\<exists>r. prod_step p s = Inr r" and "\<exists>r. cons_step c s = Inr r"
proof -
  have ok: "0 \<le> buf_w s" "buf_w s < 50" "0 \<le> buf_r s" "buf_r s < 50" using assms by (simp_all add: buffer_ok_def)
  show "\<exists>r. prod_step p s = Inr r" using ok(1,2) by (cases p) (simp_all add: put_item_def)
  show "\<exists>r. cons_step c s = Inr r" using ok(3,4) by (cases c) (simp_all add: get_item_def)
qed

text \<open>C39. The buffer of dummy.c is a queue for every interleaving of its producers and consumers, threads started and
  killed included: what has been consumed is, in order, what was produced first; never more than the fifty characters
  of the buffer are on the way; what is on the way stands in the buffer from \<open>r\<close> on; at most one thread is between
  \<open>wait(itemMutex)\<close> and \<open>signal(itemMutex)\<close>; and no access is outside the buffer.
  Of the three semaphores it is assumed that no more calls of \<open>wait\<close> return than the start value and the calls of \<open>signal\<close> allow.
\<close>

theorem prodcons_fifo:
  assumes "pc_run kills s"
  shows "taken_out s = take (length (taken_out s)) (put_in s) \<and>
    length (put_in s) \<le> length (taken_out s) + 50 \<and>
    (\<forall>k. k < length (put_in s) - length (taken_out s) \<longrightarrow>
      buf s ! ((nat (buf_r s) + k) mod 50) = drop (length (taken_out s)) (put_in s) ! k) \<and>
    count_at p_inside (prods s) + count_at c_inside (conss s) \<le> 1 \<and>
    (\<forall>p c. (\<exists>r. prod_step p s = Inr r) \<and> (\<exists>r. cons_step c s = Inr r))"
proof -
  have inv: "counts_ok s" "buffer_ok s" using run_invariant [OF assms] by simp_all
  have "buf s ! ((nat (buf_r s) + k) mod 50) = drop (length (taken_out s)) (put_in s) ! k"
    if "k < length (put_in s) - length (taken_out s)" for k
  proof -
    have "(nat (buf_r s) + k) mod 50 = (length (taken_out s) + k) mod 50" using inv(2) by (simp add: buffer_ok_def mod_simps)
    then show ?thesis using that inv(2) by (simp add: buffer_ok_def)
  qed
  then show ?thesis
    using inside_one [OF inv(1)] window_size(1) [OF inv(1)] no_fault [OF inv(2)] inv(2) by (simp add: buffer_ok_def)
qed

text \<open>A schedule: which thread moves; the threads come first.\<close>

datatype turn = Prod nat | Cons nat | New_prod | New_cons

fun play :: "turn list \<Rightarrow> 'a shared_scheme \<Rightarrow> 'a shared_scheme" where
  "play [] s = s"
| "play (Prod k # ts) s =
     play ts (if k < length (prods s) then
       case prod_step (prods s ! k) s of Inr (Some (pc, t)) \<Rightarrow> t\<lparr>prods := (prods s)[k := pc]\<rparr> | _ \<Rightarrow> s else s)"
| "play (Cons k # ts) s =
     play ts (if k < length (conss s) then
       case cons_step (conss s ! k) s of Inr (Some (pc, t)) \<Rightarrow> t\<lparr>conss := (conss s)[k := pc]\<rparr> | _ \<Rightarrow> s else s)"
| "play (New_prod # ts) s = play ts (s\<lparr>prods := prods s @ [P_sleep]\<rparr>)"
| "play (New_cons # ts) s = play ts (s\<lparr>conss := conss s @ [C_sleep]\<rparr>)"

lemma play_run: "pc_run kills s \<Longrightarrow> pc_run kills (play ts s)"
proof (induction ts s rule: play.induct)
  case (2 k ts s)
  show ?case unfolding play.simps
    by (rule 2(1)) (auto split: sum.split option.split intro: 2(2) run_move [OF 2(2)] pc_prod)
next
  case (3 k ts s)
  show ?case unfolding play.simps
    by (rule 3(1)) (auto split: sum.split option.split intro: 3(2) run_move [OF 3(2)] pc_cons)
next
  case (4 ts s)
  then show ?case by (auto intro: run_move pc_new_prod)
next
  case (5 ts s)
  then show ?case by (auto intro: run_move pc_new_cons)
qed simp

text \<open>The program at its start; the next item is 65.\<close>

definition demo_shared :: shared where
  "demo_shared = prodcons.extend (kernel_state.extend (demo_state (\<lambda>_. 0))
     (prodcons.fields (replicate 11 0) (replicate 11 0) (replicate 11 0) (replicate 11 0) 1 1 0 2 1 10 100 0 0
       (replicate 50 (CHR 0x00)) 65)) (shared.fields (\<lambda>_. 0) (\<lambda>_. 0) [] [] [] [])"

lemma demo_shared_start: "pc_start demo_shared" "item_i demo_shared = 65"
  by (simp_all add: pc_start_def demo_shared_def prodcons.defs kernel_state.defs shared.defs)

text \<open>The producer produces twice, the consumer takes one item.\<close>

definition produce_turns :: "turn list" where
  "produce_turns = [New_prod, New_cons, Prod 0, Prod 0, Prod 0, Prod 0, Prod 0, Prod 0, Prod 0, Prod 0, Prod 0, Prod 0]"

definition consume_turns :: "turn list" where
  "consume_turns = [Prod 0, Prod 0, Prod 0, Prod 0, Prod 0, Prod 0, Prod 0, Prod 0, Prod 0, Prod 0, Cons 0, Cons 0, Cons 0, Cons 0, Cons 0]"

lemma play_values: "int32 66 = 66" "int32 67 = 67" "char_of_int 65 = CHR ''A''" "char_of_int 66 = CHR ''B''"
    "(1 :: int) smod 50 = 1" "(2 :: int) smod 50 = 2"
  by (simp_all add: int32_def char_of_int_def char_of_def smod_pos bit_Suc_0_iff)

lemma play_produce:
  assumes "pc_start s" and "item_i s = 65"
  shows "play produce_turns s =
    s\<lparr>item_i := 66, buf := (buf s)[0 := CHR ''A''], buf_w := 1, passed := (passed s)(Empty_count := 1, Item_mutex := 1),
      posted := (posted s)(Item_mutex := 1, Full_count := 1), prods := [P_sleep], conss := [C_sleep], put_in := ''A''\<rparr>"
  using assms by (simp add: produce_turns_def pc_start_def may_pass_def pass_def post_def put_item_def advance_w_def play_values)

lemma play_consume:
  assumes "pc_start s" and "item_i s = 65"
  defines "t \<equiv> play consume_turns (play produce_turns s)"
  shows "put_in t = ''AB'' \<and> taken_out t = ''A'' \<and> conss t = [C_signal_item (CHR ''A'')] \<and> prods t = [P_sleep]"
  using assms(1,2) unfolding t_def play_produce [OF assms(1,2)]
  by (simp add: consume_turns_def pc_start_def may_pass_def pass_def post_def put_item_def get_item_def advance_w_def
      advance_r_def play_values)

theorem prodcons_fifo_witness:
  "\<exists>s :: shared. pc_run False s \<and> put_in s = ''AB'' \<and> taken_out s = ''A'' \<and> buf s ! 1 = CHR ''B'' \<and>
    count_at p_inside (prods s) + count_at c_inside (conss s) \<le> 1"
proof -
  let ?s = "play consume_turns (play produce_turns demo_shared)"
  have run: "pc_run False ?s" by (intro play_run run_start demo_shared_start(1))
  have s: "put_in ?s = ''AB''" "taken_out ?s = ''A''" using play_consume [OF demo_shared_start] by simp_all
  have "nat (buf_r ?s) = 1" using run_invariant [OF run] s(2) by (simp add: buffer_ok_def)
  then have "buf ?s ! 1 = CHR ''B''" using prodcons_fifo [OF run] s by simp
  then show ?thesis using run s prodcons_fifo [OF run] by blast
qed

section \<open>A thread killed inside\<close>

definition item_lost :: "'a shared_scheme \<Rightarrow> bool" where
  "item_lost s \<longleftrightarrow> passed s Item_mutex = 1 + posted s Item_mutex \<and>
     count_at p_inside (prods s) = 0 \<and> count_at c_inside (conss s) = 0"

lemma lost_prod:
  assumes "item_lost s" and "k < length (prods s)" and "prod_step (prods s ! k) s = Inr (Some (pc, t))"
  shows "item_lost (t\<lparr>prods := (prods s)[k := pc]\<rparr>) \<and> put_in t = put_in s \<and> taken_out t = taken_out s"
proof -
  have "\<not> p_inside (prods s ! k)" using assms(1,2) count_at_zero [of p_inside "prods s"] nth_mem by (auto simp: item_lost_def)
  then show ?thesis using assms(1,3) count_at_update [OF assms(2), of p_inside pc]
    by (cases "prods s ! k") (auto simp: item_lost_def pass_def post_def may_pass_def split: if_splits)
qed

lemma lost_cons:
  assumes "item_lost s" and "k < length (conss s)" and "cons_step (conss s ! k) s = Inr (Some (pc, t))"
  shows "item_lost (t\<lparr>conss := (conss s)[k := pc]\<rparr>) \<and> put_in t = put_in s \<and> taken_out t = taken_out s"
proof -
  have "\<not> c_inside (conss s ! k)" using assms(1,2) count_at_zero [of c_inside "conss s"] nth_mem by (auto simp: item_lost_def)
  then show ?thesis using assms(1,3) count_at_update [OF assms(2), of c_inside pc]
    by (cases "conss s ! k") (auto simp: item_lost_def pass_def post_def may_pass_def split: if_splits)
qed

lemma lost_step:
  assumes "pc_move s t \<or> pc_kill s t" and "item_lost s"
  shows "item_lost t \<and> put_in t = put_in s \<and> taken_out t = taken_out s"
  using assms(1)
proof (elim disjE)
  assume "pc_move s t"
  then show ?thesis
  proof cases
    case (pc_prod k pc u)
    then show ?thesis using lost_prod [OF assms(2)] by simp
  next
    case (pc_cons k pc u)
    then show ?thesis using lost_cons [OF assms(2)] by simp
  qed (use assms(2) in \<open>simp_all add: item_lost_def count_at_append\<close>)
next
  assume "pc_kill s t"
  then show ?thesis
  proof cases
    case (kill_prod k)
    then show ?thesis using assms(2) count_at_remove [of p_inside k "prods s"] by (simp add: item_lost_def)
  next
    case (kill_cons k)
    then show ?thesis using assms(2) count_at_remove [of c_inside k "conss s"] by (simp add: item_lost_def)
  qed
qed

lemma lost_forever:
  assumes "(\<lambda>s t. pc_move s t \<or> pc_kill s t)\<^sup>*\<^sup>* s t" and "item_lost s"
  shows "item_lost t \<and> put_in t = put_in s \<and> taken_out t = taken_out s"
  using assms
proof (induction rule: rtranclp_induct)
  case (step t u)
  then show ?case using lost_step [of t u] by simp
qed simp

lemma count_at_split:
  assumes "k < length xs"
  shows "count_at P xs = count_at P (take k xs @ drop (Suc k) xs) + (if P (xs ! k) then 1 else 0)"
proof -
  have "count_at P xs = count_at P (take k xs @ xs ! k # drop (Suc k) xs)" using assms by (simp add: id_take_nth_drop [symmetric])
  then show ?thesis by (simp add: count_at_def)
qed

text \<open>A producer that the key \<open>z\<close> kills between \<open>wait(itemMutex)\<close> and \<open>signal(itemMutex)\<close> stops the program: whatever the
  threads do afterwards, and whichever are started, nothing is put into the buffer or taken out of it ever again.
\<close>

theorem prodcons_killed_inside:
  assumes "pc_run kills s" and "k < length (prods s)" and "p_inside (prods s ! k)"
    and "(\<lambda>s t. pc_move s t \<or> pc_kill s t)\<^sup>*\<^sup>* (s\<lparr>prods := take k (prods s) @ drop (Suc k) (prods s)\<rparr>) t"
  shows "put_in t = put_in s \<and> taken_out t = taken_out s"
proof -
  have c: "counts_ok s" using run_invariant [OF assms(1)] by simp
  have "item_lost (s\<lparr>prods := take k (prods s) @ drop (Suc k) (prods s)\<rparr>)"
    using c inside_one [OF c] count_at_split [OF assms(2), of p_inside] assms(3)
    by (simp add: item_lost_def counts_ok_def all_psem)
  then show ?thesis using lost_forever [OF assms(4)] by simp
qed

text \<open>The producer is killed after five steps of its second round, before \<open>insertItem\<close>.\<close>

definition enter_turns :: "turn list" where
  "enter_turns = [Prod 0, Prod 0, Prod 0, Prod 0, Prod 0, Prod 0]"

lemma play_enter:
  assumes "pc_start s" and "item_i s = 65"
  defines "t \<equiv> play enter_turns (play produce_turns s)"
  shows "put_in t = ''A'' \<and> prods t = [P_put 66] \<and> conss t = [C_sleep]"
  using assms(1,2) unfolding t_def play_produce [OF assms(1,2)]
  by (simp add: enter_turns_def pc_start_def may_pass_def pass_def play_values)

theorem prodcons_killed_inside_witness:
  "\<exists>s t :: shared. pc_run True s \<and> prods s = [P_put 66] \<and>
    (\<lambda>s t. pc_move s t \<or> pc_kill s t)\<^sup>*\<^sup>* (s\<lparr>prods := []\<rparr>) t \<and> conss t = [C_wait_full] \<and> put_in t = ''A''"
proof -
  let ?s = "play enter_turns (play produce_turns demo_shared)"
  have run: "pc_run True ?s" by (intro play_run run_start demo_shared_start(1))
  have s: "put_in ?s = ''A''" "prods ?s = [P_put 66]" "conss ?s = [C_sleep]" using play_enter [OF demo_shared_start] by simp_all
  define t where "t = ?s\<lparr>prods := [], conss := [C_wait_full]\<rparr>"
  have "pc_move (?s\<lparr>prods := []\<rparr>) t" unfolding t_def
    using pc_cons [of 0 "?s\<lparr>prods := []\<rparr>" C_wait_full "?s\<lparr>prods := []\<rparr>"] s(3) by simp
  then have steps: "(\<lambda>s t. pc_move s t \<or> pc_kill s t)\<^sup>*\<^sup>* (?s\<lparr>prods := []\<rparr>) t" by blast
  then have "put_in t = ''A''" using prodcons_killed_inside [OF run, of 0 t] s(1,2) by simp
  moreover have "conss t = [C_wait_full]" by (simp add: t_def)
  ultimately show ?thesis using run s(2) steps by blast
qed

section \<open>Without kills\<close>

definition counts_exact :: "'a shared_scheme \<Rightarrow> bool" where
  "counts_exact s \<longleftrightarrow>
     passed s Empty_count = length (put_in s) + count_at p_reserved (prods s) \<and>
     length (put_in s) = posted s Full_count + count_at p_inserted (prods s) \<and>
     passed s Full_count = length (taken_out s) + count_at c_reserved (conss s) \<and>
     length (taken_out s) = posted s Empty_count + count_at c_removed (conss s) \<and>
     passed s Item_mutex = posted s Item_mutex + count_at p_inside (prods s) + count_at c_inside (conss s)"

lemma prod_exact:
  assumes "counts_exact s" and "k < length (prods s)" and "prod_step (prods s ! k) s = Inr (Some (pc, t))"
  shows "counts_exact (t\<lparr>prods := (prods s)[k := pc]\<rparr>)"
  using assms(1,3) count_at_update [OF assms(2), of p_reserved pc] count_at_update [OF assms(2), of p_inserted pc]
    count_at_update [OF assms(2), of p_inside pc]
  by (cases "prods s ! k")
    (auto simp: counts_exact_def pass_def post_def advance_w_def put_item_def split: if_splits)

lemma cons_exact:
  assumes "counts_exact s" and "k < length (conss s)" and "cons_step (conss s ! k) s = Inr (Some (pc, t))"
  shows "counts_exact (t\<lparr>conss := (conss s)[k := pc]\<rparr>)"
  using assms(1,3) count_at_update [OF assms(2), of c_reserved pc] count_at_update [OF assms(2), of c_removed pc]
    count_at_update [OF assms(2), of c_inside pc]
  by (cases "conss s ! k")
    (auto simp: counts_exact_def pass_def post_def advance_r_def get_item_def split: if_splits)

lemma move_exact:
  assumes "pc_move s t" and "counts_exact s"
  shows "counts_exact t"
  using assms
proof cases
  case (pc_prod k pc u)
  then show ?thesis using prod_exact [OF assms(2)] by simp
next
  case (pc_cons k pc u)
  then show ?thesis using cons_exact [OF assms(2)] by simp
qed (use assms(2) in \<open>simp_all add: counts_exact_def count_at_append\<close>)

lemma run_exact: "pc_run False s \<Longrightarrow> counts_exact s"
proof (induction rule: pc_run.induct)
  case (run_start s)
  then show ?case by (simp add: pc_start_def counts_exact_def count_at_def)
next
  case (run_move s t)
  then show ?case using move_exact by blast
qed simp

text \<open>Where a thread stands that cannot move.\<close>

lemma prod_blocked:
  assumes "\<forall>r. prod_step p s \<noteq> Inr (Some r)" and "buffer_ok s"
  shows "\<exists>item. p = P_wait_empty item \<and> \<not> may_pass Empty_count s \<or> p = P_wait_item item \<and> \<not> may_pass Item_mutex s"
  using assms no_fault(1) [OF assms(2), of p] by (cases p) (auto simp: put_item_def buffer_ok_def split: if_splits)

lemma cons_blocked:
  assumes "\<forall>r. cons_step c s \<noteq> Inr (Some r)" and "buffer_ok s"
  shows "c = C_wait_full \<and> \<not> may_pass Full_count s \<or> c = C_wait_item \<and> \<not> may_pass Item_mutex s"
  using assms no_fault(2) [OF assms(2), of c] by (cases c) (auto simp: get_item_def buffer_ok_def split: if_splits)

lemma count_at_none: "(\<And>x. x \<in> set xs \<Longrightarrow> \<not> P x) \<Longrightarrow> count_at P xs = 0"
  by (simp add: count_at_def filter_False)

lemma blocked_threads:
  assumes "counts_exact s" and "buffer_ok s"
    and "\<And>p. p \<in> set (prods s) \<Longrightarrow> \<forall>r. prod_step p s \<noteq> Inr (Some r)"
    and "\<And>c. c \<in> set (conss s) \<Longrightarrow> \<forall>r. cons_step c s \<noteq> Inr (Some r)"
  shows "p \<in> set (prods s) \<Longrightarrow> \<exists>item. p = P_wait_empty item \<and> \<not> may_pass Empty_count s"
    and "c \<in> set (conss s) \<Longrightarrow> c = C_wait_full \<and> \<not> may_pass Full_count s"
proof -
  note pb = prod_blocked [OF assms(3) assms(2)] and cb = cons_blocked [OF assms(4) assms(2)]
  have "\<not> p_inside p" if "p \<in> set (prods s)" for p using pb [OF that] by auto
  moreover have "\<not> c_inside c" if "c \<in> set (conss s)" for c using cb [OF that] by auto
  ultimately have "may_pass Item_mutex s"
    using assms(1) count_at_none [of "prods s" p_inside] count_at_none [of "conss s" c_inside]
    by (simp add: counts_exact_def may_pass_def)
  then show "p \<in> set (prods s) \<Longrightarrow> \<exists>item. p = P_wait_empty item \<and> \<not> may_pass Empty_count s"
    and "c \<in> set (conss s) \<Longrightarrow> c = C_wait_full \<and> \<not> may_pass Full_count s" using pb cb by blast+
qed

text \<open>As long as no thread is killed and there are a producer and a consumer, some thread can move: the order in which the
  three semaphores are taken and given cannot block them all.
\<close>

theorem prodcons_no_deadlock:
  assumes "pc_run False s" and "prods s \<noteq> []" and "conss s \<noteq> []"
  shows "(\<exists>p\<in>set (prods s). \<exists>r. prod_step p s = Inr (Some r)) \<or> (\<exists>c\<in>set (conss s). \<exists>r. cons_step c s = Inr (Some r))"
proof (rule ccontr)
  have ok: "counts_exact s" "buffer_ok s" using run_exact run_invariant assms(1) by blast+
  assume "\<not> ?thesis"
  then have p: "p \<in> set (prods s) \<Longrightarrow> \<exists>item. p = P_wait_empty item \<and> \<not> may_pass Empty_count s"
    and c: "c \<in> set (conss s) \<Longrightarrow> c = C_wait_full \<and> \<not> may_pass Full_count s" for p c
    using blocked_threads [OF ok] by metis+
  have "count_at p_reserved (prods s) = 0" "count_at p_inserted (prods s) = 0"
    by (auto intro!: count_at_none dest!: p)
  moreover have "count_at c_reserved (conss s) = 0" "count_at c_removed (conss s) = 0"
    by (auto intro!: count_at_none dest!: c)
  moreover have "\<not> may_pass Empty_count s" "\<not> may_pass Full_count s"
    using p [of "hd (prods s)"] c [of "hd (conss s)"] assms(2,3) by auto
  ultimately show False using ok(1) by (simp add: counts_exact_def may_pass_def)
qed

theorem prodcons_no_deadlock_witness:
  "\<exists>s :: shared. pc_run False s \<and> prods s = [P_sleep] \<and>
    ((\<exists>p\<in>set (prods s). \<exists>r. prod_step p s = Inr (Some r)) \<or> (\<exists>c\<in>set (conss s). \<exists>r. cons_step c s = Inr (Some r)))"
proof -
  let ?s = "play consume_turns (play produce_turns demo_shared)"
  have run: "pc_run False ?s" by (intro play_run run_start demo_shared_start(1))
  have "prods ?s = [P_sleep]" "conss ?s = [C_signal_item (CHR ''A'')]" using play_consume [OF demo_shared_start] by simp_all
  then show ?thesis using run prodcons_no_deadlock [OF run] by auto
qed

end
