(* ===== verification/Philosophers.thy ===== *)
theory Philosophers
  imports ProdCons
begin

text \<open>
  The dining philosophers of Userland/dummy/dummy.c, the program's \<open>main\<close>, and the copy of naiveConsole.c it is linked with.

  As in theory \<open>ProdCons\<close> there are two views: the functions over the kernel and the memory, with every array and
  structure at its address, and the five threads interleaved statement by statement.  The lemmas show that no two
  neighbours are ever in the state EATING; that with a semaphore of its own each philosopher leaves \<open>take_fork\<close> only in that
  state; and that the sems the code passes are not those it has created, so that neighbours do hold a fork
  together.
\<close>

section \<open>Memory\<close>

text \<open>An \<open>int\<close> has four bytes and a pointer eight.\<close>

definition int_at :: "(addr \<Rightarrow> 8 word) \<Rightarrow> addr \<Rightarrow> int" where
  "int_at m a = sint (word_of_nat (read_le 4 a m) :: 32 word)"

definition load_int :: "addr \<Rightarrow> ('a kernel_state_scheme, int) kprog" where
  "load_int a = kget (\<lambda>s. int_at (ram s) a)"

definition store_int :: "addr \<Rightarrow> int \<Rightarrow> ('a kernel_state_scheme, unit) kprog" where
  "store_int a v = kmodify (\<lambda>s. s\<lparr>ram := store_bytes a (le_bytes 4 (nat (v mod 2 ^ 32))) (ram s)\<rparr>)"

definition load_ptr :: "addr \<Rightarrow> ('a kernel_state_scheme, addr) kprog" where
  "load_ptr a = kget (\<lambda>s. int (read_le 8 a (ram s)))"

definition store_ptr :: "addr \<Rightarrow> addr \<Rightarrow> ('a kernel_state_scheme, unit) kprog" where
  "store_ptr a p = kmodify (\<lambda>s. s\<lparr>ram := store_bytes a (le_bytes 8 (nat (p mod 2 ^ 64))) (ram s)\<rparr>)"

section \<open>naiveConsole.c of the program\<close>

definition du_ncPrint :: "dummy_env \<Rightarrow> string \<Rightarrow> ('a kernel_state_scheme, unit) kprog" where
  "du_ncPrint env = user_print (du_put env)"

definition du_ncPrintBase :: "dummy_env \<Rightarrow> int \<Rightarrow> int \<Rightarrow> ('a kernel_state_scheme, unit) kprog" where
  "du_ncPrintBase env v b = (case uintToBase v b of Inl e \<Rightarrow> kcall (efail e) | Inr (ds, n) \<Rightarrow> du_ncPrint env ds)"

definition du_ncPrintDec :: "dummy_env \<Rightarrow> int \<Rightarrow> ('a kernel_state_scheme, unit) kprog" where
  "du_ncPrintDec env v = du_ncPrintBase env v 10"

definition du_ncPrintHex :: "dummy_env \<Rightarrow> int \<Rightarrow> ('a kernel_state_scheme, unit) kprog" where
  "du_ncPrintHex env v = du_ncPrintBase env v 16"

definition du_ncPrintBin :: "dummy_env \<Rightarrow> int \<Rightarrow> ('a kernel_state_scheme, unit) kprog" where
  "du_ncPrintBin env v = du_ncPrintBase env v 2"

section \<open>The parameter\<close>

abbreviation (input) DEFAULTP :: int where "DEFAULTP \<equiv> 5"
abbreviation (input) THINKING :: int where "THINKING \<equiv> 0"
abbreviation (input) HUNGRY :: int where "HUNGRY \<equiv> 1"
abbreviation (input) EATING :: int where "EATING \<equiv> 2"
abbreviation (input) DUMMY_ERROR :: int where "DUMMY_ERROR \<equiv> -1"     \<comment> \<open>\<open>ERROR\<close> of dummy.h\<close>

fun strlen :: "string \<Rightarrow> nat" where
  "strlen [] = 0"
| "strlen (c # cs) = Suc (strlen cs)"

definition isdigit :: "char \<Rightarrow> bool" where
  "isdigit c = (let ch = schar c - 48 in ch \<le> 9 \<and> 0 \<le> ch)"

fun integer_loop :: "nat \<Rightarrow> string \<Rightarrow> nat \<Rightarrow> int \<Rightarrow> int" where
  "integer_loop 0 c i integer = integer"
| "integer_loop (Suc n) c i integer =
     (if \<not> isdigit (c ! i) then -1 else integer_loop n c (i + 1) (int32 (int32 (integer * 10) + (schar (c ! i) - 48))))"

definition isNotInteger :: "string \<Rightarrow> int" where
  "isNotInteger c = integer_loop (strlen c) c 0 0"

text \<open>The results are what it returns and \<open>*input\<close>.\<close>

definition validateParameters :: "dummy_env \<Rightarrow> int \<Rightarrow> string list \<Rightarrow> int \<Rightarrow> ('a kernel_state_scheme, int \<times> int) kprog" where
  "validateParameters env cant toValidate input =
     (let complain = (\<lambda>message input. kbind (user_print (du_put env) message) (\<lambda>_.
            kbind (du_put env LF) (\<lambda>_. kreturn (-1, input))))
      in if 2 < cant then complain ''Cantidad de parametros invalido'' input
      else if cant \<noteq> 1 \<and> length toValidate \<le> 1 then kcall (efail OutOfBounds)
      else let input = (if cant = 1 then DEFAULTP else isNotInteger (toValidate ! 1))
           in if input = -1 then complain ''Error de parametros'' input
              else if 100 \<le> input then complain ''La cantidad de filosofos no puede ser mayor o igual a 100'' input
              else kreturn (0, input))"

section \<open>The sems\<close>

text \<open>\<open>sems\<close> (\<open>semaphores\<close>) is the address of an array of pointers.\<close>

fun start_semaphores :: "dummy_env \<Rightarrow> nat \<Rightarrow> int \<Rightarrow> addr \<Rightarrow> ('a kernel_state_scheme, int) kprog" where
  "start_semaphores env 0 i sems = kreturn 0"
| "start_semaphores env (Suc n) i sems =
     kbind (malloc (du_kernel env) 3) (\<lambda>buffer.
     kbind (user_intToString i buffer) (\<lambda>_.
     kbind (user_semCreate (du_kernel env) buffer 0) (\<lambda>sem.
     kbind (load_ptr (sems + 8 * i)) (\<lambda>p.
     kbind (store_int p sem) (\<lambda>_.
     if sem = DUMMY_ERROR then
       if i < 10 then
         kbind (user_print (du_put env) ''AQUI2'') (\<lambda>_. kbind (du_ncPrintDec env i) (\<lambda>_. kreturn (-1)))
       else kbind (user_print (du_put env) ''AQUI3'') (\<lambda>_. kreturn (-1))
     else start_semaphores env n (i + 1) sems)))))"

definition startSemaphores :: "dummy_env \<Rightarrow> addr \<Rightarrow> addr \<Rightarrow> int \<Rightarrow> ('a kernel_state_scheme, int) kprog" where
  "startSemaphores env mutex sems cant =
     kbind (user_getMutex (du_kernel env) (du_literal env ''mutexp'')) (\<lambda>m.
     kbind (store_int mutex m) (\<lambda>_.
     if m = DUMMY_ERROR then kbind (user_print (du_put env) ''AQUI'') (\<lambda>_. kreturn (-1))
     else start_semaphores env (nat cant) 0 sems))"

fun initializeArray :: "dummy_env \<Rightarrow> nat \<Rightarrow> addr \<Rightarrow> ('a kernel_state_scheme, unit) kprog" where
  "initializeArray env 0 array = kreturn ()"
| "initializeArray env (Suc n) array =
     kbind (malloc (du_kernel env) 8) (\<lambda>p. kbind (store_ptr array p) (\<lambda>_. initializeArray env n (array + 8)))"

section \<open>The philosophers over the kernel\<close>

record phils = prodcons +
  state :: addr

definition get_state :: "int \<Rightarrow> ('a phils_scheme, int) kprog" where
  "get_state i = kbind (kget state) (\<lambda>p. load_int (p + 4 * i))"

definition put_state :: "int \<Rightarrow> int \<Rightarrow> ('a phils_scheme, unit) kprog" where
  "put_state i v = kbind (kget state) (\<lambda>p. store_int (p + 4 * i) v)"

definition say :: "dummy_env \<Rightarrow> string \<Rightarrow> ('a kernel_state_scheme, unit) kprog" where
  "say env = user_print (du_put env)"

definition say_number :: "dummy_env \<Rightarrow> int \<Rightarrow> ('a kernel_state_scheme, unit) kprog" where
  "say_number env = user_putNumber (du_kernel env) (du_put env)"

text \<open>\<open>left\<close> is \<open>(number + 4) % cant\<close>, whatever \<open>cant\<close> is.\<close>

definition testP :: "dummy_env \<Rightarrow> int \<Rightarrow> int \<Rightarrow> addr \<Rightarrow> ('a phils_scheme, unit) kprog" where
  "testP env number cant sem =
     kbind (get_state number) (\<lambda>mine.
     kbind (get_state ((number + 4) smod cant)) (\<lambda>left.
     kbind (get_state ((number + 1) smod cant)) (\<lambda>right.
     if mine = HUNGRY \<and> left \<noteq> EATING \<and> right \<noteq> EATING then
       kbind (put_state number EATING) (\<lambda>_.
       kbind (user_sleep (du_kernel env) 10) (\<lambda>_.
       kbind (say env ''Philosopher '') (\<lambda>_.
       kbind (say_number env (number + 1)) (\<lambda>_.
       kbind (say env '' takes fork '') (\<lambda>_.
       kbind (say_number env ((number + 4) smod cant + 1)) (\<lambda>_.
       kbind (say env '' and '') (\<lambda>_.
       kbind (say_number env (number + 1)) (\<lambda>_.
       kbind (say env [LF]) (\<lambda>_.
       kbind (say env ''Philosopher '') (\<lambda>_.
       kbind (say_number env (number + 1)) (\<lambda>_.
       kbind (say env ('' is Eating'' @ [LF])) (\<lambda>_.
       kbind (load_int sem) (user_signal (du_kernel env))))))))))))))
     else kreturn ())))"

text \<open>The fields of a \<open>threadArgument\<close>: \<open>cant\<close>, \<open>sems\<close>, \<open>mutex\<close> and \<open>value\<close>.\<close>

definition with_argument :: "addr \<Rightarrow> (int \<Rightarrow> addr \<Rightarrow> addr \<Rightarrow> int \<Rightarrow> ('a kernel_state_scheme, 'b) kprog) \<Rightarrow> ('a kernel_state_scheme, 'b) kprog" where
  "with_argument arg f =
     kbind (load_int arg) (\<lambda>cant.
     kbind (load_ptr (arg + 8)) (\<lambda>sems.
     kbind (load_ptr (arg + 16)) (\<lambda>mutex.
     kbind (load_int (arg + 24)) (\<lambda>number. f cant sems mutex number))))"

definition take_fork :: "dummy_env \<Rightarrow> addr \<Rightarrow> ('a phils_scheme, unit) kprog" where
  "take_fork env arg =
     with_argument arg (\<lambda>cant sems mutex number.
     kbind (load_int mutex) (\<lambda>m.
     kbind (user_lockMutex (du_kernel env) m) (\<lambda>_.
     kbind (put_state number HUNGRY) (\<lambda>_.
     kbind (say env ''Philosopher '') (\<lambda>_.
     kbind (say_number env (number + 1)) (\<lambda>_.
     kbind (say env ('' is Hungry'' @ [LF])) (\<lambda>_.
     kbind (testP env number cant (sems + 4 * number)) (\<lambda>_.
     kbind (load_int mutex) (\<lambda>m.
     kbind (user_freeMutex (du_kernel env) m) (\<lambda>_.
     kbind (user_sleep (du_kernel env) 50) (\<lambda>_.
     kbind (load_int (sems + 4 * number)) (user_wait (du_kernel env)))))))))))))"

definition put_fork :: "dummy_env \<Rightarrow> addr \<Rightarrow> ('a phils_scheme, unit) kprog" where
  "put_fork env arg =
     with_argument arg (\<lambda>cant sems mutex number.
     kbind (load_int mutex) (\<lambda>m.
     kbind (user_lockMutex (du_kernel env) m) (\<lambda>_.
     kbind (put_state number THINKING) (\<lambda>_.
     kbind (say env ''Philosopher '') (\<lambda>_.
     kbind (say_number env (number + 1)) (\<lambda>_.
     kbind (say env '' putting fork '') (\<lambda>_.
     kbind (say_number env ((number + 4) smod cant + 1)) (\<lambda>_.
     kbind (say env '' and '') (\<lambda>_.
     kbind (say_number env (number + 1)) (\<lambda>_.
     kbind (say env ('' down'' @ [LF])) (\<lambda>_.
     kbind (say env ''Philosopher '') (\<lambda>_.
     kbind (say_number env (number + 1)) (\<lambda>_.
     kbind (say env ('' is thinking'' @ [LF])) (\<lambda>_.
     kbind (testP env ((number + 4) smod cant) cant (sems + 4 * ((number + 4) smod cant))) (\<lambda>_.
     kbind (testP env ((number + 1) smod cant) cant (sems + 4 * ((number + 1) smod cant))) (\<lambda>_.
     kbind (load_int mutex) (user_freeMutex (du_kernel env))))))))))))))))))"

definition philospher :: "dummy_env \<Rightarrow> nat \<Rightarrow> addr \<Rightarrow> ('a phils_scheme, unit) kprog" where
  "philospher env rounds arg =
     forever rounds
       (kbind (user_sleep (du_kernel env) 1) (\<lambda>_.
        kbind (take_fork env arg) (\<lambda>_.
        kbind (user_sleep (du_kernel env) 1) (\<lambda>_. put_fork env arg))))"

fun create_threads :: "dummy_env \<Rightarrow> nat \<Rightarrow> int \<Rightarrow> int \<Rightarrow> addr \<Rightarrow> addr \<Rightarrow> ('a kernel_state_scheme, unit) kprog" where
  "create_threads env 0 i cant sems mutex = kreturn ()"
| "create_threads env (Suc n) i cant sems mutex =
     kbind (malloc (du_kernel env) 32) (\<lambda>arg.
     kbind (store_ptr (arg + 8) sems) (\<lambda>_.
     kbind (store_ptr (arg + 16) mutex) (\<lambda>_.
     kbind (store_int arg cant) (\<lambda>_.
     kbind (store_int (arg + 24) i) (\<lambda>_.
     kbind (user_createProcess (du_kernel env) (du_philospher env) (du_literal env ''PHILO'') arg) (\<lambda>_.
     kbind (say env ''Philosopher '') (\<lambda>_.
     kbind (say_number env (i + 1)) (\<lambda>_.
     kbind (say env ('' is thinking'' @ [LF])) (\<lambda>_.
     create_threads env n (i + 1) cant sems mutex)))))))))"

definition createThreads :: "dummy_env \<Rightarrow> int \<Rightarrow> addr \<Rightarrow> addr \<Rightarrow> ('a kernel_state_scheme, unit) kprog" where
  "createThreads env cant sems mutex = create_threads env (nat cant) 0 cant sems mutex"

text \<open>\<open>while (1);\<close> goes on until the time slice ends; the parameter bounds the time slices looked at.\<close>

fun idle :: "nat \<Rightarrow> ('s, 'b) kprog" where
  "idle 0 s = Undef Diverges"
| "idle (Suc n) s = Yield s (idle n)"

definition dPhilosphers :: "dummy_env \<Rightarrow> nat \<Rightarrow> int \<Rightarrow> ('a phils_scheme, int) kprog" where
  "dPhilosphers env rounds number =
     kbind (kmodify (\<lambda>s. s\<lparr>state := du_state env\<rparr>)) (\<lambda>_.
     kbind (initializeArray env (nat number) (du_semaphores env)) (\<lambda>_.
     kbind (startSemaphores env (du_mutex env) (du_semaphores env) number) (\<lambda>r.
     if r = -1 then kbind (say env ''FALLO'') (\<lambda>_. kreturn (-1))
     else kbind (createThreads env number (du_semaphores env) (du_mutex env)) (\<lambda>_. idle rounds))))"

definition philosophers :: "dummy_env \<Rightarrow> nat \<Rightarrow> ('a phils_scheme, unit) kprog" where
  "philosophers env rounds =
     kbind (dPhilosphers env rounds DEFAULTP) (\<lambda>r. if r = -1 then kreturn () else idle rounds)"

definition dummy_main :: "dummy_env \<Rightarrow> nat \<Rightarrow> int \<Rightarrow> ('a phils_scheme, int) kprog" where
  "dummy_main env rounds program =
     (if program = PROD_CONS then kbind (prodCons env rounds) (\<lambda>_. kreturn 0)
      else if program = PHILOSOPHERS then kbind (philosophers env rounds) (\<lambda>_. kreturn 0)
      else kreturn 0)"

section \<open>The semaphores of the philosophers\<close>

lemma read_le_append: "read_le (m + n) a r = read_le m a r + 256 ^ m * read_le n (a + int m) r"
proof (induction m arbitrary: a)
  case (Suc m)
  then show ?case by (simp add: algebra_simps)
qed simp

lemma read_le_less: "read_le n a r < 256 ^ n"
proof (induction n arbitrary: a)
  case (Suc n)
  have "unat (r a) < 256" using unsigned_less [of "r a"] by simp
  moreover have "read_le n (a + 1) r + 1 \<le> 256 ^ n" using Suc by (simp add: Suc_le_eq)
  then have "256 * (read_le n (a + 1) r + 1) \<le> 256 * 256 ^ n" by (rule mult_le_mono2)
  ultimately show ?case by simp
qed simp

lemma int_at_small: "read_le 4 a m < 2 ^ 31 \<Longrightarrow> int_at m a = int (read_le 4 a m)"
  by (simp add: int_at_def signed_of_nat signed_take_bit_int_eq_self)

text \<open>A pointer read as two \<open>int\<close>s: itself and zero.\<close>

lemma pointer_halves:
  assumes "bytes_at m a (le_bytes 8 p)" and "p < 2 ^ 31"
  shows "int_at m a = int p" and "int_at m (a + 4) = 0"
proof -
  define low high where "low = read_le 4 a m" and "high = read_le 4 (a + 4) m"
  have "read_le 8 a m = p mod 256 ^ 8" by (rule read_le_bytes [OF assms(1)])
  then have "low + 2 ^ 32 * high = p" using read_le_append [of 4 4 a m] assms(2) by (simp add: low_def high_def)
  then have "high = 0" "low = p" using assms(2) by (cases high; simp)+
  then show "int_at m a = int p" "int_at m (a + 4) = 0"
    using int_at_small [of a m] int_at_small [of "a + 4" m] assms(2) by (simp_all add: low_def high_def)
qed

lemma invalid_semaphore:
  assumes "50 \<le> i"
  shows "wait i t = Ret () t" and "signal i t = Inr ((), t)"
proof -
  have "isValidSemaphore i t = Inr (False, t)" using assms by (simp add: isValidSemaphore_def)
  then show "wait i t = Ret () t" "signal i t = Inr ((), t)" by (simp_all add: wait_def signal_def ebind_def kbind_def kcall_def)
qed

text \<open>The semaphores the philosophers wait for are not the ones \<open>startSemaphores\<close> has created.  \<open>createThreads\<close> passes the
  array of pointers as an array of semaphores, so that \<open>*(arg->sems + value)\<close> is half of a pointer: for an even
  philosopher the address of a semaphore's number, which the kernel refuses, so that \<open>wait\<close> and \<open>signal\<close> do
  nothing; for an odd one the semaphore 0, whosever it is.
\<close>

theorem philosopher_semaphores:
  assumes "\<And>i. i < 5 \<Longrightarrow> bytes_at (ram s) (sems + 8 * int i) (le_bytes 8 (p i)) \<and> 50 \<le> p i \<and> p i < 2 ^ 31" and "v < 5"
  shows "load_int (sems + 4 * int v) s = Ret (if even v then int (p (v div 2)) else 0) s \<and>
    (even v \<longrightarrow> wait (int (p (v div 2))) t = Ret () t \<and> signal (int (p (v div 2))) t = Inr ((), t))"
proof -
  define i where "i = v div 2"
  have p: "bytes_at (ram s) (sems + 8 * int i) (le_bytes 8 (p i))" "50 \<le> p i" "p i < 2 ^ 31"
    using assms by (auto simp: i_def)
  have "sems + 4 * int v = (if even v then sems + 8 * int i else sems + 8 * int i + 4)"
    unfolding i_def by (cases "even v") (auto elim!: evenE oddE)
  then have "int_at (ram s) (sems + 4 * int v) = (if even v then int (p i) else 0)"
    using pointer_halves [OF p(1,3)] by simp
  then show ?thesis using invalid_semaphore [of "int (p i)" t] p(2) by (simp add: load_int_def i_def)
qed

section \<open>The philosophers interleaved\<close>

text \<open>The three parts of \<open>testP\<close> that touch shared data: the test, the assignment and the signal.\<close>

datatype stage = Test | Take | Post

text \<open>Where a philosopher stands; one whose thread is not created yet has not moved.\<close>

datatype ph_pc =
    Ph_sleep | Ph_lock | Ph_hungry | Ph_own stage | Ph_unlock | Ph_wait | Ph_forks
  | Ph_lock_put | Ph_think | Ph_left stage | Ph_right stage | Ph_unlock_put

text \<open>
  The array \<open>state\<close>, the threads, who holds the mutex, and for each semaphore the calls of \<open>wait\<close> that have returned and
  of \<open>signal\<close>.  Nobody sets the array before the threads run; the model starts with THINKING.
\<close>

record table =
  ph_state :: "int list"
  ph_at :: "ph_pc list"
  ph_holder :: "nat option"
  ph_passed :: "nat \<Rightarrow> nat"
  ph_posted :: "nat \<Rightarrow> nat"

definition left_of :: "nat \<Rightarrow> nat" where "left_of v = (v + 4) mod 5"
definition right_of :: "nat \<Rightarrow> nat" where "right_of v = (v + 1) mod 5"

definition can_eat :: "nat \<Rightarrow> table \<Rightarrow> bool" where
  "can_eat x s \<longleftrightarrow> ph_state s ! x = HUNGRY \<and> ph_state s ! left_of x \<noteq> EATING \<and> ph_state s ! right_of x \<noteq> EATING"

text \<open>\<open>sem v\<close> is the semaphore that \<open>*(sems + v)\<close> denotes; \<open>None\<close> when the kernel refuses it.\<close>

definition ph_post :: "nat option \<Rightarrow> table \<Rightarrow> table" where
  "ph_post x s = (case x of None \<Rightarrow> s | Some i \<Rightarrow> s\<lparr>ph_posted := (ph_posted s)(i := ph_posted s i + 1)\<rparr>)"

definition ph_pass :: "nat option \<Rightarrow> table \<Rightarrow> table option" where
  "ph_pass x s = (case x of None \<Rightarrow> Some s
     | Some i \<Rightarrow> if ph_passed s i < ph_posted s i then Some (s\<lparr>ph_passed := (ph_passed s)(i := ph_passed s i + 1)\<rparr>) else None)"

fun ph_test :: "(nat \<Rightarrow> nat option) \<Rightarrow> nat \<Rightarrow> (stage \<Rightarrow> ph_pc) \<Rightarrow> ph_pc \<Rightarrow> stage \<Rightarrow> table \<Rightarrow> ph_pc \<times> table" where
  "ph_test sem x here after Test s = (if can_eat x s then here Take else after, s)"
| "ph_test sem x here after Take s = (here Post, s\<lparr>ph_state := (ph_state s)[x := EATING]\<rparr>)"
| "ph_test sem x here after Post s = (after, ph_post (sem x) s)"

fun ph_step :: "(nat \<Rightarrow> nat option) \<Rightarrow> nat \<Rightarrow> ph_pc \<Rightarrow> table \<Rightarrow> (ph_pc \<times> table) option" where
  "ph_step sem v Ph_sleep s = Some (Ph_lock, s)"
| "ph_step sem v Ph_lock s = (if ph_holder s = None then Some (Ph_hungry, s\<lparr>ph_holder := Some v\<rparr>) else None)"
| "ph_step sem v Ph_hungry s = Some (Ph_own Test, s\<lparr>ph_state := (ph_state s)[v := HUNGRY]\<rparr>)"
| "ph_step sem v (Ph_own st) s = Some (ph_test sem v Ph_own Ph_unlock st s)"
| "ph_step sem v Ph_unlock s = Some (Ph_wait, s\<lparr>ph_holder := None\<rparr>)"
| "ph_step sem v Ph_wait s = map_option (\<lambda>t. (Ph_forks, t)) (ph_pass (sem v) s)"
| "ph_step sem v Ph_forks s = Some (Ph_lock_put, s)"
| "ph_step sem v Ph_lock_put s = (if ph_holder s = None then Some (Ph_think, s\<lparr>ph_holder := Some v\<rparr>) else None)"
| "ph_step sem v Ph_think s = Some (Ph_left Test, s\<lparr>ph_state := (ph_state s)[v := THINKING]\<rparr>)"
| "ph_step sem v (Ph_left st) s = Some (ph_test sem (left_of v) Ph_left (Ph_right Test) st s)"
| "ph_step sem v (Ph_right st) s = Some (ph_test sem (right_of v) Ph_right Ph_unlock_put st s)"
| "ph_step sem v Ph_unlock_put s = Some (Ph_sleep, s\<lparr>ph_holder := None\<rparr>)"

definition ph_start :: "table \<Rightarrow> bool" where
  "ph_start s \<longleftrightarrow> ph_state s = [THINKING, THINKING, THINKING, THINKING, THINKING] \<and>
     ph_at s = [Ph_sleep, Ph_sleep, Ph_sleep, Ph_sleep, Ph_sleep] \<and> ph_holder s = None \<and>
     ph_passed s = (\<lambda>_. 0) \<and> ph_posted s = (\<lambda>_. 0)"

inductive ph_run :: "(nat \<Rightarrow> nat option) \<Rightarrow> table \<Rightarrow> bool" for sem where
  ph_start: "ph_start s \<Longrightarrow> ph_run sem s"
| ph_move: "ph_run sem s \<Longrightarrow> v < 5 \<Longrightarrow> ph_step sem v (ph_at s ! v) s = Some (pc, t) \<Longrightarrow>
     ph_run sem (t\<lparr>ph_at := (ph_at s)[v := pc]\<rparr>)"

section \<open>Neighbours\<close>

lemma seats: "v < 5 \<Longrightarrow> left_of v < 5" "v < 5 \<Longrightarrow> right_of v < 5" "v < 5 \<Longrightarrow> left_of v \<noteq> v" "v < 5 \<Longrightarrow> right_of v \<noteq> v"
    "v < 5 \<Longrightarrow> right_of (left_of v) = v" "v < 5 \<Longrightarrow> left_of (right_of v) = v" "v < 5 \<Longrightarrow> left_of v \<noteq> right_of v"
  by (auto simp: left_of_def right_of_def mod_if)

fun ph_inside :: "ph_pc \<Rightarrow> bool" where
  "ph_inside Ph_hungry = True"
| "ph_inside (Ph_own st) = True"
| "ph_inside Ph_unlock = True"
| "ph_inside Ph_think = True"
| "ph_inside (Ph_left st) = True"
| "ph_inside (Ph_right st) = True"
| "ph_inside Ph_unlock_put = True"
| "ph_inside _ = False"

text \<open>For whom a philosopher is taking the forks or is going to signal.\<close>

fun ph_for :: "stage \<Rightarrow> nat \<Rightarrow> ph_pc \<Rightarrow> nat option" where
  "ph_for st v (Ph_own st') = (if st = st' then Some v else None)"
| "ph_for st v (Ph_left st') = (if st = st' then Some (left_of v) else None)"
| "ph_for st v (Ph_right st') = (if st = st' then Some (right_of v) else None)"
| "ph_for st v _ = None"

lemma ph_for_inside: "ph_for st v pc = Some x \<Longrightarrow> ph_inside pc"
  by (cases pc) auto

definition lock_ok :: "table \<Rightarrow> bool" where
  "lock_ok s \<longleftrightarrow> length (ph_state s) = 5 \<and> length (ph_at s) = 5 \<and>
     (\<forall>w<5. ph_inside (ph_at s ! w) \<longleftrightarrow> ph_holder s = Some w)"

definition neighbours_ok :: "int list \<Rightarrow> bool" where
  "neighbours_ok st \<longleftrightarrow> (\<forall>v<5. st ! v = EATING \<longrightarrow> st ! right_of v \<noteq> EATING)"

definition forks_ok :: "table \<Rightarrow> bool" where
  "forks_ok s \<longleftrightarrow> neighbours_ok (ph_state s) \<and> (\<forall>w<5. \<forall>x. ph_for Take w (ph_at s ! w) = Some x \<longrightarrow> can_eat x s)"

lemma neighbours_other: "neighbours_ok st \<Longrightarrow> a \<noteq> EATING \<Longrightarrow> v < 5 \<Longrightarrow> length st = 5 \<Longrightarrow> neighbours_ok (st[v := a])"
  by (simp add: neighbours_ok_def nth_list_update seats)

lemma neighbours_eat:
  assumes "neighbours_ok (ph_state s)" and "can_eat x s" and "x < 5" and "length (ph_state s) = 5"
  shows "neighbours_ok ((ph_state s)[x := EATING])"
  unfolding neighbours_ok_def
proof (intro allI impI)
  fix v :: nat assume v: "v < 5" "(ph_state s)[x := EATING] ! v = EATING"
  have x: "ph_state s ! left_of x \<noteq> EATING" "ph_state s ! right_of x \<noteq> EATING" using assms(2) by (simp_all add: can_eat_def)
  consider "v = x" | "v \<noteq> x" "right_of v = x" | "v \<noteq> x" "right_of v \<noteq> x" by blast
  then show "(ph_state s)[x := EATING] ! right_of v \<noteq> EATING"
  proof cases
    case 1
    then show ?thesis using x(2) seats(4) [OF assms(3)] by (metis nth_list_update_neq)
  next
    case 2
    then have "v = left_of x" using seats(6) [OF v(1)] by simp
    moreover have "ph_state s ! v = EATING" using v(2) 2(1) by simp
    ultimately show ?thesis using x(1) by simp
  next
    case 3
    then show ?thesis using v assms(1) by (simp add: neighbours_ok_def)
  qed
qed

lemma ph_for_seat: "ph_for st v pc = Some x \<Longrightarrow> v < 5 \<Longrightarrow> x < 5"
  by (cases pc) (auto simp: seats split: if_splits)

text \<open>What a step does to the mutex and to the array.\<close>

definition mutex_step :: "nat \<Rightarrow> ph_pc \<Rightarrow> table \<Rightarrow> ph_pc \<Rightarrow> table \<Rightarrow> bool" where
  "mutex_step v pc s pc' t \<longleftrightarrow> length (ph_state t) = length (ph_state s) \<and> ph_at t = ph_at s \<and>
     (if ph_inside pc then (if ph_inside pc' then ph_holder t = ph_holder s else ph_holder t = None)
      else ph_state t = ph_state s \<and>
        (if ph_inside pc' then ph_holder s = None \<and> ph_holder t = Some v \<and> pc' \<in> {Ph_hungry, Ph_think}
         else ph_holder t = ph_holder s))"

lemma ph_post_same [simp]: "ph_state (ph_post x s) = ph_state s" "ph_at (ph_post x s) = ph_at s" "ph_holder (ph_post x s) = ph_holder s"
    "ph_passed (ph_post x s) = ph_passed s"
  by (simp_all add: ph_post_def split: option.split)

lemma step_mutex:
  assumes "ph_step sem v pc s = Some (pc', t)"
  shows "mutex_step v pc s pc' t"
proof (cases pc)
  case (Ph_own st)
  with assms show ?thesis by (cases st) (auto simp: mutex_step_def split: if_splits)
next
  case (Ph_left st)
  with assms show ?thesis by (cases st) (auto simp: mutex_step_def split: if_splits)
next
  case (Ph_right st)
  with assms show ?thesis by (cases st) (auto simp: mutex_step_def split: if_splits)
qed (use assms in \<open>auto simp: mutex_step_def ph_pass_def split: if_splits option.splits\<close>)

lemma step_lock:
  assumes "lock_ok s" and "v < 5" and "ph_step sem v (ph_at s ! v) s = Some (pc, t)"
  shows "lock_ok (t\<lparr>ph_at := (ph_at s)[v := pc]\<rparr>)"
  using assms(1,2) step_mutex [OF assms(3)] unfolding lock_ok_def mutex_step_def
  by (auto simp: nth_list_update split: if_splits)

text \<open>Only the holder of the mutex is inside.\<close>

lemma ph_for_holder: "lock_ok s \<Longrightarrow> w < 5 \<Longrightarrow> ph_for st w (ph_at s ! w) = Some x \<Longrightarrow> ph_holder s = Some w"
  using ph_for_inside unfolding lock_ok_def by blast

text \<open>What a step of a philosopher inside does to the states: the three kinds of test are one.\<close>

lemma step_test:
  assumes "ph_step sem v pc s = Some (pc', t)" and "ph_for st v pc = Some x"
  obtains here after where "(pc', t) = ph_test sem x here after st s" and "\<And>y. ph_for y v (here y) = Some x"
    and "\<And>y z. y \<noteq> z \<Longrightarrow> ph_for y v (here z) = None" and "\<And>y. y \<noteq> Test \<Longrightarrow> ph_for y v after = None"
proof (cases pc)
  case (Ph_own st')
  then show ?thesis using assms that [of Ph_own Ph_unlock] by (auto split: if_splits)
next
  case (Ph_left st')
  then show ?thesis using assms that [of Ph_left "Ph_right Test"] by (auto split: if_splits)
next
  case (Ph_right st')
  then show ?thesis using assms that [of Ph_right Ph_unlock_put] by (auto split: if_splits)
qed (use assms in auto)

lemma step_plain:
  assumes "ph_step sem v pc s = Some (pc', t)" and "\<And>st. ph_for st v pc = None"
  shows "(ph_state t = ph_state s \<or> pc = Ph_hungry \<and> ph_state t = (ph_state s)[v := HUNGRY] \<or>
      pc = Ph_think \<and> ph_state t = (ph_state s)[v := THINKING]) \<and> (st \<noteq> Test \<longrightarrow> ph_for st v pc' = None)"
proof (cases pc)
  case (Ph_own st')
  then show ?thesis using assms(2) [of st'] by simp
next
  case (Ph_left st')
  then show ?thesis using assms(2) [of st'] by simp
next
  case (Ph_right st')
  then show ?thesis using assms(2) [of st'] by simp
qed (use assms(1) in \<open>auto simp: ph_pass_def split: if_splits option.splits\<close>)

lemma can_eat_cong: "ph_state t = ph_state s \<Longrightarrow> can_eat x t = can_eat x s"
  by (simp add: can_eat_def)

lemma forks_others:
  assumes "lock_ok s" and "v < 5" and "ph_for st v (ph_at s ! v) = Some x" and "w < 5" and "w \<noteq> v"
  shows "ph_for st' w (ph_at s ! w) = None"
  using ph_for_holder [OF assms(1,2,3)] ph_for_holder [OF assms(1,4)] assms(5) by (cases "ph_for st' w (ph_at s ! w)") auto

lemma forks_okI:
  assumes "neighbours_ok (ph_state t)" and "\<forall>y. ph_for Take v pc = Some y \<longrightarrow> can_eat y t"
    and "\<And>w y. w < 5 \<Longrightarrow> w \<noteq> v \<Longrightarrow> ph_for Take w (ph_at s ! w) = Some y \<Longrightarrow> can_eat y t" and "length (ph_at s) = 5"
  shows "forks_ok (t\<lparr>ph_at := (ph_at s)[v := pc]\<rparr>)"
proof -
  have "can_eat y t" if "w < 5" "ph_for Take w ((ph_at s)[v := pc] ! w) = Some y" for w y
    using that assms(2-4) by (cases "w = v") auto
  then show ?thesis using assms(1) by (simp add: forks_ok_def can_eat_def)
qed

lemma step_forks:
  assumes "lock_ok s" and "forks_ok s" and "v < 5" and "ph_step sem v (ph_at s ! v) s = Some (pc, t)"
  shows "forks_ok (t\<lparr>ph_at := (ph_at s)[v := pc]\<rparr>)"
proof -
  have len: "length (ph_state s) = 5" "length (ph_at s) = 5" using assms(1) by (simp_all add: lock_ok_def)
  have n: "neighbours_ok (ph_state s)" using assms(2) by (simp add: forks_ok_def)
  show ?thesis
  proof (cases "\<exists>st x. ph_for st v (ph_at s ! v) = Some x")
    case True
    then obtain st x where f: "ph_for st v (ph_at s ! v) = Some x" by blast
    note others = forks_others [OF assms(1,3) f]
    obtain here after where t: "(pc, t) = ph_test sem x here after st s" "ph_for Take v (here Take) = Some x"
      "ph_for Take v (here Post) = None" "ph_for Take v after = None"
      by (rule step_test [OF assms(4) f]) (metis stage.distinct)
    have "neighbours_ok (ph_state t) \<and> (\<forall>y. ph_for Take v pc = Some y \<longrightarrow> can_eat y t)"
    proof (cases st)
      case Test
      then show ?thesis using t n by (auto split: if_splits)
    next
      case Take
      then have "can_eat x s" using f assms(2,3) by (simp add: forks_ok_def)
      then show ?thesis using Take t neighbours_eat [OF n _ ph_for_seat [OF f assms(3)] len(1)] by simp
    next
      case Post
      then show ?thesis using t n by simp
    qed
    then show ?thesis using others len(2) by (intro forks_okI) simp_all
  next
    case False
    then have p: "ph_for Take v pc = None"
        "ph_state t = ph_state s \<or> ph_at s ! v = Ph_hungry \<and> ph_state t = (ph_state s)[v := HUNGRY] \<or>
         ph_at s ! v = Ph_think \<and> ph_state t = (ph_state s)[v := THINKING]"
      using step_plain [OF assms(4)] by auto
    then have "neighbours_ok (ph_state t)" using neighbours_other [OF n _ assms(3) len(1)] n by auto
    moreover have "can_eat x t" if "w < 5" "w \<noteq> v" "ph_for Take w (ph_at s ! w) = Some x" for w x
    proof -
      have "ph_holder s = Some w" using ph_for_holder [OF assms(1) that(1,3)] .
      then have "ph_state t = ph_state s" using p(2) assms(1,3) that(2) by (auto simp: lock_ok_def)
      then show ?thesis using that assms(2) by (simp add: forks_ok_def can_eat_def)
    qed
    ultimately show ?thesis using p(1) len(2) by (intro forks_okI) simp_all
  qed
qed

lemma ph_invariant: "ph_run sem s \<Longrightarrow> lock_ok s \<and> forks_ok s"
proof (induction rule: ph_run.induct)
  case (ph_start s)
  then show ?case
    by (auto simp: ph_start_def lock_ok_def forks_ok_def neighbours_ok_def less_Suc_eq numeral_eq_Suc)
next
  case (ph_move s v pc t)
  then show ?case using step_lock step_forks by blast
qed

text \<open>C40. No two neighbours of the five philosophers are ever EATING at once, however their threads are interleaved and whatever semaphores they
  wait for: the mutex \<open>mutexp\<close> is held from the test of the neighbours to the assignment.
\<close>

theorem philosophers_exclude:
  assumes "ph_run sem s" and "v < 5" and "ph_state s ! v = EATING"
  shows "ph_state s ! left_of v \<noteq> EATING \<and> ph_state s ! right_of v \<noteq> EATING"
proof -
  have n: "neighbours_ok (ph_state s)" using ph_invariant [OF assms(1)] by (simp add: forks_ok_def)
  then have "ph_state s ! left_of v = EATING \<Longrightarrow> ph_state s ! v \<noteq> EATING"
    using seats(1,5) [OF assms(2)] by (metis neighbours_ok_def)
  then show ?thesis using n assms(2,3) by (auto simp: neighbours_ok_def)
qed

section \<open>With semaphores of their own\<close>

text \<open>Between \<open>take_fork\<close> and \<open>put_fork\<close>, and from the declaration of hunger to the return of \<open>wait\<close>.\<close>

fun ph_dining :: "ph_pc \<Rightarrow> bool" where
  "ph_dining Ph_forks = True"
| "ph_dining Ph_lock_put = True"
| "ph_dining Ph_think = True"
| "ph_dining _ = False"

fun ph_asking :: "ph_pc \<Rightarrow> bool" where
  "ph_asking (Ph_own st) = True"
| "ph_asking Ph_unlock = True"
| "ph_asking Ph_wait = True"
| "ph_asking _ = False"

definition posting :: "table \<Rightarrow> nat \<Rightarrow> bool" where
  "posting s x \<longleftrightarrow> (\<exists>w<5. ph_for Post w (ph_at s ! w) = Some x)"

definition phase :: "ph_pc \<Rightarrow> int \<Rightarrow> nat \<Rightarrow> nat \<Rightarrow> bool \<Rightarrow> bool" where
  "phase pc st pa po b \<longleftrightarrow>
     (if ph_asking pc then st = HUNGRY \<and> po = pa \<and> \<not> b \<or> st = EATING \<and> po + (if b then 1 else 0) = pa + 1
      else st = (if ph_dining pc then EATING else THINKING) \<and> po = pa \<and> \<not> b)"

definition phases_ok :: "table \<Rightarrow> bool" where
  "phases_ok s \<longleftrightarrow> (\<forall>x<5. phase (ph_at s ! x) (ph_state s ! x) (ph_passed s x) (ph_posted s x) (posting s x))"

lemma posting_update:
  assumes "v < 5" and "length (ph_at s) = 5"
  shows "posting (t\<lparr>ph_at := (ph_at s)[v := pc]\<rparr>) x \<longleftrightarrow>
    ph_for Post v pc = Some x \<or> (\<exists>w<5. w \<noteq> v \<and> ph_for Post w (ph_at s ! w) = Some x)"
  using assms by (auto simp: posting_def nth_list_update)

text \<open>A step of the test changes the target only.\<close>

lemma test_phases:
  assumes "lock_ok s" and "forks_ok s" and "phases_ok s" and "v < 5" and "ph_step Some v (ph_at s ! v) s = Some (pc, t)"
    and "ph_for st v (ph_at s ! v) = Some x"
  shows "phases_ok (t\<lparr>ph_at := (ph_at s)[v := pc]\<rparr>)"
proof -
  have len: "length (ph_state s) = 5" "length (ph_at s) = 5" using assms(1) by (simp_all add: lock_ok_def)
  obtain here after where t: "(pc, t) = ph_test Some x here after st s" "\<And>y. ph_for y v (here y) = Some x"
      "\<And>y z. y \<noteq> z \<Longrightarrow> ph_for y v (here z) = None" "\<And>y. y \<noteq> Test \<Longrightarrow> ph_for y v after = None"
    using step_test [OF assms(5,6)] by metis
  have same: "ph_asking pc = ph_asking (ph_at s ! v)" "ph_dining pc = ph_dining (ph_at s ! v)"
    using assms(5,6) by (cases "ph_at s ! v"; cases st; auto split: if_splits)+
  have other: "(\<exists>w<5. w \<noteq> v \<and> ph_for Post w (ph_at s ! w) = Some y) \<longleftrightarrow> False" for y
    using forks_others [OF assms(1,4,6)] by fastforce
  have before: "posting s y \<longleftrightarrow> st = Post \<and> y = x" for y
  proof -
    have "ph_for Post v (ph_at s ! v) = Some y \<longleftrightarrow> st = Post \<and> y = x"
      using assms(6) by (cases "ph_at s ! v") (auto split: if_splits)
    then show ?thesis using other [of y] assms(4) unfolding posting_def by metis
  qed
  have x: "x < 5" by (rule ph_for_seat [OF assms(6,4)])
  have old: "phase (ph_at s ! y) (ph_state s ! y) (ph_passed s y) (ph_posted s y) (st = Post \<and> y = x)" if "y < 5" for y
    using assms(3) that unfolding phases_ok_def before by blast
  have pcs: "phase ((ph_at s)[v := pc] ! y) = phase (ph_at s ! y)" for y
    using len(2) assms(4) same by (cases "y = v") (auto simp: fun_eq_iff phase_def)
  show ?thesis unfolding phases_ok_def posting_update [OF assms(4) len(2)]
  proof (intro allI impI)
    fix y :: nat assume y: "y < 5"
    have "phase (ph_at s ! y) (ph_state t ! y) (ph_passed t y) (ph_posted t y) (ph_for Post v pc = Some y)"
    proof (cases st)
      case Test
      then show ?thesis using old [OF y] t by (auto split: if_splits)
    next
      case Take
      then have "can_eat x s" using assms(2,4,6) by (simp add: forks_ok_def)
      then have "ph_state s ! x = HUNGRY" by (simp add: can_eat_def)
      then show ?thesis using Take t old [OF y] len(1) x by (cases "y = x") (auto simp: phase_def split: if_splits)
    next
      case Post
      then show ?thesis using t old [OF y] by (cases "y = x") (auto simp: phase_def ph_post_def split: if_splits)
    qed
    then show "phase (ph_at (t\<lparr>ph_at := (ph_at s)[v := pc]\<rparr>) ! y) (ph_state (t\<lparr>ph_at := (ph_at s)[v := pc]\<rparr>) ! y)
        (ph_passed (t\<lparr>ph_at := (ph_at s)[v := pc]\<rparr>) y) (ph_posted (t\<lparr>ph_at := (ph_at s)[v := pc]\<rparr>) y)
        (ph_for Post v pc = Some y \<or> (\<exists>w<5. w \<noteq> v \<and> ph_for Post w (ph_at s ! w) = Some y))"
      unfolding other using pcs by simp
  qed
qed

lemma plain_frame:
  assumes "ph_step Some v pc s = Some (pc', t)" and "\<And>st. ph_for st v pc = None" and "y \<noteq> v"
  shows "ph_state t ! y = ph_state s ! y \<and> ph_passed t y = ph_passed s y \<and> ph_posted t y = ph_posted s y"
proof (cases pc)
  case (Ph_own st')
  then show ?thesis using assms(2) [of st'] by simp
next
  case (Ph_left st')
  then show ?thesis using assms(2) [of st'] by simp
next
  case (Ph_right st')
  then show ?thesis using assms(2) [of st'] by simp
qed (use assms(1,3) in \<open>auto simp: ph_pass_def split: if_splits option.splits\<close>)

lemma plain_phases:
  assumes "lock_ok s" and "phases_ok s" and "v < 5" and "ph_step Some v (ph_at s ! v) s = Some (pc, t)"
    and "\<And>st. ph_for st v (ph_at s ! v) = None"
  shows "phases_ok (t\<lparr>ph_at := (ph_at s)[v := pc]\<rparr>)"
proof -
  have len: "length (ph_state s) = 5" "length (ph_at s) = 5" using assms(1) by (simp_all add: lock_ok_def)
  have plain: "ph_at s ! v \<noteq> Ph_own st" "ph_at s ! v \<noteq> Ph_left st" "ph_at s ! v \<noteq> Ph_right st" for st
    using assms(5) [of st] by auto
  have "ph_for Post v pc = None" using step_plain [OF assms(4,5), of Post] by simp
  then have p: "posting (t\<lparr>ph_at := (ph_at s)[v := pc]\<rparr>) y = posting s y" for y
    unfolding posting_update [OF assms(3) len(2)] using assms(3,5) by (auto simp: posting_def)
  note others = plain_frame [OF assms(4,5)]
  have old: "phase (ph_at s ! y) (ph_state s ! y) (ph_passed s y) (ph_posted s y) (posting s y)" if "y < 5" for y
    using assms(2) that by (simp add: phases_ok_def)
  have mine: "phase pc (ph_state t ! v) (ph_passed t v) (ph_posted t v) (posting s v)"
    using old [OF assms(3)] assms(3,4) plain len(1)
    by (cases "ph_at s ! v") (auto simp: phase_def ph_pass_def split: if_splits option.splits)
  show ?thesis unfolding phases_ok_def p
  proof (intro allI impI)
    fix y :: nat assume "y < 5"
    then show "phase (ph_at (t\<lparr>ph_at := (ph_at s)[v := pc]\<rparr>) ! y) (ph_state (t\<lparr>ph_at := (ph_at s)[v := pc]\<rparr>) ! y)
        (ph_passed (t\<lparr>ph_at := (ph_at s)[v := pc]\<rparr>) y) (ph_posted (t\<lparr>ph_at := (ph_at s)[v := pc]\<rparr>) y) (posting s y)"
      using mine old [of y] others [of y] len(2) assms(3) by (cases "y = v") simp_all
  qed
qed

lemma ph_phases: "ph_run Some s \<Longrightarrow> phases_ok s"
proof (induction rule: ph_run.induct)
  case (ph_start s)
  have at: "ph_at s ! w = Ph_sleep" and st: "ph_state s ! w = THINKING" if "w < 5" for w
    using ph_start that by (auto simp: ph_start_def less_Suc_eq numeral_eq_Suc)
  have "ph_passed s = (\<lambda>_. 0)" "ph_posted s = (\<lambda>_. 0)" using ph_start by (simp_all add: ph_start_def)
  then show ?case by (simp add: phases_ok_def phase_def posting_def at st)
next
  case (ph_move s v pc t)
  have inv: "lock_ok s" "forks_ok s" using ph_invariant [OF ph_move.hyps(1)] by simp_all
  show ?case
  proof (cases "\<exists>st x. ph_for st v (ph_at s ! v) = Some x")
    case True
    then show ?thesis using test_phases [OF inv ph_move.IH ph_move.hyps(2,3)] by blast
  next
    case False
    then show ?thesis using plain_phases [OF inv(1) ph_move.IH ph_move.hyps(2,3)] by auto
  qed
qed

text \<open>What the program is meant to do.  If each philosopher waits for a semaphore of its own, it is EATING from the return of
  \<open>take_fork\<close> to the call of \<open>put_fork\<close>, and neither neighbour is between these calls.
\<close>

theorem philosophers_dine:
  assumes "ph_run Some s" and "v < 5" and "ph_dining (ph_at s ! v)"
  shows "ph_state s ! v = EATING \<and> \<not> ph_dining (ph_at s ! left_of v) \<and> \<not> ph_dining (ph_at s ! right_of v)"
proof -
  have eats: "ph_state s ! x = EATING" if "x < 5" "ph_dining (ph_at s ! x)" for x
  proof -
    have "\<not> ph_asking (ph_at s ! x)" using that(2) by (cases "ph_at s ! x") simp_all
    then show ?thesis using ph_phases [OF assms(1)] that by (simp add: phases_ok_def phase_def)
  qed
  have n: "neighbours_ok (ph_state s)" using ph_invariant [OF assms(1)] by (simp add: forks_ok_def)
  have "ph_state s ! v = EATING" by (rule eats [OF assms(2,3)])
  moreover have "ph_state s ! right_of v \<noteq> EATING" using n calculation assms(2) by (simp add: neighbours_ok_def)
  moreover have "ph_state s ! left_of v \<noteq> EATING"
    using n calculation(1) seats(1,5) [OF assms(2)] by (metis neighbours_ok_def)
  ultimately show ?thesis using eats seats(1,2) [OF assms(2)] by blast
qed

section \<open>With the semaphores of the code\<close>

text \<open>An even philosopher's is refused, an odd one's is the semaphore 0.\<close>

definition slot_semaphore :: "nat \<Rightarrow> nat option" where
  "slot_semaphore v = (if even v then None else Some 0)"

fun ph_play :: "(nat \<Rightarrow> nat option) \<Rightarrow> nat list \<Rightarrow> table \<Rightarrow> table" where
  "ph_play sem [] s = s"
| "ph_play sem (v # vs) s =
     (case ph_step sem v (ph_at s ! v) s of
        None \<Rightarrow> ph_play sem vs s
      | Some (pc, t) \<Rightarrow> ph_play sem vs (t\<lparr>ph_at := (ph_at s)[v := pc]\<rparr>))"

lemma ph_play_run: "ph_run sem s \<Longrightarrow> \<forall>v\<in>set vs. v < 5 \<Longrightarrow> ph_run sem (ph_play sem vs s)"
proof (induction vs arbitrary: s)
  case (Cons v vs)
  then show ?case by (auto split: option.split intro: ph_run.ph_move)
qed simp

definition table_start :: table where
  "table_start = \<lparr>ph_state = [THINKING, THINKING, THINKING, THINKING, THINKING],
     ph_at = [Ph_sleep, Ph_sleep, Ph_sleep, Ph_sleep, Ph_sleep], ph_holder = None, ph_passed = (\<lambda>_. 0), ph_posted = (\<lambda>_. 0)\<rparr>"

definition dine_turns :: "nat \<Rightarrow> nat list" where
  "dine_turns v = [v, v, v, v, v, v, v, v]"

lemma dine_alone:
  "ph_play Some (dine_turns 0) table_start = \<lparr>ph_state = [EATING, THINKING, THINKING, THINKING, THINKING],
     ph_at = [Ph_forks, Ph_sleep, Ph_sleep, Ph_sleep, Ph_sleep], ph_holder = None,
     ph_passed = (\<lambda>_. 0)(0 := 1), ph_posted = (\<lambda>_. 0)(0 := 1)\<rparr>"
  by (simp add: dine_turns_def table_start_def can_eat_def left_of_def right_of_def ph_post_def ph_pass_def)

lemma dine_both:
  "ph_play slot_semaphore [4, 4, 4, 4, 4, 4] (ph_play slot_semaphore (dine_turns 0) table_start) =
     \<lparr>ph_state = [EATING, THINKING, THINKING, THINKING, HUNGRY],
      ph_at = [Ph_forks, Ph_sleep, Ph_sleep, Ph_sleep, Ph_forks], ph_holder = None, ph_passed = (\<lambda>_. 0), ph_posted = (\<lambda>_. 0)\<rparr>"
  by (simp add: dine_turns_def table_start_def can_eat_def left_of_def right_of_def ph_post_def ph_pass_def slot_semaphore_def)

text \<open>With the semaphores the code passes, a philosopher leaves \<open>take_fork\<close> hungry: the first and the fifth, who are
  neighbours, are between \<open>take_fork\<close> and \<open>put_fork\<close> at once, the fifth without ever being EATING.
\<close>

theorem philosophers_share_fork:
  "\<exists>s. ph_run slot_semaphore s \<and> ph_dining (ph_at s ! 0) \<and> ph_dining (ph_at s ! 4) \<and> left_of 0 = 4 \<and>
    ph_state s ! 0 = EATING \<and> ph_state s ! 4 = HUNGRY"
proof -
  let ?s = "ph_play slot_semaphore [4, 4, 4, 4, 4, 4] (ph_play slot_semaphore (dine_turns 0) table_start)"
  have "ph_run slot_semaphore ?s"
    by (intro ph_play_run ph_run.ph_start) (simp_all add: ph_start_def table_start_def dine_turns_def)
  moreover have "ph_dining (ph_at ?s ! 0)" "ph_dining (ph_at ?s ! 4)" "ph_state ?s ! 0 = EATING" "ph_state ?s ! 4 = HUNGRY"
    unfolding dine_both by simp_all
  ultimately show ?thesis by (intro exI [of _ ?s] conjI) (simp_all add: left_of_def)
qed

lemma own_run: "ph_run sem table_start"
  by (rule ph_run.ph_start) (simp add: ph_start_def table_start_def)

lemma own_dines:
  obtains s where "ph_run Some s" and "ph_state s ! 0 = EATING" and "ph_dining (ph_at s ! 0)"
proof -
  have run: "ph_run Some (ph_play Some (dine_turns 0) table_start)"
    by (rule ph_play_run [OF own_run]) (simp add: dine_turns_def)
  show thesis by (rule that [OF run]; unfold dine_alone; simp)
qed

theorem philosophers_exclude_witness:
  "\<exists>s. ph_run Some s \<and> ph_state s ! 0 = EATING \<and> ph_state s ! left_of 0 \<noteq> EATING \<and> ph_state s ! right_of 0 \<noteq> EATING"
proof -
  obtain s where s: "ph_run Some s" "ph_state s ! 0 = EATING" by (rule own_dines)
  then show ?thesis using philosophers_exclude [OF s(1), of 0] by auto
qed

theorem philosophers_dine_witness:
  "\<exists>s. ph_run Some s \<and> ph_dining (ph_at s ! 0) \<and> ph_state s ! 0 = EATING \<and> \<not> ph_dining (ph_at s ! left_of 0) \<and>
    \<not> ph_dining (ph_at s ! right_of 0)"
proof -
  obtain s where s: "ph_run Some s" "ph_dining (ph_at s ! 0)" by (rule own_dines)
  then show ?thesis using philosophers_dine [OF s(1), of 0] by auto
qed

text \<open>Pointers one after the other on the stack.\<close>

definition demo_pointers :: "addr \<Rightarrow> 8 word" where
  "demo_pointers a = (if a mod 8 = 0 then 64 else 0)"

lemma le_bytes_pointer: "le_bytes 8 64 = [64, 0, 0, 0, 0, 0, 0, 0]"
proof -
  have eight: "8 = Suc (Suc (Suc (Suc (Suc (Suc (Suc (Suc 0)))))))" by simp
  show ?thesis unfolding eight by simp
qed

lemma demo_pointers_at: "bytes_at demo_pointers (8 * int i) (le_bytes 8 64)"
proof -
  have "(8 * int i + k) mod 8 = k mod 8" for k by simp
  then show ?thesis unfolding le_bytes_pointer
    by (simp add: bytes_at_Cons bytes_at_def [of _ _ "[]"] demo_pointers_def add.assoc)
qed

lemma demo_pointers_ram: "ram (demo_state demo_pointers) = demo_pointers"
  by (simp add: demo_state_def demo_loader_def loader.defs demo_mouse_defs)

theorem philosopher_semaphores_witness:
  "load_int 8 (demo_state demo_pointers) = Ret 64 (demo_state demo_pointers) \<and>
   load_int 4 (demo_state demo_pointers) = Ret 0 (demo_state demo_pointers) \<and>
   wait 64 (demo_state demo_pointers) = Ret () (demo_state demo_pointers)"
proof -
  define s where "s = demo_state demo_pointers"
  have *: "bytes_at (ram s) (0 + 8 * int i) (le_bytes 8 64) \<and> 50 \<le> (64 :: nat) \<and> 64 < (2 :: nat) ^ 31" for i
    using demo_pointers_at [of i] by (simp add: s_def demo_pointers_ram)
  have "load_int 8 s = Ret 64 s \<and> wait 64 s = Ret () s" using philosopher_semaphores [OF *, of 2 s] by simp
  moreover have "load_int 4 s = Ret 0 s" using philosopher_semaphores [OF *, of 1 s] by simp
  ultimately show ?thesis by (simp add: s_def)
qed

end
